(* ===== verification/Prelude.thy ===== *)
theory Prelude
  imports Main "HOL-Library.Word" "HOL-Library.Code_Target_Nat"
begin

text \<open>
  Shared vocabulary of the development: how a Go function's result is modelled, what a
  returned \<open>error\<close> and a run-time panic are, the loops over slices, slice indexing, and the
  generic lemmas on lists that several components use.

  A Go function returning \<open>(T, error)\<close> becomes a function into \<open>'a go\<close>: \<open>Inr v\<close> is a
  normal return, \<open>Inl (Err e)\<close> a returned error, \<open>Inl (Panic p)\<close> a run-time panic, which no
  caller in the program recovers from. A loop that may not end is a partial function into \<open>'a go option\<close>;
  where its callers have state, a run that does not end is the fault \<open>NoReturn\<close>, which propagates as a panic does.
\<close>

section \<open>Results, errors and panics\<close>

text \<open>
  \<open>Sentinel s\<close> is a package-level error value, \<open>NetOp s\<close> a \<open>*net.OpError\<close>, \<open>Errorf s\<close> what
  \<open>fmt.Errorf\<close> or \<open>errors.New\<close> builds without \<open>%w\<close>, \<open>Wrapf s e\<close> what \<open>fmt.Errorf\<close> builds with
  \<open>%w\<close> around \<open>e\<close>. The strings name the message; they are not its full text.
\<close>

datatype go_error =
    Sentinel string
  | NetOp string
  | Errorf string
  | Wrapf string go_error

datatype go_panic =
    IndexOutOfRange | NilDereference | DivideByZero | ChannelClosed | TypeAssertion | CapOutOfRange | NilMapWrite | NoReturn

datatype go_fault = Err go_error | Panic go_panic

type_synonym 'a go = "go_fault + 'a"

text \<open>\<open>errors.Is(err, target)\<close> for a sentinel: the chain of wrapped errors is searched.\<close>

fun errors_is :: "go_error \<Rightarrow> go_error \<Rightarrow> bool" where
  "errors_is (Wrapf s e) t = (Wrapf s e = t \<or> errors_is e t)"
| "errors_is e t = (e = t)"

text \<open>\<open>errors.As(err, &netErr)\<close> with \<open>netErr *net.OpError\<close>.\<close>

fun errors_as_netop :: "go_error \<Rightarrow> bool" where
  "errors_as_netop (NetOp s) = True"
| "errors_as_netop (Wrapf s e) = errors_as_netop e"
| "errors_as_netop _ = False"

definition ctx_canceled :: go_error where
  "ctx_canceled = Sentinel ''context canceled''"

definition ctx_deadline :: go_error where
  "ctx_deadline = Sentinel ''context deadline exceeded''"

definition go_bind :: "'a go \<Rightarrow> ('a \<Rightarrow> 'b go) \<Rightarrow> 'b go" where
  "go_bind r k = (case r of Inl e \<Rightarrow> Inl e | Inr v \<Rightarrow> k v)"

text \<open>\<open>return fmt.Errorf("...: %w", err)\<close>: an error is wrapped, a panic is not.\<close>

definition go_wrap :: "string \<Rightarrow> 'a go \<Rightarrow> 'a go" where
  "go_wrap s r = (case r of Inl (Err e) \<Rightarrow> Inl (Err (Wrapf s e)) | _ \<Rightarrow> r)"

definition go_ok :: "'a go \<Rightarrow> bool" where
  "go_ok r = (case r of Inr _ \<Rightarrow> True | Inl _ \<Rightarrow> False)"

definition no_panic :: "'a go \<Rightarrow> bool" where
  "no_panic r = (case r of Inl (Panic _) \<Rightarrow> False | _ \<Rightarrow> True)"

lemma go_bind_simps [simp]:
  "go_bind (Inl e) k = Inl e"
  "go_bind (Inr v) k = k v"
  by (simp_all add: go_bind_def)

lemma go_bind_eq_Inr: "go_bind r k = Inr w \<longleftrightarrow> (\<exists>v. r = Inr v \<and> k v = Inr w)"
  by (cases r) auto

lemma go_bind_eq_Inl: "go_bind r k = Inl e \<longleftrightarrow> r = Inl e \<or> (\<exists>v. r = Inr v \<and> k v = Inl e)"
  by (cases r) auto

lemma go_wrap_simps [simp]:
  "go_wrap s (Inr v) = Inr v"
  "go_wrap s (Inl (Panic p)) = Inl (Panic p)"
  "go_wrap s (Inl (Err e)) = Inl (Err (Wrapf s e))"
  by (simp_all add: go_wrap_def)

lemma go_wrap_eq_Inr [simp]: "go_wrap s r = Inr v \<longleftrightarrow> r = Inr v"
  by (auto simp: go_wrap_def split: sum.splits go_fault.splits)

lemma no_panic_simps [simp]:
  "no_panic (Inr v)" "no_panic (Inl (Err e))" "\<not> no_panic (Inl (Panic p))"
  by (simp_all add: no_panic_def)

lemma no_panic_bind: "no_panic r \<Longrightarrow> (\<And>v. r = Inr v \<Longrightarrow> no_panic (k v)) \<Longrightarrow> no_panic (go_bind r k)"
  by (cases r) (auto simp: no_panic_def)

lemma no_panic_wrap [simp]: "no_panic (go_wrap s r) = no_panic r"
  by (auto simp: go_wrap_def no_panic_def split: sum.splits go_fault.splits)

definition from_option :: "'a go option \<Rightarrow> 'a go" where
  "from_option r = (case r of None \<Rightarrow> Inl (Panic NoReturn) | Some x \<Rightarrow> x)"

lemma from_option_simps [simp]: "from_option None = Inl (Panic NoReturn)" "from_option (Some x) = x"
  by (simp_all add: from_option_def)

section \<open>Loops and slices\<close>

text \<open>\<open>for _, x := range xs { s, err = f(x, s); if err != nil { return err } }\<close>.\<close>

fun go_fold :: "('x \<Rightarrow> 's \<Rightarrow> 's go) \<Rightarrow> 'x list \<Rightarrow> 's \<Rightarrow> 's go" where
  "go_fold f [] s = Inr s"
| "go_fold f (x # xs) s = go_bind (f x s) (go_fold f xs)"

lemma go_fold_append: "go_fold f (xs @ ys) s = go_bind (go_fold f xs s) (go_fold f ys)"
proof (induction xs arbitrary: s)
  case (Cons x xs)
  then show ?case by (cases "f x s") auto
qed simp

lemma go_fold_invariant:
  assumes "go_fold f xs s = Inr t" and "P s"
    and "\<And>x u v. x \<in> set xs \<Longrightarrow> P u \<Longrightarrow> f x u = Inr v \<Longrightarrow> P v"
  shows "P t"
  using assms
proof (induction xs arbitrary: s)
  case (Cons x xs)
  then obtain u where "f x s = Inr u" "go_fold f xs u = Inr t"
    by (auto simp: go_bind_eq_Inr)
  with Cons show ?case by (meson list.set_intros)
qed simp

lemma go_fold_no_panic:
  assumes "P s"
    and "\<And>x u. x \<in> set xs \<Longrightarrow> P u \<Longrightarrow> no_panic (f x u)"
    and "\<And>x u v. x \<in> set xs \<Longrightarrow> P u \<Longrightarrow> f x u = Inr v \<Longrightarrow> P v"
  shows "no_panic (go_fold f xs s)"
  using assms
proof (induction xs arbitrary: s)
  case (Cons x xs)
  have "no_panic (f x s)" using Cons.prems by simp
  moreover have "no_panic (go_fold f xs v)" if "f x s = Inr v" for v
    using Cons.IH [of v] Cons.prems that by (meson list.set_intros)
  ultimately show ?case by (simp add: no_panic_bind)
qed simp

text \<open>\<open>xs[i]\<close> with Go's bounds check; \<open>i\<close> is a Go \<open>int\<close>.\<close>

definition go_index :: "'a list \<Rightarrow> int \<Rightarrow> 'a go" where
  "go_index xs i =
     (if 0 \<le> i \<and> nat i < length xs then Inr (xs ! nat i) else Inl (Panic IndexOutOfRange))"

lemma go_index_in [simp]: "i < length xs \<Longrightarrow> go_index xs (int i) = Inr (xs ! i)"
  by (simp add: go_index_def)

lemma go_index_eq_Inr:
  "go_index xs i = Inr x \<longleftrightarrow> 0 \<le> i \<and> nat i < length xs \<and> x = xs ! nat i"
  by (auto simp: go_index_def)

section \<open>Procedures with state\<close>

text \<open>
  A Go procedure that reads and writes state of its receiver, of a package or of the environment
  is a function from the state to its result and the new state. A returned error keeps the
  writes made before it, as Go does.
\<close>

type_synonym ('s, 'a) proc = "'s \<Rightarrow> 'a go \<times> 's"

definition ret :: "'a \<Rightarrow> ('s, 'a) proc" where
  "ret v s = (Inr v, s)"

definition throw :: "go_fault \<Rightarrow> ('s, 'a) proc" where
  "throw e s = (Inl e, s)"

definition lift_go :: "'a go \<Rightarrow> ('s, 'a) proc" where
  "lift_go r s = (r, s)"

definition bind :: "('s, 'a) proc \<Rightarrow> ('a \<Rightarrow> ('s, 'b) proc) \<Rightarrow> ('s, 'b) proc" where
  "bind m k s = (case m s of (Inl e, t) \<Rightarrow> (Inl e, t) | (Inr v, t) \<Rightarrow> k v t)"

text \<open>\<open>attempt m k\<close>: the caller inspects a returned error; a panic still propagates.\<close>

definition attempt :: "('s, 'a) proc \<Rightarrow> (go_error + 'a \<Rightarrow> ('s, 'b) proc) \<Rightarrow> ('s, 'b) proc" where
  "attempt m k s =
     (case m s of
        (Inl (Panic p), t) \<Rightarrow> (Inl (Panic p), t)
      | (Inl (Err e), t) \<Rightarrow> k (Inl e) t
      | (Inr v, t) \<Rightarrow> k (Inr v) t)"

definition wrap :: "string \<Rightarrow> ('s, 'a) proc \<Rightarrow> ('s, 'a) proc" where
  "wrap msg m s = (case m s of (r, t) \<Rightarrow> (go_wrap msg r, t))"

fun for_each :: "('x \<Rightarrow> 'a \<Rightarrow> ('s, 'a) proc) \<Rightarrow> 'x list \<Rightarrow> 'a \<Rightarrow> ('s, 'a) proc" where
  "for_each f [] a = ret a"
| "for_each f (x # xs) a = bind (f x a) (for_each f xs)"

lemma proc_simps [simp]:
  "ret v s = (Inr v, s)"
  "throw e s = (Inl e, s)"
  "lift_go r s = (r, s)"
  by (simp_all add: ret_def throw_def lift_go_def)

lemma bind_ret [simp]: "bind (ret v) k = k v"
  by (rule ext) (simp add: bind_def)

lemma bind_assoc: "bind (bind m k) l = bind m (\<lambda>v. bind (k v) l)"
  by (rule ext) (simp add: bind_def split: prod.splits sum.splits)

lemma bind_eq_Inr: "bind m k s = (Inr w, u) \<longleftrightarrow> (\<exists>v t. m s = (Inr v, t) \<and> k v t = (Inr w, u))"
  by (auto simp: bind_def split: prod.splits sum.splits)

lemma bind_lift_eq_Inr:
  "bind m (\<lambda>x. lift_go (f x)) s = (Inr w, u) \<longleftrightarrow> (\<exists>v. m s = (Inr v, u) \<and> f v = Inr w)"
  by (auto simp: bind_def split: prod.splits sum.splits)

lemma wrap_eq_Inr [simp]: "wrap msg m s = (Inr v, t) \<longleftrightarrow> m s = (Inr v, t)"
  by (auto simp: wrap_def split: prod.splits)

lemma bind_no_panic:
  "no_panic (fst (m s)) \<Longrightarrow> (\<And>v t. m s = (Inr v, t) \<Longrightarrow> no_panic (fst (k v t))) \<Longrightarrow> no_panic (fst (bind m k s))"
  by (auto simp: bind_def no_panic_def split: prod.splits sum.splits)

text \<open>A relation between the state before and after that every step of a loop keeps.\<close>

lemma for_each_invariant:
  assumes "for_each f xs a s = (Inr b, t)" and "P a s"
    and "\<And>x a' s' b' t'. x \<in> set xs \<Longrightarrow> P a' s' \<Longrightarrow> f x a' s' = (Inr b', t') \<Longrightarrow> P b' t'"
  shows "P b t"
  using assms
proof (induction xs arbitrary: a s)
  case (Cons x xs)
  then obtain c u where "f x a s = (Inr c, u)" "for_each f xs c u = (Inr b, t)"
    by (auto simp: bind_eq_Inr)
  with Cons show ?case by (meson list.set_intros)
qed simp

text \<open>A loop whose step for \<open>x\<close> establishes \<open>Q x\<close>, which no later step undoes, ends with all of them.\<close>

lemma for_each_covers:
  assumes "for_each f xs a s = (Inr b, t)" "P a s"
    and "\<And>x a s b t. x \<in> set xs \<Longrightarrow> P a s \<Longrightarrow> f x a s = (Inr b, t) \<Longrightarrow> P b t \<and> Q x b \<and> (\<forall>y. Q y a \<longrightarrow> Q y b)"
  shows "P b t \<and> (\<forall>x\<in>set xs. Q x b) \<and> (\<forall>y. Q y a \<longrightarrow> Q y b)"
  using assms
proof (induction xs arbitrary: a s)
  case (Cons x xs)
  obtain c u where c: "f x a s = (Inr c, u)" "for_each f xs c u = (Inr b, t)"
    using Cons.prems(1) by (auto simp: bind_eq_Inr)
  have "P c u \<and> Q x c \<and> (\<forall>y. Q y a \<longrightarrow> Q y c)"
    by (rule Cons.prems(3)) (use c(1) Cons.prems(2) in auto)
  moreover have "P b t \<and> (\<forall>x\<in>set xs. Q x b) \<and> (\<forall>y. Q y c \<longrightarrow> Q y b)"
  proof (rule Cons.IH [OF c(2)])
    show "P c u" using calculation by simp
    show "P b t \<and> Q x b \<and> (\<forall>y. Q y a \<longrightarrow> Q y b)" if "x \<in> set xs" "P a s" "f x a s = (Inr b, t)" for x a s b t
      by (rule Cons.prems(3)) (use that in auto)
  qed
  ultimately show ?case by auto
qed simp

section \<open>Runs\<close>

text \<open>The runs of a step relation whose steps are labelled with the events that happen in them, in order.\<close>

inductive labelled_runs :: "('s \<Rightarrow> 'e list \<Rightarrow> 's \<Rightarrow> bool) \<Rightarrow> 's \<Rightarrow> 'e list \<Rightarrow> 's \<Rightarrow> bool"
  for step :: "'s \<Rightarrow> 'e list \<Rightarrow> 's \<Rightarrow> bool" where
  runs_start: "labelled_runs step s [] s"
| runs_step: "labelled_runs step s evs t \<Longrightarrow> step t ev u \<Longrightarrow> labelled_runs step s (evs @ ev) u"

lemma runs_single: "step s ev t \<Longrightarrow> labelled_runs step s ev t"
  using runs_step [where s = s and t = s and evs = "[]", OF runs_start] by simp

section \<open>Machine integers\<close>

text \<open>
  Go's conversions between integer types keep the low bits. A Go \<open>int\<close> (64 bit) whose size
  cannot matter is an \<open>int\<close>; where a value is narrowed or can wrap, the conversion is written out.
\<close>

definition to_int32 :: "int \<Rightarrow> int" where
  "to_int32 i = sint (word_of_int i :: 32 word)"

definition to_uint16 :: "int \<Rightarrow> 16 word" where
  "to_uint16 i = word_of_int i"

definition go_quot :: "int \<Rightarrow> int \<Rightarrow> int" where
  "go_quot a b = sgn a * sgn b * (\<bar>a\<bar> div \<bar>b\<bar>)"

lemma to_int32_id: "- (2 ^ 31) \<le> i \<Longrightarrow> i < 2 ^ 31 \<Longrightarrow> to_int32 i = i"
  unfolding to_int32_def sint_sbintrunc' by (rule signed_take_bit_int_eq_self) simp_all

lemma go_quot_nonneg: "0 \<le> a \<Longrightarrow> 0 < b \<Longrightarrow> go_quot a b = a div b"
  by (cases "a = 0") (simp_all add: go_quot_def)

section \<open>Lists\<close>

definition swap_at :: "'a list \<Rightarrow> nat \<Rightarrow> nat \<Rightarrow> 'a list" where
  "swap_at xs i j = xs[i := xs ! j, j := xs ! i]"

lemma length_swap_at [simp]: "length (swap_at xs i j) = length xs"
  by (simp add: swap_at_def)

lemma nth_swap_at:
  "i < length xs \<Longrightarrow> j < length xs \<Longrightarrow> k < length xs \<Longrightarrow>
    swap_at xs i j ! k = (if k = i then xs ! j else if k = j then xs ! i else xs ! k)"
  by (auto simp: swap_at_def nth_list_update)

lemma map_swap_at:
  "i < length xs \<Longrightarrow> j < length xs \<Longrightarrow> map f (swap_at xs i j) = swap_at (map f xs) i j"
  by (simp add: swap_at_def map_update)

text \<open>A range over a Go map visits its keys in an unspecified order: any enumeration of them.\<close>

definition enumerates :: "'k list \<Rightarrow> ('k \<rightharpoonup> 'v) \<Rightarrow> bool" where
  "enumerates ks m \<longleftrightarrow> distinct ks \<and> set ks = dom m"

lemma enumerates_empty [simp]: "enumerates [] Map.empty"
  by (simp add: enumerates_def)

end
