(* ===== verification/Float64.thy ===== *)
theory Float64
  imports Complex_Main Prelude
begin

text \<open>
  Go's \<open>float64\<close>: IEEE 754 binary64 with round-to-nearest, ties to even. A finite value is the
  rational it denotes; the operations compute exactly and round (53 significant bits, least
  exponent \<open>-1074\<close>, overflow to infinity from \<open>2 ^ 1024\<close>). The two zeros are one value: no
  code of the program tells them apart. \<open>f64 x\<close> says that \<open>x\<close> is a value a \<open>float64\<close> holds.
\<close>

section \<open>Rounding a rational\<close>

text \<open>\<open>nlog2 n\<close> is the position of the highest bit of \<open>n\<close>.\<close>

function nlog2 :: "int \<Rightarrow> int" where
  "nlog2 n = (if n < 2 then 0 else nlog2 (n div 2) + 1)"
  by pat_completeness auto
termination by (relation "measure nat") auto

declare nlog2.simps [simp del]

definition pow2 :: "int \<Rightarrow> rat" where
  "pow2 k = (if 0 \<le> k then 2 ^ nat k else 1 / 2 ^ nat (- k))"

definition ilog2 :: "rat \<Rightarrow> int" where
  "ilog2 x =
     (let p = fst (quotient_of x); q = snd (quotient_of x);
          k = nlog2 p - nlog2 q
      in if pow2 k \<le> x then k else k - 1)"

definition round_half_even :: "rat \<Rightarrow> int" where
  "round_half_even x =
     (let f = \<lfloor>x\<rfloor>; d = x - of_int f
      in if d < 1 / 2 then f else if 1 / 2 < d then f + 1 else if even f then f else f + 1)"

definition fexp :: "rat \<Rightarrow> int" where
  "fexp x = max (- 1074) (ilog2 x - 52)"

definition round_mag :: "rat \<Rightarrow> rat" where
  "round_mag x = of_int (round_half_even (x / pow2 (fexp x))) * pow2 (fexp x)"

datatype float64 = NInf | Fin rat | PInf | NaN

definition round64 :: "rat \<Rightarrow> float64" where
  "round64 x =
     (if x = 0 then Fin 0
      else if 0 < x then (if 1024 \<le> ilog2 (round_mag x) then PInf else Fin (round_mag x))
      else (if 1024 \<le> ilog2 (round_mag (- x)) then NInf else Fin (- round_mag (- x))))"

definition f64 :: "float64 \<Rightarrow> bool" where
  "f64 x \<longleftrightarrow> (case x of Fin r \<Rightarrow> round64 r = Fin r | _ \<Rightarrow> True)"

section \<open>Arithmetic and comparison\<close>

fun fadd :: "float64 \<Rightarrow> float64 \<Rightarrow> float64" where
  "fadd NaN _ = NaN"
| "fadd _ NaN = NaN"
| "fadd PInf NInf = NaN"
| "fadd NInf PInf = NaN"
| "fadd PInf _ = PInf"
| "fadd _ PInf = PInf"
| "fadd NInf _ = NInf"
| "fadd _ NInf = NInf"
| "fadd (Fin a) (Fin b) = round64 (a + b)"

fun fneg :: "float64 \<Rightarrow> float64" where
  "fneg NaN = NaN"
| "fneg PInf = NInf"
| "fneg NInf = PInf"
| "fneg (Fin a) = Fin (- a)"

definition fsub :: "float64 \<Rightarrow> float64 \<Rightarrow> float64" where
  "fsub a b = fadd a (fneg b)"

definition finf :: "rat \<Rightarrow> float64" where
  "finf s = (if s = 0 then NaN else if 0 < s then PInf else NInf)"

fun fmul :: "float64 \<Rightarrow> float64 \<Rightarrow> float64" where
  "fmul NaN _ = NaN"
| "fmul _ NaN = NaN"
| "fmul (Fin a) (Fin b) = round64 (a * b)"
| "fmul (Fin a) PInf = finf a"
| "fmul (Fin a) NInf = finf (- a)"
| "fmul PInf (Fin b) = finf b"
| "fmul NInf (Fin b) = finf (- b)"
| "fmul PInf PInf = PInf"
| "fmul NInf NInf = PInf"
| "fmul PInf NInf = NInf"
| "fmul NInf PInf = NInf"

text \<open>Division by (positive) zero is an infinity, zero by zero is NaN.\<close>

fun fdiv :: "float64 \<Rightarrow> float64 \<Rightarrow> float64" where
  "fdiv NaN _ = NaN"
| "fdiv _ NaN = NaN"
| "fdiv (Fin a) (Fin b) = (if b = 0 then finf a else round64 (a / b))"
| "fdiv (Fin a) _ = Fin 0"
| "fdiv PInf (Fin b) = (if b < 0 then NInf else PInf)"
| "fdiv NInf (Fin b) = (if b < 0 then PInf else NInf)"
| "fdiv _ _ = NaN"

definition f_of_int :: "int \<Rightarrow> float64" where
  "f_of_int i = round64 (of_int i)"

instantiation float64 :: linorder
begin

fun less_eq_float64 :: "float64 \<Rightarrow> float64 \<Rightarrow> bool" where
  "less_eq_float64 NInf _ = True"
| "less_eq_float64 _ NaN = True"
| "less_eq_float64 (Fin a) (Fin b) = (a \<le> b)"
| "less_eq_float64 (Fin a) PInf = True"
| "less_eq_float64 PInf PInf = True"
| "less_eq_float64 _ _ = False"

definition less_float64 :: "float64 \<Rightarrow> float64 \<Rightarrow> bool" where
  "less_float64 a b \<longleftrightarrow> a \<le> b \<and> \<not> b \<le> a"

instance
proof
  fix x y z :: float64
  show "x < y \<longleftrightarrow> x \<le> y \<and> \<not> y \<le> x" by (rule less_float64_def)
  show "x \<le> x" by (cases x) simp_all
  show "x \<le> y \<Longrightarrow> y \<le> z \<Longrightarrow> x \<le> z" by (cases x; cases y; cases z) simp_all
  show "x \<le> y \<Longrightarrow> y \<le> x \<Longrightarrow> x = y" by (cases x; cases y) simp_all
  show "x \<le> y \<or> y \<le> x" by (cases x; cases y) auto
qed

end

text \<open>Go's \<open>a < b\<close>: false as soon as one side is NaN.\<close>

definition flt :: "float64 \<Rightarrow> float64 \<Rightarrow> bool" where
  "flt a b \<longleftrightarrow> a \<noteq> NaN \<and> b \<noteq> NaN \<and> a < b"

text \<open>Go's \<open>a == b\<close>.\<close>

definition feq :: "float64 \<Rightarrow> float64 \<Rightarrow> bool" where
  "feq a b \<longleftrightarrow> a \<noteq> NaN \<and> a = b"

definition fle :: "float64 \<Rightarrow> float64 \<Rightarrow> bool" where
  "fle a b \<longleftrightarrow> flt a b \<or> feq a b"

definition fnonneg :: "float64 \<Rightarrow> bool" where
  "fnonneg x \<longleftrightarrow> x \<noteq> NaN \<and> Fin 0 \<le> x"

lemma less_Fin [simp]: "Fin a < Fin b \<longleftrightarrow> a < b"
  by (auto simp: less_float64_def)

lemma Fin_less_PInf [simp]: "Fin a < PInf"
  by (simp add: less_float64_def)

lemma PInf_le [simp]: "PInf \<le> x \<longleftrightarrow> x = PInf \<or> x = NaN"
  by (cases x) simp_all

lemma le_PInf [simp]: "x \<le> PInf \<longleftrightarrow> x \<noteq> NaN"
  by (cases x) simp_all

lemma NaN_le [simp]: "NaN \<le> x \<longleftrightarrow> x = NaN"
  by (cases x) simp_all

lemma flt_simps [simp]:
  "flt (Fin a) (Fin b) \<longleftrightarrow> a < b" "flt (Fin a) PInf" "\<not> flt PInf x" "\<not> flt NaN x" "\<not> flt x NaN"
  by (auto simp: flt_def less_float64_def)

lemma flt_less: "x \<noteq> NaN \<Longrightarrow> y \<noteq> NaN \<Longrightarrow> flt x y \<longleftrightarrow> x < y"
  by (simp add: flt_def)

section \<open>Facts about rounding\<close>

lemma nlog2_bounds: "0 < n \<Longrightarrow> 0 \<le> nlog2 n \<and> 2 ^ nat (nlog2 n) \<le> n \<and> n < 2 ^ Suc (nat (nlog2 n))"
proof (induction n rule: nlog2.induct)
  case (1 n)
  show ?case
  proof (cases "n < 2")
    case True
    with "1.prems" show ?thesis by (simp add: nlog2.simps [of n])
  next
    case False
    with 1 have *: "0 \<le> nlog2 (n div 2)" "2 ^ nat (nlog2 (n div 2)) \<le> n div 2"
      "n div 2 < 2 ^ Suc (nat (nlog2 (n div 2)))" by auto
    with False have "nat (nlog2 n) = Suc (nat (nlog2 (n div 2)))"
      by (simp add: nlog2.simps [of n] nat_add_distrib)
    with * False show ?thesis by (simp add: nlog2.simps [of n]) linarith
  qed
qed

lemma pow2_pos [simp]: "0 < pow2 k" "pow2 k \<noteq> 0" "0 \<le> pow2 k"
  by (simp_all add: pow2_def)

lemma pow2_powi: "pow2 k = 2 powi k"
  unfolding pow2_def power_int_def by (simp add: field_simps)

lemma pow2_1: "pow2 1 = 2"
  by (simp add: pow2_def)

lemma pow2_add: "pow2 (a + b) = pow2 a * pow2 b"
  by (simp add: pow2_powi power_int_add)

lemma pow2_diff: "pow2 (a - b) = pow2 a / pow2 b"
  by (simp add: pow2_powi power_int_diff)

lemma pow2_mono: "a \<le> b \<Longrightarrow> pow2 a \<le> pow2 b"
  by (simp add: pow2_powi power_int_increasing)

lemma pow2_less_iff: "pow2 a < pow2 b \<longleftrightarrow> a < b"
  by (metis pow2_mono linorder_not_le order.strict_iff_not pow2_powi power_int_strict_increasing
      one_less_numeral_iff semiring_norm(76))

lemma pow2_le_iff: "pow2 a \<le> pow2 b \<longleftrightarrow> a \<le> b"
  using pow2_less_iff [of b a] by linarith

lemma pow2_nonneg_int: "0 \<le> k \<Longrightarrow> pow2 k = of_int (2 ^ nat k)"
  by (simp add: pow2_def)

lemma ilog2_bounds:
  assumes "0 < x"
  shows "pow2 (ilog2 x) \<le> x" "x < pow2 (ilog2 x + 1)"
proof -
  define p where "p = fst (quotient_of x)"
  define q where "q = snd (quotient_of x)"
  define a where "a = nat (nlog2 p)"
  define b where "b = nat (nlog2 q)"
  have q: "0 < q" unfolding q_def by (simp add: quotient_of_denom_pos')
  have x: "x = of_int p / of_int q"
    unfolding p_def q_def by (rule quotient_of_div) simp
  with assms q have p: "0 < p" by (simp add: zero_less_divide_iff)
  note pl = nlog2_bounds [OF p] and ql = nlog2_bounds [OF q]
  have pb: "(2 ^ a :: rat) \<le> of_int p" "of_int p < (2 ^ Suc a :: rat)"
    using pl unfolding a_def
    by (metis of_int_le_iff of_int_numeral of_int_power, metis of_int_less_iff of_int_numeral of_int_power)
  have qb: "(2 ^ b :: rat) \<le> of_int q" "of_int q < (2 ^ Suc b :: rat)"
    using ql unfolding b_def
    by (metis of_int_le_iff of_int_numeral of_int_power, metis of_int_less_iff of_int_numeral of_int_power)
  have k: "pow2 (int a - int b) = 2 ^ a / 2 ^ b"
    by (simp only: pow2_diff) (simp add: pow2_def)
  have up: "x < pow2 (int a - int b + 1)"
  proof -
    have "x \<le> of_int p / 2 ^ b" using qb(1) p q by (simp add: x frac_le)
    also have "\<dots> < 2 ^ Suc a / 2 ^ b" using pb(2) by (simp add: divide_strict_right_mono)
    finally show ?thesis using k by (simp add: pow2_add pow2_1 mult.commute)
  qed
  have lo: "pow2 (int a - int b - 1) \<le> x"
  proof -
    have "2 ^ a / 2 ^ Suc b \<le> of_int p / (2 ^ Suc b :: rat)" using pb(1) by (simp add: divide_right_mono)
    also have "\<dots> \<le> x" using qb(2) p q by (simp add: x frac_le)
    finally show ?thesis using k by (simp add: pow2_diff [of _ 1] pow2_1 mult.commute)
  qed
  have i: "ilog2 x = (if pow2 (int a - int b) \<le> x then int a - int b else int a - int b - 1)"
    using pl ql by (simp add: ilog2_def Let_def p_def q_def a_def b_def)
  show "pow2 (ilog2 x) \<le> x" using lo by (simp add: i)
  show "x < pow2 (ilog2 x + 1)" using up by (simp add: i not_le)
qed

lemma ilog2_ge_iff: "0 < x \<Longrightarrow> k \<le> ilog2 x \<longleftrightarrow> pow2 k \<le> x"
  using ilog2_bounds [of x] pow2_le_iff [of k "ilog2 x"] pow2_less_iff [of k "ilog2 x + 1"] by linarith

lemma ilog2_0 [simp]: "ilog2 0 = - 1"
  by (simp add: ilog2_def nlog2.simps pow2_def)

lemma overflow_iff: "0 \<le> x \<Longrightarrow> 1024 \<le> ilog2 x \<longleftrightarrow> pow2 1024 \<le> x"
  by (cases "x = 0") (auto simp: ilog2_ge_iff not_le)

lemma ilog2_mono: "0 < x \<Longrightarrow> x \<le> y \<Longrightarrow> ilog2 x \<le> ilog2 y"
  using ilog2_bounds [of x] ilog2_bounds [of y] pow2_less_iff [of "ilog2 x" "ilog2 y + 1"] by linarith

lemma fexp_mono: "0 < x \<Longrightarrow> x \<le> y \<Longrightarrow> fexp x \<le> fexp y"
  using ilog2_mono [of x y] by (simp add: fexp_def)

lemma round_half_even_of_int [simp]: "round_half_even (of_int n) = n"
  by (simp add: round_half_even_def)

lemma round_half_even_cases: "round_half_even x = \<lfloor>x\<rfloor> \<or> round_half_even x = \<lfloor>x\<rfloor> + 1"
  by (simp add: round_half_even_def Let_def)

lemma round_half_even_mono:
  assumes "x \<le> y"
  shows "round_half_even x \<le> round_half_even y"
proof (cases "\<lfloor>x\<rfloor> = \<lfloor>y\<rfloor>")
  case True
  with assms show ?thesis by (auto simp: round_half_even_def Let_def)
next
  case False
  with floor_mono [OF assms] have "\<lfloor>x\<rfloor> + 1 \<le> \<lfloor>y\<rfloor>" by simp
  with round_half_even_cases [of x] round_half_even_cases [of y] show ?thesis by linarith
qed

lemma round_half_even_le_int: "x \<le> of_int n \<Longrightarrow> round_half_even x \<le> n"
  using round_half_even_mono [of x "of_int n"] by simp

lemma round_half_even_ge_int: "of_int n \<le> x \<Longrightarrow> n \<le> round_half_even x"
  using round_half_even_mono [of "of_int n" x] by simp

lemma round_half_even_nonneg: "0 \<le> x \<Longrightarrow> 0 \<le> round_half_even x"
  using round_half_even_ge_int [of 0 x] by simp

text \<open>Rounding never crosses a power of two that the spacing at \<open>x\<close> divides.\<close>

lemma round_mag_le_pow2:
  assumes "x \<le> pow2 k" "fexp x \<le> k"
  shows "round_mag x \<le> pow2 k"
proof -
  have k: "pow2 k / pow2 (fexp x) = of_int (2 ^ nat (k - fexp x))"
    using assms(2) by (simp add: pow2_nonneg_int flip: pow2_diff)
  have "x / pow2 (fexp x) \<le> pow2 k / pow2 (fexp x)"
    using assms(1) by (simp add: divide_right_mono)
  then have "of_int (round_half_even (x / pow2 (fexp x))) \<le> (of_int (2 ^ nat (k - fexp x)) :: rat)"
    using k by (metis round_half_even_le_int of_int_le_iff)
  then have "of_int (round_half_even (x / pow2 (fexp x))) \<le> pow2 k / pow2 (fexp x)"
    by (simp only: k)
  then show ?thesis by (simp add: round_mag_def pos_le_divide_eq)
qed

lemma round_mag_ge_pow2:
  assumes "pow2 k \<le> x" "fexp x \<le> k"
  shows "pow2 k \<le> round_mag x"
proof -
  have k: "pow2 k / pow2 (fexp x) = of_int (2 ^ nat (k - fexp x))"
    using assms(2) by (simp add: pow2_nonneg_int flip: pow2_diff)
  have "pow2 k / pow2 (fexp x) \<le> x / pow2 (fexp x)"
    using assms(1) by (simp add: divide_right_mono)
  then have "(of_int (2 ^ nat (k - fexp x)) :: rat) \<le> of_int (round_half_even (x / pow2 (fexp x)))"
    using k by (metis round_half_even_ge_int of_int_le_iff)
  then have "pow2 k / pow2 (fexp x) \<le> of_int (round_half_even (x / pow2 (fexp x)))"
    by (simp only: k)
  then show ?thesis by (simp add: round_mag_def pos_divide_le_eq)
qed

lemma round_mag_nonneg: "0 \<le> x \<Longrightarrow> 0 \<le> round_mag x"
  by (simp add: round_mag_def round_half_even_nonneg)

lemma round_mag_mono:
  assumes "0 < x" "x \<le> y"
  shows "round_mag x \<le> round_mag y"
proof (cases "fexp x = fexp y")
  case True
  have "x / pow2 (fexp y) \<le> y / pow2 (fexp y)" using assms(2) by (simp add: divide_right_mono)
  then show ?thesis by (simp add: round_mag_def True round_half_even_mono)
next
  case False
  with fexp_mono [OF assms] have lt: "fexp x < fexp y" by simp
  then have fy: "fexp y = ilog2 y - 52" and lo: "ilog2 x < ilog2 y"
    by (auto simp: fexp_def split: if_splits)
  have "x < pow2 (ilog2 x + 1)" by (rule ilog2_bounds) (rule assms(1))
  also have "\<dots> \<le> pow2 (ilog2 y)" using lo by (intro pow2_mono) simp
  finally have "round_mag x \<le> pow2 (ilog2 y)"
    using lt fy by (intro round_mag_le_pow2) auto
  also have "\<dots> \<le> round_mag y"
    using fy ilog2_bounds(1) [of y] assms by (intro round_mag_ge_pow2) auto
  finally show ?thesis .
qed

text \<open>A number \<open>m * 2 ^ e\<close> with at most 53 bits is a float and rounds to itself.\<close>

lemma round_mag_exact:
  assumes v: "v = of_int m * pow2 e" and m: "0 < m" "m \<le> 2 ^ 53" and e: "- 1074 \<le> e"
  shows "round_mag v = v"
proof -
  have v0: "0 < v" using m by (simp add: v)
  have fixed: "round_mag v = v" if "v / pow2 (fexp v) = of_int n" for n
    using that by (simp add: round_mag_def) (simp flip: that)
  show ?thesis
  proof (cases "fexp v \<le> e")
    case True
    have "v / pow2 (fexp v) = of_int m * pow2 (e - fexp v)" by (simp add: v pow2_diff)
    also have "\<dots> = of_int (m * 2 ^ nat (e - fexp v))" using True by (simp add: pow2_nonneg_int)
    finally show ?thesis by (rule fixed)
  next
    case False
    with e have fv: "fexp v = ilog2 v - 52" "e + 53 \<le> ilog2 v" by (auto simp: fexp_def max_def split: if_splits)
    have "pow2 e * pow2 53 = pow2 (e + 53)" by (simp add: pow2_add)
    also have "\<dots> \<le> v" using pow2_mono [OF fv(2)] ilog2_bounds(1) [OF v0] by linarith
    finally have "(2 ^ 53 :: rat) \<le> of_int m"
      by (simp add: v mult.commute pow2_nonneg_int [of 53])
    then have m53: "m = 2 ^ 53" using m(2)
      by (metis antisym of_int_le_iff of_int_numeral of_int_power)
    have vp: "v = pow2 (e + 53)" by (simp add: v m53 pow2_add pow2_nonneg_int [of 53])
    have "ilog2 v = e + 53"
      using ilog2_bounds(1) [OF v0] fv(2) by (simp add: vp pow2_le_iff)
    with fv(1) have "v / pow2 (fexp v) = pow2 52" by (simp add: vp flip: pow2_diff)
    then have "v / pow2 (fexp v) = of_int (2 ^ 52)" by (simp add: pow2_nonneg_int)
    then show ?thesis by (rule fixed)
  qed
qed

lemma round_mag_idem:
  assumes "0 < x" "round_mag x \<noteq> 0"
  shows "round_mag (round_mag x) = round_mag x"
proof (rule round_mag_exact)
  let ?m = "round_half_even (x / pow2 (fexp x))"
  show "round_mag x = of_int ?m * pow2 (fexp x)" by (simp add: round_mag_def)
  have "0 \<le> ?m" using assms(1) by (intro round_half_even_nonneg) simp
  moreover have "?m \<noteq> 0" using assms(2) by (auto simp: round_mag_def)
  ultimately show "0 < ?m" by simp
  have "x \<le> pow2 (ilog2 x + 1)" using ilog2_bounds(2) [OF assms(1)] by simp
  also have "\<dots> \<le> pow2 (fexp x + 53)" by (intro pow2_mono) (simp add: fexp_def)
  finally have "x / pow2 (fexp x) \<le> pow2 53" by (simp add: pow2_add pos_divide_le_eq mult.commute)
  then show "?m \<le> 2 ^ 53" by (intro round_half_even_le_int) (simp add: pow2_nonneg_int)
  show "- 1074 \<le> fexp x" by (simp add: fexp_def)
qed

lemma round64_alt:
  "round64 x =
     (if x = 0 then Fin 0
      else if 0 < x then (if pow2 1024 \<le> round_mag x then PInf else Fin (round_mag x))
      else (if pow2 1024 \<le> round_mag (- x) then NInf else Fin (- round_mag (- x))))"
  using round_mag_nonneg [of x] round_mag_nonneg [of "- x"] by (simp add: round64_def overflow_iff)

section \<open>Non-negative floats\<close>

lemma f64_simps [simp]: "f64 PInf" "f64 NInf" "f64 NaN" "f64 (Fin 0)"
  by (simp_all add: f64_def round64_alt)

lemma fnonneg_simps [simp]: "fnonneg PInf" "fnonneg (Fin r) \<longleftrightarrow> 0 \<le> r" "\<not> fnonneg NaN" "\<not> fnonneg NInf"
  by (simp_all add: fnonneg_def)

lemma f64_round64 [simp]: "f64 (round64 x)"
proof (cases "x = 0")
  case False
  have *: "f64 (Fin (round_mag y)) \<and> f64 (Fin (- round_mag y))" if "0 < y" "\<not> pow2 1024 \<le> round_mag y" for y
    using that round_mag_nonneg [of y]
    by (cases "round_mag y = 0") (auto simp: f64_def round64_alt round_mag_idem)
  from False * [of x] * [of "- x"] show ?thesis by (auto simp: round64_alt)
qed (simp add: round64_alt)

lemma fnonneg_round64: "0 \<le> x \<Longrightarrow> fnonneg (round64 x)"
  by (auto simp: round64_alt round_mag_nonneg)

lemma round64_mono: "0 \<le> x \<Longrightarrow> x \<le> y \<Longrightarrow> round64 x \<le> round64 y"
  using round_mag_mono [of x y] round_mag_nonneg [of y]
  by (auto simp: round64_alt)

lemma round64_not_NaN [simp]: "round64 x \<noteq> NaN" "NaN \<noteq> round64 x"
  by (auto simp: round64_alt)

lemma fadd_f64 [simp]: "f64 (fadd a b)"
  by (cases a; cases b) simp_all

lemma fadd_nonneg: "fnonneg a \<Longrightarrow> fnonneg b \<Longrightarrow> fnonneg (fadd a b)"
  by (cases a; cases b) (simp_all add: fnonneg_round64)

lemma fadd_mono: "fnonneg a \<Longrightarrow> a \<le> b \<Longrightarrow> fnonneg b \<Longrightarrow> fnonneg w \<Longrightarrow> fadd a w \<le> fadd b w"
  by (cases a; cases b; cases w) (auto simp: round64_mono)

text \<open>Adding a non-negative float never makes a float smaller, rounding included.\<close>

lemma fadd_ge: "f64 a \<Longrightarrow> fnonneg a \<Longrightarrow> fnonneg w \<Longrightarrow> a \<le> fadd a w"
proof (cases a; cases w)
  fix x y
  assume a: "f64 a" "fnonneg a" "fnonneg w" "a = Fin x" "w = Fin y"
  then have "round64 x \<le> round64 (x + y)" by (intro round64_mono) auto
  with a show ?thesis by (simp add: f64_def)
qed auto

lemma fnonneg_not_NaN: "fnonneg a \<Longrightarrow> a \<noteq> NaN"
  by (auto simp: fnonneg_def)

lemma flt_nonneg: "fnonneg a \<Longrightarrow> fnonneg b \<Longrightarrow> flt a b \<longleftrightarrow> a < b"
  by (auto simp: flt_def fnonneg_def)

lemma round64_small_int: "0 \<le> i \<Longrightarrow> i \<le> 2 ^ 53 \<Longrightarrow> round64 (of_int i) = Fin (of_int i)"
proof -
  assume i: "0 \<le> i" "i \<le> 2 ^ 53"
  have "round_mag (of_int i) = of_int i" if "0 < i"
    by (rule round_mag_exact [of _ i 0]) (use that i in \<open>simp_all add: pow2_def\<close>)
  moreover have "(of_int i :: rat) < pow2 1024"
  proof -
    have "(of_int i :: rat) \<le> of_int (2 ^ 53)" using i(2) by (simp only: of_int_le_iff)
    also have "\<dots> = pow2 53" by (simp add: pow2_nonneg_int)
    also have "\<dots> < pow2 1024" by (simp add: pow2_less_iff)
    finally show ?thesis .
  qed
  ultimately show ?thesis using i by (auto simp: round64_alt)
qed

end
