(* ===== verification/Strings.thy ===== *)
theory Strings
  imports Prelude
begin

text \<open>
  The parts of Go's \<open>strings\<close> and \<open>strconv\<close> packages that the program uses, on byte strings:
  prefixes, trimming, fields and splitting; \<open>strconv.Itoa\<close> and \<open>strconv.Atoi\<close> with its sign and
  its 64-bit range. White space is the ASCII white space of \<open>unicode.IsSpace\<close>.
\<close>

section \<open>Prefixes, trimming, splitting\<close>

definition has_prefix :: "string \<Rightarrow> string \<Rightarrow> bool" where
  "has_prefix s p \<longleftrightarrow> take (length p) s = p"

definition trim_prefix :: "string \<Rightarrow> string \<Rightarrow> string" where
  "trim_prefix s p = (if has_prefix s p then drop (length p) s else s)"

definition has_suffix :: "string \<Rightarrow> string \<Rightarrow> bool" where
  "has_suffix s p \<longleftrightarrow> length p \<le> length s \<and> drop (length s - length p) s = p"

definition trim_suffix :: "string \<Rightarrow> string \<Rightarrow> string" where
  "trim_suffix s p = (if has_suffix s p then take (length s - length p) s else s)"

definition is_space :: "char \<Rightarrow> bool" where
  "is_space c \<longleftrightarrow> c = CHR '' '' \<or> (9 \<le> (of_char c :: nat) \<and> (of_char c :: nat) \<le> 13)"

definition trim_space :: "string \<Rightarrow> string" where
  "trim_space s = rev (dropWhile is_space (rev (dropWhile is_space s)))"

text \<open>\<open>strings.Fields\<close>: the maximal runs of non-space characters.\<close>

fun fields_go :: "string \<Rightarrow> string \<Rightarrow> string list" where
  "fields_go acc [] = (if acc = [] then [] else [rev acc])"
| "fields_go acc (c # cs) =
     (if is_space c then (if acc = [] then fields_go [] cs else rev acc # fields_go [] cs)
      else fields_go (c # acc) cs)"

definition fields :: "string \<Rightarrow> string list" where
  "fields s = fields_go [] s"

text \<open>\<open>strings.Split(s, sep)\<close> for a one-character separator.\<close>

fun split_go :: "char \<Rightarrow> string \<Rightarrow> string \<Rightarrow> string list" where
  "split_go sep acc [] = [rev acc]"
| "split_go sep acc (c # cs) =
     (if c = sep then rev acc # split_go sep [] cs else split_go sep (c # acc) cs)"

definition split :: "string \<Rightarrow> char \<Rightarrow> string list" where
  "split s sep = split_go sep [] s"

text \<open>\<open>strings.SplitN(s, sep, 2)\<close>: before and after the first occurrence of \<open>sep\<close>, if any.\<close>

fun split_at :: "string \<Rightarrow> string \<Rightarrow> string \<Rightarrow> (string \<times> string) option" where
  "split_at sep acc [] = (if sep = [] then Some (rev acc, []) else None)"
| "split_at sep acc (c # cs) =
     (if has_prefix (c # cs) sep then Some (rev acc, drop (length sep) (c # cs))
      else split_at sep (c # acc) cs)"

definition split_n2 :: "string \<Rightarrow> string \<Rightarrow> string list" where
  "split_n2 s sep = (case split_at sep [] s of Some (a, b) \<Rightarrow> [a, b] | None \<Rightarrow> [s])"

definition contains :: "string \<Rightarrow> string \<Rightarrow> bool" where
  "contains s sub \<longleftrightarrow> split_at sub [] s \<noteq> None"

lemma has_prefix_append [simp]: "has_prefix (p @ s) p"
  by (simp add: has_prefix_def)

lemma trim_prefix_append [simp]: "trim_prefix (p @ s) p = s"
  by (simp add: trim_prefix_def)

lemma has_prefix_iff: "has_prefix s p \<longleftrightarrow> (\<exists>r. s = p @ r)"
  unfolding has_prefix_def by (metis append_eq_conv_conj append_take_drop_id)

lemma split_go_no_sep: "sep \<notin> set s \<Longrightarrow> split_go sep acc s = [rev acc @ s]"
  by (induction s arbitrary: acc) auto

lemma split_go_append: "sep \<notin> set a \<Longrightarrow> split_go sep acc (a @ sep # b) = (rev acc @ a) # split_go sep [] b"
  by (induction a arbitrary: acc) auto

lemma split_no_sep: "sep \<notin> set s \<Longrightarrow> split s sep = [s]"
  by (simp add: split_def split_go_no_sep)

lemma split_append: "sep \<notin> set a \<Longrightarrow> split (a @ sep # b) sep = a # split b sep"
  by (simp add: split_def split_go_append)

section \<open>Numbers\<close>

definition digit_char :: "nat \<Rightarrow> char" where
  "digit_char d = char_of (48 + d)"

definition is_digit :: "char \<Rightarrow> bool" where
  "is_digit c \<longleftrightarrow> 48 \<le> (of_char c :: nat) \<and> (of_char c :: nat) \<le> 57"

definition digit_val :: "char \<Rightarrow> nat" where
  "digit_val c = of_char c - 48"

fun nat_digits :: "nat \<Rightarrow> string" where
  "nat_digits n = (if n < 10 then [digit_char n] else nat_digits (n div 10) @ [digit_char (n mod 10)])"

declare nat_digits.simps [simp del]

definition itoa :: "int \<Rightarrow> string" where
  "itoa i = (if i < 0 then CHR ''-'' # nat_digits (nat (- i)) else nat_digits (nat i))"

definition digits_val :: "string \<Rightarrow> nat" where
  "digits_val s = foldl (\<lambda>n c. 10 * n + digit_val c) 0 s"

definition all_digits :: "string \<Rightarrow> bool" where
  "all_digits s \<longleftrightarrow> s \<noteq> [] \<and> (\<forall>c\<in>set s. is_digit c)"

definition in_int64 :: "int \<Rightarrow> bool" where
  "in_int64 i \<longleftrightarrow> - (2 ^ 63) \<le> i \<and> i < 2 ^ 63"

definition int64_opt :: "int \<Rightarrow> int option" where
  "int64_opt i = (if in_int64 i then Some i else None)"

fun atoi :: "string \<Rightarrow> int option" where
  "atoi [] = None"
| "atoi (c # s) =
     (if c = CHR ''-'' then (if all_digits s then int64_opt (- int (digits_val s)) else None)
      else if c = CHR ''+'' then (if all_digits s then int64_opt (int (digits_val s)) else None)
      else if all_digits (c # s) then int64_opt (int (digits_val (c # s))) else None)"

lemma of_char_digit: "d < 10 \<Longrightarrow> of_char (digit_char d) = (48 + d :: nat)"
  by (simp add: digit_char_def)

lemma is_digit_digit_char [simp]: "d < 10 \<Longrightarrow> is_digit (digit_char d)"
  by (simp add: is_digit_def of_char_digit)

lemma digit_val_digit_char [simp]: "d < 10 \<Longrightarrow> digit_val (digit_char d) = d"
  by (simp add: digit_val_def of_char_digit)

lemma digit_not_sign: "is_digit c \<Longrightarrow> c \<noteq> CHR ''-'' \<and> c \<noteq> CHR ''+'' \<and> c \<noteq> CHR ''.'' \<and> c \<noteq> CHR ''_''"
  by (auto simp: is_digit_def)

lemma digit_not_space: "is_digit c \<Longrightarrow> \<not> is_space c"
  by (auto simp: is_digit_def is_space_def)

lemma nat_digits_all: "all_digits (nat_digits n)"
proof (induction n rule: nat_digits.induct)
  case (1 n)
  then show ?case by (subst nat_digits.simps) (auto simp: all_digits_def)
qed

lemma nat_digits_digit: "c \<in> set (nat_digits n) \<Longrightarrow> is_digit c"
  using nat_digits_all by (auto simp: all_digits_def)

lemma nat_digits_ne [simp]: "nat_digits n \<noteq> []"
  using nat_digits_all by (auto simp: all_digits_def)

lemma digits_val_nat_digits [simp]: "digits_val (nat_digits n) = n"
proof (induction n rule: nat_digits.induct)
  case (1 n)
  show ?case
  proof (cases "n < 10")
    case True
    then show ?thesis by (subst nat_digits.simps) (simp add: digits_val_def)
  next
    case False
    with 1 have "foldl (\<lambda>n c. 10 * n + digit_val c) 0 (nat_digits (n div 10)) = n div 10"
      by (simp add: digits_val_def)
    with False show ?thesis by (subst nat_digits.simps) (simp add: digits_val_def)
  qed
qed

lemma atoi_nat_digits: "int n < 2 ^ 63 \<Longrightarrow> atoi (nat_digits n) = Some (int n)"
proof -
  assume n: "int n < 2 ^ 63"
  obtain c s where cs: "nat_digits n = c # s" by (cases "nat_digits n") auto
  then have "is_digit c" using nat_digits_digit [of c n] by simp
  with cs nat_digits_all [of n] digits_val_nat_digits [of n] digit_not_sign n show ?thesis
    by (simp add: int64_opt_def in_int64_def)
qed

text \<open>\<open>strconv.Atoi\<close> reads back what \<open>strconv.Itoa\<close> writes.\<close>

lemma atoi_itoa: "in_int64 i \<Longrightarrow> atoi (itoa i) = Some i"
  by (cases "i < 0")
    (simp_all add: itoa_def atoi_nat_digits in_int64_def nat_digits_all int64_opt_def)

lemma itoa_inj: "itoa i = itoa j \<longleftrightarrow> i = j"
proof
  assume eq: "itoa i = itoa j"
  have nd: "nat_digits n \<noteq> CHR ''-'' # s" for n s
    using nat_digits_digit [of "CHR ''-''" n] by (auto simp: is_digit_def)
  have inj: "nat_digits a = nat_digits b \<Longrightarrow> a = b" for a b
    by (metis digits_val_nat_digits)
  show "i = j"
    using eq inj [of "nat i" "nat j"] inj [of "nat (- i)" "nat (- j)"] nd [of "nat i"] nd [of "nat j", symmetric]
    by (auto simp: itoa_def split: if_splits)
qed simp

lemma itoa_nonneg: "0 \<le> i \<Longrightarrow> itoa i = nat_digits (nat i)"
  by (simp add: itoa_def)

lemma itoa_chars: "c \<in> set (itoa i) \<Longrightarrow> is_digit c \<or> c = CHR ''-''"
  by (auto simp: itoa_def dest: nat_digits_digit split: if_splits)

end
