(* ===== verification/Metrics.thy ===== *)
theory Metrics
  imports Float64 Strings
begin

text \<open>
  \<^verbatim>\<open>internal/metrics\<close>: the queries to Prometheus, the metrics of a path, its cost, and the choice of
  the IP version. The Prometheus server is outside the program: what a request meets is a
  parameter of the environment, indexed by the number of interactions with the environment
  so far (\<open>ticks\<close>), as is the clock. A response body is its decoded content.
\<close>

section \<open>The environment\<close>

datatype jval = JStr string | JNum float64 | JOther

record query_result =
  r_source :: string
  r_target :: string
  r_version :: string
  r_values :: "jval list list"

record query_response =
  q_status :: string
  q_result :: "query_result list"

datatype http_body = ReadError go_error | BadJSON go_error | Decoded query_response

datatype http_outcome = TransportError go_error | HTTPStatus int http_body

record http_request =
  h_url :: string
  h_params :: "(string \<times> string) list"

text \<open>\<open>version_order n\<close> is the order a range over the metrics map takes at interaction \<open>n\<close>.\<close>

record env =
  clock :: "nat \<Rightarrow> int"
  http_get :: "nat \<Rightarrow> http_request \<Rightarrow> http_outcome"
  version_order :: "nat \<Rightarrow> string list"

record world =
  ticks :: nat

text \<open>\<open>time.Now()\<close>, in nanoseconds.\<close>

definition time_now :: "env \<Rightarrow> ('z world_scheme, int) proc" where
  "time_now E w = (Inr (clock E (ticks w)), w\<lparr>ticks := Suc (ticks w)\<rparr>)"

definition http_do :: "env \<Rightarrow> http_request \<Rightarrow> ('z world_scheme, http_outcome) proc" where
  "http_do E r w = (Inr (http_get E (ticks w) r), w\<lparr>ticks := Suc (ticks w)\<rparr>)"

section \<open>query.go\<close>

definition prometheus_addr :: string where
  "prometheus_addr = ''http://10.1.1.109:8428''"

definition decode_response :: "http_outcome \<Rightarrow> query_response go" where
  "decode_response out =
     (case out of
        TransportError e \<Rightarrow> Inl (Err (Wrapf ''error making the request'' e))
      | HTTPStatus code body \<Rightarrow>
          (if code \<noteq> 200 then Inl (Err (Errorf ''error: status''))
           else (case body of
                   ReadError e \<Rightarrow> Inl (Err (Wrapf ''error reading the response'' e))
                 | BadJSON e \<Rightarrow> Inl (Err (Wrapf ''error parsing JSON'' e))
                 | Decoded resp \<Rightarrow>
                     (if q_status resp \<noteq> ''success'' then Inl (Err (Errorf ''non success status''))
                      else Inr resp))))"

definition query :: "env \<Rightarrow> string \<Rightarrow> ('z world_scheme, query_response) proc" where
  "query E q =
     bind (http_do E \<lparr>h_url = prometheus_addr @ ''/api/v1/query'', h_params = [(''query'', q)]\<rparr>)
       (\<lambda>out. lift_go (decode_response out))"

definition query_range ::
    "env \<Rightarrow> string \<Rightarrow> string \<Rightarrow> string \<Rightarrow> string \<Rightarrow> ('z world_scheme, query_response) proc" where
  "query_range E start end step q =
     bind (http_do E \<lparr>h_url = prometheus_addr @ ''/api/v1/query_range'',
                      h_params = [(''start'', start), (''end'', end), (''step'', step), (''query'', q)]\<rparr>)
       (\<lambda>out. lift_go (decode_response out))"

section \<open>strconv.ParseFloat on decimal text\<close>

definition lower :: "char \<Rightarrow> char" where
  "lower c = (if 65 \<le> (of_char c :: nat) \<and> (of_char c :: nat) \<le> 90 then char_of ((of_char c :: nat) + 32) else c)"

definition span :: "('a \<Rightarrow> bool) \<Rightarrow> 'a list \<Rightarrow> 'a list \<times> 'a list" where
  "span p xs = (takeWhile p xs, dropWhile p xs)"

fun parse_exp :: "string \<Rightarrow> int option" where
  "parse_exp [] = Some 0"
| "parse_exp (c # s) =
     (if lower c \<noteq> CHR ''e'' then None
      else (case s of
              [] \<Rightarrow> None
            | d # ds \<Rightarrow>
                (if d = CHR ''-'' then (if all_digits ds then Some (- int (digits_val ds)) else None)
                 else if d = CHR ''+'' then (if all_digits ds then Some (int (digits_val ds)) else None)
                 else if all_digits s then Some (int (digits_val s)) else None)))"

definition pow10 :: "int \<Rightarrow> rat" where
  "pow10 k = (if 0 \<le> k then 10 ^ nat k else 1 / 10 ^ nat (- k))"

definition parse_unsigned :: "string \<Rightarrow> rat option" where
  "parse_unsigned s =
     (let (ip, r) = span is_digit s;
          (fp, r') = (case r of c # cs \<Rightarrow> if c = CHR ''.'' then span is_digit cs else ([], r) | [] \<Rightarrow> ([], r))
      in if ip @ fp = [] then None
         else (case parse_exp r' of
                 None \<Rightarrow> None
               | Some e \<Rightarrow> Some (of_nat (digits_val (ip @ fp)) * pow10 (e - int (length fp)))))"

definition split_sign :: "string \<Rightarrow> rat \<times> string \<times> bool" where
  "split_sign s =
     (case s of
        c # cs \<Rightarrow> (if c = CHR ''-'' then (- 1, cs, True) else if c = CHR ''+'' then (1, cs, True) else (1, s, False))
      | [] \<Rightarrow> (1, s, False))"

definition parse_float :: "string \<Rightarrow> float64 option" where
  "parse_float s =
     (let (sg, t, signed) = split_sign s; l = map lower t
      in if l = ''inf'' \<or> l = ''infinity'' then Some (if sg < 0 then NInf else PInf)
         else if l = ''nan'' \<and> \<not> signed then Some NaN
         else (case parse_unsigned t of
                 None \<Rightarrow> None
               | Some x \<Rightarrow> (let f = round64 (sg * x) in if f = PInf \<or> f = NInf then None else Some f)))"

section \<open>path.go\<close>

definition ErrNoPaths :: go_error where
  "ErrNoPaths = Sentinel ''no paths available''"

record path_metrics =
  pm_availability :: float64
  pm_latency :: float64
  pm_jitter :: float64
  pm_loss :: float64
  pm_cost :: float64

definition zero_metrics :: path_metrics where
  "zero_metrics = \<lparr>pm_availability = Fin 0, pm_latency = Fin 0, pm_jitter = Fin 0, pm_loss = Fin 0, pm_cost = Fin 0\<rparr>"

definition GetPathLabel :: "int \<Rightarrow> int \<Rightarrow> string" where
  "GetPathLabel origin remote =
     (let (a, b) = (if origin > remote then (remote, origin) else (origin, remote))
      in itoa a @ ''-'' @ itoa b)"

text \<open>
  The weights are \<open>K1 = 1.0\<close> and \<open>K2 = 0.5\<close>. The code overwrites the jitter term and the Mathis
  term with 0 before it adds them ("temporarily disable jitter and loss"); the value of
  \<open>math.Sqrt\<close> it computes before is not used and is left out.
\<close>

definition calculatePathCost :: "path_metrics \<Rightarrow> path_metrics" where
  "calculatePathCost pm =
     (if feq (pm_availability pm) (Fin 0) \<or> feq (pm_latency pm) (Fin 0) then pm\<lparr>pm_cost := PInf\<rparr>
      else
        let rttMs = fdiv (pm_latency pm) (Fin 1000);
            effectiveLoss = fmul (fsub (Fin 1) (pm_availability pm)) (fdiv (pm_loss pm) (Fin 100))
        in if fle (Fin 1) effectiveLoss then pm\<lparr>pm_cost := PInf\<rparr>
           else let jitterMs = Fin 0; mathisCost = Fin 0
                in pm\<lparr>pm_cost := fadd (fmul (Fin 1) (fadd rttMs mathisCost)) (fmul (Fin (1 / 2)) jitterMs)\<rparr>)"

text \<open>\<open>result.Values[0][1].(string)\<close>, with the three ways it panics.\<close>

definition sample_string :: "query_result \<Rightarrow> string go" where
  "sample_string r =
     (case r_values r of
        (v0 # v1 # vs) # rest \<Rightarrow> (case v1 of JStr s \<Rightarrow> Inr s | _ \<Rightarrow> Inl (Panic TypeAssertion))
      | _ \<Rightarrow> Inl (Panic IndexOutOfRange))"

definition sample_float :: "string \<Rightarrow> query_result \<Rightarrow> float64 go" where
  "sample_float msg r =
     go_bind (sample_string r)
       (\<lambda>s. case parse_float s of
              None \<Rightarrow> Inl (Err (Wrapf msg (Errorf ''strconv.ParseFloat'')))
            | Some f \<Rightarrow> Inr f)"

type_synonym metrics_map = "string \<rightharpoonup> path_metrics"

text \<open>\<open>metrics[version].Field = v\<close>: a missing version is a nil pointer.\<close>

definition set_metric :: "string \<Rightarrow> (path_metrics \<Rightarrow> path_metrics) \<Rightarrow> metrics_map \<Rightarrow> metrics_map go" where
  "set_metric ver upd m =
     (case m ver of None \<Rightarrow> Inl (Panic NilDereference) | Some pm \<Rightarrow> Inr (m(ver \<mapsto> upd pm)))"

definition apply_result :: "nat \<Rightarrow> query_result \<Rightarrow> metrics_map \<Rightarrow> metrics_map go" where
  "apply_result i r m =
     (if i = 0 then
        go_bind (sample_float ''error parsing latency'' r)
          (\<lambda>f. set_metric (r_version r) (pm_latency_update (\<lambda>_. fdiv f (Fin 2))) m)
      else if i = 1 then
        go_bind (sample_float ''error parsing packet loss'' r)
          (\<lambda>f. set_metric (r_version r) (pm_loss_update (\<lambda>_. f)) m)
      else
        go_bind (sample_float ''error parsing availability'' r)
          (\<lambda>f. set_metric (r_version r) (pm_availability_update (\<lambda>_. f)) m))"

definition dq :: string where
  "dq = [CHR 0x22]"

definition metrics_queries :: "string \<Rightarrow> (nat \<times> string) list" where
  "metrics_queries path =
     [(0, ''avg(avg_over_time(network_latency_duration{path=~'' @ dq @ path @ dq @ ''}[1m])) by (version)''),
      (1, ''avg(avg_over_time(network_latency_loss{path=~'' @ dq @ path @
          dq @ ''}[2m]),avg_over_time(network_bandwidth_packet_loss{path=~'' @ dq @ path @ dq @ ''}[2m])) by (version)''),
      (2, ''avg(avg_over_time(network_latency_status{path=~'' @ dq @ path @ dq @ ''}[1m])) by (version)'')]"

definition initial_metrics :: metrics_map where
  "initial_metrics = [''4'' \<mapsto> zero_metrics, ''6'' \<mapsto> zero_metrics]"

definition metrics_step :: "env \<Rightarrow> nat \<times> string \<Rightarrow> metrics_map \<Rightarrow> ('z world_scheme, metrics_map) proc" where
  "metrics_step E iq m =
     bind (query_range E ''now-1m'' ''now'' ''1m'' (snd iq))
       (\<lambda>resp. lift_go (go_fold (apply_result (fst iq)) (q_result resp) m))"

definition GetPathMetrics :: "env \<Rightarrow> int \<Rightarrow> int \<Rightarrow> ('z world_scheme, metrics_map) proc" where
  "GetPathMetrics E origin remote =
     (let path = GetPathLabel origin remote
      in if path = [] then throw (Err (Errorf ''could not generate path label''))
         else
           bind (for_each (metrics_step E) (metrics_queries path) initial_metrics)
             (\<lambda>m. ret (\<lambda>v. map_option calculatePathCost (m v))))"

text \<open>The selection loop over the metrics map, in the order \<open>vs\<close> the range visits it.\<close>

definition is_pinf :: "float64 \<Rightarrow> bool" where
  "is_pinf x \<longleftrightarrow> x = PInf"

definition prefer_step :: "metrics_map \<Rightarrow> string \<Rightarrow> string \<times> float64 \<Rightarrow> string \<times> float64" where
  "prefer_step m v best =
     (case m v of
        None \<Rightarrow> best
      | Some pm \<Rightarrow>
          (if \<not> is_pinf (pm_cost pm) \<and> (is_pinf (snd best) \<or> flt (pm_cost pm) (snd best))
           then (v, pm_cost pm) else best))"

definition choose_version :: "metrics_map \<Rightarrow> string list \<Rightarrow> (string \<times> float64) go" where
  "choose_version m vs =
     (let best = fold (prefer_step m) vs ('''', PInf)
      in if fst best = [] then Inl (Err ErrNoPaths) else Inr best)"

definition GetPreferredPath ::
    "env \<Rightarrow> int \<Rightarrow> int \<Rightarrow> ('z world_scheme, string \<times> float64) proc" where
  "GetPreferredPath E origin remote =
     bind (GetPathMetrics E origin remote)
       (\<lambda>m w. (choose_version m (version_order E (ticks w)), w))"

definition GetPingPathLatency :: "env \<Rightarrow> int \<Rightarrow> int \<Rightarrow> ('z world_scheme, float64) proc" where
  "GetPingPathLatency E origin remote =
     bind (query_range E ''now-1m'' ''now'' ''1m''
             (''avg(avg_over_time(network_path_latency_duration{path=~'' @ dq @ GetPathLabel origin remote @ dq @ ''}[1m]))''))
       (\<lambda>resp. case q_result resp of
                 [] \<Rightarrow> throw (Err ErrNoPaths)
               | r # _ \<Rightarrow>
                   lift_go (go_bind (sample_string r)
                     (\<lambda>s. case parse_float s of
                            None \<Rightarrow> Inl (Err (Errorf ''strconv.ParseFloat''))
                          | Some f \<Rightarrow> Inr f)))"

section \<open>Facts\<close>

lemma itoa_ne [simp]: "itoa i \<noteq> []"
  by (auto simp: itoa_def)

lemma GetPathLabel_ne [simp]: "GetPathLabel a b \<noteq> []"
  by (simp add: GetPathLabel_def)

lemma GetPathLabel_commute: "GetPathLabel a b = GetPathLabel b a"
  by (simp add: GetPathLabel_def)

text \<open>\<open>%d-%d\<close> names a pair of integers uniquely: the path labels and the cache keys use it.\<close>

lemma digits_append_eq:
  assumes "nat_digits a @ CHR ''-'' # s = nat_digits b @ CHR ''-'' # t"
  shows "a = b \<and> s = t"
proof -
  have tw: "takeWhile is_digit (nat_digits n @ CHR ''-'' # u) = nat_digits n" for n u
    using nat_digits_digit [of _ n] by (simp add: takeWhile_append2 is_digit_def)
  from assms have "nat_digits a = nat_digits b" using tw [of a s] tw [of b t] by simp
  with assms show ?thesis by (metis digits_val_nat_digits same_append_eq list.inject)
qed

lemma pair_key_inj: "itoa a @ ''-'' @ itoa b = itoa c @ ''-'' @ itoa d \<longleftrightarrow> a = c \<and> b = d"
proof
  assume eq: "itoa a @ ''-'' @ itoa b = itoa c @ ''-'' @ itoa d"
  have nd: "nat_digits n @ u \<noteq> CHR ''-'' # v" for n u v
    using nat_digits_digit [of "CHR ''-''" n] by (cases "nat_digits n") (auto simp: is_digit_def)
  have "(a < 0 \<longleftrightarrow> c < 0) \<and> nat \<bar>a\<bar> = nat \<bar>c\<bar> \<and> itoa b = itoa d"
    using eq nd [of "nat a" "CHR ''-'' # itoa b"] nd [of "nat c" "CHR ''-'' # itoa d", symmetric]
    by (auto simp: itoa_def [of a] itoa_def [of c] dest!: digits_append_eq split: if_splits)
  then show "a = c \<and> b = d" by (auto simp: itoa_inj)
qed simp

lemma f64_cases: "f64 x \<longleftrightarrow> (\<forall>r. x = Fin r \<longrightarrow> round64 r = Fin r)"
  by (cases x) (simp_all add: f64_def)

lemma fadd_0 [simp]: "f64 x \<Longrightarrow> fadd x (Fin 0) = x"
  by (cases x) (simp_all add: f64_cases)

lemma fmul_1 [simp]: "f64 x \<Longrightarrow> fmul (Fin 1) x = x"
  by (cases x) (simp_all add: f64_cases finf_def)

lemma finf_f64 [simp]: "f64 (finf s)"
  by (simp add: finf_def)

lemma fdiv_f64 [simp]: "f64 (fdiv a b)"
  by (cases a; cases b) simp_all

lemma round64_0 [simp]: "round64 0 = Fin 0"
  by (simp add: round64_def)

definition effective_loss :: "path_metrics \<Rightarrow> float64" where
  "effective_loss pm = fmul (fsub (Fin 1) (pm_availability pm)) (fdiv (pm_loss pm) (Fin 100))"

lemma calculatePathCost_cost:
  "pm_cost (calculatePathCost pm) =
     (if feq (pm_availability pm) (Fin 0) \<or> feq (pm_latency pm) (Fin 0) \<or> fle (Fin 1) (effective_loss pm)
      then PInf else fdiv (pm_latency pm) (Fin 1000))"
  by (simp add: calculatePathCost_def effective_loss_def)

text \<open>One step of the selection keeps the best version seen so far, when no cost is NaN.\<close>

definition best_of :: "metrics_map \<Rightarrow> string set \<Rightarrow> string \<times> float64 \<Rightarrow> bool" where
  "best_of m V best \<longleftrightarrow>
     (if snd best = PInf then fst best = [] \<and> (\<forall>v\<in>V. \<forall>pm. m v = Some pm \<longrightarrow> pm_cost pm = PInf)
      else (\<exists>pm. m (fst best) = Some pm \<and> pm_cost pm = snd best) \<and> snd best \<noteq> NaN \<and>
           (\<forall>v\<in>V. \<forall>pm. m v = Some pm \<longrightarrow> snd best \<le> pm_cost pm))"

lemma prefer_step_best_of:
  assumes "best_of m V best" "\<And>v pm. m v = Some pm \<Longrightarrow> pm_cost pm \<noteq> NaN"
  shows "best_of m (insert v V) (prefer_step m v best)"
proof (cases "m v")
  case None
  with assms(1) show ?thesis by (auto simp: prefer_step_def best_of_def split: if_splits)
next
  case (Some pm)
  with assms(2) have n: "pm_cost pm \<noteq> NaN" by blast
  show ?thesis
  proof (cases "snd best = PInf")
    case True
    with assms(1) Some n show ?thesis
      by (auto simp: prefer_step_def best_of_def is_pinf_def)
  next
    case False
    with assms(1) Some n show ?thesis
      by (cases "pm_cost pm < snd best")
        (auto simp: prefer_step_def best_of_def is_pinf_def flt_def not_less intro: order_trans less_imp_le)
  qed
qed

lemma fold_prefer_best_of:
  assumes "\<And>v pm. m v = Some pm \<Longrightarrow> pm_cost pm \<noteq> NaN"
  shows "best_of m V best \<Longrightarrow> best_of m (V \<union> set vs) (fold (prefer_step m) vs best)"
proof (induction vs arbitrary: V best)
  case (Cons v vs)
  then have "best_of m (insert v V) (prefer_step m v best)"
    using assms by (intro prefer_step_best_of)
  from Cons.IH [OF this] show ?case by simp
qed simp

lemma choose_version_best:
  assumes "enumerates vs m" "m [] = None" "\<And>v pm. m v = Some pm \<Longrightarrow> pm_cost pm \<noteq> NaN"
  shows "(case choose_version m vs of
            Inr (v, c) \<Rightarrow> (\<exists>pm. m v = Some pm \<and> pm_cost pm = c) \<and> c \<noteq> PInf \<and> c \<noteq> NaN \<and>
                          (\<forall>v' pm. m v' = Some pm \<longrightarrow> c \<le> pm_cost pm)
          | Inl e \<Rightarrow> e = Err ErrNoPaths \<and> (\<forall>v pm. m v = Some pm \<longrightarrow> pm_cost pm = PInf))"
proof -
  let ?b = "fold (prefer_step m) vs ('''', PInf)"
  have "best_of m (set vs) ?b"
    using fold_prefer_best_of [of m "{}" "('''', PInf)" vs] assms(3) by (simp add: best_of_def)
  then have b: "best_of m (dom m) ?b" using assms(1) by (simp add: enumerates_def)
  show ?thesis
  proof (cases "snd ?b = PInf")
    case True
    with b show ?thesis by (auto simp: choose_version_def best_of_def Let_def dom_def)
  next
    case False
    with b assms(2) have "fst ?b \<noteq> []" by (auto simp: best_of_def)
    with b False show ?thesis
      by (auto simp: choose_version_def best_of_def Let_def dom_def split: prod.splits)
  qed
qed

text \<open>The metrics map keeps its two versions.\<close>

lemma apply_result_dom: "apply_result i r m = Inr m' \<Longrightarrow> dom m' = dom m"
  by (auto simp: apply_result_def go_bind_eq_Inr set_metric_def split: if_splits option.splits)

lemma GetPathMetrics_dom:
  assumes "GetPathMetrics E a b w = (Inr m, w')"
  shows "dom m = {''4'', ''6''}"
proof -
  from assms obtain m0 w0 where
    l: "for_each (metrics_step E) (metrics_queries (GetPathLabel a b)) initial_metrics w = (Inr m0, w0)"
    and m: "m = (\<lambda>v. map_option calculatePathCost (m0 v))"
    by (auto simp: GetPathMetrics_def Let_def bind_eq_Inr)
  have step: "dom m2 = dom m1" if "metrics_step E x m1 w1 = (Inr m2, w2)" for x m1 m2 w1 and w2 :: "'a world_scheme"
  proof -
    from that obtain resp :: query_response where "go_fold (apply_result (fst x)) (q_result resp) m1 = Inr m2"
      unfolding metrics_step_def bind_lift_eq_Inr by blast
    then show ?thesis
      by (rule go_fold_invariant [where P = "\<lambda>m. dom m = dom m1"]) (simp, metis apply_result_dom)
  qed
  have "dom m0 = dom initial_metrics"
    by (rule for_each_invariant [OF l, where P = "\<lambda>m w. dom m = dom initial_metrics"]) (simp, metis step)
  then have "dom m0 = {''4'', ''6''}" by (auto simp: initial_metrics_def)
  then show ?thesis by (auto simp: m dom_def)
qed

section \<open>Properties\<close>

text \<open>
  C11. \<open>GetPreferredPath\<close> chooses well, whatever order Go's map iteration takes: when no computed cost is NaN,
  it returns a version ("4" or "6") of least cost among those that are not +Inf, and that cost; it
  reports \<open>ErrNoPaths\<close> exactly when the cost of both versions is +Inf.
\<close>

theorem GetPreferredPath_cheapest:
  fixes w w1 :: "'z world_scheme"
  assumes "GetPathMetrics E origin remote w = (Inr m, w1)"
    and "set (version_order E (ticks w1)) = {''4'', ''6''}" "distinct (version_order E (ticks w1))"
    and "\<And>v pm. m v = Some pm \<Longrightarrow> pm_cost pm \<noteq> NaN"
  shows "\<exists>r. GetPreferredPath E origin remote w = (r, w1) \<and>
     (case r of
        Inr (v, c) \<Rightarrow> v \<in> {''4'', ''6''} \<and> (\<exists>pm. m v = Some pm \<and> pm_cost pm = c) \<and> c \<noteq> PInf \<and>
                      (\<forall>v' pm. m v' = Some pm \<longrightarrow> c \<le> pm_cost pm)
      | Inl e \<Rightarrow> e = Err ErrNoPaths \<and> (\<forall>v pm. m v = Some pm \<longrightarrow> pm_cost pm = PInf))"
proof -
  let ?vs = "version_order E (ticks w1)"
  have dom: "dom m = {''4'', ''6''}" by (rule GetPathMetrics_dom [OF assms(1)])
  then have "enumerates ?vs m" "m [] = None" using assms(2,3) by (auto simp: enumerates_def)
  from choose_version_best [OF this assms(4)] have best: "case choose_version m ?vs of
            Inr (v, c) \<Rightarrow> (\<exists>pm. m v = Some pm \<and> pm_cost pm = c) \<and> c \<noteq> PInf \<and> c \<noteq> NaN \<and>
                          (\<forall>v' pm. m v' = Some pm \<longrightarrow> c \<le> pm_cost pm)
          | Inl e \<Rightarrow> e = Err ErrNoPaths \<and> (\<forall>v pm. m v = Some pm \<longrightarrow> pm_cost pm = PInf)" .
  have v: "v \<in> {''4'', ''6''}" if "m v = Some pm" for v pm using that dom by blast
  have "GetPreferredPath E origin remote w = (choose_version m ?vs, w1)"
    using assms(1) by (simp add: GetPreferredPath_def bind_def)
  with best v show ?thesis by (cases "choose_version m ?vs") auto
qed

text \<open>
  A NaN cost, which a NaN latency sample produces, breaks the choice: with the costs 1 and NaN the version
  returned depends on the order of the map iteration, and one order returns the NaN.
\<close>

lemma choose_version_nan:
  assumes "m ''4'' = Some a" "pm_cost a = Fin 1" "m ''6'' = Some b" "pm_cost b = NaN"
  shows "choose_version m [''4'', ''6''] = Inr (''4'', Fin 1) \<and>
         choose_version m [''6'', ''4''] = Inr (''6'', NaN)"
  using assms by (simp add: choose_version_def prefer_step_def is_pinf_def Let_def flt_def)

lemma choose_version_nan_witness:
  "let m = [''4'' \<mapsto> zero_metrics\<lparr>pm_cost := Fin 1\<rparr>, ''6'' \<mapsto> zero_metrics\<lparr>pm_cost := NaN\<rparr>]
   in choose_version m [''4'', ''6''] = Inr (''4'', Fin 1) \<and> choose_version m [''6'', ''4''] = Inr (''6'', NaN)"
  using choose_version_nan [of "[''4'' \<mapsto> zero_metrics\<lparr>pm_cost := Fin 1\<rparr>, ''6'' \<mapsto> zero_metrics\<lparr>pm_cost := NaN\<rparr>]"
      "zero_metrics\<lparr>pm_cost := Fin 1\<rparr>" "zero_metrics\<lparr>pm_cost := NaN\<rparr>"]
  by (simp add: Let_def)

end
