(* ===== verification/Cost.thy ===== *)
theory Cost
  imports Metrics
begin

text \<open>
  \<^verbatim>\<open>internal/route/cost\<close>: the two process-wide caches, of path costs (15 s) and of path latencies
  (1 min), and the functions that read through them. Times are nanoseconds. What the code does while it holds a mutex is one
  definition, such as \<open>cost_lookup\<close> and \<open>cost_store\<close>, and one step; \<open>GetPathCost\<close>, \<open>GetPathLatency\<close> and \<open>RefreshPathLatency\<close>
  are compositions of such steps and of a query without a mutex. They describe a call that nothing interrupts; the relations
  \<open>cost_step\<close> and \<open>latency_step\<close> interleave the steps of any number of calls with those of the cleaner, and the properties of
  the caches are shown for them.
\<close>

section \<open>State\<close>

record cost_entry =
  ce_cost :: float64
  ce_expiration :: int

record latency_entry =
  le_latency :: float64
  le_expiration :: int

record cost_world = world +
  cost_cache :: "string \<rightharpoonup> cost_entry"
  latency_cache :: "string \<rightharpoonup> latency_entry"

definition second :: int where
  "second = 1000000000"

definition cost_cache_expiration :: int where
  "cost_cache_expiration = 15 * second"

definition path_cache_expiration :: int where
  "path_cache_expiration = 60 * second"

section \<open>cost.go\<close>

definition generateCostCacheKey :: "int \<Rightarrow> int \<Rightarrow> string" where
  "generateCostCacheKey src dst = itoa src @ ''-'' @ itoa dst"

text \<open>\<open>SetPathCost\<close>: the three kinds of error become errors without a chain.\<close>

definition SetPathCost :: "env \<Rightarrow> int \<Rightarrow> int \<Rightarrow> ('z world_scheme, float64) proc" where
  "SetPathCost E src dst =
     (if dst = 65000 then ret (Fin 0)
      else attempt (GetPreferredPath E (src - 64512) (dst - 64512))
        (\<lambda>r. case r of
               Inl err \<Rightarrow>
                 (if errors_is err ctx_canceled \<or> errors_is err ctx_deadline \<or> errors_as_netop err
                  then throw (Err (Errorf ''timed out getting preferred interface version''))
                  else if errors_is err ErrNoPaths then throw (Err (Errorf ''no available paths''))
                  else throw (Err (Errorf ''failed to get path cost'')))
             | Inr (v, cost) \<Rightarrow>
                 (if is_pinf cost then throw (Err (Errorf ''unexpected infinity cost''))
                  else if feq cost (Fin 0) then throw (Err (Errorf ''unexpected cost of 0''))
                  else ret cost)))"

text \<open>The two critical sections of \<open>GetPathCost\<close>: under the read lock, a cost that has not expired; under the lock, a new entry.\<close>

definition cost_lookup :: "env \<Rightarrow> int \<Rightarrow> int \<Rightarrow> ('z cost_world_scheme, float64 option) proc" where
  "cost_lookup E src dst w =
     (case cost_cache w (generateCostCacheKey src dst) of
        None \<Rightarrow> (Inr None, w)
      | Some e \<Rightarrow> bind (time_now E) (\<lambda>now. ret (if now < ce_expiration e then Some (ce_cost e) else None)) w)"

definition cost_store :: "env \<Rightarrow> int \<Rightarrow> int \<Rightarrow> float64 \<Rightarrow> ('z cost_world_scheme, unit) proc" where
  "cost_store E src dst cost =
     bind (time_now E) (\<lambda>now w. (Inr (), w\<lparr>cost_cache := (cost_cache w)
       (generateCostCacheKey src dst \<mapsto> \<lparr>ce_cost = cost, ce_expiration = now + cost_cache_expiration\<rparr>)\<rparr>))"

text \<open>The error of a call comes with the value +Inf, which no caller reads.\<close>

definition GetPathCost :: "env \<Rightarrow> int \<Rightarrow> int \<Rightarrow> ('z cost_world_scheme, float64) proc" where
  "GetPathCost E src dst =
     bind (cost_lookup E src dst)
       (\<lambda>hit. case hit of
                Some cost \<Rightarrow> ret cost
              | None \<Rightarrow> bind (SetPathCost E src dst) (\<lambda>cost. bind (cost_store E src dst cost) (\<lambda>u. ret cost)))"

text \<open>One tick of \<open>cleanExpired\<close>.\<close>

definition cost_cleanExpired :: "env \<Rightarrow> ('z cost_world_scheme, unit) proc" where
  "cost_cleanExpired E =
     bind (time_now E)
       (\<lambda>now w. (Inr (), w\<lparr>cost_cache := (\<lambda>k. case cost_cache w k of
            None \<Rightarrow> None | Some e \<Rightarrow> if now > ce_expiration e then None else Some e)\<rparr>))"

section \<open>path.go\<close>

definition generatePathLatencyCacheKey :: "int \<Rightarrow> int \<Rightarrow> string" where
  "generatePathLatencyCacheKey src dst = itoa src @ ''-'' @ itoa dst"

text \<open>The error of \<open>GetPingPathLatency\<close> is dropped; it comes with a latency of 0.\<close>

definition SetPathLatency :: "env \<Rightarrow> int \<Rightarrow> int \<Rightarrow> ('z world_scheme, float64) proc" where
  "SetPathLatency E src dst =
     attempt (GetPingPathLatency E src dst)
       (\<lambda>r. let latency = (case r of Inl err \<Rightarrow> Fin 0 | Inr l \<Rightarrow> l)
             in if feq latency (Fin 0) then throw (Err (Errorf ''unexpected latency of 0''))
                else ret (fdiv latency (Fin 2)))"

definition latency_lookup :: "env \<Rightarrow> int \<Rightarrow> int \<Rightarrow> ('z cost_world_scheme, float64 option) proc" where
  "latency_lookup E src dst w =
     (case latency_cache w (generatePathLatencyCacheKey src dst) of
        None \<Rightarrow> (Inr None, w)
      | Some e \<Rightarrow> bind (time_now E) (\<lambda>now. ret (if now < le_expiration e then Some (le_latency e) else None)) w)"

definition latency_store :: "env \<Rightarrow> int \<Rightarrow> int \<Rightarrow> float64 \<Rightarrow> ('z cost_world_scheme, unit) proc" where
  "latency_store E src dst latency =
     bind (time_now E) (\<lambda>now w. (Inr (), w\<lparr>latency_cache := (latency_cache w)
       (generatePathLatencyCacheKey src dst \<mapsto> \<lparr>le_latency = latency, le_expiration = now + path_cache_expiration\<rparr>)\<rparr>))"

definition GetPathLatency :: "env \<Rightarrow> int \<Rightarrow> int \<Rightarrow> ('z cost_world_scheme, float64) proc" where
  "GetPathLatency E src dst =
     bind (latency_lookup E src dst)
       (\<lambda>hit. case hit of
                Some latency \<Rightarrow> ret latency
              | None \<Rightarrow> bind (SetPathLatency E src dst)
                  (\<lambda>latency. bind (latency_store E src dst latency) (\<lambda>u. ret latency)))"

definition latency_cleanExpired :: "env \<Rightarrow> ('z cost_world_scheme, unit) proc" where
  "latency_cleanExpired E =
     bind (time_now E)
       (\<lambda>now w. (Inr (), w\<lparr>latency_cache := (\<lambda>k. case latency_cache w k of
            None \<Rightarrow> None | Some e \<Rightarrow> if now > le_expiration e then None else Some e)\<rparr>))"

definition OverwritePathLatency :: "env \<Rightarrow> int \<Rightarrow> int \<Rightarrow> float64 \<Rightarrow> ('z cost_world_scheme, unit) proc" where
  "OverwritePathLatency E src dst latency =
     bind (time_now E)
       (\<lambda>now w. (Inr (), w\<lparr>latency_cache := (latency_cache w)
          (generatePathLatencyCacheKey src dst \<mapsto>
             \<lparr>le_latency = latency, le_expiration = now + path_cache_expiration\<rparr>)\<rparr>))"

definition latency_delete :: "int \<Rightarrow> int \<Rightarrow> ('z cost_world_scheme, unit) proc" where
  "latency_delete src dst w =
     (Inr (), w\<lparr>latency_cache := (latency_cache w)(generatePathLatencyCacheKey src dst := None)\<rparr>)"

definition RefreshPathLatency :: "env \<Rightarrow> int \<Rightarrow> int \<Rightarrow> ('z cost_world_scheme, float64) proc" where
  "RefreshPathLatency E src dst = bind (latency_delete src dst) (\<lambda>u. GetPathLatency E src dst)"

section \<open>Calls of several goroutines\<close>

text \<open>
  Where a call is: before its first critical section, before or in its query, before its second critical section, or returned.
\<close>

datatype cache_stage = Looking | Querying | Storing float64 | Finished "float64 go"

type_synonym cache_calls = "nat \<rightharpoonup> int \<times> int \<times> cache_stage"

text \<open>
  What a step does to the entries: \<open>(k, Some (v, t))\<close> for a value stored under \<open>k\<close> at time \<open>t\<close>, \<open>(k, None)\<close> for one
  deleted on request.
\<close>

type_synonym cache_event = "string \<times> (float64 \<times> int) option"

text \<open>
  The cost cache with the calls \<open>calls\<close> of \<open>GetPathCost\<close>: each step is one of a call, of the cleaner or of the clock. The
  queries of a call may overlap with anything, so their answers come from an environment and a state of their own.
\<close>

inductive cost_step ::
    "env \<Rightarrow> cache_calls \<times> 'z cost_world_scheme \<Rightarrow> cache_event list \<Rightarrow> cache_calls \<times> 'z cost_world_scheme \<Rightarrow> bool"
  for E :: env where
  cost_calls: "calls i = None \<Longrightarrow> cost_step E (calls, w) [] (calls(i \<mapsto> (src, dst, Looking)), w)"
| cost_hits: "calls i = Some (src, dst, Looking) \<Longrightarrow> cost_lookup E src dst w = (Inr (Some c), w') \<Longrightarrow>
    cost_step E (calls, w) [] (calls(i \<mapsto> (src, dst, Finished (Inr c))), w')"
| cost_misses: "calls i = Some (src, dst, Looking) \<Longrightarrow> cost_lookup E src dst w = (Inr None, w') \<Longrightarrow>
    cost_step E (calls, w) [] (calls(i \<mapsto> (src, dst, Querying)), w')"
| cost_computes: "calls i = Some (src, dst, Querying) \<Longrightarrow> SetPathCost E' src dst (v :: 'z cost_world_scheme) = (Inr c, v') \<Longrightarrow>
    cost_step E (calls, w) [] (calls(i \<mapsto> (src, dst, Storing c)), w)"
| cost_fails: "calls i = Some (src, dst, Querying) \<Longrightarrow> SetPathCost E' src dst (v :: 'z cost_world_scheme) = (Inl f, v') \<Longrightarrow>
    cost_step E (calls, w) [] (calls(i \<mapsto> (src, dst, Finished (Inl f))), w)"
| cost_stores: "calls i = Some (src, dst, Storing c) \<Longrightarrow> cost_store E src dst c w = (Inr (), w') \<Longrightarrow>
    cost_step E (calls, w) [(generateCostCacheKey src dst, Some (c, clock E (ticks w)))]
      (calls(i \<mapsto> (src, dst, Finished (Inr c))), w')"
| cost_cleans: "cost_cleanExpired E w = (Inr (), w') \<Longrightarrow> cost_step E (calls, w) [] (calls, w')"
| cost_passes: "ticks w \<le> n \<Longrightarrow> cost_step E (calls, w) [] (calls, w\<lparr>ticks := n\<rparr>)"

text \<open>The latency cache, with calls of \<open>GetPathLatency\<close> and \<open>RefreshPathLatency\<close>, which differ in how they begin.\<close>

inductive latency_step ::
    "env \<Rightarrow> cache_calls \<times> 'z cost_world_scheme \<Rightarrow> cache_event list \<Rightarrow> cache_calls \<times> 'z cost_world_scheme \<Rightarrow> bool"
  for E :: env where
  latency_calls: "calls i = None \<Longrightarrow> latency_step E (calls, w) [] (calls(i \<mapsto> (src, dst, Looking)), w)"
| latency_refreshes: "calls i = None \<Longrightarrow> latency_delete src dst w = (Inr (), w') \<Longrightarrow>
    latency_step E (calls, w) [(generatePathLatencyCacheKey src dst, None)] (calls(i \<mapsto> (src, dst, Looking)), w')"
| latency_hits: "calls i = Some (src, dst, Looking) \<Longrightarrow> latency_lookup E src dst w = (Inr (Some c), w') \<Longrightarrow>
    latency_step E (calls, w) [] (calls(i \<mapsto> (src, dst, Finished (Inr c))), w')"
| latency_misses: "calls i = Some (src, dst, Looking) \<Longrightarrow> latency_lookup E src dst w = (Inr None, w') \<Longrightarrow>
    latency_step E (calls, w) [] (calls(i \<mapsto> (src, dst, Querying)), w')"
| latency_computes: "calls i = Some (src, dst, Querying) \<Longrightarrow> SetPathLatency E' src dst (v :: 'z cost_world_scheme) = (Inr c, v') \<Longrightarrow>
    latency_step E (calls, w) [] (calls(i \<mapsto> (src, dst, Storing c)), w)"
| latency_fails: "calls i = Some (src, dst, Querying) \<Longrightarrow> SetPathLatency E' src dst (v :: 'z cost_world_scheme) = (Inl f, v') \<Longrightarrow>
    latency_step E (calls, w) [] (calls(i \<mapsto> (src, dst, Finished (Inl f))), w)"
| latency_stores: "calls i = Some (src, dst, Storing c) \<Longrightarrow> latency_store E src dst c w = (Inr (), w') \<Longrightarrow>
    latency_step E (calls, w) [(generatePathLatencyCacheKey src dst, Some (c, clock E (ticks w)))]
      (calls(i \<mapsto> (src, dst, Finished (Inr c))), w')"
| latency_overwrites: "OverwritePathLatency E src dst l w = (Inr (), w') \<Longrightarrow>
    latency_step E (calls, w) [(generatePathLatencyCacheKey src dst, Some (l, clock E (ticks w)))] (calls, w')"
| latency_cleans: "latency_cleanExpired E w = (Inr (), w') \<Longrightarrow> latency_step E (calls, w) [] (calls, w')"
| latency_passes: "ticks w \<le> n \<Longrightarrow> latency_step E (calls, w) [] (calls, w\<lparr>ticks := n\<rparr>)"

section \<open>Facts\<close>

lemma cost_key_inj:
  "generateCostCacheKey a b = generateCostCacheKey c d \<longleftrightarrow> a = c \<and> b = d"
  unfolding generateCostCacheKey_def by (rule pair_key_inj)

lemma latency_key_inj:
  "generatePathLatencyCacheKey a b = generatePathLatencyCacheKey c d \<longleftrightarrow> a = c \<and> b = d"
  unfolding generatePathLatencyCacheKey_def by (rule pair_key_inj)

lemma attempt_eq_Inr:
  "attempt m k s = (Inr v, t) \<longleftrightarrow>
     (\<exists>e u. m s = (Inl (Err e), u) \<and> k (Inl e) u = (Inr v, t)) \<or>
     (\<exists>x u. m s = (Inr x, u) \<and> k (Inr x) u = (Inr v, t))"
  by (auto simp: attempt_def split: prod.splits sum.splits go_fault.splits)

text \<open>What a computed cost can be: 0 only for the static destination, never +Inf.\<close>

definition cost_range :: "int \<Rightarrow> float64 \<Rightarrow> bool" where
  "cost_range dst c \<longleftrightarrow> c \<noteq> PInf \<and> (if dst = 65000 then c = Fin 0 else c \<noteq> Fin 0)"

lemma SetPathCost_range: "SetPathCost E src dst w = (Inr c, w') \<Longrightarrow> cost_range dst c"
  by (auto simp: SetPathCost_def cost_range_def attempt_eq_Inr is_pinf_def feq_def split: if_splits)

text \<open>
  The invariant of the cost cache: under the key of \<open>(src, dst)\<close> there is only a cost that
  \<open>SetPathCost\<close> can compute for it.
\<close>

definition cost_cache_inv :: "'z cost_world_scheme \<Rightarrow> bool" where
  "cost_cache_inv w \<longleftrightarrow>
     (\<forall>src dst e. cost_cache w (generateCostCacheKey src dst) = Some e \<longrightarrow> cost_range dst (ce_cost e))"

text \<open>Queries and clock readings do not touch the caches: computing a cost only moves the clock.\<close>

definition only_ticks :: "('z world_scheme, 'a) proc \<Rightarrow> bool" where
  "only_ticks m \<longleftrightarrow> (\<forall>w. \<exists>n\<ge>ticks w. snd (m w) = w\<lparr>ticks := n\<rparr>)"

lemma only_ticksD: "only_ticks m \<Longrightarrow> m w = (r, w') \<Longrightarrow> \<exists>n\<ge>ticks w. w' = w\<lparr>ticks := n\<rparr>"
  by (metis only_ticks_def snd_conv)

lemma only_ticksI: "(\<And>w. \<exists>n\<ge>ticks w. snd (m w) = w\<lparr>ticks := n\<rparr>) \<Longrightarrow> only_ticks m"
  by (simp add: only_ticks_def)

lemma only_ticks_same:
  fixes m :: "('z world_scheme, 'a) proc"
  assumes "\<And>w. snd (m w) = w"
  shows "only_ticks m"
proof (rule only_ticksI)
  fix w :: "'z world_scheme"
  from assms show "\<exists>n\<ge>ticks w. snd (m w) = w\<lparr>ticks := n\<rparr>" by (intro exI [of _ "ticks w"]) simp
qed

lemma only_ticks_Suc:
  fixes m :: "('z world_scheme, 'a) proc"
  assumes "\<And>w. snd (m w) = w\<lparr>ticks := Suc (ticks w)\<rparr>"
  shows "only_ticks m"
proof (rule only_ticksI)
  fix w :: "'z world_scheme"
  from assms show "\<exists>n\<ge>ticks w. snd (m w) = w\<lparr>ticks := n\<rparr>" by (intro exI [of _ "Suc (ticks w)"]) simp
qed

lemma only_ticks_basic [simp]: "only_ticks (ret v)" "only_ticks (throw e)" "only_ticks (lift_go r)"
  "only_ticks (time_now E)" "only_ticks (http_do E q)"
  by (auto intro: only_ticks_same only_ticks_Suc simp: time_now_def http_do_def)

lemma only_ticks_trans:
  assumes "only_ticks m" "m w = (x, u)" "\<exists>n\<ge>ticks u. w' = u\<lparr>ticks := n\<rparr>"
  shows "\<exists>n\<ge>ticks w. w' = w\<lparr>ticks := n\<rparr>"
proof -
  from only_ticksD [OF assms(1,2)] obtain n where "n \<ge> ticks w" "u = w\<lparr>ticks := n\<rparr>" by blast
  moreover from assms(3) obtain k where "k \<ge> ticks u" "w' = u\<lparr>ticks := k\<rparr>" by blast
  ultimately show ?thesis by (intro exI [of _ k]) simp
qed

lemma only_ticks_bind:
  fixes m :: "('z world_scheme, 'a) proc"
  assumes "only_ticks m" "\<And>v. only_ticks (k v)"
  shows "only_ticks (bind m k)"
proof (rule only_ticksI)
  fix w :: "'z world_scheme"
  obtain x u where m: "m w = (x, u)" by (cases "m w")
  have "\<exists>n\<ge>ticks u. snd (bind m k w) = u\<lparr>ticks := n\<rparr>"
    using m assms(2) by (cases x) (auto simp: bind_def only_ticks_def intro!: exI [of _ "ticks u"])
  with only_ticks_trans [OF assms(1) m] show "\<exists>n\<ge>ticks w. snd (bind m k w) = w\<lparr>ticks := n\<rparr>" by blast
qed

lemma only_ticks_attempt:
  fixes m :: "('z world_scheme, 'a) proc"
  assumes "only_ticks m" "\<And>v. only_ticks (k v)"
  shows "only_ticks (attempt m k)"
proof (rule only_ticksI)
  fix w :: "'z world_scheme"
  obtain x u where m: "m w = (x, u)" by (cases "m w")
  have "\<exists>n\<ge>ticks u. snd (attempt m k w) = u\<lparr>ticks := n\<rparr>"
    using m assms(2)
    by (auto simp: attempt_def only_ticks_def intro!: exI [of _ "ticks u"] split: sum.splits go_fault.splits)
  with only_ticks_trans [OF assms(1) m] show "\<exists>n\<ge>ticks w. snd (attempt m k w) = w\<lparr>ticks := n\<rparr>" by blast
qed

lemma only_ticks_for_each: "(\<And>x a. only_ticks (f x a)) \<Longrightarrow> only_ticks (for_each f xs a)"
  by (induction xs arbitrary: a) (auto intro: only_ticks_bind)

lemma only_ticks_pure: "only_ticks (\<lambda>w. (f w, w))"
  by (rule only_ticks_same) simp

lemma only_ticks_GetPreferredPath: "only_ticks (GetPreferredPath E a b)"
  unfolding GetPreferredPath_def GetPathMetrics_def metrics_step_def query_range_def Let_def
  by (auto intro!: only_ticks_bind only_ticks_for_each only_ticks_pure)

lemma only_ticks_SetPathCost: "only_ticks (SetPathCost E src dst)"
  unfolding SetPathCost_def
  by (auto intro!: only_ticks_attempt only_ticks_GetPreferredPath split: sum.splits)

lemma only_ticks_SetPathLatency: "only_ticks (SetPathLatency E src dst)"
  unfolding SetPathLatency_def GetPingPathLatency_def query_range_def Let_def
  by (auto intro!: only_ticks_attempt only_ticks_bind split: list.splits)

text \<open>
  Both lookups have this form: an entry that has not expired is returned; otherwise the value is computed and stored with the
  time. The lemma says what a run does: it hits, stores or fails.
\<close>

definition cached_get ::
    "('z cost_world_scheme \<Rightarrow> 'e option) \<Rightarrow> ('e \<Rightarrow> int) \<Rightarrow> ('e \<Rightarrow> float64) \<Rightarrow> (float64 \<Rightarrow> int \<Rightarrow> 'z cost_world_scheme \<Rightarrow> 'z cost_world_scheme) \<Rightarrow>
     ('z cost_world_scheme, float64) proc \<Rightarrow> env \<Rightarrow> ('z cost_world_scheme, float64) proc" where
  "cached_get look expires val store compute E w =
     (let miss = bind compute (\<lambda>v. bind (time_now E) (\<lambda>now w. (Inr v, store v now w)))
      in case look w of
           None \<Rightarrow> miss w
         | Some e \<Rightarrow> bind (time_now E) (\<lambda>now. if now < expires e then ret (val e) else miss) w)"

lemma cached_get_cases:
  fixes w w' :: "'z cost_world_scheme"
  assumes "cached_get look expires val store compute E w = (r, w')" "only_ticks compute"
  obtains (hit) e where "look w = Some e" "clock E (ticks w) < expires e" "r = Inr (val e)" "w' = w\<lparr>ticks := Suc (ticks w)\<rparr>"
  | (stored) c n w1 where "r = Inr c" "ticks w \<le> n" "compute w1 = (Inr c, w\<lparr>ticks := n\<rparr>)"
      "w' = store c (clock E n) (w\<lparr>ticks := Suc n\<rparr>)"
  | (failed) n where "ticks w \<le> n" "\<not> go_ok r" "w' = w\<lparr>ticks := n\<rparr>"
proof -
  define miss where "miss = bind compute (\<lambda>v. bind (time_now E) (\<lambda>now w. (Inr v, store v now w)))"
  have miss: thesis if m: "miss v = (r, w')" and v: "v = w\<lparr>ticks := k\<rparr>" "ticks w \<le> k" for v k
  proof -
    obtain x u where s: "compute v = (x, u)" by (cases "compute v")
    from only_ticksD [OF assms(2) s] v obtain n where n: "ticks w \<le> n" "u = w\<lparr>ticks := n\<rparr>"
      by (elim exE) (auto intro: le_trans that)
    show thesis
    proof (cases x)
      case (Inl e)
      with m s n show thesis by (intro failed [of n]) (auto simp: miss_def bind_def go_ok_def)
    next
      case (Inr c)
      with m s n show thesis by (intro stored [of c n v]) (auto simp: miss_def bind_def time_now_def)
    qed
  qed
  have eq: "cached_get look expires val store compute E w =
     (case look w of None \<Rightarrow> miss w | Some e \<Rightarrow> bind (time_now E) (\<lambda>now. if now < expires e then ret (val e) else miss) w)"
    unfolding cached_get_def miss_def Let_def ..
  show thesis
  proof (cases "look w")
    case None
    with assms eq show thesis by (intro miss [of w "ticks w"]) auto
  next
    case (Some e)
    show thesis
    proof (cases "clock E (ticks w) < expires e")
      case True
      with assms eq Some show thesis by (intro hit) (auto simp: bind_def time_now_def)
    next
      case False
      with assms eq Some show thesis
        by (intro miss [of "w\<lparr>ticks := Suc (ticks w)\<rparr>" "Suc (ticks w)"]) (auto simp: bind_def time_now_def)
    qed
  qed
qed

lemma GetPathCost_cached_get:
  "GetPathCost E src dst = cached_get (\<lambda>w. cost_cache w (generateCostCacheKey src dst)) ce_expiration ce_cost
     (\<lambda>c now w. w\<lparr>cost_cache := (cost_cache w)(generateCostCacheKey src dst \<mapsto>
        \<lparr>ce_cost = c, ce_expiration = now + cost_cache_expiration\<rparr>)\<rparr>) (SetPathCost E src dst) E"
  by (rule ext) (auto simp: GetPathCost_def cost_lookup_def cost_store_def cached_get_def Let_def bind_def time_now_def
      split: option.splits sum.splits prod.splits)

lemma GetPathLatency_cached_get:
  "GetPathLatency E src dst = cached_get (\<lambda>w. latency_cache w (generatePathLatencyCacheKey src dst)) le_expiration le_latency
     (\<lambda>l now w. w\<lparr>latency_cache := (latency_cache w)(generatePathLatencyCacheKey src dst \<mapsto>
        \<lparr>le_latency = l, le_expiration = now + path_cache_expiration\<rparr>)\<rparr>) (SetPathLatency E src dst) E"
  by (rule ext) (auto simp: GetPathLatency_def latency_lookup_def latency_store_def cached_get_def Let_def bind_def time_now_def
      split: option.splits sum.splits prod.splits)

lemma GetPathCost_cases:
  fixes w w' :: "'z cost_world_scheme"
  assumes "GetPathCost E src dst w = (r, w')"
  obtains (hit) e where "cost_cache w (generateCostCacheKey src dst) = Some e"
      "clock E (ticks w) < ce_expiration e" "r = Inr (ce_cost e)" "w' = w\<lparr>ticks := Suc (ticks w)\<rparr>"
  | (stored) c n w1 where "r = Inr c" "ticks w \<le> n" "SetPathCost E src dst w1 = (Inr c, w\<lparr>ticks := n\<rparr>)"
      "w' = w\<lparr>ticks := Suc n, cost_cache := (cost_cache w)(generateCostCacheKey src dst \<mapsto>
              \<lparr>ce_cost = c, ce_expiration = clock E n + cost_cache_expiration\<rparr>)\<rparr>"
  | (failed) n where "ticks w \<le> n" "\<not> go_ok r" "w' = w\<lparr>ticks := n\<rparr>"
  using cached_get_cases [OF assms [unfolded GetPathCost_cached_get] only_ticks_SetPathCost]
  by cases simp_all

lemma GetPathLatency_cases:
  fixes w w' :: "'z cost_world_scheme"
  assumes "GetPathLatency E src dst w = (r, w')"
  obtains (hit) e where "latency_cache w (generatePathLatencyCacheKey src dst) = Some e"
      "clock E (ticks w) < le_expiration e" "r = Inr (le_latency e)" "w' = w\<lparr>ticks := Suc (ticks w)\<rparr>"
  | (stored) l n w1 where "r = Inr l" "ticks w \<le> n" "SetPathLatency E src dst w1 = (Inr l, w\<lparr>ticks := n\<rparr>)"
      "w' = w\<lparr>ticks := Suc n, latency_cache := (latency_cache w)(generatePathLatencyCacheKey src dst \<mapsto>
              \<lparr>le_latency = l, le_expiration = clock E n + path_cache_expiration\<rparr>)\<rparr>"
  | (failed) n where "ticks w \<le> n" "\<not> go_ok r" "w' = w\<lparr>ticks := n\<rparr>"
  using cached_get_cases [OF assms [unfolded GetPathLatency_cached_get] only_ticks_SetPathLatency]
  by cases simp_all

lemma GetPathCost_range:
  assumes "cost_cache_inv w" "GetPathCost E src dst w = (Inr c, w')"
  shows "cost_range dst c"
  using assms(2)
proof (cases rule: GetPathCost_cases)
  case (hit e)
  with assms(1) show ?thesis by (auto simp: cost_cache_inv_def)
qed (auto simp: go_ok_def dest: SetPathCost_range)

lemma GetPathCost_keeps_inv:
  assumes "cost_cache_inv w" "GetPathCost E src dst w = (r, w')"
  shows "cost_cache_inv w'"
  using assms(2,1)
  by (cases rule: GetPathCost_cases) (auto simp: cost_cache_inv_def cost_key_inj dest: SetPathCost_range)

section \<open>Entries with a time to live\<close>

text \<open>The entries that the events of a run make of earlier ones: the latest event of a key counts.\<close>

definition entries_after :: "cache_event list \<Rightarrow> (string \<rightharpoonup> float64 \<times> int) \<Rightarrow> (string \<rightharpoonup> float64 \<times> int)" where
  "entries_after evs m = fold (\<lambda>(k, x) m. m(k := x)) evs m"

lemma entries_after_simps [simp]:
  "entries_after [] m = m" "entries_after ((k, x) # evs) m = entries_after evs (m(k := x))"
  "entries_after (evs @ evs') m = entries_after evs' (entries_after evs m)"
  by (simp_all add: entries_after_def)

lemma entries_after_other: "k \<notin> fst ` set evs \<Longrightarrow> entries_after evs m k = m k"
  by (induction evs arbitrary: m) auto

text \<open>What is found of an entry at a time: its value until it has expired.\<close>

definition fresh :: "int \<Rightarrow> int \<Rightarrow> (float64 \<times> int) option \<Rightarrow> float64 option" where
  "fresh ttl now entry = (case entry of None \<Rightarrow> None | Some (v, t) \<Rightarrow> if now < t + ttl then Some v else None)"

text \<open>
  What both caches promise: an event sets the entry of its key, and no other entry goes before its time. The time of a state
  is the latest the clock has shown.
\<close>

locale timed_cache =
  fixes look :: "'s \<Rightarrow> string \<Rightarrow> 'e option" and val :: "'e \<Rightarrow> float64" and expires :: "'e \<Rightarrow> int" and ttl :: int
    and time :: "'s \<Rightarrow> int" and step :: "'s \<Rightarrow> cache_event list \<Rightarrow> 's \<Rightarrow> bool"
  assumes time_step: "step s ev s' \<Longrightarrow> time s \<le> time s'"
    and one_event: "step s ev s' \<Longrightarrow> length ev \<le> 1"
    and recorded: "step s [(k, x)] s' \<Longrightarrow>
      (case x of None \<Rightarrow> look s' k = None | Some (v, t) \<Rightarrow> \<exists>e. look s' k = Some e \<and> val e = v \<and> expires e = t + ttl)"
    and kept: "step s ev s' \<Longrightarrow> k \<notin> fst ` set ev \<Longrightarrow>
      look s' k = look s k \<or> look s' k = None \<and> (\<exists>e. look s k = Some e \<and> expires e < time s')"
begin

definition agrees_with :: "(string \<rightharpoonup> float64 \<times> int) \<Rightarrow> 's \<Rightarrow> bool" where
  "agrees_with m s \<longleftrightarrow> (\<forall>k. case look s k of
      Some e \<Rightarrow> \<exists>t. m k = Some (val e, t) \<and> expires e = t + ttl
    | None \<Rightarrow> \<forall>v t. m k = Some (v, t) \<longrightarrow> t + ttl < time s)"

lemma agrees_kept:
  assumes "agrees_with m s" "step s ev s'" "k \<notin> fst ` set ev"
  shows "case look s' k of Some e \<Rightarrow> \<exists>t. m k = Some (val e, t) \<and> expires e = t + ttl
    | None \<Rightarrow> \<forall>v t. m k = Some (v, t) \<longrightarrow> t + ttl < time s'"
proof -
  have "case look s k of Some e \<Rightarrow> \<exists>t. m k = Some (val e, t) \<and> expires e = t + ttl
    | None \<Rightarrow> \<forall>v t. m k = Some (v, t) \<longrightarrow> t + ttl < time s" using assms(1) by (simp add: agrees_with_def)
  then show ?thesis using kept [OF assms(2,3)] time_step [OF assms(2)] by (fastforce split: option.splits)
qed

lemma agrees_step:
  assumes "agrees_with m s" "step s ev s'"
  shows "agrees_with (entries_after ev m) s'"
proof (cases ev)
  case Nil
  with agrees_kept [OF assms] show ?thesis by (simp add: agrees_with_def)
next
  case (Cons kx rest)
  obtain k x where ev: "ev = [(k, x)]" using one_event [OF assms(2)] Cons by (cases kx) auto
  note rec = recorded [OF assms(2) [unfolded ev]]
  show ?thesis unfolding agrees_with_def
  proof
    fix j
    show "case look s' j of Some e \<Rightarrow> \<exists>t. entries_after ev m j = Some (val e, t) \<and> expires e = t + ttl
      | None \<Rightarrow> \<forall>v t. entries_after ev m j = Some (v, t) \<longrightarrow> t + ttl < time s'"
    proof (cases "j = k")
      case True
      with rec show ?thesis by (auto simp: ev split: option.splits)
    next
      case False
      moreover from False have "entries_after ev m j = m j" unfolding ev by simp
      moreover from False have "j \<notin> fst ` set ev" unfolding ev by simp
      ultimately show ?thesis using agrees_kept [OF assms, of j] by (simp split: option.splits)
    qed
  qed
qed

lemma agrees_runs: "labelled_runs step s evs s' \<Longrightarrow> agrees_with m s \<Longrightarrow> agrees_with (entries_after evs m) s'"
  by (induction rule: labelled_runs.induct) (auto intro: agrees_step)

lemma agrees_fresh:
  assumes "agrees_with m s" "now = time s"
  shows "(case look s k of None \<Rightarrow> None | Some e \<Rightarrow> if now < expires e then Some (val e) else None) = fresh ttl now (m k)"
proof -
  have "case look s k of Some e \<Rightarrow> \<exists>t. m k = Some (val e, t) \<and> expires e = t + ttl
    | None \<Rightarrow> \<forall>v t. m k = Some (v, t) \<longrightarrow> t + ttl < time s" using assms(1) by (simp add: agrees_with_def)
  then show ?thesis using assms(2) by (auto simp: fresh_def split: option.splits)
qed

end

definition latest :: "env \<Rightarrow> nat \<Rightarrow> int" where
  "latest E n = Max (clock E ` {..n})"

lemma latest_ge: "m \<le> n \<Longrightarrow> clock E m \<le> latest E n"
  by (simp add: latest_def)

lemma latest_mono: "m \<le> n \<Longrightarrow> latest E m \<le> latest E n"
  unfolding latest_def by (intro Max_mono) auto

lemma latest_mono_clock: "mono (clock E) \<Longrightarrow> latest E n = clock E n"
  unfolding latest_def by (intro Max_eqI) (auto dest: monoD)

section \<open>The two caches\<close>

text \<open>What the critical sections do to the state.\<close>

lemma cost_lookup_run: "cost_lookup E src dst w = (r, w') \<Longrightarrow> \<exists>n. ticks w \<le> n \<and> w' = w\<lparr>ticks := n\<rparr>"
  by (auto simp: cost_lookup_def bind_def time_now_def split: option.splits intro: exI [of _ "ticks w"] exI [of _ "Suc (ticks w)"])

lemma latency_lookup_run: "latency_lookup E src dst w = (r, w') \<Longrightarrow> \<exists>n. ticks w \<le> n \<and> w' = w\<lparr>ticks := n\<rparr>"
  by (auto simp: latency_lookup_def bind_def time_now_def split: option.splits intro: exI [of _ "ticks w"] exI [of _ "Suc (ticks w)"])

lemma cost_cleaned:
  "cost_cleanExpired E w = (Inr (), w') \<Longrightarrow> ticks w' = Suc (ticks w) \<and>
    cost_cache w' = (\<lambda>k. case cost_cache w k of None \<Rightarrow> None | Some e \<Rightarrow> if clock E (ticks w) > ce_expiration e then None else Some e)"
  by (auto simp: cost_cleanExpired_def bind_def time_now_def)

lemma latency_cleaned:
  "latency_cleanExpired E w = (Inr (), w') \<Longrightarrow> ticks w' = Suc (ticks w) \<and>
    latency_cache w' = (\<lambda>k. case latency_cache w k of None \<Rightarrow> None | Some e \<Rightarrow> if clock E (ticks w) > le_expiration e then None else Some e)"
  by (auto simp: latency_cleanExpired_def bind_def time_now_def)

lemmas cost_sections = cost_store_def bind_def time_now_def
lemmas latency_sections = latency_store_def latency_delete_def OverwritePathLatency_def bind_def time_now_def

lemma cost_step_time: "cost_step E s ev s' \<Longrightarrow> ticks (snd s) \<le> ticks (snd s')"
  by (erule cost_step.cases) (auto dest!: cost_lookup_run cost_cleaned simp: cost_sections)

lemma cost_step_kept:
  "cost_step E s ev s' \<Longrightarrow> k \<notin> fst ` set ev \<Longrightarrow> cost_cache (snd s') k = cost_cache (snd s) k \<or>
    cost_cache (snd s') k = None \<and> (\<exists>e. cost_cache (snd s) k = Some e \<and> ce_expiration e < latest E (ticks (snd s')))"
proof (erule cost_step.cases, goal_cases)
  case (7 w w' calls)
  with cost_cleaned [OF 7(5)] latest_ge [of "ticks w" "ticks w'" E] show ?case by (auto split: option.splits)
qed (auto dest!: cost_lookup_run simp: cost_sections)

lemma latency_step_time: "latency_step E s ev s' \<Longrightarrow> ticks (snd s) \<le> ticks (snd s')"
  by (erule latency_step.cases) (auto dest!: latency_lookup_run latency_cleaned simp: latency_sections)

lemma latency_step_kept:
  "latency_step E s ev s' \<Longrightarrow> k \<notin> fst ` set ev \<Longrightarrow> latency_cache (snd s') k = latency_cache (snd s) k \<or>
    latency_cache (snd s') k = None \<and> (\<exists>e. latency_cache (snd s) k = Some e \<and> le_expiration e < latest E (ticks (snd s')))"
proof (erule latency_step.cases, goal_cases)
  case (9 w w' calls)
  with latency_cleaned [OF 9(5)] latest_ge [of "ticks w" "ticks w'" E] show ?case by (auto split: option.splits)
qed (auto dest!: latency_lookup_run simp: latency_sections)

interpretation cost_ttl: timed_cache "\<lambda>s :: cache_calls \<times> 'z cost_world_scheme. cost_cache (snd s)" ce_cost ce_expiration
    cost_cache_expiration "\<lambda>s. latest E (ticks (snd s))" "cost_step E" for E :: env
proof
  fix s s' :: "cache_calls \<times> 'z cost_world_scheme" and k x
  show "cost_step E s ev s' \<Longrightarrow> length ev \<le> 1" for ev by (erule cost_step.cases) auto
  show "cost_step E s [(k, x)] s' \<Longrightarrow> case x of None \<Rightarrow> cost_cache (snd s') k = None
    | Some (v, t) \<Rightarrow> \<exists>e. cost_cache (snd s') k = Some e \<and> ce_cost e = v \<and> ce_expiration e = t + cost_cache_expiration"
    by (erule cost_step.cases) (auto simp: cost_sections)
qed (auto intro: latest_mono cost_step_time dest: cost_step_kept)

interpretation latency_ttl: timed_cache "\<lambda>s :: cache_calls \<times> 'z cost_world_scheme. latency_cache (snd s)" le_latency le_expiration
    path_cache_expiration "\<lambda>s. latest E (ticks (snd s))" "latency_step E" for E :: env
proof
  fix s s' :: "cache_calls \<times> 'z cost_world_scheme" and k x
  show "latency_step E s ev s' \<Longrightarrow> length ev \<le> 1" for ev by (erule latency_step.cases) auto
  show "latency_step E s [(k, x)] s' \<Longrightarrow> case x of None \<Rightarrow> latency_cache (snd s') k = None
    | Some (v, t) \<Rightarrow> \<exists>e. latency_cache (snd s') k = Some e \<and> le_latency e = v \<and> le_expiration e = t + path_cache_expiration"
    by (erule latency_step.cases) (auto simp: latency_sections)
qed (auto intro: latest_mono latency_step_time dest: latency_step_kept)

lemma cost_lookup_hit:
  "cost_lookup E src dst w = (Inr (Some c), w') \<Longrightarrow>
    \<exists>e. cost_cache w (generateCostCacheKey src dst) = Some e \<and> ce_cost e = c"
  by (auto simp: cost_lookup_def bind_def time_now_def split: option.splits if_splits)

lemma cost_lookup_fst:
  "fst (cost_lookup E src dst w) = Inr (case cost_cache w (generateCostCacheKey src dst) of None \<Rightarrow> None
    | Some e \<Rightarrow> if clock E (ticks w) < ce_expiration e then Some (ce_cost e) else None)"
  by (simp add: cost_lookup_def bind_def time_now_def split: option.splits)

lemma latency_lookup_fst:
  "fst (latency_lookup E src dst w) = Inr (case latency_cache w (generatePathLatencyCacheKey src dst) of None \<Rightarrow> None
    | Some e \<Rightarrow> if clock E (ticks w) < le_expiration e then Some (le_latency e) else None)"
  by (simp add: latency_lookup_def bind_def time_now_def split: option.splits)

lemma GetPathCost_found:
  assumes "fst (cost_lookup E src dst w) = Inr (Some c)"
  shows "GetPathCost E src dst w = (Inr c, w\<lparr>ticks := Suc (ticks w)\<rparr>)"
  using assms by (auto simp: GetPathCost_def cost_lookup_def bind_def time_now_def split: option.splits if_splits)

lemma GetPathLatency_found:
  assumes "fst (latency_lookup E src dst w) = Inr (Some c)"
  shows "GetPathLatency E src dst w = (Inr c, w\<lparr>ticks := Suc (ticks w)\<rparr>)"
  using assms by (auto simp: GetPathLatency_def latency_lookup_def bind_def time_now_def split: option.splits if_splits)

lemma GetPathCost_missed:
  assumes "fst (cost_lookup E src dst w) = Inr None"
  shows "\<exists>n\<ge>ticks w. GetPathCost E src dst w =
    bind (SetPathCost E src dst) (\<lambda>c. bind (cost_store E src dst c) (\<lambda>u. ret c)) (w\<lparr>ticks := n\<rparr>)"
proof -
  from assms obtain w' where w': "cost_lookup E src dst w = (Inr None, w')" by (metis prod.collapse)
  from cost_lookup_run [OF this] obtain n where "n \<ge> ticks w" "w' = w\<lparr>ticks := n\<rparr>" by blast
  with w' show ?thesis by (auto simp: GetPathCost_def bind_def intro!: exI [of _ n])
qed

lemma GetPathLatency_missed:
  assumes "fst (latency_lookup E src dst w) = Inr None"
  shows "\<exists>n\<ge>ticks w. GetPathLatency E src dst w =
    bind (SetPathLatency E src dst) (\<lambda>c. bind (latency_store E src dst c) (\<lambda>u. ret c)) (w\<lparr>ticks := n\<rparr>)"
proof -
  from assms obtain w' where w': "latency_lookup E src dst w = (Inr None, w')" by (metis prod.collapse)
  from latency_lookup_run [OF this] obtain n where "n \<ge> ticks w" "w' = w\<lparr>ticks := n\<rparr>" by blast
  with w' show ?thesis by (auto simp: GetPathLatency_def bind_def intro!: exI [of _ n])
qed

lemma entries_after_same: "m k = m' k \<Longrightarrow> entries_after evs m k = entries_after evs m' k"
proof (induction evs arbitrary: m m')
  case (Cons kx evs)
  obtain j x where kx: "kx = (j, x)" by (cases kx)
  from Cons.prems have "(m(j := x)) k = (m'(j := x)) k" by simp
  from Cons.IH [where m = "m(j := x)" and m' = "m'(j := x)", OF this] show ?case unfolding kx entries_after_simps .
qed simp

text \<open>What a call found is in range: the invariant of the calls and the cache together.\<close>

definition calls_inv :: "cache_calls \<times> 'z cost_world_scheme \<Rightarrow> bool" where
  "calls_inv s \<longleftrightarrow> cost_cache_inv (snd s) \<and>
     (\<forall>i src dst c. fst s i \<in> {Some (src, dst, Storing c), Some (src, dst, Finished (Inr c))} \<longrightarrow> cost_range dst c)"

lemma cost_lookup_inv: "cost_lookup E src dst w = (r, w') \<Longrightarrow> cost_cache_inv w' = cost_cache_inv w"
  by (auto dest!: cost_lookup_run simp: cost_cache_inv_def)

lemma cost_store_inv:
  assumes "cost_store E src dst c w = (r, w')" "cost_cache_inv w" "cost_range dst c"
  shows "cost_cache_inv w'"
  using assms by (auto simp: cost_sections cost_cache_inv_def cost_key_inj split: if_splits)

lemma cost_clean_inv: "cost_cleanExpired E w = (Inr (), w') \<Longrightarrow> cost_cache_inv w \<Longrightarrow> cost_cache_inv w'"
  by (auto simp: cost_cache_inv_def dest!: cost_cleaned split: option.splits if_splits)

lemma cost_step_calls_inv: "cost_step E s ev s' \<Longrightarrow> calls_inv s \<Longrightarrow> calls_inv s'"
proof (erule cost_step.cases, goal_cases)
  case (2 calls i src dst w c w')
  then have "cost_range dst c" using cost_lookup_hit [OF 2(6)] by (auto simp: calls_inv_def cost_cache_inv_def)
  with 2 show ?case by (auto simp: calls_inv_def cost_lookup_inv [OF 2(6)])
next
  case (4 calls i src dst E' v c v' w)
  with SetPathCost_range [OF 4(6)] show ?case by (auto simp: calls_inv_def)
next
  case (6 calls i src dst c w w')
  then have "cost_range dst c" by (auto simp: calls_inv_def)
  with 6 cost_store_inv [OF 6(6)] show ?case by (auto simp: calls_inv_def)
qed (auto simp: calls_inv_def cost_lookup_inv cost_cache_inv_def [of "_\<lparr>ticks := _\<rparr>"]
      cost_cache_inv_def [symmetric] intro: cost_clean_inv)

lemma cost_runs_calls_inv: "labelled_runs (cost_step E) s evs s' \<Longrightarrow> calls_inv s \<Longrightarrow> calls_inv s'"
  by (induction rule: labelled_runs.induct) (auto intro: cost_step_calls_inv)

text \<open>A call that nothing interrupts is a run of its steps.\<close>

lemma GetPathCost_runs:
  fixes w :: "'z cost_world_scheme"
  assumes "calls i = None" "GetPathCost E src dst w = (r, w')"
  shows "\<exists>evs. labelled_runs (cost_step E) (calls, w) evs (calls(i \<mapsto> (src, dst, Finished r)), w') \<and>
    (\<forall>c. cost_cache w (generateCostCacheKey src dst) = None \<longrightarrow> r = Inr c \<longrightarrow>
      evs = [(generateCostCacheKey src dst, Some (c, clock E (ticks w' - 1)))])"
proof -
  let ?at = "\<lambda>st. calls(i \<mapsto> (src, dst, st))"
  have begun: "labelled_runs (cost_step E) (calls, w) ([] @ []) (?at Looking, w)"
    by (rule runs_step [OF runs_start], rule cost_calls, rule assms(1))
  obtain x u where look: "cost_lookup E src dst w = (Inr x, u)"
    using cost_lookup_fst [of E src dst w] by (cases "cost_lookup E src dst w") auto
  show ?thesis
  proof (cases x)
    case (Some c)
    with look assms(2) have "r = Inr c" "w' = u" by (auto simp: GetPathCost_def bind_def)
    have "cost_step E (?at Looking, w) [] ((?at Looking)(i \<mapsto> (src, dst, Finished (Inr c))), u)"
      by (rule cost_hits [OF _ look [unfolded Some]]) simp
    from runs_step [OF begun this] \<open>r = Inr c\<close> \<open>w' = u\<close> cost_lookup_hit [OF look [unfolded Some]] show ?thesis by auto
  next
    case None
    have "cost_step E (?at Looking, w) [] ((?at Looking)(i \<mapsto> (src, dst, Querying)), u)"
      by (rule cost_misses [OF _ look [unfolded None]]) simp
    from runs_step [OF begun this] have missed: "labelled_runs (cost_step E) (calls, w) [] (?at Querying, u)" by simp
    obtain y v where query: "SetPathCost E src dst u = (y, v)" by (cases "SetPathCost E src dst u")
    from only_ticksD [OF only_ticks_SetPathCost query] obtain n where n: "ticks u \<le> n" "v = u\<lparr>ticks := n\<rparr>" by blast
    have passed: "cost_step E (c, u) [] (c, v)" for c using n cost_passes by fastforce
    show ?thesis
    proof (cases y)
      case (Inl f)
      with look None query assms(2) have r: "r = Inl f" "w' = v" by (auto simp: GetPathCost_def bind_def)
      have "cost_step E (?at Querying, u) [] ((?at Querying)(i \<mapsto> (src, dst, Finished (Inl f))), u)"
        by (rule cost_fails [OF _ query [unfolded Inl]]) simp
      from runs_step [OF runs_step [OF missed this] passed] r show ?thesis by auto
    next
      case (Inr c)
      have "cost_step E (?at Querying, u) [] ((?at Querying)(i \<mapsto> (src, dst, Storing c)), u)"
        by (rule cost_computes [OF _ query [unfolded Inr]]) simp
      from runs_step [OF runs_step [OF missed this] passed]
      have stored: "labelled_runs (cost_step E) (calls, w) [] (?at (Storing c), v)" by simp
      obtain v' where v': "cost_store E src dst c v = (Inr (), v')" by (simp add: cost_sections)
      with look None query Inr assms(2) have r: "r = Inr c" "w' = v'" by (auto simp: GetPathCost_def bind_def)
      have "cost_step E (?at (Storing c), v) [(generateCostCacheKey src dst, Some (c, clock E (ticks v)))]
          ((?at (Storing c))(i \<mapsto> (src, dst, Finished (Inr c))), v')"
        by (rule cost_stores [OF _ v']) simp
      moreover have "ticks v' - 1 = ticks v" using v' by (auto simp: cost_sections)
      ultimately show ?thesis using runs_step [OF stored] r by fastforce
    qed
  qed
qed

text \<open>
  The race of the latency cache: a call that missed and is about to store undoes an overwrite that happens before its store.
\<close>

lemma overwrite_lost:
  assumes "calls i = Some (src, dst, Storing c)" "OverwritePathLatency E src dst l w = (Inr (), w1)"
  shows "\<exists>evs calls' w2. labelled_runs (latency_step E) (calls, w1) evs (calls', w2) \<and>
    (\<exists>e. latency_cache w2 (generatePathLatencyCacheKey src dst) = Some e \<and> le_latency e = c)"
proof -
  obtain w2 where w2: "latency_store E src dst c w1 = (Inr (), w2)" by (simp add: latency_sections)
  from runs_step [where step = "latency_step E", OF runs_start latency_stores [where calls = calls and i = i, OF assms(1) w2]] w2 show ?thesis
    by (intro exI conjI) (assumption, auto simp: latency_sections)
qed

section \<open>Properties\<close>

text \<open>
  C8. However the goroutines interleave, a lookup of a cost finds the latest one stored for the pair, by whichever call,
  until 15 seconds after that store, and then answers without a query; once it has expired, or when none was stored, the
  call queries and stores. Neither the cleaner nor the calls for other pairs change that.
\<close>

theorem GetPathCost_cached:
  fixes w0 w :: "'z cost_world_scheme"
  assumes "mono (clock E)" "cost_cache w0 = Map.empty"
    and "labelled_runs (cost_step E) (Map.empty, w0) evs (calls, w)"
  shows "case fresh (15 * second) (clock E (ticks w)) (entries_after evs Map.empty (generateCostCacheKey src dst)) of
      Some c \<Rightarrow> GetPathCost E src dst w = (Inr c, w\<lparr>ticks := Suc (ticks w)\<rparr>)
    | None \<Rightarrow> \<exists>n\<ge>ticks w. GetPathCost E src dst w =
        bind (SetPathCost E src dst) (\<lambda>c. bind (cost_store E src dst c) (\<lambda>u. ret c)) (w\<lparr>ticks := n\<rparr>)"
proof -
  have "cost_ttl.agrees_with E Map.empty (Map.empty, w0)" using assms(2) by (simp add: cost_ttl.agrees_with_def)
  from cost_ttl.agrees_fresh [OF cost_ttl.agrees_runs [OF assms(3) this], of "clock E (ticks w)"]
  show ?thesis using GetPathCost_found GetPathCost_missed cost_lookup_fst [of E src dst w]
    by (auto simp: latest_mono_clock [OF assms(1)] cost_cache_expiration_def split: option.splits)
qed

text \<open>
  C9. After a latency is overwritten, a lookup finds it for 60 seconds, whatever other calls, overwrites and refreshes do
  meanwhile, unless one of them sets the entry of the same path again: an overwrite, a refresh, which deletes it, or the store
  of a call that had missed before. Then it finds what the last of them left.
\<close>

theorem OverwritePathLatency_lasts:
  fixes w0 w w1 w2 :: "'z cost_world_scheme"
  assumes "mono (clock E)" "latency_cache w0 = Map.empty"
    and "labelled_runs (latency_step E) (Map.empty, w0) evs1 (calls, w)"
    and "OverwritePathLatency E src dst l w = (Inr (), w1)"
    and "labelled_runs (latency_step E) (calls, w1) evs2 (calls2, w2)"
  shows "case fresh (60 * second) (clock E (ticks w2))
        (entries_after evs2 [generatePathLatencyCacheKey src dst \<mapsto> (l, clock E (ticks w))] (generatePathLatencyCacheKey src dst)) of
      Some c \<Rightarrow> GetPathLatency E src dst w2 = (Inr c, w2\<lparr>ticks := Suc (ticks w2)\<rparr>)
    | None \<Rightarrow> \<exists>n\<ge>ticks w2. GetPathLatency E src dst w2 =
        bind (SetPathLatency E src dst) (\<lambda>c. bind (latency_store E src dst c) (\<lambda>u. ret c)) (w2\<lparr>ticks := n\<rparr>)"
proof -
  let ?key = "generatePathLatencyCacheKey src dst"
  have "latency_ttl.agrees_with E Map.empty (Map.empty, w0)" using assms(2) by (simp add: latency_ttl.agrees_with_def)
  from latency_ttl.agrees_step [OF latency_ttl.agrees_runs [OF assms(3) this] latency_overwrites [OF assms(4)]]
  have "latency_ttl.agrees_with E ((entries_after evs1 Map.empty)(?key \<mapsto> (l, clock E (ticks w)))) (calls, w1)"
    by simp
  from latency_ttl.agrees_fresh [OF latency_ttl.agrees_runs [OF assms(5) this], of "clock E (ticks w2)" ?key]
  show ?thesis using GetPathLatency_found GetPathLatency_missed latency_lookup_fst [of E src dst w2]
    by (auto simp: latest_mono_clock [OF assms(1)] path_cache_expiration_def
        entries_after_same [of "(entries_after evs1 Map.empty)(?key \<mapsto> (l, clock E (ticks w)))" ?key "[?key \<mapsto> (l, clock E (ticks w))]"]
        split: option.splits)
qed

text \<open>
  C10. However the goroutines interleave, a call of \<open>GetPathCost\<close> that returns without an error, from the cache or after its
  query, never returns +Inf, and returns 0 exactly for the static destination. (A call that fails returns its error, with
  +Inf as the value.)
\<close>

theorem GetPathCost_never_unusable:
  assumes "cost_cache w0 = Map.empty" "labelled_runs (cost_step E) (Map.empty, w0) evs (calls, w)"
    and "calls i = Some (src, dst, Finished (Inr c))"
  shows "c \<noteq> PInf \<and> (if dst = 65000 then c = Fin 0 else c \<noteq> Fin 0)"
proof -
  have "calls_inv (Map.empty, w0)" using assms(1) by (simp add: calls_inv_def cost_cache_inv_def)
  from cost_runs_calls_inv [OF assms(2) this] assms(3) show ?thesis by (auto simp: calls_inv_def cost_range_def)
qed

text \<open>
  A server that reports the path 0 to 1 and answers, from interaction \<open>k\<close> on, the three queries of its
  metrics with 2000, 0 and 1; its clock counts seconds.
\<close>

definition sample_env :: "nat \<Rightarrow> env" where
  "sample_env k =
     \<lparr>clock = \<lambda>n. int n * second,
      http_get = \<lambda>n r. HTTPStatus 200 (Decoded
         \<lparr>q_status = ''success'',
          q_result = [\<lparr>r_source = ''0'', r_target = ''1'', r_version = ''4'',
             r_values = [[JNum (Fin 0), JStr (if n = k then ''2000'' else if n = Suc k then ''0'' else ''1'')]]\<rparr>]\<rparr>),
      version_order = \<lambda>n. [''6'', ''4'']\<rparr>"

definition sample_world :: cost_world where
  "sample_world = \<lparr>ticks = 0, cost_cache = Map.empty, latency_cache = Map.empty\<rparr>"

lemma sample_world_sel [simp]: "cost_cache sample_world = Map.empty" "ticks sample_world = 0"
  by (simp_all add: sample_world_def)

lemma sample_numbers:
  "parse_float ''2000'' = Some (Fin 2000)" "parse_float ''0'' = Some (Fin 0)" "parse_float ''1'' = Some (Fin 1)"
  "calculatePathCost \<lparr>pm_availability = Fin 1, pm_latency = Fin 1000, pm_jitter = Fin 0,
     pm_loss = Fin 0, pm_cost = Fin 0\<rparr> =
   \<lparr>pm_availability = Fin 1, pm_latency = Fin 1000, pm_jitter = Fin 0, pm_loss = Fin 0, pm_cost = Fin 1\<rparr>"
  "calculatePathCost zero_metrics = zero_metrics\<lparr>pm_cost := PInf\<rparr>"
  "fdiv (Fin 2000) (Fin 2) = Fin 1000"
  by code_simp+

lemma sample_query:
  "query_range (sample_env k) s e t q w =
     (Inr \<lparr>q_status = ''success'',
          q_result = [\<lparr>r_source = ''0'', r_target = ''1'', r_version = ''4'',
             r_values = [[JNum (Fin 0), JStr (if ticks w = k then ''2000'' else if ticks w = Suc k then ''0'' else ''1'')]]\<rparr>]\<rparr>,
      w\<lparr>ticks := Suc (ticks w)\<rparr>)"
  by (simp add: query_range_def http_do_def decode_response_def bind_def sample_env_def)

lemma sample_metrics:
  assumes "ticks w = k"
  shows "GetPathMetrics (sample_env k) 0 1 w =
     (Inr (\<lambda>v. map_option calculatePathCost
        ([''4'' \<mapsto> \<lparr>pm_availability = Fin 1, pm_latency = Fin 1000, pm_jitter = Fin 0,
     pm_loss = Fin 0, pm_cost = Fin 0\<rparr>, ''6'' \<mapsto> zero_metrics] v)), w\<lparr>ticks := k + 3\<rparr>)"
  using assms
  by (simp add: GetPathMetrics_def metrics_queries_def metrics_step_def sample_query bind_def Let_def
      apply_result_def sample_float_def sample_string_def sample_numbers(1-3,6)
      set_metric_def initial_metrics_def zero_metrics_def fun_upd_twist eval_nat_numeral del: fdiv.simps)

lemma sample_preferred:
  assumes "ticks w = k"
  shows "GetPreferredPath (sample_env k) 0 1 w = (Inr (''4'', Fin 1), w\<lparr>ticks := k + 3\<rparr>)"
  unfolding GetPreferredPath_def sample_metrics [OF assms] bind_def
  by (simp add: choose_version_def prefer_step_def is_pinf_def sample_numbers(4,5) Let_def sample_env_def)

lemma sample_GetPathCost:
  assumes "ticks w = k" "cost_cache w (generateCostCacheKey 64512 64513) = None"
  shows "GetPathCost (sample_env k) 64512 64513 w =
     (Inr (Fin 1), w\<lparr>ticks := k + 4, cost_cache := (cost_cache w)(generateCostCacheKey 64512 64513 \<mapsto>
        \<lparr>ce_cost = Fin 1, ce_expiration = int (k + 3) * second + cost_cache_expiration\<rparr>)\<rparr>)"
proof -
  have "SetPathCost (sample_env k) 64512 64513 w = (Inr (Fin 1), w\<lparr>ticks := k + 3\<rparr>)"
    by (simp add: SetPathCost_def attempt_def sample_preferred [OF assms(1)] is_pinf_def feq_def)
  moreover have "clock (sample_env k) n = int n * second" for n by (simp add: sample_env_def)
  ultimately show ?thesis
    using assms by (simp add: GetPathCost_def cost_lookup_def cost_store_def bind_def time_now_def)
qed

lemma sample_mono: "mono (clock (sample_env k))"
  by (auto simp: mono_def sample_env_def second_def)

text \<open>The first call of the sample, as a run; it stores the cost 1 at the third second.\<close>

abbreviation sample_first :: cost_world where
  "sample_first \<equiv> snd (GetPathCost (sample_env 0) 64512 64513 sample_world)"

lemma sample_run:
  "labelled_runs (cost_step (sample_env 0)) (Map.empty, sample_world)
     [(generateCostCacheKey 64512 64513, Some (Fin 1, 3 * second))] ([0 \<mapsto> (64512, 64513, Finished (Inr (Fin 1)))], sample_first)"
proof -
  have "clock (sample_env 0) 3 = 3 * second" by (simp add: sample_env_def)
  with GetPathCost_runs [of Map.empty 0 "sample_env 0" 64512 64513 sample_world "Inr (Fin 1)"] show ?thesis
    by (auto simp: sample_GetPathCost)
qed

theorem GetPathCost_cached_witness:
  "GetPathCost (sample_env 0) 64512 64513 sample_first = (Inr (Fin 1), sample_first\<lparr>ticks := 5\<rparr>)"
proof -
  have w: "ticks sample_first = 4" by (simp add: sample_GetPathCost)
  have "clock (sample_env 0) 4 = 4 * second" by (simp add: sample_env_def)
  then have "fresh (15 * second) (clock (sample_env 0) 4) (Some (Fin 1, 3 * second)) = Some (Fin 1)"
    by (simp add: fresh_def second_def)
  with GetPathCost_cached [OF sample_mono _ sample_run, of 64512 64513] show ?thesis by (simp add: w)
qed

text \<open>The latency 7 is overwritten, the cleaner runs and ten seconds pass.\<close>

theorem OverwritePathLatency_lasts_witness:
  "\<exists>w1 w2. OverwritePathLatency (sample_env 0) 64512 64513 (Fin 7) sample_world = (Inr (), w1) \<and>
     labelled_runs (latency_step (sample_env 0)) (Map.empty, w1) [] (Map.empty, w2) \<and> ticks w2 = 10 \<and>
     GetPathLatency (sample_env 0) 64512 64513 w2 = (Inr (Fin 7), w2\<lparr>ticks := 11\<rparr>)"
proof -
  obtain w1 where w1: "OverwritePathLatency (sample_env 0) 64512 64513 (Fin 7) sample_world = (Inr (), w1)"
    by (simp add: latency_sections)
  then have t1: "ticks w1 = 1" by (auto simp: latency_sections)
  obtain v where v: "latency_cleanExpired (sample_env 0) w1 = (Inr (), v)" by (simp add: latency_cleanExpired_def bind_def time_now_def)
  with t1 latency_cleaned [OF v] have tv: "ticks v = 2" by simp
  let ?w2 = "v\<lparr>ticks := 10\<rparr>"
  have r0: "labelled_runs (latency_step (sample_env 0)) (Map.empty, sample_world) [] (Map.empty, sample_world)" by (rule runs_start)
  have "latency_step (sample_env 0) (Map.empty, v) [] (Map.empty, ?w2)" by (rule latency_passes) (simp add: tv)
  from runs_step [OF runs_single [where step = "latency_step (sample_env 0)", OF latency_cleans [OF v]] this]
  have r: "labelled_runs (latency_step (sample_env 0)) (Map.empty, w1) [] (Map.empty, ?w2)" by simp
  have "clock (sample_env 0) 10 = 10 * second" "clock (sample_env 0) 0 = 0" by (simp_all add: sample_env_def)
  then have "fresh (60 * second) (clock (sample_env 0) 10) (Some (Fin 7, clock (sample_env 0) 0)) = Some (Fin 7)"
    by (simp add: fresh_def second_def)
  moreover have "latency_cache sample_world = Map.empty" by (simp add: sample_world_def)
  ultimately have "GetPathLatency (sample_env 0) 64512 64513 ?w2 = (Inr (Fin 7), ?w2\<lparr>ticks := 11\<rparr>)"
    using OverwritePathLatency_lasts [OF sample_mono _ r0 w1 r] by simp
  with w1 r show ?thesis by (intro exI [of _ w1] exI [of _ ?w2]) simp
qed

theorem GetPathCost_never_unusable_witness:
  "([0 \<mapsto> (64512, 64513, Finished (Inr (Fin 1)))] :: cache_calls) 0 = Some (64512, 64513, Finished (Inr (Fin 1))) \<and>
   Fin 1 \<noteq> PInf \<and> Fin 1 \<noteq> Fin 0 \<and> fst (GetPathCost (sample_env 0) 64512 64513 sample_world) = Inr (Fin 1) \<and>
   (\<exists>evs. labelled_runs (cost_step (sample_env 0)) (Map.empty, sample_world) evs
     ([0 \<mapsto> (64512, 64513, Finished (Inr (Fin 1)))], sample_first))"
  using GetPathCost_never_unusable [OF _ sample_run, of 0 64512 64513 "Fin 1"] sample_run by (auto simp: sample_GetPathCost)

theorem GetPreferredPath_cheapest_witness:
  "fst (GetPreferredPath (sample_env 0) 0 1 sample_world) = Inr (''4'', Fin 1)"
proof -
  let ?m = "\<lambda>v. map_option calculatePathCost
        ([''4'' \<mapsto> \<lparr>pm_availability = Fin 1, pm_latency = Fin 1000, pm_jitter = Fin 0,
     pm_loss = Fin 0, pm_cost = Fin 0\<rparr>, ''6'' \<mapsto> zero_metrics] v)"
  have m: "GetPathMetrics (sample_env 0) 0 1 sample_world = (Inr ?m, sample_world\<lparr>ticks := 3\<rparr>)"
    using sample_metrics [of sample_world 0] by simp
  have "pm_cost pm \<noteq> NaN" if "?m v = Some pm" for v pm
    using that by (auto simp: sample_numbers(4,5) split: if_splits)
  moreover have "version_order (sample_env 0) n = [''6'', ''4'']" for n by (simp add: sample_env_def)
  ultimately obtain r where r: "GetPreferredPath (sample_env 0) 0 1 sample_world = (r, sample_world\<lparr>ticks := 3\<rparr>)"
     and c: "case r of Inr (v, c) \<Rightarrow> v \<in> {''4'', ''6''} \<and> (\<exists>pm. ?m v = Some pm \<and> pm_cost pm = c) \<and> c \<noteq> PInf \<and>
        (\<forall>v' pm. ?m v' = Some pm \<longrightarrow> c \<le> pm_cost pm)
      | Inl e \<Rightarrow> e = Err ErrNoPaths \<and> (\<forall>v pm. ?m v = Some pm \<longrightarrow> pm_cost pm = PInf)"
    using GetPreferredPath_cheapest [OF m] by force
  from c have "r = Inr (''4'', Fin 1)"
    by (cases r) (auto simp: sample_numbers(4,5) split: if_splits)
  with r show ?thesis by simp
qed

end
