(* ===== verification/GoHeap.thy ===== *)
theory GoHeap
  imports Prelude "HOL-Library.Multiset"
begin

text \<open>
  The package \<open>container/heap\<close> of Go's standard library over the slice types that implement
  \<open>heap.Interface\<close>: \<open>heap.Push\<close>, \<open>heap.Pop\<close> and the two sifting loops, with the methods of the
  interface (\<open>Less\<close>, \<open>Swap\<close>, \<open>Push\<close>, \<open>Pop\<close>) as a record of operations. The locale
  \<open>heap_methods\<close> states what a type's methods owe the package, \<open>priority_heap\<close> adds that \<open>Less\<close>
  compares priorities; they promise that pushing adds one element, that popping removes one, and,
  for priorities, that the popped element is a least one.
\<close>

section \<open>The algorithms\<close>

record 'a heap_ops =
  less_op :: "'a \<Rightarrow> 'a \<Rightarrow> bool"
  swap_op :: "'a list \<Rightarrow> nat \<Rightarrow> nat \<Rightarrow> 'a list"
  push_op :: "'a \<Rightarrow> 'a list \<Rightarrow> 'a list"
  pop_op :: "'a list \<Rightarrow> 'a \<times> 'a list"

text \<open>
  \<open>heap.up\<close>: \<open>i := (j - 1) / 2\<close> is \<open>0\<close> for \<open>j = 0\<close> in Go (division truncates) and here
  (subtraction on \<open>nat\<close> stops at 0).
\<close>

function heap_up :: "'a heap_ops \<Rightarrow> 'a list \<Rightarrow> nat \<Rightarrow> 'a list" where
  "heap_up ops h j =
     (let i = (j - 1) div 2
      in if i = j \<or> \<not> less_op ops (h ! j) (h ! i) then h
         else heap_up ops (swap_op ops h i j) i)"
  by pat_completeness auto
termination by (relation "measure (\<lambda>(ops, h, j). j)") auto

function heap_down :: "'a heap_ops \<Rightarrow> 'a list \<Rightarrow> nat \<Rightarrow> nat \<Rightarrow> 'a list" where
  "heap_down ops h i n =
     (let j1 = 2 * i + 1; j2 = j1 + 1;
          j = (if j2 < n \<and> less_op ops (h ! j2) (h ! j1) then j2 else j1)
      in if n \<le> j1 \<or> \<not> less_op ops (h ! j) (h ! i) then h
         else heap_down ops (swap_op ops h i j) j n)"
  by pat_completeness auto
termination by (relation "measure (\<lambda>(ops, h, i, n). n - i)") (auto simp: Let_def split: if_splits)

declare heap_up.simps [simp del] heap_down.simps [simp del]

definition heap_push :: "'a heap_ops \<Rightarrow> 'a \<Rightarrow> 'a list \<Rightarrow> 'a list" where
  "heap_push ops x h = (let h' = push_op ops x h in heap_up ops h' (length h' - 1))"

text \<open>Every call of \<open>heap.Pop\<close> in the program is guarded by \<open>Len() > 0\<close>.\<close>

definition heap_pop :: "'a heap_ops \<Rightarrow> 'a list \<Rightarrow> 'a \<times> 'a list" where
  "heap_pop ops h = (let n = length h - 1 in pop_op ops (heap_down ops (swap_op ops h 0 n) 0 n))"

section \<open>The algorithms on plain lists of keys\<close>

definition plain_ops :: "('k \<Rightarrow> 'k \<Rightarrow> bool) \<Rightarrow> 'k heap_ops" where
  "plain_ops lt = \<lparr>less_op = lt, swap_op = swap_at, push_op = (\<lambda>x h. h @ [x]),
                   pop_op = (\<lambda>h. (last h, butlast h))\<rparr>"

lemma plain_ops_simps [simp]:
  "less_op (plain_ops lt) = lt" "swap_op (plain_ops lt) = swap_at"
  "push_op (plain_ops lt) x h = h @ [x]" "pop_op (plain_ops lt) h = (last h, butlast h)"
  by (simp_all add: plain_ops_def)

lemma mset_swap_at: "i < length xs \<Longrightarrow> j < length xs \<Longrightarrow> mset (swap_at xs i j) = mset xs"
  unfolding swap_at_def by (rule mset_swap)

lemma mset_heap_up: "j < length h \<Longrightarrow> mset (heap_up (plain_ops lt) h j) = mset h"
proof (induction "plain_ops lt" h j rule: heap_up.induct)
  case (1 h j)
  then show ?case
    by (subst heap_up.simps) (auto simp: Let_def mset_swap_at)
qed

lemma mset_heap_down: "n \<le> length h \<Longrightarrow> mset (heap_down (plain_ops lt) h i n) = mset h"
proof (induction "plain_ops lt" h i n rule: heap_down.induct)
  case (1 h i n)
  then show ?case
    by (subst heap_down.simps) (auto simp: Let_def mset_swap_at)
qed

lemma length_heap_up [simp]: "j < length h \<Longrightarrow> length (heap_up (plain_ops lt) h j) = length h"
  using mset_heap_up mset_eq_length by blast

lemma length_heap_down [simp]: "n \<le> length h \<Longrightarrow> length (heap_down (plain_ops lt) h i n) = length h"
  using mset_heap_down mset_eq_length by blast

lemma swap_at_append: "i < length xs \<Longrightarrow> j < length xs \<Longrightarrow> swap_at (xs @ ys) i j = swap_at xs i j @ ys"
  by (simp add: swap_at_def list_update_append nth_append)

lemma heap_down_append:
  "n \<le> length xs \<Longrightarrow> heap_down (plain_ops lt) (xs @ ys) i n = heap_down (plain_ops lt) xs i n @ ys"
proof (induction "plain_ops lt" xs i n rule: heap_down.induct)
  case (1 h i n)
  show ?case
    by (subst (1 2) heap_down.simps)
      (use 1 in \<open>auto simp: Let_def nth_append swap_at_append\<close>)
qed

definition down_child :: "('k \<Rightarrow> 'k \<Rightarrow> bool) \<Rightarrow> 'k list \<Rightarrow> nat \<Rightarrow> nat \<Rightarrow> nat" where
  "down_child lt h i n =
     (if 2 * i + 2 < n \<and> lt (h ! (2 * i + 2)) (h ! (2 * i + 1)) then 2 * i + 2 else 2 * i + 1)"

lemma heap_down_eq:
  "heap_down ops h i n =
     (let j = down_child (less_op ops) h i n
      in if n \<le> 2 * i + 1 \<or> \<not> less_op ops (h ! j) (h ! i) then h
         else heap_down ops (swap_op ops h i j) j n)"
  by (subst heap_down.simps) (simp add: Let_def down_child_def)

definition parent :: "nat \<Rightarrow> nat" where
  "parent k = (k - 1) div 2"

lemma parent_less: "0 < k \<Longrightarrow> parent k < k"
  by (auto simp: parent_def)

lemma child_cases: "0 < k \<Longrightarrow> parent k = i \<longleftrightarrow> k = 2 * i + 1 \<or> k = 2 * i + 2"
  by (auto simp: parent_def)

lemma heap_up_eq:
  "heap_up ops h j =
     (if parent j = j \<or> \<not> less_op ops (h ! j) (h ! parent j) then h
      else heap_up ops (swap_op ops h (parent j) j) (parent j))"
  by (subst heap_up.simps) (simp add: Let_def parent_def)

text \<open>Every element but the root is not less than its parent.\<close>

definition heap_inv :: "('k \<Rightarrow> 'k \<Rightarrow> bool) \<Rightarrow> 'k list \<Rightarrow> bool" where
  "heap_inv lt h \<longleftrightarrow> (\<forall>k. 0 < k \<and> k < length h \<longrightarrow> \<not> lt (h ! k) (h ! (parent k)))"

definition compares :: "('k \<Rightarrow> 'p::linorder) \<Rightarrow> ('k \<Rightarrow> 'k \<Rightarrow> bool) \<Rightarrow> 'k set \<Rightarrow> bool" where
  "compares prio lt K \<longleftrightarrow> (\<forall>a\<in>K. \<forall>b\<in>K. lt a b \<longleftrightarrow> prio a < prio b)"

lemma compares_nth:
  "compares prio lt (set h) \<Longrightarrow> i < length h \<Longrightarrow> j < length h \<Longrightarrow> lt (h ! i) (h ! j) \<longleftrightarrow> prio (h ! i) < prio (h ! j)"
  by (auto simp: compares_def)

definition up_inv :: "('k \<Rightarrow> 'p::linorder) \<Rightarrow> 'k list \<Rightarrow> nat \<Rightarrow> bool" where
  "up_inv prio h j \<longleftrightarrow>
     (\<forall>k. 0 < k \<and> k < length h \<and> k \<noteq> j \<longrightarrow> prio (h ! (parent k)) \<le> prio (h ! k)) \<and>
     (\<forall>k. 0 < k \<and> k < length h \<and> 0 < j \<and> parent k = j \<longrightarrow> prio (h ! (parent j)) \<le> prio (h ! k))"

lemma up_inv_swap:
  assumes inv: "up_inv prio h j" and j: "j < length h" "0 < j"
    and lt: "prio (h ! j) < prio (h ! (parent j))"
  shows "up_inv prio (swap_at h (parent j) j) (parent j)"
proof -
  let ?i = "parent j"
  let ?h = "swap_at h ?i j"
  have i: "?i < j" "?i < length h" using parent_less [of j] j by auto
  have at: "?h ! k = (if k = ?i then h ! j else if k = j then h ! ?i else h ! k)" if "k < length h" for k
    using that i j by (simp add: nth_swap_at)
  have inv1: "prio (h ! (parent k)) \<le> prio (h ! k)" if "0 < k" "k < length h" "k \<noteq> j" for k
    using inv that by (simp add: up_inv_def)
  have inv2: "prio (h ! ?i) \<le> prio (h ! k)" if "0 < k" "k < length h" "parent k = j" for k
    using inv that j by (simp add: up_inv_def)
  have "prio (?h ! (parent k)) \<le> prio (?h ! k)" if k: "0 < k" "k < length h" "k \<noteq> ?i" for k
  proof -
    have p: "parent k < length h" using k parent_less [of k] by simp
    show ?thesis
      using k inv1 [of k] inv2 [of k] lt by (auto simp: at [OF p] at [OF k(2)])
  qed
  moreover have "prio (?h ! (parent ?i)) \<le> prio (?h ! k)"
    if k: "0 < k" "k < length h" "0 < ?i" "parent k = ?i" for k
  proof -
    have p: "parent ?i < length h" "parent ?i \<noteq> ?i" "parent ?i \<noteq> j" "k \<noteq> ?i" using k i parent_less [of ?i] parent_less [of k] by auto
    have "prio (h ! (parent ?i)) \<le> prio (h ! ?i)" using inv1 [of ?i] k i by simp
    then show ?thesis
      using p k inv1 [of k] by (auto simp: at [OF p(1)] at [OF k(2)])
  qed
  ultimately show ?thesis by (simp add: up_inv_def)
qed

lemma heap_up_inv:
  assumes "j < length h" "up_inv prio h j" "compares prio lt (set h)"
  shows "heap_inv lt (heap_up (plain_ops lt) h j)"
  using assms
proof (induction "plain_ops lt" h j rule: heap_up.induct)
  case (1 h j)
  let ?i = "parent j"
  note c = compares_nth [OF "1.prems"(3)]
  show ?case
  proof (cases "?i = j \<or> \<not> lt (h ! j) (h ! ?i)")
    case True
    then have "heap_up (plain_ops lt) h j = h" by (subst heap_up_eq) auto
    moreover have "heap_inv lt h"
      unfolding heap_inv_def
    proof (intro allI impI)
      fix k assume k: "0 < k \<and> k < length h"
      then have "parent k < length h" using parent_less [of k] by auto
      with k True "1.prems"(1,2) c show "\<not> lt (h ! k) (h ! (parent k))"
        by (cases "k = j") (auto simp: up_inv_def not_less parent_def)
    qed
    ultimately show ?thesis by simp
  next
    case False
    then have "j \<noteq> 0" by (auto simp: parent_def)
    with "1.prems"(1) parent_less [of j] have i: "0 < j" "?i < length h" by auto
    have "set (swap_at h ?i j) = set h"
      using mset_swap_at [of ?i h j] i "1.prems"(1) by (metis set_mset_mset)
    moreover have "up_inv prio (swap_at h ?i j) ?i"
      using False i "1.prems" c by (intro up_inv_swap) auto
    ultimately have "heap_inv lt (heap_up (plain_ops lt) (swap_at h ?i j) ?i)"
      using 1 False i by (auto simp: parent_def)
    with False show ?thesis by (subst heap_up_eq) auto
  qed
qed

definition down_inv :: "('k \<Rightarrow> 'p::linorder) \<Rightarrow> 'k list \<Rightarrow> nat \<Rightarrow> bool" where
  "down_inv prio h i \<longleftrightarrow>
     (\<forall>k. 0 < k \<and> k < length h \<and> parent k \<noteq> i \<longrightarrow> prio (h ! (parent k)) \<le> prio (h ! k)) \<and>
     (\<forall>k. 0 < k \<and> k < length h \<and> 0 < i \<and> parent k = i \<longrightarrow> prio (h ! (parent i)) \<le> prio (h ! k))"

lemma down_inv_swap:
  assumes inv: "down_inv prio h i" and j: "j < length h" "0 < j" "parent j = i"
    and lt: "prio (h ! j) < prio (h ! i)"
    and least: "\<And>k. 0 < k \<Longrightarrow> k < length h \<Longrightarrow> parent k = i \<Longrightarrow> prio (h ! j) \<le> prio (h ! k)"
  shows "down_inv prio (swap_at h i j) j"
proof -
  let ?h = "swap_at h i j"
  have i: "i < j" "i < length h" using j parent_less [of j] by auto
  have at: "?h ! k = (if k = i then h ! j else if k = j then h ! i else h ! k)" if "k < length h" for k
    using that i j by (simp add: nth_swap_at)
  have inv1: "prio (h ! (parent k)) \<le> prio (h ! k)" if "0 < k" "k < length h" "parent k \<noteq> i" for k
    using inv that by (simp add: down_inv_def)
  have inv2: "prio (h ! (parent i)) \<le> prio (h ! k)" if "0 < k" "k < length h" "0 < i" "parent k = i" for k
    using inv that by (simp add: down_inv_def)
  have "prio (?h ! (parent k)) \<le> prio (?h ! k)" if k: "0 < k" "k < length h" "parent k \<noteq> j" for k
  proof (cases "parent k = i")
    case True
    with k i lt least [of k] show ?thesis by (auto simp: at)
  next
    case False
    have p: "parent k < length h" using k parent_less [of k] by simp
    from False k i inv1 [of k] inv2 [of j] j show ?thesis by (auto simp: at [OF p] at [OF k(2)])
  qed
  moreover have "prio (?h ! (parent j)) \<le> prio (?h ! k)"
    if k: "0 < k" "k < length h" "parent k = j" for k
    using k i j inv1 [of k] by (auto simp: at)
  ultimately show ?thesis by (simp add: down_inv_def)
qed

lemma heap_down_inv:
  assumes "n = length h" "down_inv prio h i" "compares prio lt (set h)" "i < n \<or> h = []"
  shows "heap_inv lt (heap_down (plain_ops lt) h i n)"
  using assms
proof (induction "plain_ops lt" h i n rule: heap_down.induct)
  case (1 h i n)
  define j where "j = (if 2 * i + 2 < n \<and> lt (h ! (2 * i + 2)) (h ! (2 * i + 1)) then 2 * i + 2 else 2 * i + 1)"
  note c = compares_nth [OF "1.prems"(3)]
  have jp: "parent j = i" "0 < j" by (auto simp: j_def parent_def)
  show ?case
  proof (cases "n \<le> 2 * i + 1 \<or> \<not> lt (h ! j) (h ! i)")
    case True
    then have "heap_down (plain_ops lt) h i n = h"
      by (subst heap_down.simps) (auto simp: Let_def j_def)
    moreover have "heap_inv lt h"
      unfolding heap_inv_def
    proof (intro allI impI)
      fix k assume k: "0 < k \<and> k < length h"
      then have p: "parent k < length h" using parent_less [of k] by auto
      show "\<not> lt (h ! k) (h ! (parent k))"
      proof (cases "parent k = i")
        case False
        with k p "1.prems"(2) c show ?thesis by (auto simp: down_inv_def not_less)
      next
        case ki: True
        with k have kk: "k = 2 * i + 1 \<or> k = 2 * i + 2" by (simp add: child_cases)
        with k True "1.prems"(1) have nl: "\<not> lt (h ! j) (h ! i)" "2 * i + 1 < n" by auto
        with kk k "1.prems"(1) have "prio (h ! j) \<le> prio (h ! k)" by (auto simp: j_def c not_less)
        moreover have "prio (h ! i) \<le> prio (h ! j)"
          using nl c [of j i] "1.prems"(1) by (auto simp: j_def not_less split: if_splits)
        ultimately show ?thesis using c [of k i] k ki p by (auto simp: not_less)
      qed
    qed
    ultimately show ?thesis by simp
  next
    case False
    then have jn: "j < n" by (auto simp: j_def)
    with False "1.prems"(1,4) jp have i: "i < n" "lt (h ! j) (h ! i)" by auto
    have "set (swap_at h i j) = set h"
      using mset_swap_at [of i h j] i jn "1.prems"(1) by (metis set_mset_mset)
    moreover have "down_inv prio (swap_at h i j) j"
    proof (rule down_inv_swap [OF "1.prems"(2)])
      show "prio (h ! j) \<le> prio (h ! k)" if "0 < k" "k < length h" "parent k = i" for k
        using that "1.prems"(1) by (auto simp: child_cases j_def c not_less)
    qed (use i jn jp "1.prems"(1) c in auto)
    ultimately have "heap_inv lt (heap_down (plain_ops lt) (swap_at h i j) j n)"
      using 1 False jn unfolding j_def by (auto simp: Let_def split: if_splits)
    with False show ?thesis by (subst heap_down.simps) (auto simp: Let_def j_def)
  qed
qed

lemma heap_inv_root:
  assumes "heap_inv lt h" "compares prio lt (set h)" "k < length h"
  shows "prio (h ! 0) \<le> prio (h ! k)"
  using assms(3)
proof (induction k rule: less_induct)
  case (less k)
  show ?case
  proof (cases "k = 0")
    case False
    then have p: "parent k < k" by (simp add: parent_less)
    with less have "prio (h ! 0) \<le> prio (h ! (parent k))" by auto
    also have "\<dots> \<le> prio (h ! k)"
      using assms(1) False less.prems p compares_nth [OF assms(2), of k "parent k"]
      by (auto simp: heap_inv_def not_less)
    finally show ?thesis .
  qed simp
qed

lemma plain_pop_inv:
  assumes inv: "heap_inv lt h" and c: "compares prio lt (set h)" and h: "h \<noteq> []"
  defines "ys \<equiv> butlast (swap_at h 0 (length h - 1))"
  shows "heap_inv lt (heap_down (plain_ops lt) ys 0 (length ys))" "set ys \<subseteq> set h"
proof -
  have n: "length ys = length h - 1" by (simp add: ys_def)
  have ys: "ys ! k = h ! k" if "0 < k" "k < length ys" for k
    using that n h by (simp add: ys_def nth_butlast) (subst nth_swap_at, auto)
  show sub: "set ys \<subseteq> set h"
  proof -
    have "set ys \<subseteq> set (swap_at h 0 (length h - 1))" unfolding ys_def by (meson in_set_butlastD subsetI)
    also have "\<dots> = set h" using mset_swap_at [of 0 h "length h - 1"] h by (metis diff_less length_greater_0_conv less_one set_mset_mset)
    finally show ?thesis .
  qed
  then have cy: "compares prio lt (set ys)" using c by (auto simp: compares_def)
  have "down_inv prio ys 0"
    unfolding down_inv_def
  proof (intro conjI allI impI)
    fix k assume k: "0 < k \<and> k < length ys \<and> parent k \<noteq> 0"
    then have "parent k < length ys" using parent_less [of k] by auto
    with k inv n compares_nth [OF c, of k "parent k"]
    show "prio (ys ! parent k) \<le> prio (ys ! k)"
      by (auto simp: ys heap_inv_def not_less)
  qed simp
  with cy show "heap_inv lt (heap_down (plain_ops lt) ys 0 (length ys))"
    by (intro heap_down_inv) auto
qed

section \<open>The interface\<close>

text \<open>
  What the methods of a slice type owe \<open>container/heap\<close>, up to the part \<open>key\<close> of an element
  that \<open>Less\<close> reads and the program uses: \<open>Swap\<close> exchanges, \<open>Push\<close> appends, \<open>Pop\<close> removes the last.
\<close>

locale heap_methods =
  fixes ops :: "'a heap_ops" and key :: "'a \<Rightarrow> 'k" and lt :: "'k \<Rightarrow> 'k \<Rightarrow> bool"
  assumes less_key: "less_op ops x y \<longleftrightarrow> lt (key x) (key y)"
    and swap_key: "i < length h \<Longrightarrow> j < length h \<Longrightarrow> map key (swap_op ops h i j) = swap_at (map key h) i j"
    and push_key: "map key (push_op ops x h) = map key h @ [key x]"
    and pop_key: "h \<noteq> [] \<Longrightarrow> key (fst (pop_op ops h)) = key (last h)"
    and pop_rest: "h \<noteq> [] \<Longrightarrow> map key (snd (pop_op ops h)) = butlast (map key h)"
begin

lemma length_swap: "i < length h \<Longrightarrow> j < length h \<Longrightarrow> length (swap_op ops h i j) = length h"
  using arg_cong [OF swap_key, of i h j length] by simp

lemma map_heap_up: "j < length h \<Longrightarrow> map key (heap_up ops h j) = heap_up (plain_ops lt) (map key h) j"
proof (induction j arbitrary: h rule: less_induct)
  case (less j)
  have p: "parent j < length h" using less.prems parent_less [of j] by (cases j) (auto simp: parent_def)
  show ?case
  proof (cases "parent j = j \<or> \<not> less_op ops (h ! j) (h ! parent j)")
    case True
    with p less.prems show ?thesis by (subst (1 2) heap_up_eq) (auto simp: less_key)
  next
    case False
    then have "map key (heap_up ops (swap_op ops h (parent j) j) (parent j))
        = heap_up (plain_ops lt) (map key (swap_op ops h (parent j) j)) (parent j)"
      using less p parent_less [of j] by (cases j) (auto simp: length_swap parent_def)
    with False p less.prems show ?thesis by (subst (1 2) heap_up_eq) (auto simp: less_key swap_key)
  qed
qed

lemma map_heap_down:
  "n \<le> length h \<Longrightarrow> i < n \<Longrightarrow> map key (heap_down ops h i n) = heap_down (plain_ops lt) (map key h) i n"
proof (induction "n - i" arbitrary: h i rule: less_induct)
  case less
  define j where "j = down_child (less_op ops) h i n"
  have jn: "j < n" if "2 * i + 1 < n" using that by (simp add: j_def down_child_def)
  have jk: "down_child lt (map key h) i n = j"
    using less.prems by (auto simp: j_def down_child_def less_key)
  show ?case
  proof (cases "n \<le> 2 * i + 1 \<or> \<not> less_op ops (h ! j) (h ! i)")
    case True
    with jn less.prems have "n \<le> 2 * i + 1 \<or> \<not> lt (map key h ! j) (map key h ! i)"
      by (auto simp: less_key not_le)
    with True jk show ?thesis by (subst (1 2) heap_down_eq) (simp add: Let_def flip: j_def)
  next
    case False
    with jn less.prems have j: "j < length h" "i < length h" "j < n" "i < j"
      by (auto simp: j_def down_child_def)
    have "map key (heap_down ops (swap_op ops h i j) j n)
        = heap_down (plain_ops lt) (map key (swap_op ops h i j)) j n"
      using less.prems j by (intro less.hyps) (auto simp: length_swap)
    with False jk j show ?thesis
      by (subst (1 2) heap_down_eq) (simp add: Let_def less_key swap_key flip: j_def)
  qed
qed

lemma push_mset: "mset (map key (heap_push ops x h)) = add_mset (key x) (mset (map key h))"
proof -
  have l: "length (push_op ops x h) = Suc (length h)"
    using arg_cong [OF push_key, of length x h] by simp
  then show ?thesis
    by (simp add: heap_push_def Let_def map_heap_up mset_heap_up push_key)
qed

lemma map_heap_pop:
  assumes "h \<noteq> []" "heap_pop ops h = (x, h')"
  defines "ks \<equiv> map key h"
  defines "ys \<equiv> butlast (swap_at ks 0 (length ks - 1))"
  shows "key x = ks ! 0" "map key h' = heap_down (plain_ops lt) ys 0 (length ys)"
proof -
  let ?n = "length h - 1"
  let ?s = "swap_op ops h 0 ?n"
  let ?d = "heap_down ops ?s 0 ?n"
  have s: "map key ?s = swap_at ks 0 ?n" using assms(1) by (simp add: ks_def swap_key)
  have ls: "length ?s = length h" using assms(1) by (simp add: length_swap)
  have yn: "length ys = ?n" by (simp add: ys_def ks_def)
  have sk: "swap_at ks 0 ?n = ys @ [ks ! 0]"
  proof -
    have "swap_at ks 0 ?n \<noteq> []" using assms(1) by (metis ks_def length_swap_at length_map length_0_conv)
    moreover have "last (swap_at ks 0 ?n) = ks ! 0"
      using assms(1) \<open>swap_at ks 0 ?n \<noteq> []\<close> by (simp add: last_conv_nth nth_swap_at ks_def)
    ultimately show ?thesis by (metis append_butlast_last_id ys_def ks_def length_map)
  qed
  have d: "map key ?d = heap_down (plain_ops lt) ys 0 (length ys) @ [ks ! 0]"
  proof (cases "0 < ?n")
    case True
    then have "map key ?d = heap_down (plain_ops lt) (swap_at ks 0 ?n) 0 ?n"
      using ls s by (subst map_heap_down) simp_all
    also have "\<dots> = heap_down (plain_ops lt) (ys @ [ks ! 0]) 0 (length ys)" by (simp only: sk yn)
    also have "\<dots> = heap_down (plain_ops lt) ys 0 (length ys) @ [ks ! 0]" by (simp add: heap_down_append)
    finally show ?thesis .
  next
    case False
    then have "?d = ?s" by (subst heap_down.simps) (simp add: Let_def)
    moreover have "heap_down (plain_ops lt) ys 0 (length ys) = ys"
      using False yn by (subst heap_down.simps) (simp add: Let_def)
    ultimately show ?thesis using s sk by simp
  qed
  then have "?d \<noteq> []" by auto
  moreover have "pop_op ops ?d = (x, h')" using assms(2) by (simp add: heap_pop_def Let_def)
  ultimately show "key x = ks ! 0" "map key h' = heap_down (plain_ops lt) ys 0 (length ys)"
    using pop_key [of ?d] pop_rest [of ?d] d last_map [of ?d key] by simp_all
qed

lemma pop_mset:
  assumes "h \<noteq> []" "heap_pop ops h = (x, h')"
  shows "mset (map key h) = add_mset (key x) (mset (map key h'))"
proof -
  let ?ks = "map key h"
  let ?s = "swap_at ?ks 0 (length ?ks - 1)"
  have ne: "?s \<noteq> []" using assms(1) by (metis length_swap_at length_map length_0_conv)
  have "mset ?ks = mset ?s" using assms(1) by (simp add: mset_swap_at)
  also have "\<dots> = mset (butlast ?s @ [last ?s])" using ne by simp
  also have "last ?s = ?ks ! 0" using ne assms(1) by (simp add: last_conv_nth nth_swap_at)
  finally show ?thesis using map_heap_pop [OF assms] by (simp add: mset_heap_down)
qed

lemma pop_set:
  "h \<noteq> [] \<Longrightarrow> heap_pop ops h = (x, h') \<Longrightarrow> key ` set h = insert (key x) (key ` set h')"
  using arg_cong [OF pop_mset, of h x h' set_mset] by simp

lemma push_set: "key ` set (heap_push ops x h) = insert (key x) (key ` set h)"
  using arg_cong [OF push_mset, of set_mset x h] by simp

lemma pop_length: "h \<noteq> [] \<Longrightarrow> heap_pop ops h = (x, h') \<Longrightarrow> length h = Suc (length h')"
  using arg_cong [OF pop_mset, of h x h' size] by simp

lemma push_length: "length (heap_push ops x h) = Suc (length h)"
  using arg_cong [OF push_mset, of size x h] by simp

end

text \<open>
  When \<open>Less\<close> compares priorities (on the keys \<open>K\<close> the program uses), the slice stays a heap and
  \<open>heap.Pop\<close> returns an element of least priority.
\<close>

locale priority_heap = heap_methods ops key lt
  for ops :: "'a heap_ops" and key :: "'a \<Rightarrow> 'k" and lt :: "'k \<Rightarrow> 'k \<Rightarrow> bool" +
  fixes prio :: "'k \<Rightarrow> 'p::linorder" and K :: "'k set"
  assumes prio_lt: "compares prio lt K"
begin

lemma compares_sub: "S \<subseteq> K \<Longrightarrow> compares prio lt S"
  using prio_lt by (auto simp: compares_def)

lemma push_heap:
  assumes "heap_inv lt (map key h)" "key x \<in> K" "key ` set h \<subseteq> K"
  shows "heap_inv lt (map key (heap_push ops x h))"
proof -
  let ?h = "push_op ops x h"
  have mk: "map key ?h = map key h @ [key x]" by (rule push_key)
  have l: "length ?h = Suc (length h)" using arg_cong [OF mk, of length] by simp
  have c: "compares prio lt (set (map key h @ [key x]))"
    using assms(2,3) by (intro compares_sub) auto
  have "up_inv prio (map key h @ [key x]) (length h)"
    unfolding up_inv_def
  proof (intro conjI allI impI)
    fix k assume k: "0 < k \<and> k < length (map key h @ [key x]) \<and> k \<noteq> length h"
    then have p: "parent k < length h" "k < length h" using parent_less [of k] by auto
    then have "\<not> lt (map key h ! k) (map key h ! parent k)"
      using assms(1) k by (auto simp: heap_inv_def)
    with compares_nth [OF c, of k "parent k"] p
    show "prio ((map key h @ [key x]) ! parent k) \<le> prio ((map key h @ [key x]) ! k)"
      by (auto simp: nth_append not_less)
  next
    fix k assume k: "0 < k \<and> k < length (map key h @ [key x]) \<and> 0 < length h \<and> parent k = length h"
    then show "prio ((map key h @ [key x]) ! parent (length h)) \<le> prio ((map key h @ [key x]) ! k)"
      using parent_less [of k] by auto
  qed
  then have "heap_inv lt (heap_up (plain_ops lt) (map key h @ [key x]) (length h))"
    using c by (intro heap_up_inv) auto
  then show ?thesis
    by (simp add: heap_push_def Let_def map_heap_up l mk)
qed

lemma pop_heap:
  assumes "h \<noteq> []" "heap_pop ops h = (x, h')" "heap_inv lt (map key h)" "key ` set h \<subseteq> K"
  shows "heap_inv lt (map key h')"
  using plain_pop_inv(1) [OF assms(3), of prio] map_heap_pop(2) [OF assms(1,2)] assms(1,4)
  by (auto intro: compares_sub)

lemma pop_least:
  assumes "h \<noteq> []" "heap_pop ops h = (x, h')" "heap_inv lt (map key h)" "key ` set h \<subseteq> K" "y \<in> set h"
  shows "prio (key x) \<le> prio (key y)"
proof -
  have c: "compares prio lt (set (map key h))" using assms(4) by (auto intro: compares_sub)
  obtain k where "k < length h" "y = h ! k" using assms(5) by (auto simp: in_set_conv_nth)
  with heap_inv_root [OF assms(3) c, of k] map_heap_pop(1) [OF assms(1,2)] assms(1)
  show ?thesis by simp
qed

end

end
