(* ===== verification/Graph.thy ===== *)
theory Graph
  imports GoHeap Cost
begin

text \<open>
  \<^verbatim>\<open>internal/route/finder\<close>: \<open>topology.go\<close> (the paths Prometheus knows), the adjacency matrix and its
  updates, the priority queue and Dijkstra's algorithm of \<open>finder.go\<close> and \<open>priorityqueue.go\<close>. A Go
  \<open>int\<close> that comes from outside is an \<open>int\<close> and every index is checked as Go checks it; a loop
  counter, and a node that has already indexed a slice, is a \<open>nat\<close>. The read-write mutex is not
  modelled: an operation is one atomic step.
\<close>

section \<open>State\<close>

record graph =
  g_size :: nat
  g_matrix :: "float64 list list"
  g_prev :: "int list"

record network_path =
  np_source :: int
  np_target :: int

text \<open>The graph the route manager holds; \<open>None\<close> is the nil pointer.\<close>

record graph_world = cost_world +
  the_graph :: "graph option"

section \<open>topology.go\<close>

definition parse_path :: "query_result \<Rightarrow> network_path go" where
  "parse_path r =
     (case atoi (r_source r) of
        None \<Rightarrow> Inl (Err (Wrapf ''error parsing source'' (Errorf ''strconv.Atoi'')))
      | Some src \<Rightarrow>
          (case atoi (r_target r) of
             None \<Rightarrow> Inl (Err (Wrapf ''error parsing target'' (Errorf ''strconv.Atoi'')))
           | Some tgt \<Rightarrow> Inr \<lparr>np_source = src, np_target = tgt\<rparr>))"

definition GetAllPaths :: "env \<Rightarrow> ('z world_scheme, network_path list) proc" where
  "GetAllPaths E =
     bind (query_range E ''now-2m'' ''now'' ''2m'' ''avg(network_latency_status) by (source, target)'')
       (\<lambda>resp.
          if q_result resp = [] then throw (Err (Errorf ''no valid paths were found''))
          else lift_go (go_fold (\<lambda>r ps. go_bind (parse_path r) (\<lambda>p. Inr (ps @ [p]))) (q_result resp) []))"

section \<open>The matrix\<close>

definition inf_matrix :: "nat \<Rightarrow> float64 list list" where
  "inf_matrix n = replicate n (replicate n PInf)"

text \<open>\<open>g.matrix[i][j]\<close> and \<open>g.matrix[i][j] = x\<close>.\<close>

definition mat_get :: "float64 list list \<Rightarrow> int \<Rightarrow> int \<Rightarrow> float64 go" where
  "mat_get m i j = go_bind (go_index m i) (\<lambda>row. go_index row j)"

definition mat_set :: "int \<Rightarrow> int \<Rightarrow> float64 \<Rightarrow> float64 list list \<Rightarrow> float64 list list go" where
  "mat_set i j x m =
     go_bind (go_index m i) (\<lambda>row. go_bind (go_index row j) (\<lambda>old. Inr (m[nat i := row[nat j := x]])))"

definition max_node :: "network_path list \<Rightarrow> int" where
  "max_node ps =
     fold (\<lambda>p m. let m1 = (if np_source p > m then np_source p else m)
                 in if np_target p > m1 then np_target p else m1) ps 0"

definition new_graph_step :: "env \<Rightarrow> network_path \<Rightarrow> graph \<Rightarrow> ('z cost_world_scheme, graph) proc" where
  "new_graph_step E p g =
     bind (GetPathCost E (np_source p + 64512) (np_target p + 64512))
       (\<lambda>cost. bind (lift_go (mat_set (np_source p) (np_target p) cost (g_matrix g)))
         (\<lambda>m. ret (g\<lparr>g_matrix := m\<rparr>)))"

definition NewGraph :: "env \<Rightarrow> ('z cost_world_scheme, graph) proc" where
  "NewGraph E =
     bind (GetAllPaths E)
       (\<lambda>paths.
          let size = nat (max_node paths + 1)
          in for_each (new_graph_step E) paths
               \<lparr>g_size = size, g_matrix = inf_matrix size, g_prev = replicate size 0\<rparr>)"

definition NewGraphFromMatrix :: "float64 list list \<Rightarrow> graph" where
  "NewGraphFromMatrix m = \<lparr>g_size = length m, g_matrix = m, g_prev = replicate (length m) 0\<rparr>"

text \<open>
  \<open>RefreshWeights\<close> overwrites the matrix of the graph in place, in the order of the paths; what it wrote
  before an error stays. A write to the state goes through \<open>put_matrix\<close>; a nil receiver panics at the lock.
\<close>

definition get_graph :: "('z graph_world_scheme, graph) proc" where
  "get_graph w = (case the_graph w of None \<Rightarrow> (Inl (Panic NilDereference), w) | Some g \<Rightarrow> (Inr g, w))"

definition put_matrix :: "float64 list list \<Rightarrow> ('z graph_world_scheme, unit) proc" where
  "put_matrix m w = (Inr (), w\<lparr>the_graph := map_option (\<lambda>g. g\<lparr>g_matrix := m\<rparr>) (the_graph w)\<rparr>)"

definition refresh_step :: "env \<Rightarrow> network_path \<Rightarrow> unit \<Rightarrow> ('z graph_world_scheme, unit) proc" where
  "refresh_step E p u =
     bind (wrap ''failed to get path cost'' (GetPathCost E (np_source p + 64512) (np_target p + 64512)))
       (\<lambda>newCost.
          if feq newCost (Fin 0) then throw (Err (Errorf ''unexpected cost of 0''))
          else if is_pinf newCost then throw (Err (Errorf ''unexpected infinity cost''))
          else bind get_graph
                 (\<lambda>g. bind (lift_go (mat_set (np_source p) (np_target p) newCost (g_matrix g))) put_matrix))"

definition RefreshWeights :: "env \<Rightarrow> ('z graph_world_scheme, unit) proc" where
  "RefreshWeights E =
     bind get_graph
       (\<lambda>g0. bind (wrap ''failed to get network paths'' (GetAllPaths E))
         (\<lambda>paths. bind (put_matrix (map (map (\<lambda>x. PInf)) (g_matrix g0)))
           (\<lambda>u. for_each (refresh_step E) paths u)))"

definition SetDirectedWeights :: "int \<Rightarrow> int \<Rightarrow> float64 \<Rightarrow> graph \<Rightarrow> graph go" where
  "SetDirectedWeights src dst weight g =
     go_bind (mat_set src dst weight (g_matrix g)) (\<lambda>m. Inr (g\<lparr>g_matrix := m\<rparr>))"

definition SetUndirectedWeights :: "int \<Rightarrow> int \<Rightarrow> float64 \<Rightarrow> graph \<Rightarrow> graph go" where
  "SetUndirectedWeights src dst weight g =
     go_bind (mat_set src dst weight (g_matrix g))
       (\<lambda>m. go_bind (mat_set dst src weight m) (\<lambda>m'. Inr (g\<lparr>g_matrix := m'\<rparr>)))"

section \<open>priorityqueue.go\<close>

record route =
  rt_node :: nat
  rt_distance :: float64
  rt_index :: int

text \<open>\<open>Less\<close> compares with \<open>>\<close>: the queue hands out a route of greatest distance.\<close>

definition pq_swap :: "route list \<Rightarrow> nat \<Rightarrow> nat \<Rightarrow> route list" where
  "pq_swap h i j =
     (let h1 = swap_at h i j; h2 = h1[i := (h1 ! i)\<lparr>rt_index := int i\<rparr>]
      in h2[j := (h2 ! j)\<lparr>rt_index := int j\<rparr>])"

definition pq_ops :: "route heap_ops" where
  "pq_ops =
     \<lparr>less_op = (\<lambda>a b. flt (rt_distance b) (rt_distance a)),
      swap_op = pq_swap,
      push_op = (\<lambda>x h. h @ [x\<lparr>rt_index := int (length h)\<rparr>]),
      pop_op = (\<lambda>h. ((last h)\<lparr>rt_index := - 1\<rparr>, butlast h))\<rparr>"

section \<open>Dijkstra\<close>

type_synonym dijkstra_state = "float64 list \<times> int list \<times> route list"

definition relax :: "graph \<Rightarrow> nat \<Rightarrow> nat \<Rightarrow> dijkstra_state \<Rightarrow> dijkstra_state go" where
  "relax g u v s =
     (case s of (dists, prev, pq) \<Rightarrow>
        go_bind (mat_get (g_matrix g) (int u) (int v))
          (\<lambda>w. if w \<noteq> PInf then
                 let newDist = fadd (dists ! u) w
                 in if flt newDist (dists ! v) then
                      Inr (dists[v := newDist], prev[v := int u],
                           heap_push pq_ops \<lparr>rt_node = v, rt_distance = newDist, rt_index = 0\<rparr> pq)
                    else Inr s
               else Inr s))"

partial_function (option) dijkstra_loop ::
    "graph \<Rightarrow> dijkstra_state \<Rightarrow> (unit go \<times> float64 list \<times> int list) option" where
  "dijkstra_loop g s =
     (case s of (dists, prev, pq) \<Rightarrow>
        if pq = [] then Some (Inr (), dists, prev)
        else
          let (route, pq') = heap_pop pq_ops pq; u = rt_node route
          in if flt (dists ! u) (rt_distance route) then dijkstra_loop g (dists, prev, pq')
             else (case go_fold (relax g u) [0..<g_size g] (dists, prev, pq') of
                     Inl e \<Rightarrow> Some (Inl e, dists, prev)
                   | Inr s' \<Rightarrow> dijkstra_loop g s'))"

text \<open>
  \<open>Dijkstra\<close> resets \<open>prev\<close> before it indexes \<open>dist\<close> with the start node. \<open>None\<close> is a run that never returns.
\<close>

definition Dijkstra :: "graph \<Rightarrow> int \<Rightarrow> (float64 list go \<times> graph) option" where
  "Dijkstra g start =
     (let dists = replicate (g_size g) PInf;
          prev = replicate (g_size g) (- 1)
      in if start < 0 \<or> g_size g \<le> nat start then Some (Inl (Panic IndexOutOfRange), g\<lparr>g_prev := prev\<rparr>)
         else
           let s = nat start;
               pq = heap_push pq_ops \<lparr>rt_node = s, rt_distance = Fin 0, rt_index = 0\<rparr> []
           in map_option
                (\<lambda>(r, dists', prev'). (go_bind r (\<lambda>u. Inr dists'), g\<lparr>g_prev := prev'\<rparr>))
                (dijkstra_loop g (dists[s := Fin 0], prev, pq)))"

partial_function (option) build_path :: "int list \<Rightarrow> int \<Rightarrow> int list \<Rightarrow> int list go option" where
  "build_path prev cur path =
     (if cur = - 1 then Some (Inr path)
      else (case go_index prev cur of
              Inl e \<Rightarrow> Some (Inl e)
            | Inr next \<Rightarrow> build_path prev next (cur # path)))"

definition GetShortestPath ::
    "graph option \<Rightarrow> int \<Rightarrow> int \<Rightarrow> ((int list \<times> float64) go \<times> graph option) option" where
  "GetShortestPath go_g start end =
     (case go_g of
        None \<Rightarrow> Some (Inl (Err (Errorf ''graph is nil'')), None)
      | Some g \<Rightarrow>
          (case Dijkstra g start of
             None \<Rightarrow> None
           | Some (Inl e, g') \<Rightarrow> Some (Inl e, Some g')
           | Some (Inr dists, g') \<Rightarrow>
               (case go_index dists end of
                  Inl e \<Rightarrow> Some (Inl e, Some g')
                | Inr d \<Rightarrow>
                    (if d = PInf then Some (Inl (Err (Errorf ''no path exists'')), Some g')
                     else map_option (\<lambda>r. (go_bind r (\<lambda>path. Inr (path, d)), Some g'))
                            (build_path (g_prev g') end [])))))"

end
