(* ===== verification/Paths.thy ===== *)
theory Paths
  imports Graph
begin

text \<open>
  The abstract specification of shortest paths: walks of a weighted graph on \<open>{..<n}\<close>, their cost as
  the left-to-right \<open>float64\<close> sum of their weights, and what it means for a label to be a least one. The
  weights may be +Inf (no edge) but not negative and not NaN.
\<close>

type_synonym weights = "nat \<Rightarrow> nat \<Rightarrow> float64"

definition good_weights :: "nat \<Rightarrow> weights \<Rightarrow> bool" where
  "good_weights n W \<longleftrightarrow> (\<forall>u<n. \<forall>v<n. fnonneg (W u v) \<and> f64 (W u v))"

definition edges :: "nat list \<Rightarrow> (nat \<times> nat) list" where
  "edges p = zip p (tl p)"

definition path_cost :: "weights \<Rightarrow> nat list \<Rightarrow> float64" where
  "path_cost W p = fold (\<lambda>(u, v) d. fadd d (W u v)) (edges p) (Fin 0)"

definition walk :: "nat \<Rightarrow> nat \<Rightarrow> nat \<Rightarrow> nat list \<Rightarrow> bool" where
  "walk n s t p \<longleftrightarrow> p \<noteq> [] \<and> hd p = s \<and> last p = t \<and> set p \<subseteq> {..<n}"

text \<open>\<open>d\<close> is the cost of a cheapest walk from \<open>s\<close> to \<open>t\<close>; +Inf when every walk uses a missing edge.\<close>

definition shortest :: "nat \<Rightarrow> weights \<Rightarrow> nat \<Rightarrow> nat \<Rightarrow> float64 \<Rightarrow> bool" where
  "shortest n W s t d \<longleftrightarrow>
     (\<exists>p. walk n s t p \<and> path_cost W p = d) \<and> (\<forall>p. walk n s t p \<longrightarrow> d \<le> path_cost W p)"

section \<open>Costs\<close>

lemma good_weightsD:
  "good_weights n W \<Longrightarrow> u < n \<Longrightarrow> v < n \<Longrightarrow> fnonneg (W u v)"
  by (simp add: good_weights_def)

lemma edges_snoc: "p \<noteq> [] \<Longrightarrow> edges (p @ [v]) = edges p @ [(last p, v)]"
proof (induction p)
  case (Cons x p)
  then show ?case by (cases p) (simp_all add: edges_def)
qed simp

lemma path_cost_single [simp]: "path_cost W [u] = Fin 0"
  by (simp add: path_cost_def edges_def)

lemma path_cost_snoc: "p \<noteq> [] \<Longrightarrow> path_cost W (p @ [v]) = fadd (path_cost W p) (W (last p) v)"
  by (simp add: path_cost_def edges_snoc)

lemma path_cost_snoc2: "path_cost W (p @ [u, v]) = fadd (path_cost W (p @ [u])) (W u v)"
  using path_cost_snoc [of "p @ [u]" W v] by simp

lemma walk_single [simp]: "walk n s t [u] \<longleftrightarrow> u = s \<and> u = t \<and> u < n"
  by (auto simp: walk_def)

lemma walk_snoc: "walk n s u p \<Longrightarrow> v < n \<Longrightarrow> walk n s v (p @ [v])"
  by (auto simp: walk_def)

lemma walk_ends: "walk n s t p \<Longrightarrow> p \<noteq> [] \<and> last p = t \<and> s < n \<and> t < n"
  using last_in_set [of p] hd_in_set [of p] unfolding walk_def by blast

lemma walk_induct [consumes 1, case_names start step]:
  assumes "walk n s t p"
    and "s < n \<Longrightarrow> P s [s]"
    and "\<And>u v q. walk n s u q \<Longrightarrow> v < n \<Longrightarrow> P u q \<Longrightarrow> P v (q @ [v])"
  shows "P t p"
  using assms(1)
proof (induction p arbitrary: t rule: rev_induct)
  case (snoc v q)
  show ?case
  proof (cases "q = []")
    case True
    with snoc.prems assms(2) show ?thesis by (auto simp: walk_def)
  next
    case False
    with snoc.prems have "walk n s (last q) q" "v < n" "t = v" by (auto simp: walk_def)
    with assms(3) snoc.IH show ?thesis by blast
  qed
qed (simp add: walk_def)

lemma path_cost_good:
  assumes "good_weights n W" "walk n s t p"
  shows "fnonneg (path_cost W p) \<and> f64 (path_cost W p)"
  using assms(2)
proof (induction rule: walk_induct)
  case (step u v q)
  then have "W (last q) v = W u v" "q \<noteq> []" "u < n" by (auto dest: walk_ends)
  with step show ?case by (auto simp: path_cost_snoc intro: fadd_nonneg good_weightsD [OF assms(1)])
qed simp

text \<open>Adding an edge never makes a path cheaper, whatever the rounding.\<close>

lemma path_cost_step:
  assumes "good_weights n W" "walk n s u q" "v < n"
  shows "path_cost W q \<le> path_cost W (q @ [v])"
proof -
  have "q \<noteq> []" "last q = u" "u < n" using walk_ends [OF assms(2)] by auto
  with path_cost_good [OF assms(1,2)] good_weightsD [OF assms(1), of u v] assms(3) show ?thesis
    by (simp add: path_cost_snoc fadd_ge)
qed

lemma path_cost_prefix:
  assumes "good_weights n W" "walk n s t (p @ q)" "p \<noteq> []"
  shows "path_cost W p \<le> path_cost W (p @ q)"
  using assms(2)
proof (induction q arbitrary: t rule: rev_induct)
  case (snoc v q)
  from snoc.prems assms(3) have w: "walk n s (last (p @ q)) (p @ q)" "v < n" by (auto simp: walk_def)
  from snoc.IH [OF w(1)] path_cost_step [OF assms(1) w] show ?case by simp
qed simp

text \<open>A labelling that every edge respects is below the cost of every walk.\<close>

lemma label_below_walks:
  assumes good: "good_weights n W"
    and nn: "\<And>v. v < n \<Longrightarrow> fnonneg (d v)"
    and s: "d s \<le> Fin 0"
    and relaxed: "\<And>u v. u < n \<Longrightarrow> v < n \<Longrightarrow> d v \<le> fadd (d u) (W u v)"
    and "walk n s t p"
  shows "d t \<le> path_cost W p"
  using assms(5)
proof (induction rule: walk_induct)
  case (step u v q)
  then have l: "W (last q) v = W u v" "q \<noteq> []" "u < n" by (auto dest: walk_ends)
  have "d v \<le> fadd (d u) (W u v)" using relaxed l(3) step(2) .
  also have "\<dots> \<le> fadd (path_cost W q) (W u v)"
    using step l nn [of u] path_cost_good [OF good step(1)] good_weightsD [OF good, of u v]
    by (intro fadd_mono) auto
  finally show ?case using l by (simp add: path_cost_snoc)
qed (use s in simp)

lemma finite_simple_costs: "finite {path_cost W p | p. distinct p \<and> set p \<subseteq> {..<n}}"
proof -
  have "{path_cost W p | p. distinct p \<and> set p \<subseteq> {..<n}} \<subseteq> path_cost W ` {p. set p \<subseteq> {..<n} \<and> length p \<le> n}"
  proof clarify
    fix p assume p: "distinct p" "set p \<subseteq> {..<n}"
    then have "length p \<le> n" using card_mono [of "{..<n}" "set p"] by (simp add: distinct_card)
    with p show "path_cost W p \<in> path_cost W ` {p. set p \<subseteq> {..<n} \<and> length p \<le> n}" by auto
  qed
  then show ?thesis using finite_lists_length_le [of "{..<n}" n] by (meson finite_imageI finite_lessThan finite_subset)
qed

end
