(* ===== verification/Shortest.thy ===== *)
theory Shortest
  imports Paths
begin

text \<open>
  The refinement of \<open>Dijkstra\<close> and \<open>GetShortestPath\<close> to the specification \<open>shortest\<close> of \<open>Paths\<close>. The queue of
  the code hands out a route of greatest distance, so a label can be corrected many times; the
  proof therefore uses no order of the queue, only that it neither loses nor invents routes.
  Termination: every label is the cost of a walk without repeated nodes, of which there are
  finitely many, and a relaxation replaces a label by a smaller one.
\<close>

section \<open>The queue of routes\<close>

definition route_key :: "route \<Rightarrow> nat \<times> float64" where
  "route_key r = (rt_node r, rt_distance r)"

interpretation pq: heap_methods pq_ops route_key "\<lambda>a b. flt (snd b) (snd a)"
proof unfold_locales
  fix h :: "route list" and i j assume l: "i < length h" "j < length h"
  show "map route_key (swap_op pq_ops h i j) = swap_at (map route_key h) i j"
    using l by (intro nth_equalityI)
      (auto simp: pq_ops_def pq_swap_def Let_def nth_swap_at nth_list_update route_key_def)
qed (auto simp: pq_ops_def route_key_def map_butlast)

definition queued :: "route list \<Rightarrow> (nat \<times> float64) set" where
  "queued pq = route_key ` set pq"

lemma queued_push: "queued (heap_push pq_ops r pq) = insert (rt_node r, rt_distance r) (queued pq)"
  using pq.push_set [of r pq] by (simp add: queued_def route_key_def)

lemma queued_pop:
  "pq \<noteq> [] \<Longrightarrow> heap_pop pq_ops pq = (r, pq') \<Longrightarrow> queued pq = insert (rt_node r, rt_distance r) (queued pq')"
  using pq.pop_set [of pq r pq'] by (simp add: queued_def route_key_def)

section \<open>One relaxation\<close>

definition relax1 :: "weights \<Rightarrow> nat \<Rightarrow> nat \<Rightarrow> dijkstra_state \<Rightarrow> dijkstra_state" where
  "relax1 W u v s =
     (case s of (ds, prev, pq) \<Rightarrow>
        let nd = fadd (ds ! u) (W u v)
        in if W u v \<noteq> PInf \<and> flt nd (ds ! v) then
             (ds[v := nd], prev[v := int u],
              heap_push pq_ops \<lparr>rt_node = v, rt_distance = nd, rt_index = 0\<rparr> pq)
           else s)"

definition graph_dims :: "graph \<Rightarrow> bool" where
  "graph_dims g \<longleftrightarrow> length (g_matrix g) = g_size g \<and> (\<forall>row\<in>set (g_matrix g). length row = g_size g)"

definition weight :: "graph \<Rightarrow> weights" where
  "weight g u v = g_matrix g ! u ! v"

lemma mat_get_in:
  "length m = n \<Longrightarrow> \<forall>row\<in>set m. length row = n \<Longrightarrow> u < n \<Longrightarrow> v < n \<Longrightarrow> mat_get m (int u) (int v) = Inr (m ! u ! v)"
  by (simp add: mat_get_def)

lemma relax_eq:
  "graph_dims g \<Longrightarrow> u < g_size g \<Longrightarrow> v < g_size g \<Longrightarrow> relax g u v s = Inr (relax1 (weight g) u v s)"
  by (cases s) (simp add: relax_def relax1_def graph_dims_def mat_get_in weight_def Let_def)

lemma fold_relax_eq:
  assumes "graph_dims g" "u < g_size g" "set vs \<subseteq> {..<g_size g}"
  shows "go_fold (relax g u) vs s = Inr (fold (relax1 (weight g) u) vs s)"
  using assms(3) by (induction vs arbitrary: s) (simp_all add: relax_eq [OF assms(1,2)])

section \<open>The invariant\<close>

text \<open>A walk behind every finite label: simple, of that cost, and no label on it exceeds the cost so far.\<close>

definition backed :: "nat \<Rightarrow> weights \<Rightarrow> nat \<Rightarrow> float64 list \<Rightarrow> nat \<Rightarrow> nat list \<Rightarrow> bool" where
  "backed n W s ds v p \<longleftrightarrow>
     walk n s v p \<and> distinct p \<and> path_cost W p = ds ! v \<and>
     (\<forall>a b. p = a @ b \<longrightarrow> a \<noteq> [] \<longrightarrow> ds ! last a \<le> path_cost W a)"

definition labels_inv :: "nat \<Rightarrow> weights \<Rightarrow> nat \<Rightarrow> float64 list \<Rightarrow> bool" where
  "labels_inv n W s ds \<longleftrightarrow>
     s < n \<and> length ds = n \<and> ds ! s = Fin 0 \<and> (\<forall>v<n. fnonneg (ds ! v)) \<and>
     (\<forall>v<n. ds ! v \<noteq> PInf \<longrightarrow> (\<exists>p. backed n W s ds v p))"

definition prev_rel :: "int list \<Rightarrow> (nat \<times> nat) set" where
  "prev_rel prev = {(u, v). v < length prev \<and> prev ! v = int u}"

definition prev_inv :: "nat \<Rightarrow> weights \<Rightarrow> nat \<Rightarrow> float64 list \<Rightarrow> int list \<Rightarrow> bool" where
  "prev_inv n W s ds prev \<longleftrightarrow>
     length prev = n \<and> prev ! s = - 1 \<and> acyclic (prev_rel prev) \<and>
     (\<forall>v<n. v \<noteq> s \<longrightarrow>
        (if ds ! v = PInf then prev ! v = - 1
         else \<exists>u<n. prev ! v = int u \<and> W u v \<noteq> PInf \<and> fadd (ds ! u) (W u v) \<le> ds ! v))"

text \<open>The edges of a node are relaxed, or the node is queued with its label, or they are in \<open>A\<close>.\<close>

definition edge_relaxed :: "weights \<Rightarrow> float64 list \<Rightarrow> nat \<Rightarrow> nat \<Rightarrow> bool" where
  "edge_relaxed W ds u v \<longleftrightarrow> ds ! v \<le> fadd (ds ! u) (W u v)"

definition queue_inv ::
    "nat \<Rightarrow> weights \<Rightarrow> (nat \<times> nat) set \<Rightarrow> float64 list \<Rightarrow> (nat \<times> float64) set \<Rightarrow> bool" where
  "queue_inv n W A ds Q \<longleftrightarrow>
     (\<forall>(u, d)\<in>Q. u < n \<and> fnonneg d \<and> ds ! u \<le> d) \<and>
     (\<forall>u<n. (u, ds ! u) \<in> Q \<or> (\<forall>v<n. (u, v) \<notin> A \<longrightarrow> edge_relaxed W ds u v))"

definition dijkstra_inv :: "nat \<Rightarrow> weights \<Rightarrow> nat \<Rightarrow> (nat \<times> nat) set \<Rightarrow> dijkstra_state \<Rightarrow> bool" where
  "dijkstra_inv n W s A st \<longleftrightarrow>
     (case st of (ds, prev, pq) \<Rightarrow>
        labels_inv n W s ds \<and> prev_inv n W s ds prev \<and> queue_inv n W A ds (queued pq))"

lemma label_good:
  assumes "good_weights n W" "labels_inv n W s ds" "v < n"
  shows "fnonneg (ds ! v)" "f64 (ds ! v)"
proof -
  show "fnonneg (ds ! v)" using assms(2,3) by (simp add: labels_inv_def)
  show "f64 (ds ! v)"
  proof (cases "ds ! v = PInf")
    case False
    then obtain p where "walk n s v p" "path_cost W p = ds ! v"
      using assms(2,3) by (auto simp: labels_inv_def backed_def)
    with path_cost_good [OF assms(1)] show ?thesis by metis
  qed simp
qed

text \<open>What an improvement of the label of \<open>v\<close> through \<open>u\<close> means.\<close>

definition improves :: "nat \<Rightarrow> weights \<Rightarrow> nat \<Rightarrow> float64 list \<Rightarrow> nat \<Rightarrow> nat \<Rightarrow> float64 \<Rightarrow> bool" where
  "improves n W s ds u v nd \<longleftrightarrow>
     u < n \<and> v < n \<and> nd = fadd (ds ! u) (W u v) \<and> W u v \<noteq> PInf \<and> nd < ds ! v"

lemma improves_facts:
  assumes "good_weights n W" "labels_inv n W s ds" "improves n W s ds u v nd"
  shows "fnonneg nd" "ds ! u \<le> nd" "ds ! u \<noteq> PInf" "v \<noteq> u" "v \<noteq> s" "ds ! u < ds ! v" "nd \<noteq> PInf"
proof -
  note i = assms(3) [unfolded improves_def]
  have u: "fnonneg (ds ! u)" "f64 (ds ! u)" using label_good [OF assms(1,2), of u] i by simp_all
  have w: "fnonneg (W u v)" using good_weightsD [OF assms(1)] i by simp
  from fadd_nonneg [OF u(1) w] i show nd: "fnonneg nd" by simp
  from fadd_ge [OF u(2,1) w] i show le: "ds ! u \<le> nd" by simp
  then show lt: "ds ! u < ds ! v" using i order_le_less_trans by blast
  then show "v \<noteq> u" by auto
  have "fnonneg (ds ! v)" using label_good [OF assms(1,2), of v] i by simp
  then have "ds ! v \<le> PInf" by (simp add: fnonneg_not_NaN)
  then show "ds ! u \<noteq> PInf" using lt by (metis leD)
  show "nd \<noteq> PInf" using i \<open>ds ! v \<le> PInf\<close> by (metis leD)
  show "v \<noteq> s"
  proof
    assume "v = s"
    then have "nd < Fin 0" using i assms(2) by (auto simp: labels_inv_def)
    with nd show False by (cases nd) (auto simp: less_float64_def)
  qed
qed

lemma improves_backed:
  assumes "good_weights n W" "labels_inv n W s ds" "improves n W s ds u v nd" "backed n W s ds u p"
  shows "v \<notin> set p"
proof
  assume "v \<in> set p"
  then obtain a b where ab: "p = (a @ [v]) @ b" by (metis append.assoc append_Cons append_Nil split_list)
  with assms(4) have "ds ! v \<le> path_cost W (a @ [v])" unfolding backed_def by (metis last_snoc snoc_eq_iff_butlast)
  also have "\<dots> \<le> path_cost W p"
    using path_cost_prefix [OF assms(1), of s u "a @ [v]" b] assms(4) ab by (simp add: backed_def)
  also have "path_cost W p = ds ! u" using assms(4) by (simp add: backed_def)
  finally show False using improves_facts(6) [OF assms(1-3)] by simp
qed

text \<open>A lower label stays below the walks it was below, and one more step is backed by one more node.\<close>

lemma improved_below:
  assumes "labels_inv n W s ds" "improves n W s ds u v nd" "backed n W s ds x p" "p = a @ b" "a \<noteq> []"
  shows "ds[v := nd] ! last a \<le> path_cost W a"
proof -
  have "set a \<subseteq> {..<n}" using assms(3,4) by (auto simp: backed_def walk_def)
  then have "last a < n" using assms(5) last_in_set by blast
  then have "ds[v := nd] ! last a \<le> ds ! last a"
    using assms(1,2) by (auto simp: nth_list_update improves_def labels_inv_def)
  also have "\<dots> \<le> path_cost W a" using assms(3-5) unfolding backed_def by blast
  finally show ?thesis .
qed

lemma backed_step:
  assumes good: "good_weights n W" and inv: "labels_inv n W s ds" and imp: "improves n W s ds u v nd" and p: "backed n W s ds u p"
  shows "backed n W s (ds[v := nd]) v (p @ [v])"
  unfolding backed_def
proof (intro conjI allI impI)
  note i = imp [unfolded improves_def]
  have len: "length ds = n" using inv by (simp add: labels_inv_def)
  have w: "walk n s u p" "path_cost W p = ds ! u" "last p = u" "p \<noteq> []" using p by (auto simp: backed_def dest: walk_ends)
  show "walk n s v (p @ [v])" using walk_snoc w(1) i by blast
  show "distinct (p @ [v])" using improves_backed [OF good inv imp p] p by (simp add: backed_def)
  show c: "path_cost W (p @ [v]) = ds[v := nd] ! v" using w i len by (simp add: path_cost_snoc)
  fix a b assume ab: "p @ [v] = a @ b" "a \<noteq> []"
  show "ds[v := nd] ! last a \<le> path_cost W a"
  proof (cases b rule: rev_cases)
    case Nil
    with ab c show ?thesis by (metis append_Nil2 last_snoc order_refl)
  next
    case (snoc b' x)
    with ab improved_below [OF inv imp p] show ?thesis by simp
  qed
qed

lemma labels_inv_improve:
  assumes good: "good_weights n W" and inv: "labels_inv n W s ds" and imp: "improves n W s ds u v nd"
  shows "labels_inv n W s (ds[v := nd])"
proof -
  note i = imp [unfolded improves_def] and f = improves_facts [OF good inv imp]
  have len: "length ds = n" using inv by (simp add: labels_inv_def)
  have "\<exists>p. backed n W s (ds[v := nd]) x p" if x: "x < n" "ds[v := nd] ! x \<noteq> PInf" for x
  proof (cases "x = v")
    case False
    then have "ds ! x \<noteq> PInf" using x by simp
    then obtain p where p: "backed n W s ds x p" using inv x(1) by (auto simp: labels_inv_def)
    then have "backed n W s (ds[v := nd]) x p"
      using improved_below [OF inv imp p] False by (auto simp: backed_def)
    then show ?thesis ..
  next
    case True
    obtain p where "backed n W s ds u p" using inv f(3) i by (auto simp: labels_inv_def)
    from backed_step [OF good inv imp this] True show ?thesis by blast
  qed
  then show ?thesis
    using inv f(1,5) i unfolding labels_inv_def by (auto simp: nth_list_update)
qed

lemma acyclic_prev_improve:
  assumes acyc: "acyclic (prev_rel prev)" and len: "length prev = n" "v < n"
    and mono: "\<And>a b. (a, b) \<in> prev_rel prev \<Longrightarrow> (ds ! a :: float64) \<le> ds ! b"
    and less: "ds ! u < ds ! v"
  shows "acyclic (prev_rel (prev[v := int u]))"
proof -
  have "prev_rel (prev[v := int u]) \<subseteq> insert (u, v) (prev_rel prev)"
    using len by (auto simp: prev_rel_def nth_list_update split: if_splits)
  moreover have "ds ! a \<le> ds ! b" if "(a, b) \<in> (prev_rel prev)\<^sup>*" for a b
    using that by (induction rule: rtrancl_induct) (auto dest: mono intro: order_trans)
  then have "(v, u) \<notin> (prev_rel prev)\<^sup>*" using less by (meson leD)
  with acyc have "acyclic (insert (u, v) (prev_rel prev))" by (simp add: acyclic_insert)
  ultimately show ?thesis by (metis acyclic_subset)
qed

lemma prev_invD:
  "prev_inv n W s ds prev \<Longrightarrow> v < n \<Longrightarrow> v \<noteq> s \<Longrightarrow> ds ! v \<noteq> PInf \<Longrightarrow>
     \<exists>u<n. prev ! v = int u \<and> W u v \<noteq> PInf \<and> fadd (ds ! u) (W u v) \<le> ds ! v"
  by (simp add: prev_inv_def)

lemma prev_rel_mono:
  assumes good: "good_weights n W" and inv: "labels_inv n W s ds" "prev_inv n W s ds prev"
    and "(a, b) \<in> prev_rel prev"
  shows "ds ! a \<le> ds ! b"
proof -
  have b: "b < n" "prev ! b = int a" using assms(3,4) by (auto simp: prev_rel_def prev_inv_def)
  then have "b \<noteq> s" "ds ! b \<noteq> PInf" using assms(3) by (auto simp: prev_inv_def)
  with b assms(3) have a: "a < n" "fadd (ds ! a) (W a b) \<le> ds ! b" by (auto simp: prev_inv_def)
  have "ds ! a \<le> fadd (ds ! a) (W a b)"
    using label_good [OF good inv(1)] good_weightsD [OF good] a b by (simp add: fadd_ge)
  with a show ?thesis by simp
qed

lemma prev_inv_improve:
  assumes good: "good_weights n W" and inv: "labels_inv n W s ds" "prev_inv n W s ds prev"
    and imp: "improves n W s ds u v nd"
  shows "prev_inv n W s (ds[v := nd]) (prev[v := int u])"
proof -
  note i = imp [unfolded improves_def] and f = improves_facts [OF good inv(1) imp]
  have len: "length ds = n" "length prev = n" using inv by (simp_all add: labels_inv_def prev_inv_def)
  have "acyclic (prev_rel (prev[v := int u]))"
    using prev_rel_mono [OF good inv] f(6) i len inv(2)
    by (intro acyclic_prev_improve [where ds = ds and n = n]) (auto simp: prev_inv_def)
  moreover have "\<exists>a<n. prev[v := int u] ! b = int a \<and> W a b \<noteq> PInf \<and> fadd (ds[v := nd] ! a) (W a b) \<le> ds[v := nd] ! b"
    if b: "b < n" "b \<noteq> s" "ds[v := nd] ! b \<noteq> PInf" for b
  proof (cases "b = v")
    case True
    with i f(4) len show ?thesis by (intro exI [of _ u]) auto
  next
    case False
    then obtain a where a: "a < n" "prev ! b = int a" "W a b \<noteq> PInf" "fadd (ds ! a) (W a b) \<le> ds ! b"
      using prev_invD [OF inv(2), of b] b by auto
    have "ds[v := nd] ! a \<le> ds ! a" "fnonneg (ds[v := nd] ! a)"
      using i f(1) a(1) len label_good [OF good inv(1)] by (auto simp: nth_list_update)
    then have "fadd (ds[v := nd] ! a) (W a b) \<le> fadd (ds ! a) (W a b)"
      using label_good [OF good inv(1) a(1)] good_weightsD [OF good a(1) b(1)] by (intro fadd_mono) auto
    with a False show ?thesis by (intro exI [of _ a]) auto
  qed
  ultimately show ?thesis
    using inv(2) f(1,5,7) i len unfolding prev_inv_def by (auto simp: nth_list_update)
qed

lemma queue_inv_improve:
  assumes good: "good_weights n W" and inv: "labels_inv n W s ds" "queue_inv n W A ds Q"
    and imp: "improves n W s ds u v nd"
  shows "queue_inv n W (A - {(u, v)}) (ds[v := nd]) (insert (v, nd) Q)"
proof -
  note i = imp [unfolded improves_def] and f = improves_facts [OF good inv(1) imp]
  have len: "length ds = n" using inv by (simp add: labels_inv_def)
  have less: "ds[v := nd] ! x \<le> ds ! x" if "x < n" for x
    using that i len by (auto simp: nth_list_update)
  have "a < n \<and> fnonneg d \<and> ds[v := nd] ! a \<le> d" if "(a, d) \<in> insert (v, nd) Q" for a d
  proof (cases "(a, d) = (v, nd)")
    case False
    then have "a < n" "fnonneg d" "ds ! a \<le> d" using that inv(2) by (auto simp: queue_inv_def)
    with less [of a] show ?thesis by auto
  qed (use i f len in auto)
  moreover have "(a, ds[v := nd] ! a) \<in> insert (v, nd) Q \<or>
      (\<forall>b<n. (a, b) \<notin> A - {(u, v)} \<longrightarrow> edge_relaxed W (ds[v := nd]) a b)" if a: "a < n" for a
  proof (cases "a = v \<or> (a, ds ! a) \<in> Q")
    case False
    then have old: "\<forall>b<n. (a, b) \<notin> A \<longrightarrow> edge_relaxed W ds a b" using a inv(2) by (auto simp: queue_inv_def)
    have "edge_relaxed W (ds[v := nd]) a b" if b: "b < n" "(a, b) \<notin> A - {(u, v)}" for b
    proof (cases "(a, b) = (u, v)")
      case True
      with i f(4) len show ?thesis by (simp add: edge_relaxed_def)
    next
      case neq: False
      then have "edge_relaxed W ds a b" using old b by auto
      with less [OF b(1)] False show ?thesis unfolding edge_relaxed_def by simp
    qed
    then show ?thesis by blast
  next
    case True
    with i len show ?thesis by (cases "a = v") simp_all
  qed
  ultimately show ?thesis unfolding queue_inv_def by blast
qed

lemma dijkstra_inv_relax1:
  assumes good: "good_weights n W" and inv: "dijkstra_inv n W s A st" and uv: "u < n" "v < n"
  shows "dijkstra_inv n W s (A - {(u, v)}) (relax1 W u v st)"
proof -
  obtain ds prev pq where st: "st = (ds, prev, pq)" by (cases st)
  have l: "labels_inv n W s ds" and p: "prev_inv n W s ds prev" and q: "queue_inv n W A ds (queued pq)"
    using inv by (simp_all add: dijkstra_inv_def st)
  let ?nd = "fadd (ds ! u) (W u v)"
  have nn: "fnonneg (ds ! u)" "fnonneg (ds ! v)" "fnonneg (W u v)"
    using label_good [OF good l] good_weightsD [OF good] uv by simp_all
  then have nd: "fnonneg ?nd" by (simp add: fadd_nonneg)
  show ?thesis
  proof (cases "W u v \<noteq> PInf \<and> flt ?nd (ds ! v)")
    case True
    then have imp: "improves n W s ds u v ?nd"
      using nn nd uv by (simp add: improves_def flt_nonneg)
    show ?thesis
      using True labels_inv_improve [OF good l imp] prev_inv_improve [OF good l p imp]
        queue_inv_improve [OF good l q imp]
      by (simp add: dijkstra_inv_def relax1_def st Let_def queued_push)
  next
    case False
    have "edge_relaxed W ds u v"
    proof (cases "W u v = PInf")
      case True
      with nn show ?thesis by (cases "ds ! u") (auto simp: edge_relaxed_def fnonneg_not_NaN)
    next
      case False
      with \<open>\<not> (W u v \<noteq> PInf \<and> flt ?nd (ds ! v))\<close> nn nd show ?thesis
        by (simp add: edge_relaxed_def flt_nonneg)
    qed
    with q have "queue_inv n W (A - {(u, v)}) ds (queued pq)" unfolding queue_inv_def by blast
    with False l p show ?thesis by (auto simp: dijkstra_inv_def relax1_def st Let_def)
  qed
qed

section \<open>Termination and the final labels\<close>

definition simple_costs :: "nat \<Rightarrow> weights \<Rightarrow> float64 set" where
  "simple_costs n W = {path_cost W p | p. distinct p \<and> set p \<subseteq> {..<n}}"

text \<open>How far the labels can still fall.\<close>

definition slack :: "nat \<Rightarrow> weights \<Rightarrow> float64 list \<Rightarrow> nat" where
  "slack n W ds = (\<Sum>v<n. card {x \<in> simple_costs n W. x < ds ! v})"

lemma slack_decreases:
  assumes len: "length ds = n" "v < n" and x: "x \<in> simple_costs n W" "x < ds ! v"
  shows "slack n W (ds[v := x]) < slack n W ds"
proof -
  let ?below = "\<lambda>d. {y \<in> simple_costs n W. y < d}"
  have fin: "finite (simple_costs n W)" unfolding simple_costs_def by (rule finite_simple_costs)
  have "?below x \<subset> ?below (ds ! v)" using x by auto
  then have lt: "card (?below x) < card (?below (ds ! v))" using fin by (intro psubset_card_mono) auto
  show ?thesis
    unfolding slack_def
  proof (rule sum_strict_mono_ex1)
    show "\<forall>w\<in>{..<n}. card (?below (ds[v := x] ! w)) \<le> card (?below (ds ! w))"
      using lt len by (auto simp: nth_list_update)
    show "\<exists>w\<in>{..<n}. card (?below (ds[v := x] ! w)) < card (?below (ds ! w))"
      using lt len by (intro bexI [of _ v]) auto
  qed simp
qed

lemma label_simple:
  assumes "labels_inv n W s ds" "v < n" "ds ! v \<noteq> PInf"
  shows "ds ! v \<in> simple_costs n W"
proof -
  obtain p where "walk n s v p" "distinct p" "path_cost W p = ds ! v"
    using assms by (auto simp: labels_inv_def backed_def)
  then show ?thesis unfolding simple_costs_def walk_def by (metis (mono_tags, lifting) mem_Collect_eq)
qed

lemma relax1_slack:
  assumes good: "good_weights n W" and inv: "dijkstra_inv n W s A st" and uv: "u < n" "v < n"
  shows "relax1 W u v st = st \<or> slack n W (fst (relax1 W u v st)) < slack n W (fst st)"
proof -
  obtain ds prev pq where st: "st = (ds, prev, pq)" by (cases st)
  have l: "labels_inv n W s ds" using inv by (simp add: dijkstra_inv_def st)
  let ?nd = "fadd (ds ! u) (W u v)"
  have nn: "fnonneg (ds ! v)" "fnonneg ?nd"
    using label_good [OF good l] good_weightsD [OF good] uv by (simp_all add: fadd_nonneg)
  show ?thesis
  proof (cases "W u v \<noteq> PInf \<and> flt ?nd (ds ! v)")
    case True
    then have imp: "improves n W s ds u v ?nd" using nn uv by (simp add: improves_def flt_nonneg)
    have len: "length ds = n" using l by (simp add: labels_inv_def)
    have "labels_inv n W s (ds[v := ?nd])" by (rule labels_inv_improve [OF good l imp])
    from label_simple [OF this uv(2)] improves_facts(7) [OF good l imp] len uv
    have "?nd \<in> simple_costs n W" by simp
    with slack_decreases len uv(2) imp have "slack n W (ds[v := ?nd]) < slack n W ds"
      by (simp add: improves_def)
    with True show ?thesis by (simp add: relax1_def st Let_def)
  next
    case False
    then show ?thesis by (auto simp: relax1_def st Let_def)
  qed
qed

lemma fold_relax1:
  assumes good: "good_weights n W" and "dijkstra_inv n W s A st" "u < n" "set vs \<subseteq> {..<n}"
  defines "st' \<equiv> fold (relax1 W u) vs st"
  shows "dijkstra_inv n W s (A - {u} \<times> set vs) st' \<and> (st' = st \<or> slack n W (fst st') < slack n W (fst st))"
  using assms(2,4) unfolding st'_def
proof (induction vs arbitrary: st A)
  case (Cons v vs)
  let ?r = "relax1 W u v st"
  have v: "v < n" using Cons.prems by simp
  have "A - {(u, v)} - {u} \<times> set vs = A - {u} \<times> set (v # vs)" by auto
  with Cons.IH [OF dijkstra_inv_relax1 [OF good Cons.prems(1) assms(3) v]] Cons.prems(2)
    relax1_slack [OF good Cons.prems(1) assms(3) v]
  show ?case by (auto intro: less_trans)
qed simp

lemma dijkstra_pop:
  assumes inv: "dijkstra_inv n W s {} (ds, prev, pq)" and pop: "pq \<noteq> []" "heap_pop pq_ops pq = (r, pq')"
  shows "rt_node r < n" "flt (ds ! rt_node r) (rt_distance r) \<Longrightarrow> dijkstra_inv n W s {} (ds, prev, pq')"
    "\<not> flt (ds ! rt_node r) (rt_distance r) \<Longrightarrow> dijkstra_inv n W s ({rt_node r} \<times> {..<n}) (ds, prev, pq')"
proof -
  let ?u = "rt_node r" and ?d = "rt_distance r"
  have q: "queue_inv n W {} ds (insert (?u, ?d) (queued pq'))"
    using inv queued_pop [OF pop] by (simp add: dijkstra_inv_def)
  then show u: "?u < n" by (simp add: queue_inv_def)
  have "fnonneg (ds ! ?u)" "fnonneg ?d" "ds ! ?u \<le> ?d"
    using q u inv by (auto simp: queue_inv_def dijkstra_inv_def labels_inv_def)
  then have cmp: "flt (ds ! ?u) ?d \<longleftrightarrow> ds ! ?u \<noteq> ?d" by (auto simp: flt_nonneg)
  have "queue_inv n W {} ds (queued pq')" if "ds ! ?u \<noteq> ?d"
    using q that by (auto simp: queue_inv_def)
  moreover have "queue_inv n W ({?u} \<times> {..<n}) ds (queued pq')"
    using q by (auto simp: queue_inv_def)
  ultimately show "flt (ds ! ?u) ?d \<Longrightarrow> dijkstra_inv n W s {} (ds, prev, pq')"
    "\<not> flt (ds ! ?u) ?d \<Longrightarrow> dijkstra_inv n W s ({?u} \<times> {..<n}) (ds, prev, pq')"
    using inv cmp by (simp_all add: dijkstra_inv_def)
qed

text \<open>The loop returns, and with an empty queue: every edge is relaxed.\<close>

lemma dijkstra_loop_returns:
  assumes g: "graph_dims g" "good_weights (g_size g) (weight g)"
    and "dijkstra_inv (g_size g) (weight g) s {} st"
  shows "\<exists>ds prev. dijkstra_loop g st = Some (Inr (), ds, prev) \<and>
           dijkstra_inv (g_size g) (weight g) s {} (ds, prev, [])"
  using assms(3)
proof (induction st rule: wf_induct_rule [OF wf_measures
    [of "[\<lambda>st. slack (g_size g) (weight g) (fst st), \<lambda>st. length (snd (snd st))]"]])
  case (1 st)
  let ?n = "g_size g" and ?W = "weight g"
  obtain ds prev pq where st: "st = (ds, prev, pq)" by (cases st)
  show ?case
  proof (cases "pq = []")
    case True
    with 1 st show ?thesis by (simp add: dijkstra_loop.simps)
  next
    case False
    obtain r pq' where pop: "heap_pop pq_ops pq = (r, pq')" by (cases "heap_pop pq_ops pq")
    have len: "length pq' < length pq" using pq.pop_length [OF False pop] by simp
    note p = dijkstra_pop [OF 1(2) [unfolded st] False pop]
    show ?thesis
    proof (cases "flt (ds ! rt_node r) (rt_distance r)")
      case True
      have "dijkstra_loop g st = dijkstra_loop g (ds, prev, pq')"
        using False pop True by (subst dijkstra_loop.simps) (simp add: st)
      with 1(1) [of "(ds, prev, pq')"] p(2) [OF True] len show ?thesis by (simp add: st)
    next
      case neq: False
      let ?st = "fold (relax1 ?W (rt_node r)) [0..<?n] (ds, prev, pq')"
      have "{rt_node r} \<times> {..<?n} - {rt_node r} \<times> set [0..<?n] = {}" by auto
      with fold_relax1 [OF g(2) p(3) [OF neq] p(1), of "[0..<?n]"]
      have step: "dijkstra_inv ?n ?W s {} ?st"
        "?st = (ds, prev, pq') \<or> slack ?n ?W (fst ?st) < slack ?n ?W ds"
        by (auto simp: atLeast0LessThan)
      have "dijkstra_loop g st = dijkstra_loop g ?st"
        using False pop neq fold_relax_eq [OF g(1) p(1), of "[0..<?n]" "(ds, prev, pq')"]
        by (subst dijkstra_loop.simps) (simp add: st atLeast0LessThan)
      with 1(1) [of ?st] step len show ?thesis by (auto simp: st)
    qed
  qed
qed

definition graph_ok :: "graph \<Rightarrow> bool" where
  "graph_ok g \<longleftrightarrow> graph_dims g \<and> good_weights (g_size g) (weight g)"

lemma dijkstra_inv_start:
  assumes good: "good_weights n W" and s: "s < n"
  shows "dijkstra_inv n W s {}
     ((replicate n PInf)[s := Fin 0], replicate n (- 1),
      heap_push pq_ops \<lparr>rt_node = s, rt_distance = Fin 0, rt_index = 0\<rparr> [])"
proof -
  let ?ds = "(replicate n PInf)[s := Fin 0]"
  have "backed n W s ?ds s [s]"
    unfolding backed_def
  proof (intro conjI allI impI)
    fix a b assume "[s] = a @ b" "a \<noteq> []"
    then have "a = [s]" by (cases a) auto
    then show "?ds ! last a \<le> path_cost W a" using s by simp
  qed (use s in simp_all)
  then have "labels_inv n W s ?ds"
    using s by (auto simp: labels_inv_def nth_list_update)
  moreover have "prev_rel (replicate n (- 1)) = {}" by (auto simp: prev_rel_def)
  then have "prev_inv n W s ?ds (replicate n (- 1))"
    using s by (simp add: prev_inv_def nth_list_update acyclic_def)
  moreover have "edge_relaxed W ?ds u v" if "u < n" "u \<noteq> s" "v < n" for u v
  proof -
    have "fadd (?ds ! u) (W u v) = PInf"
      using that good_weightsD [OF good that(1,3)] by (cases "W u v") (auto simp: nth_list_update)
    then show ?thesis using that s by (simp add: edge_relaxed_def nth_list_update)
  qed
  then have "queue_inv n W {} ?ds {(s, Fin 0)}"
    using s by (auto simp: queue_inv_def nth_list_update)
  ultimately show ?thesis by (simp add: dijkstra_inv_def queued_push) (simp add: queued_def)
qed

definition final_labels :: "nat \<Rightarrow> weights \<Rightarrow> nat \<Rightarrow> float64 list \<Rightarrow> int list \<Rightarrow> bool" where
  "final_labels n W s ds prev \<longleftrightarrow>
     labels_inv n W s ds \<and> prev_inv n W s ds prev \<and> (\<forall>u<n. \<forall>v<n. edge_relaxed W ds u v)"

lemma Dijkstra_final:
  assumes "graph_ok g" "s < g_size g"
  obtains ds prev where "Dijkstra g (int s) = Some (Inr ds, g\<lparr>g_prev := prev\<rparr>)"
    "final_labels (g_size g) (weight g) s ds prev"
proof -
  let ?n = "g_size g" and ?W = "weight g"
  have g: "graph_dims g" "good_weights ?n ?W" using assms(1) by (simp_all add: graph_ok_def)
  from dijkstra_loop_returns [OF g dijkstra_inv_start [OF g(2) assms(2)]]
  obtain ds prev where r: "dijkstra_loop g ((replicate ?n PInf)[s := Fin 0], replicate ?n (- 1),
      heap_push pq_ops \<lparr>rt_node = s, rt_distance = Fin 0, rt_index = 0\<rparr> []) = Some (Inr (), ds, prev)"
    and i: "dijkstra_inv ?n ?W s {} (ds, prev, [])" by blast
  have "Dijkstra g (int s) = Some (Inr ds, g\<lparr>g_prev := prev\<rparr>)"
    using r assms(2) by (simp add: Dijkstra_def Let_def)
  moreover have "final_labels ?n ?W s ds prev"
    using i by (auto simp: final_labels_def dijkstra_inv_def queue_inv_def queued_def)
  ultimately show ?thesis by (rule that)
qed

lemma final_labels_shortest:
  assumes good: "good_weights n W" and fin: "final_labels n W s ds prev" and v: "v < n"
  shows "shortest n W s v (ds ! v)"
proof -
  have l: "labels_inv n W s ds" using fin by (simp add: final_labels_def)
  have below: "ds ! v \<le> path_cost W p" if "walk n s v p" for p
    using label_below_walks [OF good, of "(!) ds" s v p] l that fin
    by (auto simp: labels_inv_def final_labels_def edge_relaxed_def)
  have "\<exists>p. walk n s v p \<and> path_cost W p = ds ! v"
  proof (cases "ds ! v = PInf")
    case True
    have w: "walk n s v [s, v]" using l v by (auto simp: walk_def labels_inv_def)
    have "fnonneg (path_cost W [s, v])" using path_cost_good [OF good w] by simp
    with below [OF w] True have "path_cost W [s, v] = ds ! v" by (auto simp: fnonneg_not_NaN)
    with w show ?thesis by blast
  next
    case False
    with l v show ?thesis by (auto simp: labels_inv_def backed_def)
  qed
  with below show ?thesis by (simp add: shortest_def)
qed

section \<open>Reading the path off the predecessors\<close>

lemma wf_prev_rel:
  assumes "length prev = n" "acyclic (prev_rel prev)"
  shows "wf (prev_rel prev)"
proof (rule finite_acyclic_wf)
  have "prev_rel prev \<subseteq> {..<n} \<times> {..<n} \<union> {(u, v). v < n \<and> u = nat (prev ! v)}"
    using assms(1) by (auto simp: prev_rel_def)
  moreover have "finite {(u, v). v < n \<and> u = nat (prev ! v)}"
    by (rule finite_subset [of _ "(\<lambda>v. (nat (prev ! v), v)) ` {..<n}"]) auto
  ultimately show "finite (prev_rel prev)" by (meson finite_SigmaI finite_UnI finite_lessThan finite_subset)
qed (rule assms(2))

lemma build_path_final:
  assumes good: "good_weights n W" and fin: "final_labels n W s ds prev" and "v < n" "ds ! v \<noteq> PInf"
  shows "\<exists>p. (\<forall>acc. build_path prev (int v) acc = Some (Inr (map int p @ acc))) \<and>
           walk n s v p \<and> path_cost W p = ds ! v \<and> distinct p \<and> (\<forall>(a, b)\<in>set (edges p). W a b \<noteq> PInf) \<and>
           (\<forall>x\<in>set p. (x, v) \<in> (prev_rel prev)\<^sup>*)"
proof -
  have inv: "labels_inv n W s ds" "prev_inv n W s ds prev" using fin by (simp_all add: final_labels_def)
  have len: "length prev = n" and acyc: "acyclic (prev_rel prev)" using inv(2) by (simp_all add: prev_inv_def)
  from wf_prev_rel [OF len acyc] show ?thesis
    using assms(3,4)
  proof (induction v rule: wf_induct_rule)
    case (less v)
    have step: "build_path prev (int v) acc = build_path prev (prev ! v) (int v # acc)" for acc
      using less.prems len by (subst build_path.simps) simp
    show ?case
    proof (cases "v = s")
      case True
      have "prev ! v = - 1" using inv(2) True by (simp add: prev_inv_def)
      then have "build_path prev (int v) acc = Some (Inr (map int [v] @ acc))" for acc
        unfolding step by (subst build_path.simps) simp
      moreover have "ds ! v = Fin 0" using inv(1) True by (simp add: labels_inv_def)
      ultimately show ?thesis using True less.prems by (intro exI [of _ "[v]"]) (simp add: edges_def)
    next
      case False
      then obtain u where u: "u < n" "prev ! v = int u" "W u v \<noteq> PInf" "fadd (ds ! u) (W u v) \<le> ds ! v"
        using prev_invD [OF inv(2) less.prems(1)] less.prems by auto
      have rel: "(u, v) \<in> prev_rel prev" using u less.prems len by (simp add: prev_rel_def)
      have "ds ! u \<le> ds ! v" by (rule prev_rel_mono [OF good inv rel])
      moreover have "ds ! v \<noteq> NaN" using label_good [OF good inv(1) less.prems(1)] fnonneg_not_NaN by blast
      ultimately have "ds ! u \<noteq> PInf" using less.prems(2) by auto
      from less.IH [OF rel u(1) this] obtain p where
        p: "\<forall>acc. build_path prev (int u) acc = Some (Inr (map int p @ acc))" "walk n s u p"
          "path_cost W p = ds ! u" "distinct p" "\<forall>(a, b)\<in>set (edges p). W a b \<noteq> PInf"
          "\<forall>x\<in>set p. (x, u) \<in> (prev_rel prev)\<^sup>*" by blast
      have "v \<notin> set p"
        using p(6) rel acyc by (meson acyclic_def rtrancl_into_trancl1)
      moreover have "ds ! v = fadd (ds ! u) (W u v)"
        using fin u less.prems by (auto simp: final_labels_def edge_relaxed_def intro: antisym)
      moreover have "build_path prev (int v) acc = Some (Inr (map int (p @ [v]) @ acc))" for acc
        using p(1) unfolding step u(2) by simp
      moreover have "\<forall>x\<in>set (p @ [v]). (x, v) \<in> (prev_rel prev)\<^sup>*"
        using p(6) rel by (auto intro: rtrancl_into_rtrancl)
      ultimately show ?thesis
        using p(2-5) walk_ends [OF p(2)] walk_snoc [OF p(2) less.prems(1)] u(3)
        by (intro exI [of _ "p @ [v]"]) (auto simp: path_cost_snoc edges_snoc)
    qed
  qed
qed

section \<open>Properties\<close>

text \<open>
  C4. \<open>Dijkstra\<close> is correct and total although its queue pops a route of greatest distance first: on a
  square matrix without NaN or negative weights, from any node of the graph, it returns, and the
  label of every node is the least \<open>float64\<close> cost of any walk to it (+Inf exactly when none exists).
\<close>

theorem Dijkstra_shortest:
  assumes "graph_ok g" "s < g_size g"
  shows "\<exists>ds prev. Dijkstra g (int s) = Some (Inr ds, g\<lparr>g_prev := prev\<rparr>) \<and> length ds = g_size g \<and>
           (\<forall>v<g_size g. shortest (g_size g) (weight g) s v (ds ! v))"
proof -
  obtain ds prev where d: "Dijkstra g (int s) = Some (Inr ds, g\<lparr>g_prev := prev\<rparr>)"
    and f: "final_labels (g_size g) (weight g) s ds prev" by (rule Dijkstra_final [OF assms])
  moreover have "length ds = g_size g" using f by (simp add: final_labels_def labels_inv_def)
  ultimately show ?thesis using final_labels_shortest assms(1) unfolding graph_ok_def by blast
qed

text \<open>
  C5. \<open>GetShortestPath\<close>: for nodes of the graph it always returns. When the end can be reached, the
  result is a loop-free path from start to end along existing edges whose cost is the returned
  distance, and no walk is cheaper; when it cannot, the error "no path exists". It never panics and
  changes only the scratch array \<open>prev\<close>.
\<close>

theorem GetShortestPath_correct:
  assumes "graph_ok g" "s < g_size g" "t < g_size g"
  shows "\<exists>prev. let g' = g\<lparr>g_prev := prev\<rparr> in
     (shortest (g_size g) (weight g) s t PInf \<and>
      GetShortestPath (Some g) (int s) (int t) = Some (Inl (Err (Errorf ''no path exists'')), Some g')) \<or>
     (\<exists>p d. d \<noteq> PInf \<and> shortest (g_size g) (weight g) s t d \<and>
        GetShortestPath (Some g) (int s) (int t) = Some (Inr (map int p, d), Some g') \<and>
        walk (g_size g) s t p \<and> distinct p \<and> path_cost (weight g) p = d \<and>
        (\<forall>(a, b)\<in>set (edges p). weight g a b \<noteq> PInf))"
proof -
  have good: "good_weights (g_size g) (weight g)" using assms(1) by (simp add: graph_ok_def)
  obtain ds prev where d: "Dijkstra g (int s) = Some (Inr ds, g\<lparr>g_prev := prev\<rparr>)"
    and f: "final_labels (g_size g) (weight g) s ds prev" by (rule Dijkstra_final [OF assms(1,2)])
  have i: "go_index ds (int t) = Inr (ds ! t)"
    using f assms(3) by (simp add: final_labels_def labels_inv_def)
  note sh = final_labels_shortest [OF good f assms(3)]
  show ?thesis
  proof (cases "ds ! t = PInf")
    case True
    with d i sh show ?thesis by (intro exI [of _ prev]) (simp add: GetShortestPath_def)
  next
    case False
    from build_path_final [OF good f assms(3) False] d i sh False show ?thesis
      by (intro exI [of _ prev]) (auto simp: GetShortestPath_def Let_def)
  qed
qed

text \<open>
  The faults of \<open>GetShortestPath\<close>: a nil graph is an error; a start or an end that is not a node of the graph
  is an index panic, the start before the search and the end after it.
\<close>

lemma GetShortestPath_faults:
  assumes "graph_ok g" "0 \<le> s" "s < int (g_size g)" "t < 0 \<or> int (g_size g) \<le> t"
  shows "(\<exists>g'. GetShortestPath (Some g) s t = Some (Inl (Panic IndexOutOfRange), Some g')) \<and>
     (\<exists>g'. GetShortestPath (Some g) t s = Some (Inl (Panic IndexOutOfRange), Some g')) \<and>
     GetShortestPath None s t = Some (Inl (Err (Errorf ''graph is nil'')), None)"
proof (intro conjI)
  show "GetShortestPath None s t = Some (Inl (Err (Errorf ''graph is nil'')), None)"
    by (simp add: GetShortestPath_def)
  show "\<exists>g'. GetShortestPath (Some g) t s = Some (Inl (Panic IndexOutOfRange), Some g')"
    using assms(4) by (auto simp: GetShortestPath_def Dijkstra_def Let_def nat_le_iff le_nat_iff)
  have "nat s < g_size g" "int (nat s) = s" using assms by auto
  then obtain ds prev where d: "Dijkstra g s = Some (Inr ds, g\<lparr>g_prev := prev\<rparr>)"
    and f: "final_labels (g_size g) (weight g) (nat s) ds prev" using Dijkstra_final [OF assms(1)] by metis
  then have "length ds = g_size g" by (simp add: final_labels_def labels_inv_def)
  then have "go_index ds t = Inl (Panic IndexOutOfRange)" using assms(4) by (auto simp: go_index_def)
  with d show "\<exists>g'. GetShortestPath (Some g) s t = Some (Inl (Panic IndexOutOfRange), Some g')"
    by (simp add: GetShortestPath_def)
qed

text \<open>Three sites, where the way over the middle one is cheaper than the direct one.\<close>

definition sample_graph :: graph where
  "sample_graph = NewGraphFromMatrix
     [[PInf, Fin 3, Fin 10], [PInf, PInf, Fin 4], [PInf, PInf, PInf]]"

lemma sample_graph_ok: "graph_ok sample_graph" "g_size sample_graph = 3"
proof -
  have "round64 3 = Fin 3" "round64 4 = Fin 4" "round64 10 = Fin 10" by code_simp+
  then have "f64 (Fin 3)" "f64 (Fin 4)" "f64 (Fin 10)" by (simp_all add: f64_cases)
  then show "graph_ok sample_graph"
    unfolding graph_ok_def graph_dims_def good_weights_def weight_def sample_graph_def NewGraphFromMatrix_def
    by (simp add: All_less_Suc numeral_3_eq_3)
qed (simp add: sample_graph_def NewGraphFromMatrix_def)

theorem Dijkstra_shortest_witness:
  "\<exists>ds prev. Dijkstra sample_graph 0 = Some (Inr ds, sample_graph\<lparr>g_prev := prev\<rparr>) \<and> length ds = 3 \<and>
     (\<forall>v<3. shortest 3 (weight sample_graph) 0 v (ds ! v))"
  using Dijkstra_shortest [OF sample_graph_ok(1), of 0] sample_graph_ok(2) by simp

theorem GetShortestPath_correct_witness:
  "\<exists>r g'. GetShortestPath (Some sample_graph) 0 2 = Some (r, Some g') \<and> no_panic r"
proof -
  have "\<exists>r g'. GetShortestPath (Some sample_graph) (int 0) (int 2) = Some (r, Some g') \<and> no_panic r"
    using GetShortestPath_correct [OF sample_graph_ok(1), of 0 2] sample_graph_ok(2)
    by (auto simp: Let_def)
  then show ?thesis by simp
qed

lemma GetShortestPath_faults_witness:
  "(\<exists>g'. GetShortestPath (Some sample_graph) 0 3 = Some (Inl (Panic IndexOutOfRange), Some g')) \<and>
   (\<exists>g'. GetShortestPath (Some sample_graph) 3 0 = Some (Inl (Panic IndexOutOfRange), Some g'))"
  using GetShortestPath_faults [OF sample_graph_ok(1), of 0 3] sample_graph_ok(2) by simp

end
