(* ===== verification/Refresh.thy ===== *)
theory Refresh
  imports Shortest
begin

text \<open>
  What \<open>NewGraph\<close> and \<open>RefreshWeights\<close> leave in the matrix: exactly the edges Prometheus reported, with
  usable costs.
\<close>

section \<open>Writing one entry\<close>

lemma mat_set_in:
  assumes "mat_set i j x m = Inr m'"
  shows "0 \<le> i" "nat i < length m" "0 \<le> j" "nat j < length (m ! nat i)" "m' = m[nat i := (m ! nat i)[nat j := x]]"
  using assms by (auto simp: mat_set_def go_bind_eq_Inr go_index_eq_Inr)

definition square :: "nat \<Rightarrow> float64 list list \<Rightarrow> bool" where
  "square n m \<longleftrightarrow> length m = n \<and> (\<forall>row\<in>set m. length row = n)"

lemma graph_dims_square: "graph_dims g \<longleftrightarrow> square (g_size g) (g_matrix g)"
  by (simp add: graph_dims_def square_def)

lemma square_row: "square n m \<Longrightarrow> i < n \<Longrightarrow> length (m ! i) = n"
  by (simp add: square_def)

lemma mat_set_square:
  assumes "square n m" "mat_set i j x m = Inr m'"
  shows "square n m'" "0 \<le> i" "nat i < n" "0 \<le> j" "nat j < n"
    "u < n \<Longrightarrow> v < n \<Longrightarrow> m' ! u ! v = (if int u = i \<and> int v = j then x else m ! u ! v)"
proof -
  note m = mat_set_in [OF assms(2)]
  show i: "0 \<le> i" "nat i < n" "0 \<le> j" using m assms(1) by (simp_all add: square_def)
  then show j: "nat j < n" using m(4) square_row [OF assms(1)] by simp
  have "length (m ! nat i) = n" using square_row [OF assms(1) i(2)] .
  then show "square n m'"
    using assms(1) unfolding m(5) square_def by (auto dest: set_update_subset_insert [THEN subsetD])
  show "u < n \<Longrightarrow> v < n \<Longrightarrow> m' ! u ! v = (if int u = i \<and> int v = j then x else m ! u ! v)"
    using i j assms(1) square_row [OF assms(1) i(2)] unfolding m(5) square_def
    by (auto simp: nth_list_update)
qed

text \<open>The entries other than +Inf are those of the pairs in \<open>R\<close>.\<close>

definition entries :: "nat \<Rightarrow> network_path set \<Rightarrow> float64 list list \<Rightarrow> bool" where
  "entries n R m \<longleftrightarrow>
     (\<forall>u<n. \<forall>v<n. (m ! u ! v \<noteq> PInf \<longleftrightarrow> \<lparr>np_source = int u, np_target = int v\<rparr> \<in> R))"

lemma entries_set:
  assumes "square n m" "entries n R m" "mat_set (np_source p) (np_target p) x m = Inr m'" "x \<noteq> PInf"
  shows "entries n (insert p R) m'"
proof -
  have "(int u = np_source p \<and> int v = np_target p) = (\<lparr>np_source = int u, np_target = int v\<rparr> = p)" for u v
    by (cases p) auto
  then show ?thesis
    using assms(2,4) mat_set_square(6) [OF assms(1,3)] by (auto simp: entries_def)
qed

lemma inf_square: "square n (inf_matrix n)" and inf_entries: "entries n {} (inf_matrix n)"
  by (simp_all add: square_def entries_def inf_matrix_def)

lemma reset_square: "square n m \<Longrightarrow> square n (map (map (\<lambda>x. PInf)) m)"
  by (simp add: square_def)

lemma reset_entries: "square n m \<Longrightarrow> entries n {} (map (map (\<lambda>x. PInf)) m)"
  by (simp add: square_def entries_def)

section \<open>RefreshWeights\<close>

lemma only_ticks_GetAllPaths: "only_ticks (GetAllPaths E)"
  unfolding GetAllPaths_def query_range_def by (auto intro!: only_ticks_bind)

lemma GetAllPaths_graph:
  fixes w :: "'z graph_world_scheme"
  assumes "GetAllPaths E w = (r, w')"
  shows "the_graph w' = the_graph w"
  using only_ticksD [OF only_ticks_GetAllPaths assms] by auto

lemma GetPathCost_graph:
  fixes w :: "'z graph_world_scheme"
  shows "GetPathCost E a b w = (r, w') \<Longrightarrow> the_graph w' = the_graph w"
  by (erule GetPathCost_cases) auto

lemma refresh_step_ok:
  fixes w :: "'z graph_world_scheme"
  assumes "refresh_step E p u w = (Inr u', w')" "the_graph w = Some g" "square n (g_matrix g)" "entries n R (g_matrix g)"
  obtains g' where "the_graph w' = Some g'" "g_size g' = g_size g" "square n (g_matrix g')"
    "entries n (insert p R) (g_matrix g')"
proof -
  from assms(1) obtain c w1 m y where c: "GetPathCost E (np_source p + 64512) (np_target p + 64512) w = (Inr c, w1)"
    and nz: "c \<noteq> PInf" and y: "the_graph w1 = Some y"
    and my: "mat_set (np_source p) (np_target p) c (g_matrix y) = Inr m"
    and w'y: "w' = w1\<lparr>the_graph := Some (y\<lparr>g_matrix := m\<rparr>)\<rparr>"
    by (auto simp: refresh_step_def bind_eq_Inr get_graph_def put_matrix_def is_pinf_def split: if_splits option.splits)
  have "y = g" using GetPathCost_graph [OF c] assms(2) y by simp
  note m = my [unfolded this] and w' = w'y [unfolded this]
  show ?thesis
    by (rule that [of "g\<lparr>g_matrix := m\<rparr>"])
       (use w' mat_set_square(1) [OF assms(3) m] entries_set [OF assms(3,4) m nz] in auto)
qed

lemma refresh_loop_ok:
  fixes w :: "'z graph_world_scheme"
  assumes "for_each (refresh_step E) ps u w = (Inr u', w')" "the_graph w = Some g"
    "square n (g_matrix g)" "entries n R (g_matrix g)"
  shows "\<exists>g'. the_graph w' = Some g' \<and> g_size g' = g_size g \<and> square n (g_matrix g') \<and>
           entries n (R \<union> set ps) (g_matrix g')"
  using assms
proof (induction ps arbitrary: u w g R)
  case (Cons p ps)
  then obtain u1 w1 where s: "refresh_step E p u w = (Inr u1, w1)"
    and l: "for_each (refresh_step E) ps u1 w1 = (Inr u', w')"
    by (auto simp: bind_eq_Inr)
  from s Cons.prems(2-4) obtain g1 where g1: "the_graph w1 = Some g1" "g_size g1 = g_size g"
    "square n (g_matrix g1)" "entries n (insert p R) (g_matrix g1)" by (rule refresh_step_ok)
  from Cons.IH [OF l g1(1,3,4)] g1(2) show ?case by simp
qed simp

lemma RefreshWeights_ok:
  fixes w :: "'z graph_world_scheme"
  assumes "RefreshWeights E w = (Inr (), w')" "the_graph w = Some g" "graph_dims g"
  obtains ps w1 g' where "GetAllPaths E w = (Inr ps, w1)" "the_graph w' = Some g'" "g_size g' = g_size g"
    "square (g_size g) (g_matrix g')" "entries (g_size g) (set ps) (g_matrix g')"
proof -
  let ?n = "g_size g" and ?m = "map (map (\<lambda>x. PInf)) (g_matrix g)"
  from assms(1,2) obtain ps w1 where ps: "GetAllPaths E w = (Inr ps, w1)"
    and loop: "for_each (refresh_step E) ps () (snd (put_matrix ?m w1)) = (Inr (), w')"
    by (auto simp: RefreshWeights_def bind_eq_Inr get_graph_def put_matrix_def)
  have "the_graph (snd (put_matrix ?m w1)) = Some (g\<lparr>g_matrix := ?m\<rparr>)"
    using GetAllPaths_graph [OF ps] assms(2) by (simp add: put_matrix_def)
  from refresh_loop_ok [OF loop this, of ?n "{}"] reset_square reset_entries assms(3)
  obtain g' where "the_graph w' = Some g'" "g_size g' = ?n" "square ?n (g_matrix g')" "entries ?n (set ps) (g_matrix g')"
    by (auto simp: graph_dims_square)
  with ps that show ?thesis by blast
qed

text \<open>
  C7. A successful \<open>RefreshWeights\<close> makes the matrix describe exactly the paths Prometheus reports now: an
  entry is other than +Inf exactly when the pair is among them, so no edge of an earlier
  state survives and no reported one is missing; the size of the graph does not change.
\<close>

theorem RefreshWeights_edges:
  fixes w :: "'z graph_world_scheme"
  assumes "RefreshWeights E w = (Inr (), w')" "the_graph w = Some g" "graph_dims g"
  shows "\<exists>ps w1 g'. GetAllPaths E w = (Inr ps, w1) \<and> the_graph w' = Some g' \<and> graph_dims g' \<and>
     g_size g' = g_size g \<and>
     (\<forall>u<g_size g. \<forall>v<g_size g. weight g' u v \<noteq> PInf \<longleftrightarrow> \<lparr>np_source = int u, np_target = int v\<rparr> \<in> set ps)"
proof -
  obtain ps w1 g' where g': "GetAllPaths E w = (Inr ps, w1)" "the_graph w' = Some g'" "g_size g' = g_size g"
    "square (g_size g) (g_matrix g')" "entries (g_size g) (set ps) (g_matrix g')"
    using RefreshWeights_ok [OF assms] .
  then show ?thesis by (auto simp: graph_dims_square entries_def weight_def)
qed

section \<open>NewGraph\<close>

lemma max_node_ge: "0 \<le> max_node ps \<and> (\<forall>p\<in>set ps. np_source p \<le> max_node ps \<and> np_target p \<le> max_node ps)"
proof -
  let ?f = "\<lambda>p m. let m1 = (if np_source p > m then np_source p else m)
                 in if np_target p > m1 then np_target p else m1"
  have "m \<le> fold ?f ps m \<and> (\<forall>p\<in>set ps. np_source p \<le> fold ?f ps m \<and> np_target p \<le> fold ?f ps m)" for m
  proof (induction ps arbitrary: m)
    case (Cons p ps)
    from Cons.IH [of "?f p m"] show ?case by (auto simp: Let_def split: if_splits)
  qed simp
  then show ?thesis by (simp add: max_node_def)
qed

lemma new_graph_step_ok:
  fixes w :: "'z cost_world_scheme"
  assumes "new_graph_step E p g w = (Inr g', w')" "cost_cache_inv w"
    "square n (g_matrix g)" "entries n R (g_matrix g)"
  shows "cost_cache_inv w'" "g_size g' = g_size g" "square n (g_matrix g')" "entries n (insert p R) (g_matrix g')"
proof -
  from assms(1) obtain c m where c: "GetPathCost E (np_source p + 64512) (np_target p + 64512) w = (Inr c, w')"
    and m: "mat_set (np_source p) (np_target p) c (g_matrix g) = Inr m" and g': "g' = g\<lparr>g_matrix := m\<rparr>"
    by (auto simp: bind_eq_Inr new_graph_step_def)
  have nz: "c \<noteq> PInf" using GetPathCost_range [OF assms(2) c] by (simp add: cost_range_def)
  show "cost_cache_inv w'" by (rule GetPathCost_keeps_inv [OF assms(2) c])
  show "g_size g' = g_size g" "square n (g_matrix g')" "entries n (insert p R) (g_matrix g')"
    using mat_set_square(1) [OF assms(3) m] entries_set [OF assms(3,4) m nz] g' by simp_all
qed

lemma new_graph_loop_ok:
  fixes w :: "'z cost_world_scheme"
  assumes "for_each (new_graph_step E) ps g w = (Inr g', w')" "cost_cache_inv w"
    "square n (g_matrix g)" "entries n R (g_matrix g)"
  shows "g_size g' = g_size g \<and> square n (g_matrix g') \<and> entries n (R \<union> set ps) (g_matrix g')"
  using assms
proof (induction ps arbitrary: g w R)
  case (Cons p ps)
  then obtain g1 w1 where p: "new_graph_step E p g w = (Inr g1, w1)"
    and l: "for_each (new_graph_step E) ps g1 w1 = (Inr g', w')"
    by (auto simp: bind_eq_Inr)
  note ok = new_graph_step_ok [OF p Cons.prems(2-4)]
  from Cons.IH [OF l ok(1,3,4)] ok(2) show ?case by simp
qed simp

lemma NewGraph_ok:
  fixes w :: "'z cost_world_scheme"
  assumes "NewGraph E w = (Inr g, w')" "cost_cache_inv w"
  obtains ps w1 where "GetAllPaths E w = (Inr ps, w1)" "g_size g = nat (max_node ps + 1)"
    "square (g_size g) (g_matrix g)" "entries (g_size g) (set ps) (g_matrix g)"
proof -
  from assms(1) obtain ps w1 where ps: "GetAllPaths E w = (Inr ps, w1)"
    and loop: "for_each (new_graph_step E) ps
      \<lparr>g_size = nat (max_node ps + 1), g_matrix = inf_matrix (nat (max_node ps + 1)),
       g_prev = replicate (nat (max_node ps + 1)) 0\<rparr> w1 = (Inr g, w')"
    by (auto simp: NewGraph_def bind_eq_Inr Let_def)
  from only_ticksD [OF only_ticks_GetAllPaths ps] assms(2) have "cost_cache_inv w1"
    by (auto simp: cost_cache_inv_def)
  from new_graph_loop_ok [OF loop this, of "nat (max_node ps + 1)" "{}"] inf_square inf_entries
  have "g_size g = nat (max_node ps + 1) \<and> square (g_size g) (g_matrix g) \<and> entries (g_size g) (set ps) (g_matrix g)"
    by simp
  with ps that show ?thesis by blast
qed

text \<open>
  \<open>NewGraph\<close>: when it succeeds, the graph is square with room for the highest node number
  among the reported paths, and has an edge exactly for each of them.
\<close>

lemma NewGraph_edges:
  fixes w :: "'z cost_world_scheme"
  assumes "NewGraph E w = (Inr g, w')" "cost_cache_inv w"
  shows "\<exists>ps w1. GetAllPaths E w = (Inr ps, w1) \<and> graph_dims g \<and>
     (\<forall>p\<in>set ps. np_source p < int (g_size g) \<and> np_target p < int (g_size g)) \<and>
     (\<forall>u<g_size g. \<forall>v<g_size g. weight g u v \<noteq> PInf \<longleftrightarrow> \<lparr>np_source = int u, np_target = int v\<rparr> \<in> set ps)"
proof -
  obtain ps w1 where "GetAllPaths E w = (Inr ps, w1)" "g_size g = nat (max_node ps + 1)"
    "square (g_size g) (g_matrix g)" "entries (g_size g) (set ps) (g_matrix g)"
    using NewGraph_ok [OF assms] .
  with max_node_ge [of ps] show ?thesis by (auto simp: graph_dims_square entries_def weight_def)
qed

section \<open>Witnesses\<close>

lemma sample_GetAllPaths:
  "ticks w = 0 \<Longrightarrow> GetAllPaths (sample_env 1) w = (Inr [\<lparr>np_source = 0, np_target = 1\<rparr>], w\<lparr>ticks := 1\<rparr>)"
proof -
  have "atoi ''0'' = Some 0" "atoi ''1'' = Some 1" by code_simp+
  then show "ticks w = 0 \<Longrightarrow> ?thesis"
    by (simp add: GetAllPaths_def bind_def sample_query parse_path_def)
qed

lemma sample_edge_cost:
  fixes w :: "'z cost_world_scheme"
  assumes "ticks w = 1" "cost_cache w = Map.empty"
  shows "\<exists>n c. GetPathCost (sample_env 1) 64512 64513 w = (Inr (Fin 1), w\<lparr>ticks := n, cost_cache := c\<rparr>)"
  using sample_GetPathCost [of w 1] assms by auto

definition sample_graph_world :: graph_world where
  "sample_graph_world =
     \<lparr>ticks = 0, cost_cache = Map.empty, latency_cache = Map.empty,
      the_graph = Some (NewGraphFromMatrix [[PInf, PInf], [Fin 5, PInf]])\<rparr>"

theorem RefreshWeights_edges_witness:
  "\<exists>w' g'. RefreshWeights (sample_env 1) sample_graph_world = (Inr (), w') \<and> the_graph w' = Some g' \<and>
     weight g' 0 1 \<noteq> PInf \<and> weight g' 1 0 = PInf"
proof -
  let ?g = "NewGraphFromMatrix [[PInf, PInf], [Fin 5, PInf]]"
  have g: "the_graph sample_graph_world = Some ?g" "g_size ?g = 2" "graph_dims ?g"
    by (simp_all add: sample_graph_world_def NewGraphFromMatrix_def graph_dims_def)
  let ?w1 = "snd (put_matrix (map (map (\<lambda>x. PInf)) (g_matrix ?g)) (sample_graph_world\<lparr>ticks := 1\<rparr>))"
  obtain n c where "GetPathCost (sample_env 1) 64512 64513 ?w1 = (Inr (Fin 1), ?w1\<lparr>ticks := n, cost_cache := c\<rparr>)"
    using sample_edge_cost [of ?w1] by (auto simp: put_matrix_def sample_graph_world_def)
  then have "\<exists>w'. RefreshWeights (sample_env 1) sample_graph_world = (Inr (), w')"
    using sample_GetAllPaths [of sample_graph_world] g(1)
    by (auto simp: RefreshWeights_def bind_def wrap_def get_graph_def put_matrix_def refresh_step_def
        feq_def is_pinf_def NewGraphFromMatrix_def mat_set_def go_index_def sample_graph_world_def)
  then obtain w' where w': "RefreshWeights (sample_env 1) sample_graph_world = (Inr (), w')" by blast
  have "ticks sample_graph_world = 0" by (simp add: sample_graph_world_def)
  with RefreshWeights_edges [OF w' g(1,3)] sample_GetAllPaths [of sample_graph_world]
  obtain g' where g': "the_graph w' = Some g'"
    "\<And>u v. u < 2 \<Longrightarrow> v < 2 \<Longrightarrow> weight g' u v \<noteq> PInf \<longleftrightarrow> u = 0 \<and> v = 1"
    unfolding g(2) by auto
  show ?thesis using w' g'(1) g'(2) [of 0 1] g'(2) [of 1 0] by (intro exI [of _ w'] exI [of _ g']) simp
qed

lemma NewGraph_edges_witness:
  "\<exists>g w'. NewGraph (sample_env 1) sample_world = (Inr g, w') \<and> graph_dims g"
proof -
  let ?w1 = "sample_world\<lparr>ticks := 1\<rparr>"
  obtain n c where "GetPathCost (sample_env 1) 64512 64513 ?w1 = (Inr (Fin 1), ?w1\<lparr>ticks := n, cost_cache := c\<rparr>)"
    using sample_edge_cost [of ?w1] by auto
  then obtain g w' where g: "NewGraph (sample_env 1) sample_world = (Inr g, w')"
    using sample_GetAllPaths [of sample_world]
    by (auto simp: NewGraph_def bind_def max_node_def Let_def new_graph_step_def mat_set_def
        go_index_def inf_matrix_def)
  have "cost_cache_inv sample_world" by (simp add: cost_cache_inv_def)
  from NewGraph_edges [OF g this] g show ?thesis by blast
qed

end
