(* ===== verification/TopN.thy ===== *)
theory TopN
  imports Shortest
begin

text \<open>
  \<^verbatim>\<open>internal/route/finder/topn.go\<close>: the search for the \<open>n\<close> cheapest paths without repeated nodes, and its
  refinement to that specification. The queue of this file is a min-heap on the distance.
\<close>

section \<open>The code\<close>

record path_result =
  pr_path :: "int list"
  pr_distance :: float64

definition path_queue_ops :: "path_result heap_ops" where
  "path_queue_ops =
     \<lparr>less_op = (\<lambda>a b. flt (pr_distance a) (pr_distance b)), swap_op = swap_at,
      push_op = (\<lambda>x h. h @ [x]), pop_op = (\<lambda>h. (last h, butlast h))\<rparr>"

definition containsNode :: "int list \<Rightarrow> int \<Rightarrow> bool" where
  "containsNode path node = list_ex (\<lambda>m. m = node) path"

text \<open>\<open>fmt.Sprintf("%v", path)\<close> of a slice of integers.\<close>

fun join_ints :: "int list \<Rightarrow> string" where
  "join_ints [] = []"
| "join_ints [i] = itoa i"
| "join_ints (i # j # is) = itoa i @ CHR '' '' # join_ints (j # is)"

definition path_key :: "int list \<Rightarrow> string" where
  "path_key path = ''['' @ join_ints path @ '']''"

type_synonym top_n_queue = "string set \<times> path_result list"

definition top_n_extend :: "graph \<Rightarrow> path_result \<Rightarrow> nat \<Rightarrow> top_n_queue \<Rightarrow> top_n_queue go" where
  "top_n_extend g current v s =
     (case s of (visited, pq) \<Rightarrow>
        go_bind (mat_get (g_matrix g) (last (pr_path current)) (int v))
          (\<lambda>w. if w \<noteq> PInf then
                 if containsNode (pr_path current) (int v) then Inr s
                 else
                   let newPath = pr_path current @ [int v];
                       newDistance = fadd (pr_distance current) w;
                       pathKey = path_key newPath
                   in if pathKey \<notin> visited then
                        Inr (insert pathKey visited,
                             heap_push path_queue_ops \<lparr>pr_path = newPath, pr_distance = newDistance\<rparr> pq)
                      else Inr s
               else Inr s))"

text \<open>The graph is dereferenced only when a path is extended.\<close>

partial_function (option) top_n_loop ::
    "graph option \<Rightarrow> int \<Rightarrow> int \<Rightarrow> path_result list \<Rightarrow> top_n_queue \<Rightarrow> path_result list go option" where
  "top_n_loop go_g end n results s =
     (case s of (visited, pq) \<Rightarrow>
        if pq \<noteq> [] \<and> int (length results) < n then
          let (current, pq') = heap_pop path_queue_ops pq
          in if last (pr_path current) = end then top_n_loop go_g end n (results @ [current]) (visited, pq')
             else (case go_g of
                     None \<Rightarrow> Some (Inl (Panic NilDereference))
                   | Some g \<Rightarrow>
                       (case go_fold (top_n_extend g current) [0..<g_size g] (visited, pq') of
                          Inl e \<Rightarrow> Some (Inl e)
                        | Inr s' \<Rightarrow> top_n_loop go_g end n results s'))
        else Some (Inr results))"

definition GetTopNShortestPaths ::
    "graph option \<Rightarrow> int \<Rightarrow> int \<Rightarrow> int \<Rightarrow> path_result list go option" where
  "GetTopNShortestPaths go_g start end n =
     (if n \<le> 0 then Some (Inl (Err (Errorf ''n must be positive'')))
      else
        map_option
          (\<lambda>r. go_bind r
             (\<lambda>results. if results = [] then Inl (Err (Errorf ''no paths found'')) else Inr results))
          (top_n_loop go_g end n []
             ({}, heap_push path_queue_ops \<lparr>pr_path = [start], pr_distance = Fin 0\<rparr> [])))"

section \<open>Helpers\<close>

interpretation path_queue: priority_heap path_queue_ops id
    "\<lambda>a b. flt (pr_distance a) (pr_distance b)" pr_distance "{r. pr_distance r \<noteq> NaN}"
  by unfold_locales (auto simp: path_queue_ops_def compares_def flt_less)

lemma join_ints_chars: "c \<in> set (join_ints is) \<Longrightarrow> c = CHR '' '' \<or> c = CHR ''-'' \<or> is_digit c"
  by (induction "is" rule: join_ints.induct) (auto dest: itoa_chars)

lemma space_not_itoa: "CHR '' '' \<notin> set (itoa i)"
  using itoa_chars [of "CHR '' ''" i] by (auto simp: is_digit_def)

lemma split_join_ints: "is \<noteq> [] \<Longrightarrow> split (join_ints is) (CHR '' '') = map itoa is"
  by (induction "is" rule: join_ints.induct) (simp_all add: split_no_sep split_append space_not_itoa)

lemma join_ints_eq_Nil: "join_ints is = [] \<longleftrightarrow> is = []"
  by (induction "is" rule: join_ints.induct) simp_all

text \<open>The key of the visited set tells paths apart.\<close>

lemma path_key_inj: "path_key a = path_key b \<longleftrightarrow> a = b"
proof
  assume "path_key a = path_key b"
  then have j: "join_ints a = join_ints b" by (simp add: path_key_def)
  then have "map itoa a = map itoa b"
    by (metis join_ints_eq_Nil split_join_ints)
  moreover have "inj itoa" by (simp add: inj_def itoa_inj)
  ultimately show "a = b" by (simp add: inj_map_eq_map)
qed simp

lemma containsNode_iff [simp]: "containsNode path node \<longleftrightarrow> node \<in> set path"
  by (auto simp: containsNode_def list_ex_iff)

section \<open>Specification\<close>

definition live_path :: "nat \<Rightarrow> weights \<Rightarrow> nat \<Rightarrow> nat list \<Rightarrow> bool" where
  "live_path n W s p \<longleftrightarrow>
     p \<noteq> [] \<and> hd p = s \<and> distinct p \<and> set p \<subseteq> {..<n} \<and> (\<forall>(a, b)\<in>set (edges p). W a b \<noteq> PInf)"

definition simple_path :: "nat \<Rightarrow> weights \<Rightarrow> nat \<Rightarrow> nat \<Rightarrow> nat list \<Rightarrow> bool" where
  "simple_path n W s t p \<longleftrightarrow> live_path n W s p \<and> last p = t"

text \<open>The \<open>k\<close> cheapest simple paths, cheapest first; fewer only when there are no more.\<close>

definition ranked :: "nat \<Rightarrow> weights \<Rightarrow> nat \<Rightarrow> nat \<Rightarrow> nat \<Rightarrow> nat list list \<Rightarrow> bool" where
  "ranked n W s t k RS \<longleftrightarrow>
     distinct RS \<and> (\<forall>p\<in>set RS. simple_path n W s t p) \<and> sorted (map (path_cost W) RS) \<and> length RS \<le> k \<and>
     (\<forall>p. simple_path n W s t p \<longrightarrow> p \<notin> set RS \<longrightarrow>
        length RS = k \<and> (\<forall>r\<in>set RS. path_cost W r \<le> path_cost W p))"

definition as_result :: "weights \<Rightarrow> nat list \<Rightarrow> path_result" where
  "as_result W p = \<lparr>pr_path = map int p, pr_distance = path_cost W p\<rparr>"

lemma as_result_inj: "as_result W p = as_result W q \<longleftrightarrow> p = q"
  by (auto simp: as_result_def inj_map_eq_map inj_of_nat)

lemma live_path_walk: "live_path n W s p \<Longrightarrow> walk n s (last p) p"
  by (simp add: live_path_def walk_def)

lemma live_path_snoc:
  "live_path n W s p \<Longrightarrow> v < n \<Longrightarrow> v \<notin> set p \<Longrightarrow> W (last p) v \<noteq> PInf \<Longrightarrow> live_path n W s (p @ [v])"
  by (auto simp: live_path_def edges_snoc)

lemma live_path_cost:
  assumes "good_weights n W" "live_path n W s p"
  shows "pr_distance (as_result W p) \<noteq> NaN"
  using path_cost_good [OF assms(1) live_path_walk [OF assms(2)]] fnonneg_not_NaN
  by (simp add: as_result_def)

lemma edges_append: "p \<noteq> [] \<Longrightarrow> set (edges p) \<subseteq> set (edges (p @ q))"
proof (induction q rule: rev_induct)
  case (snoc v q)
  then show ?case using edges_snoc [of "p @ q" v] by auto
qed simp

lemma edges_mid: "p \<noteq> [] \<Longrightarrow> (last p, v) \<in> set (edges (p @ v # q))"
  using edges_snoc [of p v] edges_append [of "p @ [v]" q] by auto

section \<open>The invariant\<close>

text \<open>
  \<open>RS\<close> is the paths found, \<open>Q\<close> the paths queued, \<open>V\<close> those marked as visited, \<open>C\<close> the extensions of the
  current path that are still to be looked at. Every simple path to the end is found or has a
  prefix in \<open>Q\<close> or \<open>C\<close>, and a path one of whose extensions is visited is not queued any more.
\<close>

definition topn_inv ::
    "nat \<Rightarrow> weights \<Rightarrow> nat \<Rightarrow> nat \<Rightarrow> nat list list \<Rightarrow> nat list set \<Rightarrow> nat list set \<Rightarrow> nat list set \<Rightarrow> bool" where
  "topn_inv n W s t RS Q V C \<longleftrightarrow>
     finite Q \<and> distinct RS \<and> set RS \<inter> Q = {} \<and> set RS \<union> Q \<subseteq> insert [s] V \<and> C \<inter> V = {} \<and>
     (\<forall>p\<in>set RS. simple_path n W s t p) \<and> (\<forall>p\<in>Q. live_path n W s p \<and> t \<notin> set (butlast p)) \<and>
     (\<forall>p\<in>V. distinct p \<and> set p \<subseteq> {..<n}) \<and>
     (\<forall>p v. p @ [v] \<in> V \<longrightarrow> p \<noteq> [] \<longrightarrow> p \<in> insert [s] V \<and> p \<notin> Q) \<and>
     sorted (map (path_cost W) RS) \<and> (\<forall>r\<in>set RS. \<forall>q\<in>Q \<union> C. path_cost W r \<le> path_cost W q) \<and>
     (\<forall>p. simple_path n W s t p \<longrightarrow> p \<in> set RS \<or> (\<exists>q\<in>Q \<union> C. \<exists>r. p = q @ r))"

lemma topn_inv_drop:
  assumes "topn_inv n W s t RS Q V (insert c C)" "\<And>p r. simple_path n W s t p \<Longrightarrow> p \<noteq> c @ r"
  shows "topn_inv n W s t RS Q V C"
proof -
  have "\<forall>p. simple_path n W s t p \<longrightarrow> p \<in> set RS \<or> (\<exists>q\<in>Q \<union> C. \<exists>r. p = q @ r)"
    using assms unfolding topn_inv_def by (metis UnE UnI1 UnI2 insertE)
  with assms(1) show ?thesis unfolding topn_inv_def by simp
qed

text \<open>How the state of the code represents them.\<close>

definition represents ::
    "weights \<Rightarrow> nat list set \<Rightarrow> nat list set \<Rightarrow> top_n_queue \<Rightarrow> bool" where
  "represents W Q V st \<longleftrightarrow>
     (case st of (visited, pq) \<Rightarrow>
        visited = (\<lambda>p. path_key (map int p)) ` V \<and> mset pq = image_mset (as_result W) (mset_set Q) \<and>
        heap_inv (\<lambda>a b. flt (pr_distance a) (pr_distance b)) pq)"

lemma represents_set: "represents W Q V (visited, pq) \<Longrightarrow> finite Q \<Longrightarrow> set pq = as_result W ` Q"
  unfolding represents_def by (auto dest!: arg_cong [where f = set_mset])

lemma visited_iff:
  "represents W Q V (visited, pq) \<Longrightarrow> path_key (map int p) \<in> visited \<longleftrightarrow> p \<in> V"
  by (auto simp: represents_def path_key_inj inj_map_eq_map inj_of_nat)

lemma queue_distances:
  assumes "good_weights n W" "topn_inv n W s t RS Q V C" "represents W Q V (visited, pq)"
  shows "id ` set pq \<subseteq> {r. pr_distance r \<noteq> NaN}"
  using represents_set [OF assms(3)] assms(2) live_path_cost [OF assms(1)]
  by (auto simp: topn_inv_def)

text \<open>One neighbour: an extension that is live is queued and marked, any other one is dropped.\<close>

lemma topn_inv_add:
  assumes inv: "topn_inv n W s t RS Q V (insert (cur @ [v]) C)" "cur @ [v] \<notin> C"
    and cur: "t \<notin> set cur" "cur \<notin> Q" "cur \<in> insert [s] V" and live: "live_path n W s (cur @ [v])" "cur \<noteq> []"
  shows "topn_inv n W s t RS (insert (cur @ [v]) Q) (insert (cur @ [v]) V) C" "cur @ [v] \<notin> Q" "cur @ [v] \<notin> V"
proof -
  let ?c = "cur @ [v]"
  show cV: "?c \<notin> V" using inv(1) by (auto simp: topn_inv_def)
  show cQ: "?c \<notin> Q" using inv(1) cV live(2) by (auto simp: topn_inv_def)
  have cR: "?c \<notin> set RS" using inv(1) cV live(2) by (auto simp: topn_inv_def)
  have closed: "p \<in> insert [s] (insert ?c V) \<and> p \<notin> insert ?c Q" if "p @ [x] \<in> insert ?c V" "p \<noteq> []" for p x
  proof (cases "p @ [x] = ?c")
    case True
    then show ?thesis using cur by auto
  next
    case False
    then have "p \<in> insert [s] V" "p \<notin> Q" using inv(1) that unfolding topn_inv_def by blast+
    moreover have "p \<noteq> ?c" using \<open>p \<in> insert [s] V\<close> cV live(2) by auto
    ultimately show ?thesis by blast
  qed
  show "topn_inv n W s t RS (insert ?c Q) (insert ?c V) C"
    unfolding topn_inv_def
  proof (intro conjI)
    show "\<forall>p x. p @ [x] \<in> insert ?c V \<longrightarrow> p \<noteq> [] \<longrightarrow> p \<in> insert [s] (insert ?c V) \<and> p \<notin> insert ?c Q"
      using closed by blast
    show "\<forall>p\<in>insert ?c Q. live_path n W s p \<and> t \<notin> set (butlast p)"
      using inv(1) live cur(1) by (auto simp: topn_inv_def)
    show "\<forall>p\<in>insert ?c V. distinct p \<and> set p \<subseteq> {..<n}"
      using inv(1) live by (auto simp: topn_inv_def live_path_def)
    show "C \<inter> insert ?c V = {}" using inv by (auto simp: topn_inv_def)
  qed (use inv(1) cQ cR in \<open>auto simp: topn_inv_def\<close>)
qed

lemma represents_push:
  assumes rep: "represents W Q V (visited, pq)" and good: "good_weights n W" and inv: "topn_inv n W s t RS Q V D"
    and c: "live_path n W s c" "c \<notin> Q"
  shows "represents W (insert c Q) (insert c V)
           (insert (path_key (map int c)) visited, heap_push path_queue_ops (as_result W c) pq)"
proof -
  have "heap_inv (\<lambda>a b. flt (pr_distance a) (pr_distance b)) (heap_push path_queue_ops (as_result W c) pq)"
    using path_queue.push_heap [of pq "as_result W c"] rep queue_distances [OF good inv rep] live_path_cost [OF good c(1)]
    by (simp add: represents_def)
  moreover have "finite Q" using inv by (simp add: topn_inv_def)
  ultimately show ?thesis
    using rep c(2) path_queue.push_mset [of "as_result W c" pq] by (auto simp: represents_def)
qed

lemma topn_extend_ok:
  assumes g: "graph_ok g" "n = g_size g" "W = weight g"
    and cur: "live_path n W s cur" "t \<notin> set cur" "cur \<notin> Q" "cur \<in> insert [s] V" and v: "v < n"
    and inv: "topn_inv n W s t RS Q V (insert (cur @ [v]) C)" "cur @ [v] \<notin> C" and rep: "represents W Q V st"
  shows "\<exists>Q' V' st'. top_n_extend g (as_result W cur) v st = Inr st' \<and> represents W Q' V' st' \<and>
     topn_inv n W s t RS Q' V' C \<and> cur \<notin> Q' \<and> V \<subseteq> V' \<and> (V' = V \<longrightarrow> Q' = Q \<and> st' = st)"
proof -
  let ?c = "cur @ [v]"
  obtain visited pq where st: "st = (visited, pq)" by (cases st)
  have good: "good_weights n W" using g by (simp add: graph_ok_def)
  have cur_ne: "cur \<noteq> []" and last: "last cur < n"
    using walk_ends [OF live_path_walk [OF cur(1)]] by simp_all
  have get: "mat_get (g_matrix g) (last (pr_path (as_result W cur))) (int v) = Inr (W (last cur) v)"
    using mat_get_in [of "g_matrix g" n "last cur" v] last v g cur_ne
    by (simp add: as_result_def last_map graph_ok_def graph_dims_def weight_def)
  show ?thesis
  proof (cases "W (last cur) v \<noteq> PInf \<and> v \<notin> set cur")
    case False
    have "\<not> (simple_path n W s t p \<and> p = ?c @ r)" for p r
      using False edges_mid [OF cur_ne, of v r] by (auto simp: simple_path_def live_path_def)
    then have "topn_inv n W s t RS Q V C" using topn_inv_drop [OF inv(1)] by blast
    moreover have "top_n_extend g (as_result W cur) v st = Inr st"
      using False get by (auto simp: top_n_extend_def st as_result_def)
    ultimately show ?thesis using rep cur(3) by blast
  next
    case True
    let ?st = "(insert (path_key (map int ?c)) visited, heap_push path_queue_ops (as_result W ?c) pq)"
    have live: "live_path n W s ?c" using True cur(1) v by (simp add: live_path_snoc)
    note add = topn_inv_add [OF inv cur(2-4) live cur_ne]
    have "top_n_extend g (as_result W cur) v st = Inr ?st"
      using True get add(3) visited_iff [OF rep [unfolded st], of ?c] cur_ne
      by (auto simp: top_n_extend_def st as_result_def path_cost_snoc Let_def)
    with add represents_push [OF rep [unfolded st] good inv(1) live add(2)] cur_ne cur(3)
    show ?thesis by (intro exI [of _ "insert ?c Q"] exI [of _ "insert ?c V"] exI [of _ ?st]) auto
  qed
qed

text \<open>All neighbours.\<close>

lemma topn_extend_all:
  assumes g: "graph_ok g" "n = g_size g" "W = weight g"
    and cur: "live_path n W s cur" "t \<notin> set cur"
    and "cur \<notin> Q" "cur \<in> insert [s] V" "distinct vs" "set vs \<subseteq> {..<n}"
    and "topn_inv n W s t RS Q V ((\<lambda>v. cur @ [v]) ` set vs)" "represents W Q V st"
  shows "\<exists>Q' V' st'. go_fold (top_n_extend g (as_result W cur)) vs st = Inr st' \<and> represents W Q' V' st' \<and>
     topn_inv n W s t RS Q' V' {} \<and> V \<subseteq> V' \<and> (V' = V \<longrightarrow> st' = st)"
  using assms(6-)
proof (induction vs arbitrary: Q V st)
  case (Cons v vs)
  have v: "v < n" using Cons.prems by simp
  have c: "cur @ [v] \<notin> (\<lambda>v. cur @ [v]) ` set vs" using Cons.prems by auto
  have i: "topn_inv n W s t RS Q V (insert (cur @ [v]) ((\<lambda>v. cur @ [v]) ` set vs))"
    using Cons.prems(5) by simp
  obtain Q1 V1 st1 where 1: "top_n_extend g (as_result W cur) v st = Inr st1" "represents W Q1 V1 st1"
     "topn_inv n W s t RS Q1 V1 ((\<lambda>v. cur @ [v]) ` set vs)" "cur \<notin> Q1" "V \<subseteq> V1" "V1 = V \<longrightarrow> Q1 = Q \<and> st1 = st"
    using topn_extend_ok [OF g cur Cons.prems(1,2) v i c Cons.prems(6)] by blast
  have "cur \<in> insert [s] V1" using Cons.prems(2) 1(5) by auto
  from Cons.IH [OF 1(4) this _ _ 1(3,2)] Cons.prems obtain Q' V' st' where
    2: "go_fold (top_n_extend g (as_result W cur)) vs st1 = Inr st'" "represents W Q' V' st'"
       "topn_inv n W s t RS Q' V' {}" "V1 \<subseteq> V'" "V' = V1 \<longrightarrow> st' = st1" by auto
  have "V' = V \<longrightarrow> st' = st" using 1(5,6) 2(4,5) by auto
  with 1 2 show ?case by (intro exI [of _ Q'] exI [of _ V'] exI [of _ st']) auto
qed auto

text \<open>A pop takes a cheapest path out of the queue.\<close>

lemma topn_pop:
  assumes good: "good_weights n W" and inv: "topn_inv n W s t RS Q V {}" and rep: "represents W Q V (visited, pq)"
    and pop: "pq \<noteq> []" "heap_pop path_queue_ops pq = (x, pq')"
  obtains cur where "cur \<in> Q" "x = as_result W cur" "represents W (Q - {cur}) V (visited, pq')"
    "\<And>q. q \<in> Q \<Longrightarrow> path_cost W cur \<le> path_cost W q"
proof -
  have fin: "finite Q" using inv by (simp add: topn_inv_def)
  note set = represents_set [OF rep fin]
  have K: "id ` set pq \<subseteq> {r. pr_distance r \<noteq> NaN}" by (rule queue_distances [OF good inv rep])
  have h: "heap_inv (\<lambda>a b. flt (pr_distance a) (pr_distance b)) (map id pq)" using rep by (simp add: represents_def)
  have "x \<in> set pq" using path_queue.pop_set [OF pop] by auto
  then obtain cur where cur: "cur \<in> Q" "x = as_result W cur" using set by auto
  have least: "path_cost W cur \<le> path_cost W q" if "q \<in> Q" for q
    using path_queue.pop_least [OF pop h K, of "as_result W q"] that cur set by (auto simp: as_result_def)
  have "add_mset x (mset pq') = mset pq" using path_queue.pop_mset [OF pop] by simp
  also have "\<dots> = image_mset (as_result W) (mset_set Q)" using rep by (simp add: represents_def)
  also have "mset_set Q = add_mset cur (mset_set (Q - {cur}))" using fin cur(1) by (simp add: mset_set.remove)
  finally have "mset pq' = image_mset (as_result W) (mset_set (Q - {cur}))" by (simp add: cur(2))
  moreover have "heap_inv (\<lambda>a b. flt (pr_distance a) (pr_distance b)) pq'"
    using path_queue.pop_heap [OF pop h K] by simp
  ultimately have "represents W (Q - {cur}) V (visited, pq')" using rep by (simp add: represents_def)
  with cur least show ?thesis by (intro that)
qed

text \<open>A popped path that ends at the end is the next result.\<close>

lemma topn_found:
  assumes inv: "topn_inv n W s t RS Q V {}" and cur: "cur \<in> Q" "last cur = t"
    and least: "\<And>q. q \<in> Q \<Longrightarrow> path_cost W cur \<le> path_cost W q"
  shows "topn_inv n W s t (RS @ [cur]) (Q - {cur}) V {}"
proof -
  have live: "live_path n W s cur" using inv cur by (auto simp: topn_inv_def)
  then have ne: "cur \<noteq> []" by (simp add: live_path_def)
  have same: "p = cur" if "simple_path n W s t p" "p = cur @ r" for p r
  proof (rule ccontr)
    assume "p \<noteq> cur"
    then have "r \<noteq> []" using that by auto
    then have "t \<in> set r" using that last_in_set [of r] by (auto simp: simple_path_def)
    moreover have "t \<in> set cur" using ne cur(2) by auto
    ultimately show False using that by (auto simp: simple_path_def live_path_def)
  qed
  have cover: "p \<in> set (RS @ [cur]) \<or> (\<exists>q\<in>Q - {cur} \<union> {}. \<exists>r. p = q @ r)" if p: "simple_path n W s t p" for p
  proof -
    from inv p have "p \<in> set RS \<or> (\<exists>q\<in>Q. \<exists>r. p = q @ r)" by (auto simp: topn_inv_def)
    then show ?thesis using same [OF p] by auto
  qed
  have "sorted (map (path_cost W) (RS @ [cur]))"
    using inv cur by (auto simp: topn_inv_def sorted_append)
  moreover have "\<forall>r\<in>set (RS @ [cur]). \<forall>q\<in>Q - {cur} \<union> {}. path_cost W r \<le> path_cost W q"
    using inv least by (auto simp: topn_inv_def)
  moreover have "\<forall>p\<in>set (RS @ [cur]). simple_path n W s t p"
    using inv live cur by (auto simp: topn_inv_def simple_path_def)
  ultimately show ?thesis
    using inv cur cover unfolding topn_inv_def by auto
qed

text \<open>Any other popped path is about to be extended.\<close>

lemma topn_expand:
  assumes good: "good_weights n W" and inv: "topn_inv n W s t RS Q V {}" and cur: "cur \<in> Q" "last cur \<noteq> t"
  shows "topn_inv n W s t RS (Q - {cur}) V ((\<lambda>v. cur @ [v]) ` {..<n})" "t \<notin> set cur"
proof -
  let ?C = "(\<lambda>v. cur @ [v]) ` {..<n}"
  have live: "live_path n W s cur" and bl: "t \<notin> set (butlast cur)" using inv cur by (auto simp: topn_inv_def)
  then have ne: "cur \<noteq> []" by (simp add: live_path_def)
  then have "set cur = insert (last cur) (set (butlast cur))"
    by (metis append_butlast_last_id list.simps(15) rotate1.simps(2) set_rotate1)
  with bl cur(2) show "t \<notin> set cur" by simp
  have new: "?C \<inter> V = {}" using inv cur(1) ne by (auto simp: topn_inv_def)
  have cost: "path_cost W r \<le> path_cost W q" if r: "r \<in> set RS" and q: "q \<in> Q - {cur} \<union> ?C" for r q
  proof -
    have "path_cost W r \<le> path_cost W q'" if "q' \<in> Q" for q' using inv r that by (auto simp: topn_inv_def)
    moreover have "path_cost W cur \<le> path_cost W (cur @ [v])" if "v < n" for v
      using path_cost_step [OF good live_path_walk [OF live] that] .
    ultimately show ?thesis using q cur(1) by (auto intro: order_trans)
  qed
  have cover: "p \<in> set RS \<or> (\<exists>q\<in>Q - {cur} \<union> ?C. \<exists>r. p = q @ r)" if p: "simple_path n W s t p" for p
  proof -
    have "p \<in> set RS \<or> (\<exists>q\<in>Q. \<exists>r. p = q @ r)" using inv p by (auto simp: topn_inv_def)
    moreover have "\<exists>q\<in>?C. \<exists>r'. p = q @ r'" if eq: "p = cur @ r" for r
    proof -
      obtain v r' where "r = v # r'" using eq p cur(2) by (cases r) (auto simp: simple_path_def)
      then show ?thesis using eq p by (intro bexI [of _ "cur @ [v]"]) (auto simp: simple_path_def live_path_def)
    qed
    ultimately show ?thesis by blast
  qed
  from inv new cost cover show "topn_inv n W s t RS (Q - {cur}) V ?C"
    unfolding topn_inv_def by auto
qed

section \<open>The loop\<close>

lemma finite_paths: "finite {p :: nat list. distinct p \<and> set p \<subseteq> {..<n}}"
proof -
  have "{p. distinct p \<and> set p \<subseteq> {..<n}} \<subseteq> {p. set p \<subseteq> {..<n} \<and> length p \<le> n}"
    using card_mono [of "{..<n}"] by (auto simp: distinct_card [symmetric])
  then show ?thesis using finite_lists_length_le [of "{..<n}" n] finite_subset by blast
qed

text \<open>When the queue is empty or there are enough results, these are the cheapest ones.\<close>

lemma topn_done:
  assumes good: "good_weights n W" and inv: "topn_inv n W s t RS Q V {}" and k: "Q = {} \<or> length RS \<ge> k" "length RS \<le> k"
  shows "ranked n W s t k RS"
proof -
  have "length RS = k \<and> (\<forall>r\<in>set RS. path_cost W r \<le> path_cost W p)" if p: "simple_path n W s t p" "p \<notin> set RS" for p
  proof -
    obtain q r where q: "q \<in> Q" "p = q @ r" using inv p by (auto simp: topn_inv_def)
    have "q \<noteq> []" using inv q by (auto simp: topn_inv_def live_path_def)
    moreover have "walk n s t p" using p(1) live_path_walk by (auto simp: simple_path_def)
    ultimately have "path_cost W q \<le> path_cost W p" using path_cost_prefix [OF good, of s t q r] q by simp
    then show ?thesis using k inv q by (fastforce simp: topn_inv_def)
  qed
  then show ?thesis using inv k(2) by (simp add: ranked_def topn_inv_def)
qed

lemma top_n_loop_pop:
  assumes "pq \<noteq> []" "length RS < k" "heap_pop path_queue_ops pq = (as_result W cur, pq')" "cur \<noteq> []"
  shows "top_n_loop (Some g) (int t) (int k) (map (as_result W) RS) (visited, pq) =
    (if last cur = t then top_n_loop (Some g) (int t) (int k) (map (as_result W) (RS @ [cur])) (visited, pq')
     else case go_fold (top_n_extend g (as_result W cur)) [0..<g_size g] (visited, pq') of Inl e \<Rightarrow> Some (Inl e)
          | Inr s' \<Rightarrow> top_n_loop (Some g) (int t) (int k) (map (as_result W) RS) s')"
proof -
  have "last (pr_path (as_result W cur)) = int (last cur)" using assms(4) by (simp add: as_result_def last_map)
  with assms(1-3) show ?thesis by (subst top_n_loop.simps) simp
qed

text \<open>A pass that marks paths leaves fewer unmarked.\<close>

lemma topn_unmarked:
  assumes "topn_inv n W s t RS Q V' C" "V \<subseteq> V'" "V' \<noteq> V"
  shows "card ({p. distinct p \<and> set p \<subseteq> {..<n}} - V') < card ({p. distinct p \<and> set p \<subseteq> {..<n}} - V)"
proof -
  have "V' \<subseteq> {p. distinct p \<and> set p \<subseteq> {..<n}}" using assms(1) by (auto simp: topn_inv_def)
  with assms(2,3) have "{p. distinct p \<and> set p \<subseteq> {..<n}} - V' \<subset> {p. distinct p \<and> set p \<subseteq> {..<n}} - V" by auto
  then show ?thesis using finite_paths by (auto intro: psubset_card_mono)
qed

lemma topn_loop_ranked:
  assumes g: "graph_ok g" "n = g_size g" "W = weight g"
    and "topn_inv n W s t RS Q V {}" "represents W Q V st" "length RS \<le> k"
  shows "\<exists>RS'. top_n_loop (Some g) (int t) (int k) (map (as_result W) RS) st = Some (Inr (map (as_result W) RS')) \<and>
           ranked n W s t k RS'"
  using assms(4-)
proof (induction "(V, st)" arbitrary: V st Q RS rule: wf_induct_rule [OF wf_measures
    [of "[\<lambda>(V, st). card ({p. distinct p \<and> set p \<subseteq> {..<n}} - V), \<lambda>(V, st). length (snd st)]"]])
  case (1 V st Q RS)
  obtain visited pq where st: "st = (visited, pq)" by (cases st)
  have good: "good_weights n W" using g by (simp add: graph_ok_def)
  note inv = 1(2) and rep = 1(3) [unfolded st]
  show ?case
  proof (cases "pq \<noteq> [] \<and> length RS < k")
    case False
    then have "top_n_loop (Some g) (int t) (int k) (map (as_result W) RS) st = Some (Inr (map (as_result W) RS))"
      by (subst top_n_loop.simps) (auto simp: st)
    moreover have "Q = {} \<or> length RS \<ge> k"
      using False represents_set [OF rep] inv by (auto simp: topn_inv_def)
    ultimately show ?thesis using topn_done [OF good inv _ 1(4)] by blast
  next
    case True
    obtain x pq' where pop: "heap_pop path_queue_ops pq = (x, pq')" by (cases "heap_pop path_queue_ops pq")
    have len: "length pq' < length pq" using path_queue.pop_length [of pq x pq'] True pop by simp
    obtain cur where cur: "cur \<in> Q" "x = as_result W cur" and rep': "represents W (Q - {cur}) V (visited, pq')"
      and least: "\<And>q. q \<in> Q \<Longrightarrow> path_cost W cur \<le> path_cost W q"
      using topn_pop [OF good inv rep _ pop] True by blast
    have live: "live_path n W s cur" "cur \<in> insert [s] V" using inv cur(1) by (auto simp: topn_inv_def)
    then have "cur \<noteq> []" by (simp add: live_path_def)
    note loop = top_n_loop_pop [OF conjunct1 [OF True] conjunct2 [OF True] pop [unfolded cur(2)] this, where g = g and t = t and visited = visited, folded st]
    show ?thesis
    proof (cases "last cur = t")
      case last: True
      from 1(1) [OF _ topn_found [OF inv cur(1) last least] rep'] loop len True last show ?thesis by (simp add: st)
    next
      case False
      note exp = topn_expand [OF good inv cur(1) False]
      from topn_extend_all [OF g live(1) exp(2) _ live(2) _ _ _ rep', of "[0..<n]" RS] exp(1)
      obtain Q' V' st' where f: "go_fold (top_n_extend g (as_result W cur)) [0..<n] (visited, pq') = Inr st'"
        "represents W Q' V' st'" "topn_inv n W s t RS Q' V' {}" "V \<subseteq> V'" "V' = V \<longrightarrow> st' = (visited, pq')"
        by (auto simp: atLeast0LessThan)
      have "((V', st'), (V, st)) \<in> measures [\<lambda>(V, st). card ({p. distinct p \<and> set p \<subseteq> {..<n}} - V), \<lambda>(V, st). length (snd st)]"
        using topn_unmarked [OF f(3,4)] f(5) len by (cases "V' = V") (auto simp: st)
      from 1(1) [OF this f(3,2) 1(4)] loop f(1) False g(2) show ?thesis by simp
    qed
  qed
qed

text \<open>
  C6. \<open>GetTopNShortestPaths\<close>: from a node of the graph it always returns, with the \<open>n\<close> cheapest loop-free paths to the
  end, cheapest first and each with its exact cost; with fewer than \<open>n\<close> only if there are no more,
  and with the error "no paths found" exactly when there is none.
\<close>

theorem GetTopNShortestPaths_ranked:
  assumes "graph_ok g" "s < g_size g" "0 < k"
  shows "\<exists>RS. ranked (g_size g) (weight g) s t k RS \<and>
    GetTopNShortestPaths (Some g) (int s) (int t) (int k) =
      Some (if RS = [] then Inl (Err (Errorf ''no paths found''))
            else Inr (map (\<lambda>p. \<lparr>pr_path = map int p, pr_distance = path_cost (weight g) p\<rparr>) RS))"
proof -
  let ?W = "weight g" and ?n = "g_size g"
  let ?start = "\<lparr>pr_path = [int s], pr_distance = Fin 0\<rparr>"
  have st: "?start = as_result ?W [s]" by (simp add: as_result_def)
  let ?pq = "heap_push path_queue_ops ?start []"
  have "mset ?pq = {#as_result ?W [s]#}" using path_queue.push_mset [of ?start "[]"] st by simp
  moreover have "heap_inv (\<lambda>a b. flt (pr_distance a) (pr_distance b)) ?pq"
    using path_queue.push_heap [of "[]" ?start] by (simp add: heap_inv_def)
  ultimately have rep: "represents ?W {[s]} {} ({}, ?pq)" by (simp add: represents_def)
  have "\<exists>r. p = [s] @ r" if "simple_path ?n ?W s t p" for p
    using that by (cases p) (auto simp: simple_path_def live_path_def)
  then have inv: "topn_inv ?n ?W s t [] {[s]} {} {}"
    using assms(2) by (auto simp: topn_inv_def live_path_def edges_def)
  from topn_loop_ranked [OF assms(1) refl refl inv rep, of k] obtain RS where
    r: "top_n_loop (Some g) (int t) (int k) [] ({}, ?pq) = Some (Inr (map (as_result ?W) RS))" "ranked ?n ?W s t k RS"
    by auto
  then have "GetTopNShortestPaths (Some g) (int s) (int t) (int k) =
      Some (if RS = [] then Inl (Err (Errorf ''no paths found'')) else Inr (map (as_result ?W) RS))"
    using assms(3) by (simp add: GetTopNShortestPaths_def)
  with r(2) show ?thesis unfolding as_result_def by blast
qed

theorem GetTopNShortestPaths_ranked_witness:
  "\<exists>RS. ranked 3 (weight sample_graph) 0 2 2 RS \<and> [0, 1, 2] \<in> set RS"
proof -
  obtain RS where r: "ranked 3 (weight sample_graph) 0 2 2 RS"
    using GetTopNShortestPaths_ranked [OF sample_graph_ok(1), of 0 2 2] sample_graph_ok(2) by auto
  have w: "weight sample_graph 0 1 = Fin 3" "weight sample_graph 1 2 = Fin 4" "weight sample_graph 0 2 = Fin 10"
    by (simp_all add: weight_def sample_graph_def NewGraphFromMatrix_def)
  then have a: "simple_path 3 (weight sample_graph) 0 2 [0, 1, 2]"
    by (auto simp: simple_path_def live_path_def edges_def)
  have "[0, 1, 2] \<in> set RS"
  proof (rule ccontr)
    assume n: "[0, 1, 2] \<notin> set RS"
    with r a have len: "length RS = 2" "distinct RS" "\<forall>p\<in>set RS. simple_path 3 (weight sample_graph) 0 2 p"
      by (auto simp: ranked_def)
    have three: "{..<3} = {0, 1, 2 :: nat}" by auto
    have "p = [0, 2]" if "p \<in> set RS" for p
    proof -
      have p: "distinct p" "set p \<subseteq> {0, 1, 2}" "hd p = 0" "last p = 2" "p \<noteq> []" "p \<noteq> [0, 1, 2]"
        using len(3) that n three by (auto simp: simple_path_def live_path_def)
      then obtain q where q: "p = 0 # q" by (cases p) auto
      with p obtain r where "q = r @ [2]" by (cases q rule: rev_cases) auto
      with p q have "distinct r" "set r \<subseteq> {1}" by auto
      then have "r = [] \<or> r = [1]" by (cases r; cases "tl r") auto
      with p q \<open>q = r @ [2]\<close> show ?thesis by auto
    qed
    then have "set RS \<subseteq> {[0, 2]}" by auto
    with len show False by (metis card.empty card_insert_disjoint card_mono distinct_card empty_iff finite.intros
      not_numeral_le_zero numeral_2_eq_2 One_nat_def Suc_le_mono le_zero_eq nat.simps(3))
  qed
  with r show ?thesis by blast
qed

end
