(* ===== verification/Circular.thy ===== *)
theory Circular
  imports TopN "HOL-Library.Sublist"
begin

text \<open>
  \<^verbatim>\<open>internal/route/finder/circular.go\<close>: the search for \<open>n\<close> closed walks that use a given directed edge.
  Nodes of the walks are loop counters, hence \<open>nat\<close>; the edge comes from outside, as \<open>int\<close>.
\<close>

section \<open>The code\<close>

record circular_path =
  cp_nodes :: "nat list"
  cp_length :: int
  cp_foundSubPath :: bool
  cp_visited :: "nat set"

definition path_heap_ops :: "circular_path heap_ops" where
  "path_heap_ops =
     \<lparr>less_op = (\<lambda>a b. cp_length a < cp_length b), swap_op = swap_at,
      push_op = (\<lambda>x h. h @ [x]), pop_op = (\<lambda>h. (last h, butlast h))\<rparr>"

definition circular_extend ::
    "graph \<Rightarrow> int \<Rightarrow> int \<Rightarrow> nat \<Rightarrow> string set \<Rightarrow> circular_path \<Rightarrow> nat \<Rightarrow> circular_path list \<Rightarrow> circular_path list go" where
  "circular_extend g edgeStart edgeEnd startNode uniquePaths current neighbor candidates =
     (let lastNode = last (cp_nodes current)
      in go_bind (mat_get (g_matrix g) (int lastNode) (int neighbor))
           (\<lambda>w. if w = PInf then Inr candidates
                else if int lastNode = edgeEnd \<and> int neighbor = edgeStart then Inr candidates
                else if neighbor \<in> cp_visited current \<and> \<not> (neighbor = startNode \<and> cp_foundSubPath current)
                then Inr candidates
                else
                  let usesRequiredEdge = (int lastNode = edgeStart \<and> int neighbor = edgeEnd);
                      newFoundSubPath = (cp_foundSubPath current \<or> usesRequiredEdge);
                      newVisited = insert neighbor (cp_visited current);
                      newNodes = cp_nodes current @ [neighbor];
                      pathKey = path_key (map int newNodes)
                  in if pathKey \<in> uniquePaths then Inr candidates
                     else Inr (heap_push path_heap_ops
                       \<lparr>cp_nodes = newNodes, cp_length = cp_length current + 1,
                        cp_foundSubPath = newFoundSubPath, cp_visited = newVisited\<rparr> candidates)))"

type_synonym circular_found = "circular_path list \<times> string set"

partial_function (option) circular_loop ::
    "graph \<Rightarrow> int \<Rightarrow> int \<Rightarrow> int \<Rightarrow> nat \<Rightarrow> circular_path list \<Rightarrow> circular_found \<Rightarrow> circular_found go option" where
  "circular_loop g edgeStart edgeEnd n startNode candidates fd =
     (case fd of (result, uniquePaths) \<Rightarrow>
        if candidates \<noteq> [] \<and> int (length result) < n then
          let (current, rest) = heap_pop path_heap_ops candidates;
              lastNode = last (cp_nodes current);
              pathKey = path_key (map int (cp_nodes current))
          in if lastNode = startNode \<and> length (cp_nodes current) > 1 \<and> cp_foundSubPath current \<and> pathKey \<notin> uniquePaths
             then circular_loop g edgeStart edgeEnd n startNode rest (result @ [current], insert pathKey uniquePaths)
             else if length (cp_nodes current) > g_size g * 2
             then circular_loop g edgeStart edgeEnd n startNode rest fd
             else (case go_fold (circular_extend g edgeStart edgeEnd startNode uniquePaths current)
                          [0..<g_size g] rest of
                     Inl e \<Rightarrow> Some (Inl e)
                   | Inr candidates' \<Rightarrow> circular_loop g edgeStart edgeEnd n startNode candidates' fd)
        else Some (Inr fd))"

text \<open>The loop over the start nodes, which stops once there are \<open>n\<close> results.\<close>

fun circular_starts :: "graph \<Rightarrow> int \<Rightarrow> int \<Rightarrow> int \<Rightarrow> nat list \<Rightarrow> circular_found \<Rightarrow> circular_found go option" where
  "circular_starts g edgeStart edgeEnd n [] fd = Some (Inr fd)"
| "circular_starts g edgeStart edgeEnd n (s # ss) fd =
     (case circular_loop g edgeStart edgeEnd n s
             (heap_push path_heap_ops
                \<lparr>cp_nodes = [s], cp_length = 0, cp_foundSubPath = False, cp_visited = {s}\<rparr> []) fd of
        None \<Rightarrow> None
      | Some (Inl e) \<Rightarrow> Some (Inl e)
      | Some (Inr fd') \<Rightarrow>
          if int (length (fst fd')) \<ge> n then Some (Inr fd')
          else circular_starts g edgeStart edgeEnd n ss fd')"

text \<open>
  \<open>make([]CircularPath, 0, n)\<close> panics for a negative \<open>n\<close>. \<open>sort.Slice\<close> is an insertion sort, hence stable, up to
  12 elements; the order of equally long results beyond that is not specified.
\<close>

definition FindNCircularPathsWithDirectEdge ::
    "graph \<Rightarrow> int \<Rightarrow> int \<Rightarrow> int \<Rightarrow> circular_path list go option" where
  "FindNCircularPathsWithDirectEdge g edgeStart edgeEnd n =
     (if edgeStart \<ge> int (g_size g) \<or> edgeEnd \<ge> int (g_size g)
      then Some (Inl (Err (Errorf ''invalid edge nodes'')))
      else
        (case mat_get (g_matrix g) edgeStart edgeEnd of
           Inl e \<Rightarrow> Some (Inl e)
         | Inr w \<Rightarrow>
             (if w = PInf then Some (Inl (Err (Errorf ''specified edge does not exist in graph'')))
              else if n < 0 then Some (Inl (Panic CapOutOfRange))
              else map_option (\<lambda>r. go_bind r (\<lambda>(result, u). Inr (sort_key cp_length result)))
                     (circular_starts g edgeStart edgeEnd n [0..<g_size g] ([], {})))))"

section \<open>Specification\<close>

text \<open>
  A cycle through the edge \<open>(a, b)\<close>: along existing edges, never over the reverse edge, no node twice
  but the first, which is also the last; the edge is used before the closing step.
\<close>

definition sound_walk :: "nat \<Rightarrow> weights \<Rightarrow> nat \<Rightarrow> nat \<Rightarrow> nat list \<Rightarrow> bool" where
  "sound_walk n W a b p \<longleftrightarrow>
     p \<noteq> [] \<and> set p \<subseteq> {..<n} \<and> (\<forall>(u, v)\<in>set (edges p). W u v \<noteq> PInf) \<and> (b, a) \<notin> set (edges p)"

definition cycle_through :: "nat \<Rightarrow> weights \<Rightarrow> nat \<Rightarrow> nat \<Rightarrow> nat list \<Rightarrow> bool" where
  "cycle_through n W a b p \<longleftrightarrow>
     sound_walk n W a b p \<and> 1 < length p \<and> last p = hd p \<and> distinct (butlast p) \<and>
     (a, b) \<in> set (edges (butlast p))"

definition as_circular :: "nat \<Rightarrow> nat \<Rightarrow> nat list \<Rightarrow> circular_path" where
  "as_circular a b p =
     \<lparr>cp_nodes = p, cp_length = int (length p) - 1, cp_foundSubPath = (a, b) \<in> set (edges p), cp_visited = set p\<rparr>"

interpretation path_heap: priority_heap path_heap_ops id "\<lambda>a b. cp_length a < cp_length b" cp_length UNIV
  by unfold_locales (auto simp: path_heap_ops_def compares_def)

section \<open>The invariant of the search from one start node\<close>

text \<open>
  \<open>R\<close> is the results, \<open>A\<close> the queued walks, \<open>C\<close> the extensions of the current walk still to be looked at. No
  walk of \<open>A\<close> or \<open>C\<close> continues another or a result, so no walk is ever queued twice.
\<close>

definition comparable :: "nat list \<Rightarrow> nat list \<Rightarrow> bool" where
  "comparable p q \<longleftrightarrow> prefix p q \<or> prefix q p"

definition circ_inv ::
    "nat \<Rightarrow> weights \<Rightarrow> nat \<Rightarrow> nat \<Rightarrow> nat \<Rightarrow> nat list list \<Rightarrow> nat list set \<Rightarrow> nat list set \<Rightarrow> bool" where
  "circ_inv n W a b s R A C \<longleftrightarrow>
     s < n \<and> finite A \<and> distinct R \<and> (A \<union> C) \<inter> set R = {} \<and> A \<inter> C = {} \<and>
     (\<forall>p\<in>A. hd p = s \<and> sound_walk n W a b p \<and> (distinct p \<or> cycle_through n W a b p)) \<and>
     (\<forall>p\<in>set R. cycle_through n W a b p) \<and>
     (\<forall>p\<in>A \<union> C. \<forall>q\<in>A \<union> C \<union> set R. comparable p q \<longrightarrow> p = q) \<and>
     (\<forall>p. cycle_through n W a b p \<longrightarrow> hd p = s \<longrightarrow> p \<in> set R \<or> (\<exists>q\<in>A \<union> C. prefix q p))"

definition circ_rep :: "nat \<Rightarrow> nat \<Rightarrow> nat list set \<Rightarrow> circular_path list \<Rightarrow> bool" where
  "circ_rep a b A cs \<longleftrightarrow> mset cs = image_mset (as_circular a b) (mset_set A)"

definition found_rep :: "nat \<Rightarrow> nat \<Rightarrow> nat list list \<Rightarrow> circular_found" where
  "found_rep a b R = (map (as_circular a b) R, (\<lambda>p. path_key (map int p)) ` set R)"

lemma as_circular_inj: "as_circular a b p = as_circular a b q \<longleftrightarrow> p = q"
  by (auto simp: as_circular_def)

lemma circ_inv_drop:
  assumes "circ_inv n W a b s R A (insert c C)"
    "\<And>p. cycle_through n W a b p \<Longrightarrow> hd p = s \<Longrightarrow> \<not> prefix c p"
  shows "circ_inv n W a b s R A C"
proof -
  have "\<forall>p. cycle_through n W a b p \<longrightarrow> hd p = s \<longrightarrow> p \<in> set R \<or> (\<exists>q\<in>A \<union> C. prefix q p)"
    using assms unfolding circ_inv_def by (metis UnE UnI1 UnI2 insertE)
  with assms(1) show ?thesis unfolding circ_inv_def by simp
qed

lemma cycle_not_extended:
  assumes cyc: "cycle_through n W a b p" "hd p = s" "prefix (cur @ [v]) p" and ne: "cur \<noteq> []"
    and bad: "W (last cur) v = PInf \<or> last cur = b \<and> v = a \<or> v \<in> set cur \<and> \<not> (v = s \<and> (a, b) \<in> set (edges cur))"
  shows False
proof -
  obtain r where r: "p = cur @ v # r" using cyc(3) by (auto simp: prefix_def)
  have e: "(last cur, v) \<in> set (edges p)" using edges_mid [OF ne] r by simp
  have "W (last cur) v \<noteq> PInf" "(last cur, v) \<noteq> (b, a)"
    using cyc(1) e by (auto simp: cycle_through_def sound_walk_def)
  with bad have v: "v \<in> set cur" "\<not> (v = s \<and> (a, b) \<in> set (edges cur))" by auto
  show False
  proof (cases "r = []")
    case True
    then have "butlast p = cur" "last p = v" using r by simp_all
    with cyc v(2) show False by (auto simp: cycle_through_def)
  next
    case False
    then have "butlast p = cur @ v # butlast r" using r by (simp add: butlast_append)
    with cyc(1) v(1) show False by (auto simp: cycle_through_def)
  qed
qed

lemma as_circular_snoc:
  "cur \<noteq> [] \<Longrightarrow> as_circular a b (cur @ [v]) =
     \<lparr>cp_nodes = cur @ [v], cp_length = int (length cur) - 1 + 1,
      cp_foundSubPath = (a, b) \<in> set (edges cur) \<or> last cur = a \<and> v = b, cp_visited = insert v (set cur)\<rparr>"
  by (auto simp: as_circular_def edges_snoc)

text \<open>One neighbour.\<close>

lemma circ_extend_ok:
  assumes g: "graph_dims g" "n = g_size g" "W = weight g"
    and cur: "sound_walk n W a b cur" "hd cur = s" "distinct cur" and v: "v < n"
    and inv: "circ_inv n W a b s R A (insert (cur @ [v]) C)" "cur @ [v] \<notin> C" and rep: "circ_rep a b A cs"
  shows "\<exists>A' cs'. circular_extend g (int a) (int b) s (snd (found_rep a b R)) (as_circular a b cur) v cs = Inr cs' \<and>
     circ_rep a b A' cs' \<and> circ_inv n W a b s R A' C \<and> A' \<subseteq> insert (cur @ [v]) A"
proof -
  let ?c = "cur @ [v]" and ?u = "snd (found_rep a b R)"
  have ne: "cur \<noteq> []" using cur(1) by (simp add: sound_walk_def)
  have last: "last cur < n" using cur(1) last_in_set [OF ne] unfolding sound_walk_def by blast
  have get: "mat_get (g_matrix g) (int (last cur)) (int v) = Inr (W (last cur) v)"
    using mat_get_in [of "g_matrix g" n "last cur" v] last v g by (simp add: graph_dims_def weight_def)
  have new: "?c \<notin> set R" using inv(1) by (auto simp: circ_inv_def)
  then have key: "path_key (map int ?c) \<notin> ?u"
    by (auto simp: found_rep_def path_key_inj inj_map_eq_map inj_of_nat simp del: map_append)
  show ?thesis
  proof (cases "W (last cur) v = PInf \<or> last cur = b \<and> v = a \<or> v \<in> set cur \<and> \<not> (v = s \<and> (a, b) \<in> set (edges cur))")
    case True
    then have "circular_extend g (int a) (int b) s ?u (as_circular a b cur) v cs = Inr cs"
      using get by (auto simp: circular_extend_def as_circular_def Let_def)
    moreover have "circ_inv n W a b s R A C"
      using circ_inv_drop [OF inv(1)] cycle_not_extended [of n W a b _ s cur v] ne True by blast
    ultimately show ?thesis using rep by blast
  next
    case False
    let ?cs = "heap_push path_heap_ops (as_circular a b ?c) cs"
    have ext: "circular_extend g (int a) (int b) s ?u (as_circular a b cur) v cs = Inr ?cs"
      unfolding as_circular_snoc [OF ne] using False get key
      by (auto simp: circular_extend_def as_circular_def Let_def)
    have fin: "finite A" and cA: "?c \<notin> A" using inv(1) by (auto simp: circ_inv_def)
    have sound: "sound_walk n W a b ?c"
      using False cur(1) v ne by (auto simp: sound_walk_def edges_snoc)
    have shape: "distinct ?c \<or> cycle_through n W a b ?c"
      using False cur sound ne by (auto simp: cycle_through_def)
    have i: "circ_inv n W a b s R (insert ?c A) C"
      using inv sound shape cur(2) ne unfolding circ_inv_def by auto
    have "circ_rep a b (insert ?c A) ?cs"
      using rep fin cA path_heap.push_mset [of "as_circular a b ?c" cs] by (simp add: circ_rep_def)
    then show ?thesis using ext i by blast
  qed
qed

lemma circ_extend_all:
  assumes g: "graph_dims g" "n = g_size g" "W = weight g"
    and cur: "sound_walk n W a b cur" "hd cur = s" "distinct cur"
    and "distinct vs" "set vs \<subseteq> {..<n}"
    and "circ_inv n W a b s R A ((\<lambda>v. cur @ [v]) ` set vs)" "circ_rep a b A cs"
  shows "\<exists>A' cs'. go_fold (circular_extend g (int a) (int b) s (snd (found_rep a b R)) (as_circular a b cur)) vs cs =
       Inr cs' \<and> circ_rep a b A' cs' \<and> circ_inv n W a b s R A' {} \<and> A' \<subseteq> A \<union> (\<lambda>v. cur @ [v]) ` set vs"
  using assms(7-)
proof (induction vs arbitrary: A cs)
  case (Cons v vs)
  let ?f = "circular_extend g (int a) (int b) s (snd (found_rep a b R)) (as_circular a b cur)"
  have v: "v < n" and c: "cur @ [v] \<notin> (\<lambda>v. cur @ [v]) ` set vs" using Cons.prems by auto
  have i: "circ_inv n W a b s R A (insert (cur @ [v]) ((\<lambda>v. cur @ [v]) ` set vs))"
    using Cons.prems(3) by simp
  obtain A1 cs1 where 1: "?f v cs = Inr cs1" "circ_rep a b A1 cs1"
     "circ_inv n W a b s R A1 ((\<lambda>v. cur @ [v]) ` set vs)" "A1 \<subseteq> insert (cur @ [v]) A"
    using circ_extend_ok [OF g cur v i c Cons.prems(4)] by blast
  from Cons.IH [OF _ _ 1(3,2)] Cons.prems obtain A' cs' where
    2: "go_fold ?f vs cs1 = Inr cs'" "circ_rep a b A' cs'" "circ_inv n W a b s R A' {}"
       "A' \<subseteq> A1 \<union> (\<lambda>v. cur @ [v]) ` set vs" by auto
  have "A' \<subseteq> A \<union> (\<lambda>v. cur @ [v]) ` set (v # vs)" using 1(4) 2(4) by auto
  with 1 2 show ?case by (intro exI [of _ A'] exI [of _ cs']) simp
qed auto

lemma circ_pop:
  assumes inv: "circ_inv n W a b s R A {}" and rep: "circ_rep a b A cs"
    and pop: "cs \<noteq> []" "heap_pop path_heap_ops cs = (x, cs')"
  obtains cur where "cur \<in> A" "x = as_circular a b cur" "circ_rep a b (A - {cur}) cs'"
proof -
  have fin: "finite A" using inv by (simp add: circ_inv_def)
  have pm: "mset cs = add_mset x (mset cs')" using path_heap.pop_mset [OF pop] by simp
  then have "x \<in># image_mset (as_circular a b) (mset_set A)"
    using rep unfolding circ_rep_def by (metis union_single_eq_member)
  then obtain cur where cur: "cur \<in> A" "x = as_circular a b cur" using fin by auto
  have "mset_set A = add_mset cur (mset_set (A - {cur}))" using fin cur(1) by (simp add: mset_set.remove)
  then have "circ_rep a b (A - {cur}) cs'" using rep pm cur(2) by (simp add: circ_rep_def)
  with cur show ?thesis by (rule that)
qed

text \<open>A popped cycle is a result; nothing else starts with it.\<close>

lemma circ_found:
  assumes inv: "circ_inv n W a b s R A {}" and cur: "cur \<in> A" "cycle_through n W a b cur"
  shows "circ_inv n W a b s (R @ [cur]) (A - {cur}) {}"
proof -
  have hd: "hd cur = s" using inv cur(1) by (auto simp: circ_inv_def)
  have same: "p = cur" if p: "cycle_through n W a b p" and pre: "prefix cur p" for p
  proof (rule ccontr)
    assume neq: "p \<noteq> cur"
    obtain r where r: "p = cur @ r" using pre by (auto simp: prefix_def)
    with neq have "r \<noteq> []" by auto
    then have "butlast p = cur @ butlast r" using r by (simp add: butlast_append)
    with p have "distinct cur" by (simp add: cycle_through_def)
    moreover have "cur = hd cur # tl cur" "tl cur \<noteq> []" "last (tl cur) = hd cur"
      using cur(2) by (cases cur; auto simp: cycle_through_def split: if_splits)+
    ultimately show False by (metis distinct.simps(2) last_in_set)
  qed
  have cover: "p \<in> set (R @ [cur]) \<or> (\<exists>q\<in>A - {cur} \<union> {}. prefix q p)"
    if p: "cycle_through n W a b p" "hd p = s" for p
  proof -
    from inv p have "p \<in> set R \<or> (\<exists>q\<in>A. prefix q p)" by (auto simp: circ_inv_def)
    then show ?thesis using same [OF p(1)] by auto
  qed
  show ?thesis
    using inv cur cover unfolding circ_inv_def by auto
qed

lemma comparable_snoc: "comparable p (q @ [v]) \<Longrightarrow> comparable p q \<or> p = q @ [v]"
  unfolding comparable_def prefix_snoc by (blast dest: append_prefixD)

lemma circ_expand:
  assumes inv: "circ_inv n W a b s R A {}" and cur: "cur \<in> A" "\<not> cycle_through n W a b cur"
  shows "circ_inv n W a b s R (A - {cur}) ((\<lambda>v. cur @ [v]) ` {..<n})"
proof -
  let ?C = "(\<lambda>v. cur @ [v]) ` {..<n}"
  have anti: "p = q" if "p \<in> A" "q \<in> A \<union> set R" "comparable p q" for p q
    using inv that by (auto simp: circ_inv_def)
  have far: "\<not> comparable (cur @ [v]) q" if "q \<in> A - {cur} \<union> set R" for v q
  proof
    assume "comparable (cur @ [v]) q"
    then have "comparable q cur \<or> q = cur @ [v]" using comparable_snoc [of q cur v] by (auto simp: comparable_def)
    then have "comparable cur q" by (auto simp: comparable_def)
    moreover have "q \<noteq> cur" using that inv cur(1) by (auto simp: circ_inv_def)
    ultimately show False using anti [OF cur(1), of q] that by auto
  qed
  have sym: "comparable p q \<longleftrightarrow> comparable q p" for p q by (auto simp: comparable_def)
  have new: "p = q" if "p \<in> A - {cur} \<union> ?C" "q \<in> A - {cur} \<union> ?C \<union> set R" "comparable p q" for p q
  proof -
    have "cur @ [v] = cur @ [v']" if "comparable (cur @ [v]) (cur @ [v'])" for v v'
      using that by (auto simp: comparable_def)
    then show ?thesis using that far anti [of p q] sym by blast
  qed
  have disj: "?C \<inter> (A - {cur} \<union> set R) = {}"
    using far by (fastforce simp: comparable_def)
  have cover: "p \<in> set R \<or> (\<exists>q\<in>A - {cur} \<union> ?C. prefix q p)" if p: "cycle_through n W a b p" "hd p = s" for p
  proof -
    have "p \<in> set R \<or> (\<exists>q\<in>A. prefix q p)" using inv p by (auto simp: circ_inv_def)
    moreover have "\<exists>q\<in>?C. prefix q p" if pre: "prefix cur p"
    proof -
      obtain r where r: "p = cur @ r" using pre by (auto simp: prefix_def)
      then obtain v r' where "r = v # r'" using p(1) cur(2) by (cases r) auto
      then show ?thesis using r p(1)
        by (intro bexI [of _ "cur @ [v]"]) (auto simp: cycle_through_def sound_walk_def)
    qed
    ultimately show ?thesis by blast
  qed
  have "\<forall>p\<in>A - {cur} \<union> ?C. \<forall>q\<in>A - {cur} \<union> ?C \<union> set R. comparable p q \<longrightarrow> p = q" using new by blast
  moreover have "(A - {cur} \<union> ?C) \<inter> set R = {}" "(A - {cur}) \<inter> ?C = {}"
    using disj inv by (auto simp: circ_inv_def)
  ultimately show ?thesis using inv cover unfolding circ_inv_def by blast
qed

section \<open>The loops\<close>

text \<open>Termination: the walks that still can be reached from the queue.\<close>

definition reach :: "nat \<Rightarrow> nat list set \<Rightarrow> nat list set" where
  "reach n A = {p. set p \<subseteq> {..<n} \<and> length p \<le> Suc n \<and> (\<exists>q\<in>A. prefix q p)}"

lemma finite_reach: "finite (reach n A)"
  using finite_lists_length_le [of "{..<n}" "Suc n"] by (rule rev_finite_subset) (auto simp: reach_def)

lemma walk_short:
  assumes "circ_inv n W a b s R A {}" "p \<in> A"
  shows "length p \<le> Suc n" "set p \<subseteq> {..<n}" "p \<noteq> []"
proof -
  have p: "sound_walk n W a b p" "distinct p \<or> cycle_through n W a b p" using assms by (auto simp: circ_inv_def)
  then show "set p \<subseteq> {..<n}" "p \<noteq> []" by (auto simp: sound_walk_def)
  moreover have "distinct (butlast p)" using p(2) by (auto simp: cycle_through_def distinct_butlast)
  ultimately have "length (butlast p) \<le> n"
    using card_mono [of "{..<n}" "set (butlast p)"] by (auto simp: distinct_card dest: in_set_butlastD)
  then show "length p \<le> Suc n" by simp
qed

lemma reach_decreases:
  assumes inv: "circ_inv n W a b s R A {}" and cur: "cur \<in> A" and A': "A' \<subseteq> A - {cur} \<union> range (\<lambda>v. cur @ [v])"
  shows "card (reach n A') < card (reach n A)"
proof (rule psubset_card_mono [OF finite_reach])
  have "cur \<in> reach n A" using walk_short [OF inv cur] cur by (auto simp: reach_def)
  moreover have "\<not> prefix q cur" if q: "q \<in> A'" for q
  proof (cases "q \<in> A - {cur}")
    case True
    then show ?thesis using inv cur by (auto simp: circ_inv_def comparable_def)
  next
    case False
    then have "q \<in> range (\<lambda>v. cur @ [v])" using q A' by auto
    then show ?thesis by (auto simp: prefix_def)
  qed
  then have "cur \<notin> reach n A'" by (auto simp: reach_def)
  moreover have "reach n A' \<subseteq> reach n A"
  proof
    fix p assume p: "p \<in> reach n A'"
    then obtain q where q: "q \<in> A'" "prefix q p" by (auto simp: reach_def)
    then have "\<exists>q'\<in>A. prefix q' p" using A' cur by (auto dest: append_prefixD)
    with p show "p \<in> reach n A" by (simp add: reach_def)
  qed
  ultimately show "reach n A' \<subset> reach n A" by blast
qed

text \<open>What a search from one start node adds.\<close>

definition all_cycles_from :: "nat \<Rightarrow> weights \<Rightarrow> nat \<Rightarrow> nat \<Rightarrow> nat set \<Rightarrow> nat list list \<Rightarrow> bool" where
  "all_cycles_from n W a b S R \<longleftrightarrow> (\<forall>p. cycle_through n W a b p \<longrightarrow> hd p \<in> S \<longrightarrow> p \<in> set R)"

lemma circ_done: "circ_inv n W a b s R A {} \<Longrightarrow> circ_rep a b A [] \<Longrightarrow> all_cycles_from n W a b {s} R"
  by (auto simp: circ_inv_def circ_rep_def all_cycles_from_def mset_set_empty_iff)

text \<open>The code's test for a complete cycle is right for the walks in the queue.\<close>

lemma circ_complete:
  assumes "distinct cur \<or> cycle_through n W a b cur" "hd cur = s"
  shows "last cur = s \<and> length cur > 1 \<and> (a, b) \<in> set (edges cur) \<longleftrightarrow> cycle_through n W a b cur"
proof
  assume l: "last cur = s \<and> length cur > 1 \<and> (a, b) \<in> set (edges cur)"
  then have "\<not> distinct cur" using assms(2) by (cases cur) auto
  with assms(1) show "cycle_through n W a b cur" by simp
next
  assume l: "cycle_through n W a b cur"
  then have "cur \<noteq> []" "butlast cur \<noteq> []" by (cases cur; auto simp: cycle_through_def)+
  then have "set (edges (butlast cur)) \<subseteq> set (edges cur)"
    using edges_append [of "butlast cur" "[last cur]"] by simp
  with l assms(2) show "last cur = s \<and> length cur > 1 \<and> (a, b) \<in> set (edges cur)" by (auto simp: cycle_through_def)
qed

lemma circ_loop_ok:
  assumes g: "graph_dims g" "n = g_size g" "W = weight g"
    and "circ_inv n W a b s R A {}" "circ_rep a b A cs" "length R \<le> k"
  shows "\<exists>R'. circular_loop g (int a) (int b) (int k) s cs (found_rep a b R) = Some (Inr (found_rep a b R')) \<and>
     length R' \<le> k \<and> distinct R' \<and> (\<forall>p\<in>set R'. cycle_through n W a b p) \<and> set R \<subseteq> set R' \<and>
     (\<forall>p\<in>set R'. p \<in> set R \<or> hd p = s) \<and> (length R' = k \<or> all_cycles_from n W a b {s} R')"
  using assms(4-)
proof (induction "card (reach n A)" arbitrary: A R cs rule: less_induct)
  case less
  note inv = less(2) and rep = less(3)
  have fin: "finite A" and s: "s < n" using inv by (auto simp: circ_inv_def)
  show ?case
  proof (cases "cs \<noteq> [] \<and> length R < k")
    case False
    then have "circular_loop g (int a) (int b) (int k) s cs (found_rep a b R) = Some (Inr (found_rep a b R))"
      by (subst circular_loop.simps) (auto simp: found_rep_def)
    moreover have "length R = k \<or> all_cycles_from n W a b {s} R"
      using False less(4) circ_done [OF inv] rep by auto
    ultimately show ?thesis using inv less(4) by (intro exI [of _ R]) (auto simp: circ_inv_def)
  next
    case True
    obtain x cs' where pop: "heap_pop path_heap_ops cs = (x, cs')" by (cases "heap_pop path_heap_ops cs")
    obtain cur where cur: "cur \<in> A" "x = as_circular a b cur" and rep': "circ_rep a b (A - {cur}) cs'"
      using circ_pop [OF inv rep _ pop] True by blast
    have c: "sound_walk n W a b cur" "hd cur = s" "distinct cur \<or> cycle_through n W a b cur" "cur \<notin> set R"
      using inv cur(1) by (auto simp: circ_inv_def)
    have key: "path_key (map int cur) \<notin> snd (found_rep a b R)"
      using c(4) by (auto simp: found_rep_def path_key_inj inj_map_eq_map inj_of_nat)
    have loop: "circular_loop g (int a) (int b) (int k) s cs (found_rep a b R) =
      (if cycle_through n W a b cur then circular_loop g (int a) (int b) (int k) s cs' (found_rep a b (R @ [cur]))
       else case go_fold (circular_extend g (int a) (int b) s (snd (found_rep a b R)) x) [0..<g_size g] cs' of
              Inl e \<Rightarrow> Some (Inl e)
            | Inr cs'' \<Rightarrow> circular_loop g (int a) (int b) (int k) s cs'' (found_rep a b R))"
      using True pop key circ_complete [OF c(3,2)] walk_short(1) [OF inv cur(1)] s g(2) cur(2)
      by (subst circular_loop.simps) (auto simp: found_rep_def as_circular_def)
    show ?thesis
    proof (cases "cycle_through n W a b cur")
      case cyc: True
      have "card (reach n (A - {cur})) < card (reach n A)" by (rule reach_decreases [OF inv cur(1)]) auto
      from less(1) [OF this circ_found [OF inv cur(1) cyc] rep'] True obtain R' where
        "circular_loop g (int a) (int b) (int k) s cs' (found_rep a b (R @ [cur])) = Some (Inr (found_rep a b R'))"
        "length R' \<le> k" "distinct R'" "\<forall>p\<in>set R'. cycle_through n W a b p" "set (R @ [cur]) \<subseteq> set R'"
        "\<forall>p\<in>set R'. p \<in> set (R @ [cur]) \<or> hd p = s" "length R' = k \<or> all_cycles_from n W a b {s} R'"
        by auto
      with loop cyc c(2) show ?thesis by (intro exI [of _ R']) auto
    next
      case no: False
      from circ_extend_all [OF g c(1,2) _ _ _ _ rep', of "[0..<n]" R] circ_expand [OF inv cur(1) no] no c(3)
      obtain A' cs'' where e: "go_fold (circular_extend g (int a) (int b) s (snd (found_rep a b R)) x) [0..<n] cs' = Inr cs''"
        "circ_rep a b A' cs''" "circ_inv n W a b s R A' {}" "A' \<subseteq> A - {cur} \<union> (\<lambda>v. cur @ [v]) ` {..<n}"
        by (auto simp: atLeast0LessThan cur(2))
      have "card (reach n A') < card (reach n A)"
        using e(4) by (intro reach_decreases [OF inv cur(1)]) auto
      from less(1) [OF this e(3,2) less(4)] loop no e(1) g(2) show ?thesis by simp
    qed
  qed
qed

lemma circ_inv_start:
  assumes "s < n" "distinct R" "\<forall>p\<in>set R. cycle_through n W a b p \<and> hd p < s"
  shows "circ_inv n W a b s R {[s]} {}"
proof -
  have pre: "prefix [s] p" if "hd p = s" "p \<noteq> []" for p :: "nat list"
    using that by (cases p) auto
  have "p = [s]" if "p \<in> insert [s] (set R)" "comparable [s] p" for p
  proof (rule ccontr)
    assume n: "p \<noteq> [s]"
    then have "cycle_through n W a b p" "hd p < s" using that(1) assms(3) by auto
    then have "1 < length p" "p \<noteq> []" "hd p \<noteq> s" by (auto simp: cycle_through_def)
    with that(2) show False by (cases p) (auto simp: comparable_def prefix_Cons)
  qed
  moreover have "[s] \<notin> set R" using assms(3) by (auto simp: cycle_through_def)
  ultimately show ?thesis
    using assms pre by (auto simp: circ_inv_def sound_walk_def edges_def cycle_through_def)
qed

lemma circ_starts_ok:
  assumes g: "graph_dims g" "n = g_size g" "W = weight g"
    and "j \<le> n" "distinct R" "length R \<le> k" "\<forall>p\<in>set R. cycle_through n W a b p \<and> hd p < j"
    "all_cycles_from n W a b {..<j} R"
  shows "\<exists>R'. circular_starts g (int a) (int b) (int k) [j..<n] (found_rep a b R) = Some (Inr (found_rep a b R')) \<and>
     length R' \<le> k \<and> distinct R' \<and> (\<forall>p\<in>set R'. cycle_through n W a b p) \<and>
     (length R' = k \<or> all_cycles_from n W a b {..<n} R')"
  using assms(4-)
proof (induction "n - j" arbitrary: j R)
  case 0
  then show ?case by (intro exI [of _ R]) auto
next
  case (Suc m)
  then have j: "j < n" "[j..<n] = j # [Suc j..<n]" by (simp_all add: upt_conv_Cons)
  let ?start = "\<lparr>cp_nodes = [j], cp_length = 0, cp_foundSubPath = False, cp_visited = {j}\<rparr>"
  have "?start = as_circular a b [j]" by (simp add: as_circular_def edges_def)
  then have rep: "circ_rep a b {[j]} (heap_push path_heap_ops ?start [])"
    using path_heap.push_mset [of ?start "[]"] by (simp add: circ_rep_def)
  obtain R1 where R1: "circular_loop g (int a) (int b) (int k) j (heap_push path_heap_ops ?start []) (found_rep a b R) =
      Some (Inr (found_rep a b R1))" "length R1 \<le> k" "distinct R1" "\<forall>p\<in>set R1. cycle_through n W a b p"
     "set R \<subseteq> set R1" "\<forall>p\<in>set R1. p \<in> set R \<or> hd p = j" "length R1 = k \<or> all_cycles_from n W a b {j} R1"
    using circ_loop_ok [OF g circ_inv_start [OF j(1) Suc.prems(2,4)] rep Suc.prems(3)] by blast
  have step: "circular_starts g (int a) (int b) (int k) [j..<n] (found_rep a b R) =
     (if length R1 \<ge> k then Some (Inr (found_rep a b R1))
      else circular_starts g (int a) (int b) (int k) [Suc j..<n] (found_rep a b R1))"
    unfolding j(2) using R1(1) by (simp add: found_rep_def)
  show ?case
  proof (cases "length R1 \<ge> k")
    case True
    with step R1 show ?thesis by (intro exI [of _ R1]) auto
  next
    case False
    have "m = n - Suc j" "Suc j \<le> n" using Suc(2) j by auto
    moreover have "\<forall>p\<in>set R1. cycle_through n W a b p \<and> hd p < Suc j"
      using R1(4,6) Suc.prems(4) by fastforce
    moreover have "all_cycles_from n W a b {..<Suc j} R1"
      using R1(5,7) False Suc.prems(5) by (auto simp: all_cycles_from_def less_Suc_eq)
    ultimately show ?thesis
      using Suc(1) [of "Suc j" R1] R1(2,3) step False by simp
  qed
qed

section \<open>Properties\<close>

text \<open>
  C12. \<open>FindNCircularPathsWithDirectEdge\<close>: for an existing edge and \<open>n\<close> not negative the search ends, with at most \<open>n\<close>
  distinct cycles through the edge, shortest first and each with its number of edges as length; it stops
  short of \<open>n\<close> only when it has found every such cycle.
\<close>

theorem FindNCircularPaths_correct:
  assumes "graph_dims g" "a < g_size g" "b < g_size g" "weight g a b \<noteq> PInf"
  shows "\<exists>rs. FindNCircularPathsWithDirectEdge g (int a) (int b) (int k) = Some (Inr rs) \<and>
     length rs \<le> k \<and> distinct (map cp_nodes rs) \<and> sorted (map cp_length rs) \<and>
     (\<forall>r\<in>set rs. cycle_through (g_size g) (weight g) a b (cp_nodes r) \<and> cp_length r = int (length (edges (cp_nodes r)))) \<and>
     (length rs = k \<or> (\<forall>p. cycle_through (g_size g) (weight g) a b p \<longrightarrow> p \<in> cp_nodes ` set rs))"
proof -
  let ?n = "g_size g" and ?W = "weight g"
  have e: "found_rep a b [] = ([], {})" by (simp add: found_rep_def)
  obtain R where R: "circular_starts g (int a) (int b) (int k) [0..<?n] ([], {}) = Some (Inr (found_rep a b R))"
     "length R \<le> k" "distinct R" "\<forall>p\<in>set R. cycle_through ?n ?W a b p"
     "length R = k \<or> all_cycles_from ?n ?W a b {..<?n} R"
    using circ_starts_ok [OF assms(1) refl refl, of 0 "[]" k a b] by (auto simp: e all_cycles_from_def)
  let ?rs = "sort_key cp_length (map (as_circular a b) R)"
  have nodes: "cp_nodes (as_circular a b p) = p" for p by (simp add: as_circular_def)
  have "mat_get (g_matrix g) (int a) (int b) = Inr (?W a b)"
    using mat_get_in assms(1-3) by (simp add: graph_dims_def weight_def)
  then have "FindNCircularPathsWithDirectEdge g (int a) (int b) (int k) = Some (Inr ?rs)"
    using assms R(1) by (simp add: FindNCircularPathsWithDirectEdge_def found_rep_def)
  moreover have "distinct (map cp_nodes ?rs)"
  proof -
    have "mset (map cp_nodes ?rs) = mset (map cp_nodes (map (as_circular a b) R))" by (simp only: mset_map mset_sort)
    also have "map cp_nodes (map (as_circular a b) R) = R" by (simp add: comp_def nodes)
    finally show ?thesis using R(3) by (metis mset_eq_imp_distinct_iff)
  qed
  moreover have "cp_length (as_circular a b p) = int (length (edges p))" if "p \<in> set R" for p
    using R(4) that by (auto simp: as_circular_def edges_def cycle_through_def min_def)
  moreover have "p \<in> cp_nodes ` set ?rs" if "all_cycles_from ?n ?W a b {..<?n} R" "cycle_through ?n ?W a b p" for p
  proof -
    have "hd p < ?n" using that(2) by (cases p) (auto simp: cycle_through_def sound_walk_def)
    with that have "p \<in> set R" by (auto simp: all_cycles_from_def)
    then show ?thesis using nodes [of p] by force
  qed
  ultimately show ?thesis using R by (intro exI [of _ ?rs]) (auto simp: nodes)
qed

text \<open>Two sites with links in both directions and a third closing a triangle.\<close>

definition sample_ring :: graph where
  "sample_ring = NewGraphFromMatrix
     [[PInf, Fin 1, PInf], [PInf, PInf, Fin 1], [Fin 1, PInf, PInf]]"

theorem FindNCircularPaths_correct_witness:
  "\<exists>r. FindNCircularPathsWithDirectEdge sample_ring 0 1 1 = Some (Inr [r]) \<and>
     cycle_through 3 (weight sample_ring) 0 1 (cp_nodes r)"
proof -
  have g: "graph_dims sample_ring" "g_size sample_ring = 3" "weight sample_ring 0 1 = Fin 1"
    "weight sample_ring 1 2 = Fin 1" "weight sample_ring 2 0 = Fin 1"
    by (simp_all add: sample_ring_def NewGraphFromMatrix_def graph_dims_def weight_def)
  have c: "cycle_through 3 (weight sample_ring) 0 1 [0, 1, 2, 0]"
    using g by (simp add: cycle_through_def sound_walk_def edges_def)
  obtain rs where rs: "FindNCircularPathsWithDirectEdge sample_ring (int 0) (int 1) (int 1) = Some (Inr rs)"
    "length rs \<le> 1" "\<forall>r\<in>set rs. cycle_through 3 (weight sample_ring) 0 1 (cp_nodes r)"
    "length rs = 1 \<or> (\<forall>p. cycle_through 3 (weight sample_ring) 0 1 p \<longrightarrow> p \<in> cp_nodes ` set rs)"
    using FindNCircularPaths_correct [OF g(1), of 0 1 1] g by auto
  have "rs \<noteq> []" using rs(4) c by auto
  with rs(2) obtain r where "rs = [r]" by (cases rs) auto
  with rs(1,3) show ?thesis by (intro exI [of _ r]) simp
qed

end
