(* ===== verification/NetIP.thy ===== *)
theory NetIP
  imports Strings "HOL-Library.Word"
begin

text \<open>
  The values of Go's package \<open>net\<close> the program uses: IP addresses and networks, \<open>ParseIP\<close>, \<open>ParseCIDR\<close>, and
  \<open>String\<close>. A v4-mapped IPv6 address is an IPv4 address, as \<open>To4\<close> and \<open>Equal\<close> see it. A nil \<open>net.IP\<close> is \<open>None\<close>.
\<close>

section \<open>Addresses\<close>

datatype ip = V4 "8 word" "8 word" "8 word" "8 word" | V6 "16 word list"

fun is_v4 :: "ip \<Rightarrow> bool" where
  "is_v4 (V4 a b c d) = True"
| "is_v4 (V6 gs) = False"

text \<open>\<open>net.IPNet\<close>: the network address and the length of its mask.\<close>

record ipnet =
  net_ip :: ip
  net_len :: nat

section \<open>Parsing\<close>

definition parse_octet :: "string \<Rightarrow> 8 word option" where
  "parse_octet s =
     (if s \<noteq> [] \<and> list_all is_digit s \<and> length s \<le> 3 \<and> \<not> (1 < length s \<and> hd s = CHR ''0'') \<and> digits_val s \<le> 255
      then Some (of_nat (digits_val s)) else None)"

definition parse_ipv4 :: "string \<Rightarrow> ip option" where
  "parse_ipv4 s =
     (case split s CHR ''.'' of
        [a, b, c, d] \<Rightarrow>
          (case (parse_octet a, parse_octet b, parse_octet c, parse_octet d) of
             (Some a', Some b', Some c', Some d') \<Rightarrow> Some (V4 a' b' c' d')
           | _ \<Rightarrow> None)
      | _ \<Rightarrow> None)"

definition hex_val :: "char \<Rightarrow> nat option" where
  "hex_val c =
     (let n = (of_char c :: nat)
      in if 48 \<le> n \<and> n \<le> 57 then Some (n - 48)
         else if 97 \<le> n \<and> n \<le> 102 then Some (n - 87)
         else if 65 \<le> n \<and> n \<le> 70 then Some (n - 55) else None)"

fun hex_digits :: "string \<Rightarrow> nat \<Rightarrow> nat option" where
  "hex_digits [] acc = Some acc"
| "hex_digits (c # s) acc = (case hex_val c of None \<Rightarrow> None | Some d \<Rightarrow> hex_digits s (16 * acc + d))"

definition parse_group :: "string \<Rightarrow> 16 word option" where
  "parse_group s = (if s = [] \<or> 4 < length s then None else map_option of_nat (hex_digits s 0))"

text \<open>Colon-separated groups, the last of which may be an IPv4 address.\<close>

fun parse_groups :: "string list \<Rightarrow> 16 word list option" where
  "parse_groups [] = Some []"
| "parse_groups [s] =
     (case parse_group s of
        Some g \<Rightarrow> Some [g]
      | None \<Rightarrow>
          (case parse_ipv4 s of
             Some (V4 a b c d) \<Rightarrow> Some [ucast a * 256 + ucast b, ucast c * 256 + ucast d]
           | _ \<Rightarrow> None))"
| "parse_groups (s # t # ss) =
     (case parse_group s of
        None \<Rightarrow> None
      | Some g \<Rightarrow> (case parse_groups (t # ss) of None \<Rightarrow> None | Some gs \<Rightarrow> Some (g # gs)))"

definition groups_of :: "string \<Rightarrow> 16 word list option" where
  "groups_of s = (if s = [] then Some [] else parse_groups (split s CHR '':''))"

definition mk_ip :: "16 word list \<Rightarrow> ip" where
  "mk_ip gs =
     (case gs of
        [a, b, c, d, e, f, g, h] \<Rightarrow>
          (if a = 0 \<and> b = 0 \<and> c = 0 \<and> d = 0 \<and> e = 0 \<and> f = 0xffff
           then V4 (ucast (g div 256)) (ucast g) (ucast (h div 256)) (ucast h) else V6 gs)
      | _ \<Rightarrow> V6 gs)"

definition parse_ipv6 :: "string \<Rightarrow> ip option" where
  "parse_ipv6 s =
     (case split_at ''::'' [] s of
        None \<Rightarrow> (case groups_of s of Some gs \<Rightarrow> if length gs = 8 then Some (mk_ip gs) else None | None \<Rightarrow> None)
      | Some (l, r) \<Rightarrow>
          (if contains l ''.'' then None
           else
             (case (groups_of l, groups_of r) of
                (Some ls, Some rs) \<Rightarrow>
                  (if length ls + length rs \<le> 7
                   then Some (mk_ip (ls @ replicate (8 - length ls - length rs) 0 @ rs)) else None)
              | _ \<Rightarrow> None)))"

text \<open>\<open>net.ParseIP\<close>: the first dot or colon decides.\<close>

definition ParseIP :: "string \<Rightarrow> ip option" where
  "ParseIP s =
     (case dropWhile (\<lambda>c. c \<noteq> CHR ''.'' \<and> c \<noteq> CHR '':'') s of
        [] \<Rightarrow> None
      | c # cs \<Rightarrow> if c = CHR ''.'' then parse_ipv4 s else parse_ipv6 s)"

definition mask8 :: "nat \<Rightarrow> 8 word" where
  "mask8 n = (if 8 \<le> n then 255 else of_nat (256 - 2 ^ (8 - n)))"

definition mask16 :: "nat \<Rightarrow> 16 word" where
  "mask16 n = (if 16 \<le> n then 0xffff else of_nat (65536 - 2 ^ (16 - n)))"

fun mask_ip :: "nat \<Rightarrow> ip \<Rightarrow> ip" where
  "mask_ip n (V4 a b c d) =
     V4 (and a (mask8 n)) (and b (mask8 (n - 8))) (and c (mask8 (n - 16))) (and d (mask8 (n - 24)))"
| "mask_ip n (V6 gs) = V6 (map (\<lambda>(i, g). and g (mask16 (n - 16 * i))) (enumerate 0 gs))"

text \<open>\<open>net.ParseCIDR\<close>, the network only. A v4-mapped address written with colons has a mask of 128 bits.\<close>

definition mk_net :: "bool \<Rightarrow> nat \<Rightarrow> ip \<Rightarrow> ipnet" where
  "mk_net colons n addr =
     (case addr of
        V4 a b c d \<Rightarrow>
          (if \<not> colons then \<lparr>net_ip = mask_ip n addr, net_len = n\<rparr>
           else if 96 \<le> n then \<lparr>net_ip = mask_ip (n - 96) addr, net_len = n - 96\<rparr>
           else \<lparr>net_ip = mask_ip n (V6 [0, 0, 0, 0, 0, 0xffff, ucast a * 256 + ucast b, ucast c * 256 + ucast d]), net_len = n\<rparr>)
      | V6 gs \<Rightarrow> \<lparr>net_ip = mask_ip n addr, net_len = n\<rparr>)"

definition ParseCIDR :: "string \<Rightarrow> ipnet option" where
  "ParseCIDR s =
     (case split_at ''/'' [] s of
        None \<Rightarrow> None
      | Some (a, m) \<Rightarrow>
          (case ParseIP a of
             None \<Rightarrow> None
           | Some addr \<Rightarrow>
               (if m \<noteq> [] \<and> list_all is_digit m \<and> digits_val m \<le> (if contains a '':'' then 128 else 32)
                then Some (mk_net (contains a '':'') (digits_val m) addr) else None)))"

section \<open>Printing\<close>

definition hex_char :: "nat \<Rightarrow> char" where
  "hex_char n = (if n < 10 then char_of (48 + n) else char_of (87 + n))"

fun hex_of :: "nat \<Rightarrow> string" where
  "hex_of n = (if n < 16 then [hex_char n] else hex_of (n div 16) @ [hex_char (n mod 16)])"

fun join_with :: "string \<Rightarrow> string list \<Rightarrow> string" where
  "join_with sep [] = []"
| "join_with sep [s] = s"
| "join_with sep (s # t # ss) = s @ sep @ join_with sep (t # ss)"

text \<open>The first longest run of zero groups, as its start and length.\<close>

fun zero_run :: "nat \<Rightarrow> 16 word list \<Rightarrow> nat \<times> nat" where
  "zero_run i [] = (i, 0)"
| "zero_run i (g # gs) =
     (let here = length (takeWhile (\<lambda>x. x = 0) (g # gs)); (j, n) = zero_run (Suc i) gs
      in if here \<ge> n then (i, here) else (j, n))"

fun ip_string :: "ip \<Rightarrow> string" where
  "ip_string (V4 a b c d) =
     nat_digits (unat a) @ ''.'' @ nat_digits (unat b) @ ''.'' @ nat_digits (unat c) @ ''.'' @ nat_digits (unat d)"
| "ip_string (V6 gs) =
     (let (i, n) = zero_run 0 gs; hex = map (\<lambda>g. hex_of (unat g)) gs
      in if n < 2 then join_with '':'' hex
         else join_with '':'' (take i hex) @ ''::'' @ join_with '':'' (drop (i + n) hex))"

definition ipnet_string :: "ipnet \<Rightarrow> string" where
  "ipnet_string n = ip_string (net_ip n) @ ''/'' @ nat_digits (net_len n)"

section \<open>Round trips\<close>

lemma nat_digits_small: "n < 10 \<Longrightarrow> nat_digits n = [digit_char n]"
  by (subst nat_digits.simps) simp

lemma nat_digits_len: "n < 10 ^ k \<Longrightarrow> 0 < k \<Longrightarrow> length (nat_digits n) \<le> k"
proof (induction k arbitrary: n)
  case (Suc k)
  show ?case
  proof (cases "n < 10")
    case False
    then have "0 < k" using Suc.prems by (cases k) auto
    moreover have "n div 10 < 10 ^ k" using Suc.prems by (simp add: less_mult_imp_div_less mult.commute)
    ultimately show ?thesis using Suc.IH [of "n div 10"] False by (subst nat_digits.simps) simp
  qed (simp add: nat_digits_small)
qed simp

lemma nat_digits_hd: "hd (nat_digits n) = CHR ''0'' \<Longrightarrow> length (nat_digits n) = 1"
proof (induction n rule: nat_digits.induct)
  case (1 n)
  show ?case
  proof (cases "n < 10")
    case False
    have "nat_digits n = nat_digits (n div 10) @ [digit_char (n mod 10)]"
      using False by (subst nat_digits.simps) simp
    then have "hd (nat_digits (n div 10)) = CHR ''0''" using 1 by simp
    with 1 False have "length (nat_digits (n div 10)) = 1" by simp
    then have "n div 10 < 10" by (metis One_nat_def append_is_Nil_conv diff_Suc_1 length_append_singleton length_0_conv nat_digits.simps nat_digits_ne)
    then have "nat_digits (n div 10) = [digit_char (n div 10)]" by (rule nat_digits_small)
    with \<open>hd (nat_digits (n div 10)) = CHR ''0''\<close> have "digit_char (n div 10) = CHR ''0''" by simp
    with \<open>n div 10 < 10\<close> have "n div 10 = 0" using digit_val_digit_char [of "n div 10"] by (simp add: digit_val_def)
    with False show ?thesis by simp
  qed (simp add: nat_digits_small)
qed

lemma parse_octet_digits: "parse_octet (nat_digits (unat (b :: 8 word))) = Some b"
proof -
  have "unat b < 256" using unsigned_less [of b, where ?'a = nat] by simp
  moreover from this have "length (nat_digits (unat b)) \<le> 3" by (intro nat_digits_len) simp_all
  ultimately show ?thesis
    using nat_digits_all [of "unat b"] nat_digits_hd [of "unat b"]
    by (auto simp: parse_octet_def all_digits_def list_all_iff dest: nat_digits_digit)
qed

lemma dot_not_digits: "CHR ''.'' \<notin> set (nat_digits n)"
  using nat_digits_digit [of "CHR ''.''" n] by (auto simp: is_digit_def)

lemma slash_not_digits: "CHR ''/'' \<notin> set (nat_digits n)"
  using nat_digits_digit [of "CHR ''/''" n] by (auto simp: is_digit_def)

lemma ParseIP_v4: "ParseIP (ip_string (V4 a b c d)) = Some (V4 a b c d)"
proof -
  have drop: "dropWhile (\<lambda>c. c \<noteq> CHR ''.'' \<and> c \<noteq> CHR '':'') (nat_digits n @ CHR ''.'' # s) = CHR ''.'' # s" for n s
    by (subst dropWhile_append2) (auto dest: nat_digits_digit simp: is_digit_def)
  have "parse_ipv4 (ip_string (V4 a b c d)) = Some (V4 a b c d)"
    by (simp add: parse_ipv4_def split_append split_no_sep dot_not_digits parse_octet_digits)
  then show ?thesis by (simp add: ParseIP_def drop)
qed

end
