(* ===== verification/Netctl.thy ===== *)
theory Netctl
  imports NetIP Prelude
begin

text \<open>
  \<^verbatim>\<open>internal/system/netctl\<close>: the names of WireGuard interfaces (\<open>wireguard.go\<close>), the outbound addresses
  (\<open>net.go\<close>) and the routes of the kernel (\<open>route.go\<close>). What the operating system answers (its
  interfaces, files and sockets) and the package \<open>vishvananda/netlink\<close> are parameters.
\<close>

section \<open>Interfaces of the host\<close>

record net_if =
  if_name :: string
  if_loopback :: bool
  if_addrs :: "go_error + (ip option) list"

text \<open>An address that is not a \<open>*net.IPNet\<close> is \<open>None\<close>. \<open>net.Interfaces()\<close> is the parameter \<open>ifs\<close>.\<close>

type_synonym interfaces = "go_error + net_if list"

section \<open>wireguard.go\<close>

record wg_interface =
  wg_Name :: string
  wg_LocalID :: string
  wg_LocalIDInt :: int
  wg_RemoteID :: string
  wg_RemoteIDInt :: int
  wg_IPVersion :: string
  wg_IPVersionInt :: int

text \<open>The submatches of \<open>^wg(\d+)\.(\d+)_v(\d+)$\<close>.\<close>

definition wg_match :: "string \<Rightarrow> (string \<times> string \<times> string) option" where
  "wg_match s =
     (if \<not> has_prefix s ''wg'' then None
      else
        let s1 = drop 2 s; a = takeWhile is_digit s1; s2 = dropWhile is_digit s1
        in if a = [] \<or> \<not> has_prefix s2 ''.'' then None
           else
             let s3 = drop 1 s2; b = takeWhile is_digit s3; s4 = dropWhile is_digit s3
             in if b = [] \<or> \<not> has_prefix s4 ''_v'' then None
                else
                  let c = drop 2 s4
                  in if c = [] \<or> \<not> list_all is_digit c then None else Some (a, b, c))"

definition ParseWGInterface :: "string \<Rightarrow> wg_interface go" where
  "ParseWGInterface iface =
     (if \<not> has_prefix iface ''wg'' then Inl (Err (Errorf ''valid wireguard interface name must start with wg''))
      else
        (case wg_match iface of
           None \<Rightarrow> Inl (Err (Errorf ''error parsing wireguard interface name''))
         | Some (a, b, c) \<Rightarrow>
             (case atoi a of
                None \<Rightarrow> Inl (Err (Errorf ''error parsing local ID''))
              | Some localID \<Rightarrow>
                  (case atoi b of
                     None \<Rightarrow> Inl (Err (Errorf ''error parsing remote ID''))
                   | Some remoteID \<Rightarrow>
                       (case atoi c of
                          None \<Rightarrow> Inl (Err (Errorf ''error parsing IP version''))
                        | Some ipVersion \<Rightarrow>
                            Inr \<lparr>wg_Name = iface, wg_LocalID = a, wg_LocalIDInt = localID,
                                 wg_RemoteID = b, wg_RemoteIDInt = remoteID,
                                 wg_IPVersion = c, wg_IPVersionInt = ipVersion\<rparr>)))))"

text \<open>The interfaces whose name starts with wg and parses, in order; the others are skipped.\<close>

definition parsed_wg :: "string list \<Rightarrow> wg_interface list" where
  "parsed_wg names = List.map_filter (\<lambda>s. case ParseWGInterface s of Inr w \<Rightarrow> Some w | Inl e \<Rightarrow> None) names"

definition wg_names :: "net_if list \<Rightarrow> string list" where
  "wg_names ifs = filter (\<lambda>s. has_prefix s ''wg'') (map if_name ifs)"

definition GetAllWGInterfaces :: "interfaces \<Rightarrow> wg_interface list go" where
  "GetAllWGInterfaces ifs =
     (case ifs of Inl e \<Rightarrow> Inl (Err e) | Inr l \<Rightarrow> Inr (parsed_wg (wg_names l)))"

text \<open>\<open>filepath.Glob\<close> is the parameter; of a path only the base name without \<open>.conf\<close> counts.\<close>

definition base_name :: "string \<Rightarrow> string" where
  "base_name s = last (split s CHR ''/'')"

definition GetAllWGInterfacesFromConfig :: "go_error + string list \<Rightarrow> wg_interface list go" where
  "GetAllWGInterfacesFromConfig glob =
     (case glob of
        Inl e \<Rightarrow> Inl (Err (Errorf ''error reading WireGuard config directory''))
      | Inr files \<Rightarrow> Inr (parsed_wg (map (\<lambda>f. trim_suffix (base_name f) ''.conf'') files)))"

definition GetLocalID :: "interfaces \<Rightarrow> string go" where
  "GetLocalID ifs =
     (case ifs of
        Inl e \<Rightarrow> Inl (Err e)
      | Inr l \<Rightarrow>
          (case parsed_wg (wg_names l) of
             [] \<Rightarrow> Inl (Err (Errorf ''wg interface not found''))
           | w # ws \<Rightarrow> Inr (wg_LocalID w)))"

definition GetAllPeerIDs :: "interfaces \<Rightarrow> int list go" where
  "GetAllPeerIDs ifs =
     (case ifs of Inl e \<Rightarrow> Inl (Err e) | Inr l \<Rightarrow> Inr (map wg_RemoteIDInt (parsed_wg (wg_names l))))"

definition loopback_of :: "8 word \<Rightarrow> ip option \<Rightarrow> string list" where
  "loopback_of lid addr =
     (case addr of
        Some (V4 a b c d) \<Rightarrow>
          (if a = 10 \<and> b = 201 \<and> c = lid \<and> (d = 4 \<or> d = 6) then [ip_string (V4 a b c d)] else [])
      | _ \<Rightarrow> [])"

text \<open>\<open>byte(localID)\<close> keeps the low 8 bits of the site number.\<close>

definition GetLocalLoopbackIP :: "interfaces \<Rightarrow> string list go" where
  "GetLocalLoopbackIP ifs =
     (case ifs of
        Inl e \<Rightarrow> Inl (Err (Wrapf ''error getting interfaces'' e))
      | Inr l \<Rightarrow>
          go_bind (go_wrap ''error getting local ID'' (GetLocalID ifs))
            (\<lambda>lID. case atoi lID of
               None \<Rightarrow> Inl (Err (Errorf ''error parsing local ID''))
             | Some localID \<Rightarrow>
                 go_bind
                   (go_fold
                      (\<lambda>i acc.
                         if \<not> if_loopback i then Inr acc
                         else (case if_addrs i of
                                 Inl e \<Rightarrow> Inl (Err (Wrapf ''error getting addresses for interface'' e))
                               | Inr addrs \<Rightarrow> Inr (acc @ concat (map (loopback_of (word_of_int localID)) addrs))))
                      l [])
                   (\<lambda>ips. if ips = [] then Inl (Err (Errorf ''no 10.201.x.x loopback address found'')) else Inr ips)))"

definition DstWGInterfaceExists :: "interfaces \<Rightarrow> int \<Rightarrow> bool" where
  "DstWGInterfaceExists ifs dst =
     (case GetAllWGInterfaces ifs of
        Inl e \<Rightarrow> False
      | Inr wgIfs \<Rightarrow> wgIfs = [] \<or> list_ex (\<lambda>w. wg_RemoteIDInt w = dst) wgIfs)"

section \<open>The kernel's route file\<close>

text \<open>\<open>strconv.ParseUint(s, 16, 32)\<close> and the byte order of \<^verbatim>\<open>/proc/net/route\<close>.\<close>

definition parse_uint32_hex :: "string \<Rightarrow> 32 word option" where
  "parse_uint32_hex s =
     (if s = [] then None
      else (case hex_digits s 0 of None \<Rightarrow> None | Some n \<Rightarrow> if n < 2 ^ 32 then Some (of_nat n) else None))"

definition parseIP :: "string \<Rightarrow> ip option" where
  "parseIP hexIP =
     map_option
       (\<lambda>raw. V4 (ucast (and raw 0xFF)) (ucast (and (drop_bit 8 raw) 0xFF))
                 (ucast (and (drop_bit 16 raw) 0xFF)) (ucast (and (drop_bit 24 raw) 0xFF)))
       (parse_uint32_hex hexIP)"

text \<open>\<open>strconv.ParseInt(s, 16, 32)\<close>.\<close>

definition parse_int32_hex :: "string \<Rightarrow> int option" where
  "parse_int32_hex s =
     (let (neg, ds) = (case s of c # cs \<Rightarrow> if c = CHR ''-'' then (True, cs) else if c = CHR ''+'' then (False, cs) else (False, s)
                       | [] \<Rightarrow> (False, s))
      in if ds = [] then None
         else (case hex_digits ds 0 of
                 None \<Rightarrow> None
               | Some n \<Rightarrow> (let i = (if neg then - int n else int n)
                           in if - (2 ^ 31) \<le> i \<and> i < 2 ^ 31 then Some i else None)))"

record wg_route =
  wr_Destination :: ip
  wr_Gateway :: ip
  wr_Flags :: int
  wr_Iface :: string
  wr_Mask :: ip

definition wg_route_line :: "string \<Rightarrow> wg_route option" where
  "wg_route_line line =
     (let fs = Strings.fields line
      in if length fs < 8 then None
         else if length (fs ! 0) < 2 \<or> take 2 (fs ! 0) \<noteq> ''wg'' then None
         else (case (parseIP (fs ! 1), parseIP (fs ! 2), parse_int32_hex (fs ! 3), parseIP (fs ! 7)) of
                 (Some d, Some g, Some f, Some m) \<Rightarrow>
                   Some \<lparr>wr_Destination = d, wr_Gateway = g, wr_Flags = f, wr_Iface = fs ! 0, wr_Mask = m\<rparr>
               | _ \<Rightarrow> None))"

text \<open>The file: an error of \<open>os.Open\<close>, or its lines and the error the scanner ended with. The first line is skipped.\<close>

type_synonym proc_file = "go_error + (string list \<times> go_error option)"

definition GetWGRouteTable :: "proc_file \<Rightarrow> wg_route list go" where
  "GetWGRouteTable f =
     (case f of
        Inl e \<Rightarrow> Inl (Err e)
      | Inr (lines, end_error) \<Rightarrow>
          (case end_error of
             Some e \<Rightarrow> Inl (Err e)
           | None \<Rightarrow> Inr (List.map_filter wg_route_line (drop 1 lines))))"

definition outgoing_match :: "string \<Rightarrow> wg_route \<Rightarrow> bool" where
  "outgoing_match dst r =
     (let ipAddr = split (ip_string (wr_Destination r)) CHR ''.''
      in ipAddr ! 1 = ''201'' \<and> ipAddr ! 2 = dst \<and> ipAddr ! 3 = ''0'')"

definition GetOutgoingWGInterface :: "proc_file \<Rightarrow> string \<Rightarrow> string" where
  "GetOutgoingWGInterface f dst =
     (case GetWGRouteTable f of
        Inl e \<Rightarrow> []
      | Inr routes \<Rightarrow> (case filter (outgoing_match dst) routes of [] \<Rightarrow> [] | r # rs \<Rightarrow> wr_Iface r))"

section \<open>net.go\<close>

text \<open>\<open>ip.IsPrivate()\<close> for an IPv6 address: fc00::/7.\<close>

fun is_private_v6 :: "ip \<Rightarrow> bool" where
  "is_private_v6 (V6 (g # gs)) = (and g 0xfe00 = 0xfc00)"
| "is_private_v6 x = False"

definition first_private :: "(ip option) list \<Rightarrow> ip option" where
  "first_private addrs = List.find is_private_v6 (List.map_filter id addrs)"

text \<open>The UDP socket's local address is the parameter \<open>dial4\<close>; \<open>Inr None\<close> is an address of another type.\<close>

definition GetOutboundIPs :: "go_error + ip option \<Rightarrow> interfaces \<Rightarrow> (ip \<times> ip) go" where
  "GetOutboundIPs dial4 ifs =
     (case dial4 of
        Inl e \<Rightarrow> Inl (Err (Errorf ''failed to get IPv4 address''))
      | Inr None \<Rightarrow> Inl (Err (Errorf ''failed to get local IPv4 address from connection''))
      | Inr (Some v4) \<Rightarrow>
          (case ifs of
             Inl e \<Rightarrow> Inl (Err (Errorf ''failed to get network interfaces''))
           | Inr l \<Rightarrow>
               (case List.map_filter
                       (\<lambda>i. case if_addrs i of Inl e \<Rightarrow> None | Inr addrs \<Rightarrow> first_private addrs)
                       (filter (\<lambda>i. has_prefix (if_name i) ''en'') l) of
                  [] \<Rightarrow> Inl (Err (Errorf ''no IPv6 address found''))
                | v6 # rest \<Rightarrow> Inr (v4, v6))))"

section \<open>Facts\<close>

lemma takeWhile_digits: "takeWhile is_digit (nat_digits n @ s) = nat_digits n @ takeWhile is_digit s"
  by (rule takeWhile_append2) (rule nat_digits_digit)

lemma dropWhile_digits: "dropWhile is_digit (nat_digits n @ s) = dropWhile is_digit s"
  by (rule dropWhile_append2) (rule nat_digits_digit)

lemma span_digits:
  "takeWhile is_digit (nat_digits n @ CHR ''.'' # s) = nat_digits n"
  "dropWhile is_digit (nat_digits n @ CHR ''.'' # s) = CHR ''.'' # s"
  "takeWhile is_digit (nat_digits n @ CHR ''_'' # s) = nat_digits n"
  "dropWhile is_digit (nat_digits n @ CHR ''_'' # s) = CHR ''_'' # s"
  by (simp_all add: takeWhile_digits dropWhile_digits is_digit_def)

lemma wg_match_name:
  "wg_match (''wg'' @ nat_digits l @ ''.'' @ nat_digits r @ ''_v'' @ nat_digits v) =
     Some (nat_digits l, nat_digits r, nat_digits v)"
  by (simp add: wg_match_def Let_def has_prefix_def span_digits list_all_iff nat_digits_digit)

lemma ParseWGInterface_built:
  assumes "int l < 2 ^ 63" "int r < 2 ^ 63" "int v < 2 ^ 63"
  defines "name \<equiv> ''wg'' @ itoa (int l) @ ''.'' @ itoa (int r) @ ''_v'' @ itoa (int v)"
  shows "ParseWGInterface name =
     Inr \<lparr>wg_Name = name, wg_LocalID = itoa (int l), wg_LocalIDInt = int l,
          wg_RemoteID = itoa (int r), wg_RemoteIDInt = int r,
          wg_IPVersion = itoa (int v), wg_IPVersionInt = int v\<rparr>"
  using assms wg_match_name [of l r v]
  by (simp add: ParseWGInterface_def itoa_nonneg atoi_nat_digits has_prefix_def)

text \<open>
  C13. The name of a WireGuard interface round-trips: the name the program builds from a local site, a remote site
  and an IP version (each below 2^63) is parsed back to exactly these three numbers.
\<close>

theorem ParseWGInterface_roundtrip:
  assumes "int l < 2 ^ 63" "int r < 2 ^ 63" "int v < 2 ^ 63"
  defines "name \<equiv> ''wg'' @ itoa (int l) @ ''.'' @ itoa (int r) @ ''_v'' @ itoa (int v)"
  shows "ParseWGInterface name =
     Inr \<lparr>wg_Name = name, wg_LocalID = itoa (int l), wg_LocalIDInt = int l,
          wg_RemoteID = itoa (int r), wg_RemoteIDInt = int r,
          wg_IPVersion = itoa (int v), wg_IPVersionInt = int v\<rparr>"
  using assms(1-3) unfolding name_def by (rule ParseWGInterface_built)

theorem ParseWGInterface_roundtrip_witness:
  "map_sum id wg_RemoteIDInt (ParseWGInterface ''wg3.12_v6'') = Inr 12"
proof -
  have "itoa 3 = ''3''" "itoa 12 = ''12''" "itoa 6 = ''6''" by code_simp+
  then show ?thesis using ParseWGInterface_roundtrip [of 3 12 6] by simp
qed

text \<open>
  Whatever \<open>ParseWGInterface\<close> accepts is such a name: it consists of wg, the returned local part, a dot, the remote
  part, _v and the version, each a non-empty sequence of digits whose value is the returned number.
\<close>

lemma ParseWGInterface_sound:
  assumes "ParseWGInterface s = Inr w"
  shows "s = ''wg'' @ wg_LocalID w @ ''.'' @ wg_RemoteID w @ ''_v'' @ wg_IPVersion w \<and> wg_Name w = s \<and>
     (\<forall>(t, i) \<in> {(wg_LocalID w, wg_LocalIDInt w), (wg_RemoteID w, wg_RemoteIDInt w), (wg_IPVersion w, wg_IPVersionInt w)}.
        t \<noteq> [] \<and> list_all is_digit t \<and> i = int (digits_val t))"
proof -
  from assms obtain a b c where m: "wg_match s = Some (a, b, c)"
    and at: "atoi a = Some (wg_LocalIDInt w)" "atoi b = Some (wg_RemoteIDInt w)" "atoi c = Some (wg_IPVersionInt w)"
    and w: "wg_Name w = s" "wg_LocalID w = a" "wg_RemoteID w = b" "wg_IPVersion w = c"
    by (auto simp: ParseWGInterface_def split: if_splits option.splits)
  have digits: "i = int (digits_val t)" if "atoi t = Some i" "t \<noteq> []" "list_all is_digit t" for t i
    using that digit_not_sign [of "hd t"] by (cases t) (auto simp: int64_opt_def split: if_splits)
  define s3 where "s3 = drop 1 (dropWhile is_digit (drop 2 s))"
  have p: "has_prefix s ''wg''" "has_prefix (dropWhile is_digit (drop 2 s)) ''.''"
     "has_prefix (dropWhile is_digit s3) ''_v''"
     "a = takeWhile is_digit (drop 2 s)" "b = takeWhile is_digit s3" "c = drop 2 (dropWhile is_digit s3)"
     "a \<noteq> []" "b \<noteq> []" "c \<noteq> []" "list_all is_digit c"
    using m by (auto simp: wg_match_def Let_def s3_def split: if_splits)
  have "s = ''wg'' @ drop 2 s" using p(1) by (auto simp: has_prefix_iff)
  moreover have "drop 2 s = a @ ''.'' @ s3"
  proof -
    obtain r where "dropWhile is_digit (drop 2 s) = ''.'' @ r" using p(2) by (auto simp: has_prefix_iff)
    moreover from this have "s3 = r" by (simp add: s3_def)
    ultimately show ?thesis using p(4) by (metis takeWhile_dropWhile_id)
  qed
  moreover have "s3 = b @ ''_v'' @ c"
  proof -
    obtain r where "dropWhile is_digit s3 = ''_v'' @ r" using p(3) by (auto simp: has_prefix_iff)
    moreover from this have "c = r" using p(6) by simp
    ultimately show ?thesis using p(5) by (metis takeWhile_dropWhile_id)
  qed
  ultimately have "s = ''wg'' @ a @ ''.'' @ b @ ''_v'' @ c" by simp
  moreover have "list_all is_digit a" "list_all is_digit b"
    using p(4,5) by (auto simp: list_all_iff dest: set_takeWhileD)
  ultimately show ?thesis using at w p(7-10) digits by auto
qed

lemma ParseWGInterface_sound_witness:
  "int (digits_val ''12'') = (12 :: int)"
proof -
  obtain w where w: "ParseWGInterface ''wg3.12_v6'' = Inr w" "wg_RemoteIDInt w = 12" "wg_RemoteID w = ''12''"
  proof -
    have "itoa 3 = ''3''" "itoa 12 = ''12''" "itoa 6 = ''6''" by code_simp+
    then show ?thesis using ParseWGInterface_roundtrip [of 3 12 6] that by simp
  qed
  from ParseWGInterface_sound [OF w(1)] w(2,3) show ?thesis by auto
qed

text \<open>\<open>parseIP\<close> reads the four bytes of the word, least significant first.\<close>

lemma parseIP_bytes:
  "parse_uint32_hex s = Some raw \<Longrightarrow>
     parseIP s = Some (V4 (ucast raw) (ucast (drop_bit 8 raw)) (ucast (drop_bit 16 raw)) (ucast (drop_bit 24 raw)))"
proof -
  have "ucast (and x 0xFF) = (ucast x :: 8 word)" for x :: "32 word"
  proof (rule bit_word_eqI)
    fix n assume "n < LENGTH(8)"
    moreover have "bit (0xFF :: 32 word) n" if "n < 8"
    proof -
      have eq: "(0xFF :: 32 word) = mask 8" by (simp add: mask_eq_exp_minus_1)
      show ?thesis unfolding eq bit_mask_iff using that by simp
    qed
    ultimately show "bit (ucast (and x 0xFF) :: 8 word) n = bit (ucast x :: 8 word) n"
      by (simp add: bit_ucast_iff bit_and_iff)
  qed
  then show "parse_uint32_hex s = Some raw \<Longrightarrow> ?thesis" by (simp add: parseIP_def)
qed

end
