(* ===== verification/Kernel.thy ===== *)
theory Kernel
  imports Netctl
begin

text \<open>
  \<^verbatim>\<open>internal/system/netctl/route.go\<close>: the routes of the kernel, through \<open>vishvananda/netlink\<close>, whose operations are
  a parameter acting on an abstract kernel state. \<open>kernel_laws\<close> is what netlink documents of them.
\<close>

section \<open>netlink\<close>

record nl_route =
  nr_dst :: "ipnet option"
  nr_gw :: "ip option"
  nr_src :: "ip option"
  nr_proto :: int
  nr_prio :: int
  nr_link :: int

record 'k netlink =
  nl_list_dst :: "ipnet \<Rightarrow> ('k, nl_route list) proc"
  nl_list_proto :: "int \<Rightarrow> ('k, nl_route list) proc"
  nl_get :: "ip \<Rightarrow> ('k, nl_route list) proc"
  nl_replace :: "nl_route \<Rightarrow> ('k, unit) proc"
  nl_add :: "nl_route \<Rightarrow> ('k, unit) proc"
  nl_del :: "nl_route \<Rightarrow> ('k, unit) proc"
  nl_link_name :: "int \<Rightarrow> ('k, string) proc"

definition EEXIST :: go_error where
  "EEXIST = Sentinel ''file exists''"

definition ESRCH :: go_error where
  "ESRCH = Sentinel ''no such process''"

section \<open>The functions of the file\<close>

definition new_route :: "ipnet \<Rightarrow> ip option \<Rightarrow> ip option \<Rightarrow> int \<Rightarrow> nl_route" where
  "new_route dst gw src proto =
     \<lparr>nr_dst = Some dst, nr_gw = gw, nr_src = src, nr_proto = proto, nr_prio = 0, nr_link = 0\<rparr>"

definition relabel :: "string \<Rightarrow> ('k, 'a) proc \<Rightarrow> ('k, 'a) proc" where
  "relabel msg m = attempt m (\<lambda>r. case r of Inl e \<Rightarrow> throw (Err (Errorf msg)) | Inr v \<Rightarrow> ret v)"

text \<open>After the checks: look for a managed route to the destination, then replace or add.\<close>

definition configure_checked :: "'k netlink \<Rightarrow> ipnet \<Rightarrow> ip \<Rightarrow> ip option \<Rightarrow> int \<Rightarrow> ('k, int) proc" where
  "configure_checked nl d g src proto =
     bind (relabel ''failed to list routes'' (nl_list_dst nl d))
       (\<lambda>existing.
          case filter (\<lambda>r. nr_proto r = proto) existing of
            r # rest \<Rightarrow>
              (if nr_gw r = Some g \<and> nr_src r = src then ret 0
               else bind (relabel ''failed to update route'' (nl_replace nl (new_route d (Some g) src proto))) (\<lambda>u. ret 2))
          | [] \<Rightarrow>
              attempt (nl_add nl (new_route d (Some g) src proto))
                (\<lambda>res. case res of
                         Inr u \<Rightarrow> ret 1
                       | Inl e \<Rightarrow>
                           (if e = EEXIST then bind (nl_replace nl (new_route d (Some g) src proto)) (\<lambda>u. ret 2)
                            else throw (Err (Errorf ''failed to add route'')))))"

definition ConfigureRoute ::
    "'k netlink \<Rightarrow> ipnet option \<Rightarrow> ip option \<Rightarrow> ip option \<Rightarrow> int \<Rightarrow> ('k, int) proc" where
  "ConfigureRoute nl dst gw src proto =
     (case dst of
        None \<Rightarrow> throw (Err (Errorf ''network cannot be nil''))
      | Some d \<Rightarrow>
          (case gw of
             None \<Rightarrow> throw (Err (Errorf ''gateway cannot be nil''))
           | Some g \<Rightarrow>
               (if is_v4 (net_ip d) \<noteq> is_v4 g
                then throw (Err (Errorf ''destination and gateway IP versions must match''))
                else if (case src of None \<Rightarrow> False | Some s \<Rightarrow> is_v4 g \<noteq> is_v4 s)
                then throw (Err (Errorf ''source and gateway IP versions must match''))
                else configure_checked nl d g src proto)))"

definition RemoveRoute :: "'k netlink \<Rightarrow> ipnet option \<Rightarrow> int \<Rightarrow> ('k, unit) proc" where
  "RemoveRoute nl dst proto =
     (case dst of
        None \<Rightarrow> throw (Err (Errorf ''network cannot be nil''))
      | Some d \<Rightarrow>
          attempt (nl_del nl (new_route d None None proto))
            (\<lambda>res. case res of
                     Inr u \<Rightarrow> ret ()
                   | Inl e \<Rightarrow> (if e \<noteq> ESRCH then throw (Err (Errorf ''failed to remove route'')) else ret ())))"

definition RouteExists :: "'k netlink \<Rightarrow> ipnet option \<Rightarrow> ip option \<Rightarrow> int \<Rightarrow> ('k, bool) proc" where
  "RouteExists nl dst src proto =
     (case dst of
        None \<Rightarrow> throw (Err (Errorf ''network cannot be nil''))
      | Some d \<Rightarrow>
          bind (relabel ''failed to get route'' (nl_get nl (net_ip d)))
            (\<lambda>routes. ret (list_ex (\<lambda>r. nr_proto r = proto \<and>
                 (case src of None \<Rightarrow> True | Some s \<Rightarrow> nr_src r = Some s)) routes)))"

definition ListManagedRoutes :: "'k netlink \<Rightarrow> int \<Rightarrow> ('k, nl_route list) proc" where
  "ListManagedRoutes nl proto = relabel ''failed to list routes'' (nl_list_proto nl proto)"

definition ErrRouteNotFound :: go_error where
  "ErrRouteNotFound = Sentinel ''route not found''"

definition GetRoute ::
    "'k netlink \<Rightarrow> ipnet option \<Rightarrow> ip option \<Rightarrow> ip option \<Rightarrow> int \<Rightarrow> ('k, nl_route) proc" where
  "GetRoute nl dst gw src proto =
     (case dst of
        None \<Rightarrow> throw (Err (Errorf ''network cannot be nil''))
      | Some d \<Rightarrow>
          bind (relabel ''failed to get route'' (nl_get nl (net_ip d)))
            (\<lambda>routes.
               case filter (\<lambda>r. nr_proto r = proto \<and> (gw = None \<or> nr_gw r = gw) \<and> (src = None \<or> nr_src r = src)) routes of
                 [] \<Rightarrow> throw (Err ErrRouteNotFound)
               | r # rest \<Rightarrow> ret r))"

text \<open>The loop of \<open>RemoveAllManagedRoutes\<close>: the numbers of removed and of failed routes.\<close>

definition remove_managed_step :: "'k netlink \<Rightarrow> nl_route \<Rightarrow> int \<times> nl_route list \<Rightarrow> ('k, int \<times> nl_route list) proc" where
  "remove_managed_step nl r acc =
     attempt (nl_del nl r)
       (\<lambda>res. case res of Inl e \<Rightarrow> ret (fst acc, snd acc @ [r]) | Inr u \<Rightarrow> ret (fst acc + 1, snd acc))"

text \<open>The function returns the number removed together with an error when some failed.\<close>

definition RemoveAllManagedRoutes :: "'k netlink \<Rightarrow> int \<Rightarrow> ('k, int \<times> go_error option) proc" where
  "RemoveAllManagedRoutes nl proto =
     attempt (ListManagedRoutes nl proto)
       (\<lambda>res. case res of
          Inl e \<Rightarrow> ret (0, Some (Errorf ''failed to list managed routes''))
        | Inr routes \<Rightarrow>
            bind (for_each (remove_managed_step nl) routes (0, []))
              (\<lambda>(removed, failed).
                 ret (removed, if failed \<noteq> [] then Some (Errorf ''failed to remove routes'') else None)))"

fun has_prefix_step :: "'k netlink \<Rightarrow> string \<Rightarrow> int \<Rightarrow> nl_route list \<Rightarrow> ('k, bool) proc" where
  "has_prefix_step nl pre proto [] = ret False"
| "has_prefix_step nl pre proto (r # rs) =
     (if nr_link r = 0 then has_prefix_step nl pre proto rs
      else attempt (nl_link_name nl (nr_link r))
             (\<lambda>res. case res of
                Inl e \<Rightarrow> has_prefix_step nl pre proto rs
              | Inr name \<Rightarrow>
                  (if has_prefix name pre \<and> \<not> (proto \<noteq> 0 \<and> nr_proto r \<noteq> proto) then ret True
                   else has_prefix_step nl pre proto rs)))"

definition RouteDeviceHasPrefix :: "'k netlink \<Rightarrow> ipnet option \<Rightarrow> string \<Rightarrow> int \<Rightarrow> ('k, bool) proc" where
  "RouteDeviceHasPrefix nl dst pre proto =
     (case dst of
        None \<Rightarrow> throw (Err (Errorf ''destination network cannot be nil''))
      | Some d \<Rightarrow>
          if pre = [] then throw (Err (Errorf ''prefix cannot be empty''))
          else bind (relabel ''failed to list routes'' (nl_list_dst nl d)) (has_prefix_step nl pre proto))"

section \<open>What netlink documents\<close>

text \<open>
  \<open>R k\<close> is the set of routes of the kernel state \<open>k\<close>. The kernel identifies a route by destination and priority and
  fills in a default priority \<open>prio0\<close> that depends on the destination (0 for IPv4, 1024 for IPv6).
  Listing returns the matching routes, adding refuses an existing key, replacing overwrites it, deleting removes
  one route that matches destination and protocol, and a failed operation changes nothing.
\<close>

definition nl_key :: "nl_route \<Rightarrow> ipnet option \<times> int" where
  "nl_key r = (nr_dst r, nr_prio r)"

definition installed :: "(ipnet \<Rightarrow> int) \<Rightarrow> nl_route \<Rightarrow> nl_route \<Rightarrow> bool" where
  "installed prio0 r r' \<longleftrightarrow>
     nr_dst r' = nr_dst r \<and> nr_gw r' = nr_gw r \<and> nr_src r' = nr_src r \<and> nr_proto r' = nr_proto r \<and>
     nr_prio r' = (case nr_dst r of None \<Rightarrow> 0 | Some d \<Rightarrow> prio0 d)"

definition list_dst_law :: "'k netlink \<Rightarrow> ('k \<Rightarrow> nl_route set) \<Rightarrow> bool" where
  "list_dst_law nl R \<longleftrightarrow>
     (\<forall>d k rs k'. nl_list_dst nl d k = (rs, k') \<longrightarrow>
        no_panic rs \<and> R k' = R k \<and> (\<forall>l. rs = Inr l \<longrightarrow> set l = {r \<in> R k. nr_dst r = Some d}))"

definition list_proto_law :: "'k netlink \<Rightarrow> ('k \<Rightarrow> nl_route set) \<Rightarrow> bool" where
  "list_proto_law nl R \<longleftrightarrow>
     (\<forall>p k rs k'. nl_list_proto nl p k = (rs, k') \<longrightarrow>
        no_panic rs \<and> R k' = R k \<and> (\<forall>l. rs = Inr l \<longrightarrow> set l = {r \<in> R k. nr_proto r = p}))"

definition replace_law :: "'k netlink \<Rightarrow> ('k \<Rightarrow> nl_route set) \<Rightarrow> (ipnet \<Rightarrow> int) \<Rightarrow> bool" where
  "replace_law nl R prio0 \<longleftrightarrow>
     (\<forall>r k u k'. nl_replace nl r k = (u, k') \<longrightarrow>
        no_panic u \<and>
        (if go_ok u then \<exists>r'. installed prio0 r r' \<and> R k' = insert r' {x \<in> R k. nl_key x \<noteq> nl_key r'}
         else R k' = R k))"

definition add_law :: "'k netlink \<Rightarrow> ('k \<Rightarrow> nl_route set) \<Rightarrow> (ipnet \<Rightarrow> int) \<Rightarrow> bool" where
  "add_law nl R prio0 \<longleftrightarrow>
     (\<forall>r k u k'. nl_add nl r k = (u, k') \<longrightarrow>
        no_panic u \<and>
        (if go_ok u
         then \<exists>r'. installed prio0 r r' \<and> (\<forall>x\<in>R k. nl_key x \<noteq> nl_key r') \<and> R k' = insert r' (R k)
         else R k' = R k))"

definition del_law :: "'k netlink \<Rightarrow> ('k \<Rightarrow> nl_route set) \<Rightarrow> bool" where
  "del_law nl R \<longleftrightarrow>
     (\<forall>r k u k'. nl_del nl r k = (u, k') \<longrightarrow>
        no_panic u \<and>
        (if go_ok u then \<exists>x\<in>R k. nr_dst x = nr_dst r \<and> nr_proto x = nr_proto r \<and> R k' = R k - {x}
         else R k' = R k \<and>
              (u = Inl (Err ESRCH) \<longrightarrow> (\<forall>x\<in>R k. \<not> (nr_dst x = nr_dst r \<and> nr_proto x = nr_proto r)))))"

definition kernel_laws :: "'k netlink \<Rightarrow> ('k \<Rightarrow> nl_route set) \<Rightarrow> (ipnet \<Rightarrow> int) \<Rightarrow> bool" where
  "kernel_laws nl R prio0 \<longleftrightarrow>
     list_dst_law nl R \<and> list_proto_law nl R \<and> replace_law nl R prio0 \<and> add_law nl R prio0 \<and> del_law nl R"

text \<open>
  A sound table: keys are unique, and the routes of the protocol \<open>proto\<close> have a destination and its default
  priority, as those have that the program installed. There is then one such route per destination.
\<close>

definition managed_ok :: "(ipnet \<Rightarrow> int) \<Rightarrow> int \<Rightarrow> nl_route set \<Rightarrow> bool" where
  "managed_ok prio0 proto S \<longleftrightarrow>
     inj_on nl_key S \<and> (\<forall>r\<in>S. nr_proto r = proto \<longrightarrow> (\<exists>d. nr_dst r = Some d \<and> nr_prio r = prio0 d))"

text \<open>The view of the managed routes: per destination, the gateway and the source.\<close>

definition managed :: "int \<Rightarrow> nl_route set \<Rightarrow> ipnet \<Rightarrow> (ip option \<times> ip option) set" where
  "managed proto S d = (\<lambda>r. (nr_gw r, nr_src r)) ` {r \<in> S. nr_proto r = proto \<and> nr_dst r = Some d}"

section \<open>Consequences\<close>

lemma relabel_cases:
  "relabel msg m k = (r, k') \<longleftrightarrow>
     (\<exists>x. m k = (x, k') \<and> r = (case x of Inl (Err e) \<Rightarrow> Inl (Err (Errorf msg)) | _ \<Rightarrow> x))"
  by (auto simp: relabel_def attempt_def split: prod.splits sum.splits go_fault.splits)

lemma relabel_Inr: "relabel msg m k = (x, k') \<Longrightarrow> \<exists>y. m k = (y, k') \<and> (\<forall>l. x = Inr l \<longrightarrow> y = Inr l)"
proof -
  assume "relabel msg m k = (x, k')"
  then obtain y where m: "m k = (y, k')" and x: "x = (case y of Inl (Err e) \<Rightarrow> Inl (Err (Errorf msg)) | _ \<Rightarrow> y)"
    unfolding relabel_cases by blast
  have "y = Inr l" if "x = Inr l" for l using x that by (cases y) (auto split: go_fault.splits)
  with m show ?thesis by blast
qed

lemma nl_list_dst_law:
  assumes "kernel_laws nl R prio0" "relabel msg (nl_list_dst nl d) k = (x, k')"
  shows "R k' = R k \<and> (\<forall>l. x = Inr l \<longrightarrow> set l = {r \<in> R k. nr_dst r = Some d})"
proof -
  obtain y where y: "nl_list_dst nl d k = (y, k')" "\<forall>l. x = Inr l \<longrightarrow> y = Inr l" using relabel_Inr [OF assms(2)] by blast
  have "R k' = R k \<and> (\<forall>l. y = Inr l \<longrightarrow> set l = {r \<in> R k. nr_dst r = Some d})"
    using assms(1) y(1) by (simp add: kernel_laws_def list_dst_law_def list_proto_law_def)
  with y(2) show ?thesis by blast
qed

lemma nl_list_proto_law:
  assumes "kernel_laws nl R prio0" "ListManagedRoutes nl p k = (x, k')"
  shows "R k' = R k \<and> (\<forall>l. x = Inr l \<longrightarrow> set l = {r \<in> R k. nr_proto r = p})"
proof -
  obtain y where y: "nl_list_proto nl p k = (y, k')" "\<forall>l. x = Inr l \<longrightarrow> y = Inr l"
    using relabel_Inr [OF assms(2) [unfolded ListManagedRoutes_def]] by blast
  have "R k' = R k \<and> (\<forall>l. y = Inr l \<longrightarrow> set l = {r \<in> R k. nr_proto r = p})"
    using assms(1) y(1) by (simp add: kernel_laws_def list_dst_law_def list_proto_law_def)
  with y(2) show ?thesis by blast
qed

lemma nl_replace_law:
  "kernel_laws nl R prio0 \<Longrightarrow> nl_replace nl r k = (u, k') \<Longrightarrow>
     if go_ok u then \<exists>r'. installed prio0 r r' \<and> R k' = insert r' {x \<in> R k. nl_key x \<noteq> nl_key r'}
     else R k' = R k"
  unfolding kernel_laws_def replace_law_def by blast

lemma nl_add_law:
  "kernel_laws nl R prio0 \<Longrightarrow> nl_add nl r k = (u, k') \<Longrightarrow>
     if go_ok u then \<exists>r'. installed prio0 r r' \<and> (\<forall>x\<in>R k. nl_key x \<noteq> nl_key r') \<and> R k' = insert r' (R k)
     else R k' = R k"
  unfolding kernel_laws_def add_law_def by blast

lemma nl_del_law:
  "kernel_laws nl R prio0 \<Longrightarrow> nl_del nl r k = (u, k') \<Longrightarrow>
     if go_ok u then \<exists>x\<in>R k. nr_dst x = nr_dst r \<and> nr_proto x = nr_proto r \<and> R k' = R k - {x}
     else R k' = R k \<and> (u = Inl (Err ESRCH) \<longrightarrow> (\<forall>x\<in>R k. \<not> (nr_dst x = nr_dst r \<and> nr_proto x = nr_proto r)))"
  unfolding kernel_laws_def del_law_def by blast

lemma managed_unique:
  assumes "managed_ok prio0 proto S" "r \<in> S" "x \<in> S" "nr_proto r = proto" "nr_proto x = proto" "nr_dst r = nr_dst x"
  shows "r = x"
proof -
  have "nr_prio r = nr_prio x" using assms unfolding managed_ok_def by (metis option.inject)
  then have "nl_key r = nl_key x" using assms(6) by (simp add: nl_key_def)
  with assms(1-3) show ?thesis by (auto simp: managed_ok_def inj_on_def)
qed

lemma managed_ok_subset: "managed_ok prio0 proto S \<Longrightarrow> S' \<subseteq> S \<Longrightarrow> managed_ok prio0 proto S'"
  unfolding managed_ok_def by (meson inj_on_subset subsetD)

text \<open>Putting a route of the program in place of whatever has its key.\<close>

lemma put_route:
  assumes ok: "managed_ok prio0 proto S" and r': "installed prio0 (new_route d gw src proto) r'"
    and S': "S' = insert r' {x \<in> S. nl_key x \<noteq> nl_key r'}"
  shows "managed_ok prio0 proto S' \<and> managed proto S' d = {(gw, src)} \<and> (\<forall>e. e \<noteq> d \<longrightarrow> managed proto S' e = managed proto S e)"
proof -
  have r: "nr_dst r' = Some d" "nr_gw r' = gw" "nr_src r' = src" "nr_proto r' = proto" "nr_prio r' = prio0 d"
    using r' by (simp_all add: installed_def new_route_def)
  have key: "nl_key r' = (Some d, prio0 d)" using r by (simp add: nl_key_def)
  have "managed_ok prio0 proto S'"
    using ok r unfolding S' managed_ok_def by (auto simp: inj_on_def)
  moreover have gone: "x = r'" if "x \<in> S'" "nr_proto x = proto" "nr_dst x = Some d" for x
  proof (rule ccontr)
    assume "x \<noteq> r'"
    then have x: "x \<in> S" "nl_key x \<noteq> nl_key r'" using that(1) S' by auto
    then have "nr_prio x = prio0 d" using ok that by (auto simp: managed_ok_def)
    with x(2) key that(3) show False by (simp add: nl_key_def)
  qed
  then have "{x \<in> S'. nr_proto x = proto \<and> nr_dst x = Some d} = {r'}" using S' r by auto
  then have "managed proto S' d = {(gw, src)}" by (simp add: managed_def r)
  moreover have "managed proto S' e = managed proto S e" if "e \<noteq> d" for e
  proof -
    have "{x \<in> S'. nr_proto x = proto \<and> nr_dst x = Some e} = {x \<in> S. nr_proto x = proto \<and> nr_dst x = Some e}"
      using that r key unfolding S' by (auto simp: nl_key_def)
    then show ?thesis by (simp add: managed_def)
  qed
  ultimately show ?thesis by blast
qed

text \<open>What a run that ends with \<open>res\<close> has done to the managed routes.\<close>

definition configured ::
    "(ipnet \<Rightarrow> int) \<Rightarrow> int \<Rightarrow> ipnet \<Rightarrow> ip option \<Rightarrow> ip option \<Rightarrow> nl_route set \<Rightarrow> int go \<Rightarrow> nl_route set \<Rightarrow> bool" where
  "configured prio0 proto d gw src S res S' \<longleftrightarrow>
     managed_ok prio0 proto S' \<and>
     (case res of
        Inr c \<Rightarrow> managed proto S' d = {(gw, src)} \<and> (\<forall>e. e \<noteq> d \<longrightarrow> managed proto S' e = managed proto S e) \<and>
                 (c = 0 \<longrightarrow> S' = S) \<and> (c = 0 \<longleftrightarrow> managed proto S d = {(gw, src)}) \<and>
                 (managed proto S d = {} \<longrightarrow> c = 1 \<or> c = 2) \<and> (managed proto S d \<noteq> {} \<longrightarrow> c = 0 \<or> c = 2)
      | Inl e \<Rightarrow> S' = S)"

text \<open>A route that is replaced, on either way to the replacement.\<close>

lemma replace_configured:
  assumes laws: "kernel_laws nl R prio0" and ok: "managed_ok prio0 proto (R k)" and same: "R k1 = R k"
    and p: "nl_replace nl (new_route d (Some g) src proto) k1 = (u, k2)"
    and cur: "managed proto (R k) d \<noteq> {(Some g, src)}"
    and res: "go_ok u \<Longrightarrow> res = Inr 2" "\<not> go_ok u \<Longrightarrow> \<exists>e. res = Inl e"
  shows "configured prio0 proto d (Some g) src (R k) res (R k2)"
proof (cases "go_ok u")
  case True
  then obtain r' where r': "installed prio0 (new_route d (Some g) src proto) r'" "R k2 = insert r' {x \<in> R k. nl_key x \<noteq> nl_key r'}"
    using nl_replace_law [OF laws p] same by auto
  with put_route [OF ok r'] cur res(1) [OF True] show ?thesis by (auto simp: configured_def)
next
  case False
  then have "R k2 = R k" using nl_replace_law [OF laws p] same by simp
  with res(2) [OF False] ok show ?thesis by (auto simp: configured_def)
qed

text \<open>With a managed route present: nothing to do, or a replacement.\<close>

lemma configure_present:
  assumes laws: "kernel_laws nl R prio0" and ok: "managed_ok prio0 proto (R k)"
    and l: "relabel ''failed to list routes'' (nl_list_dst nl d) k = (Inr existing, k1)"
    and x: "filter (\<lambda>r. nr_proto r = proto) existing = x # rest"
    and run: "configure_checked nl d g src proto k = (res, k')"
  shows "configured prio0 proto d (Some g) src (R k) res (R k')"
proof -
  note list = nl_list_dst_law [OF laws l]
  have "x \<in> set (filter (\<lambda>r. nr_proto r = proto) existing)" using x by simp
  then have xR: "x \<in> R k" "nr_proto x = proto" "nr_dst x = Some d" using list by auto
  have "y = x" if "y \<in> R k" "nr_proto y = proto" "nr_dst y = Some d" for y
    using managed_unique [OF ok that(1) xR(1)] that xR by simp
  with xR have "{r \<in> R k. nr_proto r = proto \<and> nr_dst r = Some d} = {x}" by blast
  then have cur: "managed proto (R k) d = {(nr_gw x, nr_src x)}" by (simp add: managed_def)
  show ?thesis
  proof (cases "nr_gw x = Some g \<and> nr_src x = src")
    case True
    then have "res = Inr 0" "k' = k1" using run l x by (simp_all add: configure_checked_def bind_def)
    with True list cur ok show ?thesis by (simp add: configured_def)
  next
    case False
    obtain u k2 where p: "nl_replace nl (new_route d (Some g) src proto) k1 = (u, k2)" by fastforce
    have "(res, k') = bind (relabel ''failed to update route'' (nl_replace nl (new_route d (Some g) src proto))) (\<lambda>u. ret 2) k1"
      using run l x False by (auto simp: configure_checked_def bind_def)
    then have "k' = k2" "go_ok u \<Longrightarrow> res = Inr 2" "\<not> go_ok u \<Longrightarrow> \<exists>e. res = Inl e"
      using p by (auto simp: bind_def relabel_def attempt_def go_ok_def split: sum.splits go_fault.splits)
    with replace_configured [OF laws ok _ p] list cur False show ?thesis by simp
  qed
qed

text \<open>Without one: an addition, or a replacement of a foreign route with the same key.\<close>

lemma configure_absent:
  assumes laws: "kernel_laws nl R prio0" and ok: "managed_ok prio0 proto (R k)"
    and l: "relabel ''failed to list routes'' (nl_list_dst nl d) k = (Inr existing, k1)"
    and x: "filter (\<lambda>r. nr_proto r = proto) existing = []"
    and run: "configure_checked nl d g src proto k = (res, k')"
  shows "configured prio0 proto d (Some g) src (R k) res (R k')"
proof -
  let ?r = "new_route d (Some g) src proto"
  note list = nl_list_dst_law [OF laws l]
  then have none: "managed proto (R k) d = {}" using x by (auto simp: managed_def filter_empty_conv)
  obtain a k2 where a: "nl_add nl ?r k1 = (a, k2)" by fastforce
  note add = nl_add_law [OF laws a]
  have r: "(res, k') = attempt (nl_add nl ?r)
                (\<lambda>res. case res of
                         Inr u \<Rightarrow> ret 1
                       | Inl e \<Rightarrow> (if e = EEXIST then bind (nl_replace nl ?r) (\<lambda>u. ret 2)
                            else throw (Err (Errorf ''failed to add route'')))) k1"
    using run l x by (simp add: configure_checked_def bind_def)
  consider (added) u where "a = Inr u" | (exists) "a = Inl (Err EEXIST)" | (fails) f where "a = Inl f" "f \<noteq> Err EEXIST"
    by (cases a) auto
  then show ?thesis
  proof cases
    case added
    then obtain r' where i: "installed prio0 ?r r'" and new: "\<forall>x\<in>R k. nl_key x \<noteq> nl_key r'" "R k2 = insert r' (R k)"
      using add list by (auto simp: go_ok_def)
    from new have r': "R k2 = insert r' {x \<in> R k. nl_key x \<noteq> nl_key r'}" by auto
    moreover have "res = Inr 1" "k' = k2" using r a added by (auto simp: attempt_def)
    ultimately show ?thesis using put_route [OF ok i r'] none by (simp add: configured_def)
  next
    case exists
    obtain u k3 where p: "nl_replace nl ?r k2 = (u, k3)" by fastforce
    have "(res, k') = bind (nl_replace nl ?r) (\<lambda>u. ret 2) k2" using r a exists by (simp add: attempt_def)
    then have "k' = k3" "go_ok u \<Longrightarrow> res = Inr 2" "\<not> go_ok u \<Longrightarrow> \<exists>e. res = Inl e"
      using p by (auto simp: bind_def go_ok_def split: sum.splits)
    moreover have "R k2 = R k" using add list exists by (simp add: go_ok_def)
    ultimately show ?thesis using replace_configured [OF laws ok _ p] none by simp
  next
    case fails
    then have "k' = k2" "\<exists>e. res = Inl e" using r a by (auto simp: attempt_def split: go_fault.splits)
    moreover have "R k2 = R k" using add list fails by (simp add: go_ok_def)
    ultimately show ?thesis using ok by (auto simp: configured_def)
  qed
qed

lemma ConfigureRoute_configured:
  assumes laws: "kernel_laws nl R prio0" and ok: "managed_ok prio0 proto (R k)"
    and run: "ConfigureRoute nl (Some d) gw src proto k = (res, k')"
  shows "configured prio0 proto d gw src (R k) res (R k')"
proof (cases "\<exists>g. gw = Some g \<and> ConfigureRoute nl (Some d) gw src proto = configure_checked nl d g src proto")
  case False
  then have "k' = k" "\<exists>e. res = Inl e" using run by (auto simp: ConfigureRoute_def split: option.splits if_splits)
  with ok show ?thesis by (auto simp: configured_def)
next
  case True
  then obtain g where g: "gw = Some g" and run': "configure_checked nl d g src proto k = (res, k')"
    using run by auto
  obtain ex k1 where l: "relabel ''failed to list routes'' (nl_list_dst nl d) k = (ex, k1)" by fastforce
  show ?thesis
  proof (cases ex)
    case (Inl e)
    then have "k' = k1" "res = Inl e" using run' l by (auto simp: configure_checked_def bind_def)
    with nl_list_dst_law [OF laws l] ok show ?thesis by (simp add: configured_def)
  next
    case (Inr existing)
    note l = l [unfolded Inr]
    show ?thesis
    proof (cases "filter (\<lambda>r. nr_proto r = proto) existing")
      case Nil
      from configure_absent [OF laws ok l Nil run'] g show ?thesis by simp
    next
      case (Cons x rest)
      from configure_present [OF laws ok l Cons run'] g show ?thesis by simp
    qed
  qed
qed

lemma RemoveRoute_managed:
  assumes laws: "kernel_laws nl R prio0" and ok: "managed_ok prio0 proto (R k)"
    and run: "RemoveRoute nl (Some d) proto k = (res, k')"
  shows "managed_ok prio0 proto (R k') \<and>
    (if go_ok res then managed proto (R k') d = {} \<and> (\<forall>e. e \<noteq> d \<longrightarrow> managed proto (R k') e = managed proto (R k) e)
     else R k' = R k)"
proof -
  obtain u k1 where d: "nl_del nl (new_route d None None proto) k = (u, k1)" by fastforce
  note del = nl_del_law [OF laws d]
  have k': "k' = k1" using run d by (auto simp: RemoveRoute_def attempt_def split: sum.splits go_fault.splits if_splits)
  show ?thesis
  proof (cases "go_ok u")
    case True
    then obtain x where x: "x \<in> R k" "nr_dst x = Some d" "nr_proto x = proto" "R k1 = R k - {x}"
      using del by (auto simp: new_route_def)
    have only: "y = x" if "y \<in> R k" "nr_proto y = proto" "nr_dst y = Some d" for y
      using managed_unique [OF ok that(1) x(1)] that x by simp
    have "{y \<in> R k1. nr_proto y = proto \<and> nr_dst y = Some d} = {}" unfolding x(4) using only by blast
    then have "managed proto (R k1) d = {}" unfolding managed_def by simp
    moreover have "managed proto (R k1) e = managed proto (R k) e" if "e \<noteq> d" for e
    proof -
      have "nr_dst x \<noteq> Some e" using x(2) that by simp
      then have "{y \<in> R k1. nr_proto y = proto \<and> nr_dst y = Some e} = {y \<in> R k. nr_proto y = proto \<and> nr_dst y = Some e}"
        unfolding x(4) by blast
      then show ?thesis by (simp only: managed_def)
    qed
    moreover have "managed_ok prio0 proto (R k1)" using managed_ok_subset [OF ok] x(4) by blast
    moreover have "go_ok res" using run d True by (auto simp: RemoveRoute_def attempt_def go_ok_def split: sum.splits)
    ultimately show ?thesis by (simp add: k')
  next
    case False
    then have same: "R k1 = R k" "u = Inl (Err ESRCH) \<longrightarrow> managed proto (R k) d = {}"
      using del by (auto simp: new_route_def managed_def)
    moreover have "go_ok res \<Longrightarrow> u = Inl (Err ESRCH)"
      using run d False by (auto simp: RemoveRoute_def attempt_def go_ok_def split: sum.splits go_fault.splits if_splits)
    ultimately show ?thesis using ok by (auto simp: k')
  qed
qed

end
