(* ===== verification/Centralised.thy ===== *)
theory Centralised
  imports Refresh TopN
begin

text \<open>
  \<^verbatim>\<open>internal/route/centralised.go\<close>: the leader computes next hops for every pair of sites from measured round
  trips, checks them for loops and sends each site its table. The two range loops over the table of sites, the
  order in which measurements arrive, the measurements themselves and the calls to other sites are
  parameters. A Go map is a partial function, and reading a missing key gives 0.
\<close>

section \<open>State and environment\<close>

type_synonym hop_table = "int \<rightharpoonup> int"
type_synonym site_tables = "int \<rightharpoonup> hop_table"

record route_result =
  rr_forwardRank :: int
  rr_returnRank :: int
  rr_latency :: int
  rr_path :: "int list"

text \<open>
  \<open>ce_measure n p\<close> is what the local path ping answers at interaction \<open>n\<close>, a duration in microseconds and an error;
  \<open>ce_latency\<close> and \<open>ce_update\<close> are the remote procedures of a site, \<open>ce_dial\<close> is making the connection, \<open>ce_consensus\<close> is the consensus
  service (\<open>None\<close> for nil) with its answers to \<open>Leader\<close> and \<open>Healty\<close>. \<open>ce_grown_cap l\<close> is the capacity \<open>append\<close> gives a slice
  that grows to length \<open>l\<close> and \<open>ce_returned i j\<close> how many appends to the forward path \<open>i\<close> have been made when the measurement \<open>j\<close> returns.
\<close>

record central_env =
  ce_net :: env
  ce_localID :: int
  ce_site_order :: "int list"
  ce_target_order :: "int \<Rightarrow> int list"
  ce_arrival :: "route_result list \<Rightarrow> route_result list"
  ce_grown_cap :: "nat \<Rightarrow> nat"
  ce_returned :: "nat \<Rightarrow> nat \<Rightarrow> nat"
  ce_measure :: "nat \<Rightarrow> int list \<Rightarrow> int \<times> go_error option"
  ce_latency :: "nat \<Rightarrow> int \<Rightarrow> int list \<Rightarrow> go_error + int"
  ce_dial :: "string \<Rightarrow> go_error option"
  ce_update :: "nat \<Rightarrow> int \<Rightarrow> hop_table \<Rightarrow> go_error option"
  ce_consensus :: "(nat \<Rightarrow> bool \<times> bool) option"

text \<open>\<open>cr_sent\<close> is the log of the tables the sites have been sent.\<close>

record central_world = graph_world +
  cr_siteRoutes :: hop_table
  cr_updatedAt :: int
  cr_sent :: "(int \<times> hop_table) list"

definition next_tick :: "('z world_scheme, nat) proc" where
  "next_tick w = (Inr (ticks w), w\<lparr>ticks := Suc (ticks w)\<rparr>)"

section \<open>The table of sites\<close>

definition map_read :: "hop_table \<Rightarrow> int \<Rightarrow> int" where
  "map_read m k = (case m k of None \<Rightarrow> 0 | Some v \<Rightarrow> v)"

definition site_read :: "site_tables \<Rightarrow> int \<Rightarrow> int \<Rightarrow> int" where
  "site_read sites s t = (case sites s of None \<Rightarrow> 0 | Some r \<Rightarrow> map_read r t)"

definition site_write :: "int \<Rightarrow> int \<Rightarrow> int \<Rightarrow> site_tables \<Rightarrow> site_tables go" where
  "site_write s t v sites =
     (case sites s of None \<Rightarrow> Inl (Panic NilMapWrite) | Some r \<Rightarrow> Inr (sites(s \<mapsto> r(t \<mapsto> v))))"

definition path_sites :: "network_path list \<Rightarrow> int set" where
  "path_sites ps = (\<Union>p\<in>set ps. {np_source p, np_target p})"

text \<open>Every site with a route of -1 to every site.\<close>

definition init_sites :: "network_path list \<Rightarrow> site_tables" where
  "init_sites ps = (\<lambda>s. if s \<in> path_sites ps then Some (\<lambda>t. if t \<in> path_sites ps then Some (- 1) else None) else None)"

section \<open>Measuring\<close>

definition zero_time :: int where
  "zero_time = - 62135596800 * second"

definition NewCentralisedRouter :: "graph option \<Rightarrow> 'z central_world_scheme \<Rightarrow> 'z central_world_scheme" where
  "NewCentralisedRouter g w = w\<lparr>the_graph := g, cr_siteRoutes := Map.empty, cr_updatedAt := zero_time\<rparr>"

definition getSiteRPCConn :: "central_env \<Rightarrow> int \<Rightarrow> unit go" where
  "getSiteRPCConn C site =
     (case ce_dial C (''10.201.'' @ itoa site @ ''.1:5122'') of
        Some e \<Rightarrow> Inl (Err (Wrapf ''error connecting to site daemon'' e))
      | None \<Rightarrow> Inr ())"

definition measurePathLatency :: "central_env \<Rightarrow> int list \<Rightarrow> ('z world_scheme, int) proc" where
  "measurePathLatency C path =
     (case path of
        [] \<Rightarrow> throw (Panic IndexOutOfRange)
      | x # rest \<Rightarrow>
          if x = ce_localID C
          then bind next_tick (\<lambda>n. case ce_measure C n path of
                 (us, None) \<Rightarrow> ret us | (us, Some e) \<Rightarrow> throw (Err e))
          else (case getSiteRPCConn C x of
                  Inl e \<Rightarrow> throw e
                | Inr conn \<Rightarrow> bind next_tick (\<lambda>n. case ce_latency C n x (map to_int32 path) of
                    Inl e \<Rightarrow> throw (Err e) | Inr us \<Rightarrow> ret us)))"

definition routePenalty :: "int list \<Rightarrow> int \<Rightarrow> int \<Rightarrow> int \<Rightarrow> int" where
  "routePenalty route src dst latency =
     int (length route) * 10 +
     (if src \<noteq> 0 \<and> dst \<noteq> 0 then int (length (filter (\<lambda>v. v = 0) route)) * latency else 0)"

text \<open>
  \<open>append(p.Path, v.Path[1:]...)\<close> for the return paths \<open>vs\<close>, in the order the measurements are launched: an append that fits
  into the capacity of \<open>p.Path\<close> writes the one array behind it, so a later one overwrites what an earlier
  one wrote. \<open>full_view cap p vs j k\<close> is what the slice of the append \<open>j\<close> reads as once \<open>k\<close> appends have been made.
\<close>

definition write_tail :: "nat \<Rightarrow> int list \<Rightarrow> int list \<Rightarrow> int list \<Rightarrow> int list" where
  "write_tail cap p v arr =
     (if length p + length v \<le> cap then p @ v @ drop (length p + length v) arr else arr)"

definition full_view :: "nat \<Rightarrow> int list \<Rightarrow> int list list \<Rightarrow> nat \<Rightarrow> nat \<Rightarrow> int list" where
  "full_view cap p vs j k =
     (let v = tl (vs ! j)
      in if length p + length v \<le> cap
         then take (length p + length v)
                (fold (\<lambda>u. write_tail cap p (tl u)) (take k vs) (p @ replicate (cap - length p) 0))
         else p @ v)"

text \<open>One measurement: the path as launched is measured, the penalty sees the path as it is when the answer comes.\<close>

definition measure_pair ::
    "central_env \<Rightarrow> int \<Rightarrow> int \<Rightarrow> int list \<Rightarrow> int list list \<Rightarrow> nat \<times> nat \<Rightarrow> route_result list
       \<Rightarrow> ('z world_scheme, route_result list) proc" where
  "measure_pair C site target p vs ij rs =
     (let i = fst ij; j = snd ij; cap = ce_grown_cap C (length p); view = full_view cap p vs j
      in attempt (measurePathLatency C (view (Suc j)))
           (\<lambda>r. case r of
              Inl e \<Rightarrow> ret rs
            | Inr us \<Rightarrow> ret (rs @
                [\<lparr>rr_forwardRank = int i + 1, rr_returnRank = int j + 1,
                  rr_latency = us + routePenalty (view (max (Suc j) (ce_returned C i j))) site target us,
                  rr_path = view (length vs)\<rparr>])))"

definition measure_all ::
    "central_env \<Rightarrow> int \<Rightarrow> int \<Rightarrow> int list list \<Rightarrow> int list list \<Rightarrow> ('z world_scheme, route_result list) proc" where
  "measure_all C site target ps vs =
     for_each (\<lambda>(i, j). measure_pair C site target (ps ! i) vs (i, j))
       (List.product [0..<length ps] [0..<length vs]) []"

text \<open>\<open>sort.Slice\<close> by latency; which of equal ones comes first depends on the order of arrival only.\<close>

definition rank_results :: "central_env \<Rightarrow> route_result list \<Rightarrow> route_result list" where
  "rank_results C rs = sort_key rr_latency (ce_arrival C rs)"

section \<open>Selecting\<close>

fun first_index :: "int \<Rightarrow> int list \<Rightarrow> int option" where
  "first_index t [] = None"
| "first_index t (x # xs) = (if x = t then Some 0 else map_option (\<lambda>i. i + 1) (first_index t xs))"

text \<open>
  The inner loop over the hops of a path: \<open>False\<close> when it meets a different hop and the path is skipped, with what it has
  written until then left in the table.
\<close>

fun assign_hops :: "int \<Rightarrow> int \<Rightarrow> int \<Rightarrow> int list \<Rightarrow> nat list \<Rightarrow> site_tables \<Rightarrow> (bool \<times> site_tables) go" where
  "assign_hops site target mid best [] sites = Inr (True, sites)"
| "assign_hops site target mid best (i # is) sites =
     (let key = (if int i < mid then target else site); old = site_read sites (best ! i) key; nxt = best ! (i + 1)
      in if old \<noteq> - 1 \<and> old \<noteq> nxt then Inr (False, sites)
         else go_bind (site_write (best ! i) key nxt sites) (assign_hops site target mid best is))"

fun select_route :: "int \<Rightarrow> int \<Rightarrow> route_result list \<Rightarrow> site_tables \<Rightarrow> (bool \<times> site_tables) go" where
  "select_route site target [] sites = Inr (False, sites)"
| "select_route site target (r # rs) sites =
     (let best = rr_path r; mid = (case first_index target best of None \<Rightarrow> - 1 | Some i \<Rightarrow> i)
      in go_bind (assign_hops site target mid best [0..<length best - 2] sites)
           (\<lambda>(success, sites'). if success then Inr (True, sites') else select_route site target rs sites'))"

definition route_pair :: "central_env \<Rightarrow> int \<Rightarrow> int \<Rightarrow> site_tables \<Rightarrow> ('z graph_world_scheme, site_tables) proc" where
  "route_pair C site target sites =
     (if site_read sites site target \<noteq> - 1 then ret sites
      else if site = target then lift_go (site_write site target site sites)
      else
        bind (\<lambda>w. (go_wrap ''error getting forward path'' (from_option (GetTopNShortestPaths (the_graph w) site target 5)), w)) (\<lambda>fPath.
        bind (\<lambda>w. (go_wrap ''error getting return path'' (from_option (GetTopNShortestPaths (the_graph w) target site 5)), w)) (\<lambda>rPath.
        bind (measure_all C site target (map pr_path fPath) (map pr_path rPath)) (\<lambda>results.
          if results = [] then throw (Err (Errorf ''no routes found''))
          else bind (lift_go (select_route site target (rank_results C results) sites))
                 (\<lambda>(success, sites'). if success then ret sites' else throw (Err (Errorf ''no routes found'')))))))"

section \<open>Checking for loops\<close>

text \<open>The \<open>for\<close> loop of \<open>checkForLoops\<close> from the current next hop: \<open>True\<close> when a node is met again.\<close>

partial_function (option) loop_from :: "site_tables \<Rightarrow> int \<Rightarrow> int set \<Rightarrow> int \<Rightarrow> bool option" where
  "loop_from m dst visited currentVia =
     (let visited' = insert currentVia visited
      in case m currentVia of
           None \<Rightarrow> Some False
         | Some r \<Rightarrow>
             (case r dst of
                None \<Rightarrow> Some False
              | Some next \<Rightarrow>
                  (if next \<in> visited' then Some True
                   else if next = dst then Some False else loop_from m dst visited' next)))"

definition check_pair :: "site_tables \<Rightarrow> int \<Rightarrow> int \<Rightarrow> unit \<Rightarrow> unit go" where
  "check_pair m source dst u =
     (let via = site_read m source dst
      in if dst = via then Inr ()
         else (case loop_from m dst {} via of
                 None \<Rightarrow> Inl (Panic NoReturn)
               | Some True \<Rightarrow> Inl (Err (Errorf ''loop detected''))
               | Some False \<Rightarrow> Inr ()))"

definition checkForLoops :: "central_env \<Rightarrow> site_tables \<Rightarrow> unit go" where
  "checkForLoops C m =
     go_fold (\<lambda>source u. go_fold (check_pair m source) (ce_target_order C source) u) (ce_site_order C) ()"

section \<open>Distributing\<close>

text \<open>The order of the range decides which of two keys with the same low bits stays.\<close>

definition convertToInt32Map :: "int list \<Rightarrow> hop_table \<Rightarrow> hop_table" where
  "convertToInt32Map order input = fold (\<lambda>k out. out(to_int32 k \<mapsto> to_int32 (map_read input k))) order Map.empty"

definition distribute_step :: "central_env \<Rightarrow> site_tables \<Rightarrow> int \<Rightarrow> unit \<Rightarrow> ('z central_world_scheme, unit) proc" where
  "distribute_step C m site u =
     (case getSiteRPCConn C site of
        Inl e \<Rightarrow> throw e
      | Inr conn \<Rightarrow>
          let table = convertToInt32Map (ce_target_order C site) (case m site of None \<Rightarrow> Map.empty | Some r \<Rightarrow> r)
          in bind next_tick (\<lambda>n w.
               let w' = w\<lparr>cr_sent := cr_sent w @ [(site, table)]\<rparr>
               in (case ce_update C n site table of
                     Some e \<Rightarrow> (Inl (Err (Wrapf ''error updating route'' e)), w')
                   | None \<Rightarrow> (Inr (), w'))))"

definition Distribute :: "central_env \<Rightarrow> site_tables \<Rightarrow> ('z central_world_scheme, unit) proc" where
  "Distribute C m = for_each (distribute_step C m) (ce_site_order C) ()"

section \<open>Refresh\<close>

text \<open>A nil graph is built first; then its weights are refreshed.\<close>

definition ready_graph :: "central_env \<Rightarrow> ('z graph_world_scheme, unit) proc" where
  "ready_graph C =
     bind (\<lambda>w. case the_graph w of
             Some g \<Rightarrow> (Inr (), w)
           | None \<Rightarrow> bind (wrap ''error initializing graph'' (NewGraph (ce_net C)))
                       (\<lambda>g w. (Inr (), w\<lparr>the_graph := Some g\<rparr>)) w)
       (\<lambda>u. wrap ''error refreshing graph'' (RefreshWeights (ce_net C)))"

definition route_site :: "central_env \<Rightarrow> int \<Rightarrow> site_tables \<Rightarrow> ('z graph_world_scheme, site_tables) proc" where
  "route_site C site sites = for_each (route_pair C site) (ce_target_order C site) sites"

definition compute_tables :: "central_env \<Rightarrow> ('z graph_world_scheme, site_tables) proc" where
  "compute_tables C =
     bind (GetAllPaths (ce_net C)) (\<lambda>paths.
     bind (ready_graph C) (\<lambda>u.
     bind (for_each (route_site C) (ce_site_order C) (init_sites paths)) (\<lambda>sites.
     bind (lift_go (checkForLoops C sites)) (\<lambda>u. ret sites))))"

definition central_Refresh :: "central_env \<Rightarrow> ('z central_world_scheme, unit) proc" where
  "central_Refresh C = bind (compute_tables C) (\<lambda>sites. attempt (Distribute C sites) (\<lambda>r. ret ()))"

section \<open>The tables of this site\<close>

definition GetSiteRouteMap :: "'z central_world_scheme \<Rightarrow> hop_table" where
  "GetSiteRouteMap w = cr_siteRoutes w"

text \<open>The two range loops look for a difference; their order does not matter.\<close>

definition routes_differ :: "int list \<Rightarrow> int list \<Rightarrow> hop_table \<Rightarrow> hop_table \<Rightarrow> bool" where
  "routes_differ new_keys old_keys routes old \<longleftrightarrow>
     list_ex (\<lambda>k. map_read old k \<noteq> map_read routes k) new_keys \<or> list_ex (\<lambda>k. routes k = None) old_keys"

definition UpdateSiteRoutes ::
    "env \<Rightarrow> int list \<Rightarrow> int list \<Rightarrow> hop_table \<Rightarrow> ('z central_world_scheme, bool) proc" where
  "UpdateSiteRoutes E new_keys old_keys routes w =
     (let changed = routes_differ new_keys old_keys routes (cr_siteRoutes w)
      in (Inr changed,
          w\<lparr>ticks := Suc (ticks w), cr_updatedAt := clock E (ticks w),
            cr_siteRoutes := (if changed then (\<lambda>k. if k \<in> set new_keys then routes k else None) else cr_siteRoutes w)\<rparr>))"

section \<open>The loop of the router\<close>

datatype central_event = CStop | CTick | CTimer

record central_run =
  run_attempts :: int
  run_fast :: bool
  run_timer :: bool

text \<open>An error of \<open>Refresh\<close> is logged; the consensus service is asked again each time.\<close>

definition central_routine :: "central_env \<Rightarrow> ('z central_world_scheme, unit) proc" where
  "central_routine C =
     (case ce_consensus C of
        None \<Rightarrow> ret ()
      | Some cs \<Rightarrow>
          bind next_tick (\<lambda>n. if fst (cs n) \<and> snd (cs n) then attempt (central_Refresh C) (\<lambda>r. ret ()) else ret ()))"

text \<open>
  One event of \<open>run\<close>: whether the loop goes on, with the fast-start attempts left, and whether the timer is armed.
\<close>

definition central_run_step ::
    "central_env \<Rightarrow> central_event \<Rightarrow> central_run \<Rightarrow> ('z central_world_scheme, bool \<times> central_run) proc" where
  "central_run_step C ev st =
     (case ev of
        CStop \<Rightarrow> ret (False, st)
      | CTick \<Rightarrow> bind (central_routine C) (\<lambda>u. ret (True, st))
      | CTimer \<Rightarrow>
          (if \<not> run_fast st \<or> run_attempts st = 0 then ret (True, st\<lparr>run_timer := False\<rparr>)
           else (case ce_consensus C of
                   None \<Rightarrow>
                     (if 0 < run_attempts st then ret (True, st\<lparr>run_attempts := run_attempts st - 1, run_timer := True\<rparr>)
                      else ret (True, st\<lparr>run_timer := False\<rparr>))
                 | Some cs \<Rightarrow> bind next_tick (\<lambda>n.
                     if snd (cs n) then bind (central_routine C) (\<lambda>u. ret (True, st\<lparr>run_timer := False\<rparr>))
                     else if 0 < run_attempts st
                     then ret (True, st\<lparr>run_attempts := run_attempts st - 1, run_timer := True\<rparr>)
                     else ret (True, st\<lparr>run_timer := False\<rparr>)))))"

end
