(* ===== verification/System.thy ===== *)
theory System
  imports Kernel
begin

text \<open>
  \<^verbatim>\<open>internal/system\<close>: the route table (\<open>table.go\<close>) and the namespaced state table (\<open>state.go\<close>). Both are
  stores from keys to values; the locale \<open>keyed_store\<close> states what their clients rely on. The mutexes are not
  modelled: every method is one atomic step. A range over a map takes its order as an argument.
\<close>

section \<open>Keyed stores\<close>

locale keyed_store =
  fixes look :: "'s \<Rightarrow> 'k \<Rightarrow> 'v option" and put :: "'k \<Rightarrow> 'v \<Rightarrow> 's \<Rightarrow> 's"
  assumes look_put: "look (put k v s) k' = (if k' = k then Some v else look s k')"
begin

text \<open>After a sequence of writes the last one to a key counts; a key not written keeps its value.\<close>

lemma look_fold_put:
  "look (fold (\<lambda>(k, v). put k v) kvs s) k = (case map_of (rev kvs) k of None \<Rightarrow> look s k | Some v \<Rightarrow> Some v)"
proof (induction kvs arbitrary: s)
  case (Cons kv kvs)
  then show ?case by (cases kv) (auto simp: look_put map_add_def split: option.splits)
qed simp

lemma look_fold_other: "k \<notin> fst ` set kvs \<Longrightarrow> look (fold (\<lambda>(k, v). put k v) kvs s) k = look s k"
  by (auto simp: look_fold_put split: option.splits dest!: map_of_SomeD intro: rev_image_eqI)

end

section \<open>table.go\<close>

text \<open>\<open>String\<close> of a nil network.\<close>

definition dst_string :: "ipnet option \<Rightarrow> string" where
  "dst_string d = (case d of None \<Rightarrow> ''<nil>'' | Some n \<Rightarrow> ipnet_string n)"

record kernel_route =
  kr_Destination :: "ipnet option"
  kr_Gateway :: "ip option"

record route_table =
  rt_routeMap :: "string \<rightharpoonup> kernel_route"
  rt_ready :: bool

definition NewRouteTable :: route_table where
  "NewRouteTable = \<lparr>rt_routeMap = Map.empty, rt_ready = False\<rparr>"

definition AddRoute :: "ipnet option \<Rightarrow> ip option \<Rightarrow> route_table \<Rightarrow> route_table" where
  "AddRoute destination gateway rt =
     rt\<lparr>rt_routeMap := (rt_routeMap rt)
         (dst_string destination \<mapsto> \<lparr>kr_Destination = destination, kr_Gateway = gateway\<rparr>)\<rparr>"

definition GetRoutes :: "string list \<Rightarrow> route_table \<Rightarrow> kernel_route list" where
  "GetRoutes order rt = List.map_filter (rt_routeMap rt) order"

definition ClearRoutes :: "route_table \<Rightarrow> route_table" where
  "ClearRoutes rt = rt\<lparr>rt_routeMap := Map.empty\<rparr>"

definition Ready :: "route_table \<Rightarrow> bool" where
  "Ready rt = rt_ready rt"

definition MarkReady :: "route_table \<Rightarrow> route_table" where
  "MarkReady rt = rt\<lparr>rt_ready := True\<rparr>"

text \<open>The table as a store of gateways under the text of the destination.\<close>

definition table_look :: "route_table \<Rightarrow> string \<Rightarrow> kernel_route option" where
  "table_look rt k = rt_routeMap rt k"

definition table_put :: "string \<Rightarrow> kernel_route \<Rightarrow> route_table \<Rightarrow> route_table" where
  "table_put k r rt = rt\<lparr>rt_routeMap := (rt_routeMap rt)(k \<mapsto> r)\<rparr>"

interpretation table: keyed_store table_look table_put
  by unfold_locales (simp add: table_look_def table_put_def)

lemma AddRoute_put:
  "AddRoute d gw = table_put (dst_string d) \<lparr>kr_Destination = d, kr_Gateway = gw\<rparr>"
  by (rule ext) (simp add: AddRoute_def table_put_def)

lemma GetRoutes_set:
  assumes "enumerates order (rt_routeMap rt)"
  shows "set (GetRoutes order rt) = ran (rt_routeMap rt)"
proof -
  have "set (List.map_filter f xs) = {y. \<exists>x\<in>set xs. f x = Some y}" for f :: "string \<Rightarrow> kernel_route option" and xs
    by (induction xs) (auto simp: List.map_filter_simps split: option.splits)
  then show ?thesis using assms by (auto simp: GetRoutes_def enumerates_def ran_def)
qed

text \<open>Every route is stored under the text of its own destination.\<close>

definition table_inv :: "route_table \<Rightarrow> bool" where
  "table_inv rt \<longleftrightarrow> (\<forall>k r. rt_routeMap rt k = Some r \<longrightarrow> k = dst_string (kr_Destination r))"

lemma table_inv_ops [simp]:
  "table_inv NewRouteTable" "table_inv (ClearRoutes rt)"
  "table_inv rt \<Longrightarrow> table_inv (AddRoute d gw rt)" "table_inv rt \<Longrightarrow> table_inv (MarkReady rt)"
  by (auto simp: table_inv_def NewRouteTable_def ClearRoutes_def AddRoute_def MarkReady_def)

section \<open>state.go\<close>

record state_value =
  sv_value :: string
  sv_timestamp :: int

type_synonym state_table = "(string \<times> string) \<rightharpoonup> state_value"

definition ErrNoKey :: go_error where
  "ErrNoKey = Sentinel ''key not found''"

text \<open>\<open>strings.LastIndexByte\<close>: what stands before and after the last occurrence.\<close>

definition split_last :: "char \<Rightarrow> string \<Rightarrow> (string \<times> string) option" where
  "split_last c s =
     (if c \<in> set s
      then Some (rev (tl (dropWhile (\<lambda>x. x \<noteq> c) (rev s))), rev (takeWhile (\<lambda>x. x \<noteq> c) (rev s)))
      else None)"

text \<open>
  \<open>getCaller\<close>: the call stack is a parameter, frame 0 being \<open>getCaller\<close> itself and \<open>None\<close> a frame that does not exist or
  is no function. The code reads frame 3, which is the caller of the function that called the method.
\<close>

definition package_of :: "string \<Rightarrow> string" where
  "package_of fullName =
     (case split_last CHR ''.'' fullName of
        Some (before, after) \<Rightarrow>
          (case split_last CHR ''/'' before of
             Some (dir, base) \<Rightarrow> hd (split base CHR ''.'')
           | None \<Rightarrow> hd (split before CHR ''.''))
      | None \<Rightarrow> hd (split fullName CHR ''.''))"

definition getCaller :: "(nat \<Rightarrow> string option) \<Rightarrow> string" where
  "getCaller stack = (case stack 3 of None \<Rightarrow> ''unknown'' | Some fullName \<Rightarrow> package_of fullName)"

text \<open>
  The frames of a call stack inside a method of the table: \<open>getCaller\<close>, the method, the function that called the method, the
  function that called this one, and so on. A function of the package \<open>pkg\<close> is named by the path of the package, which ends
  in \<open>pkg\<close>, a dot and its own name with its receiver.
\<close>

definition in_package :: "string \<Rightarrow> string \<Rightarrow> bool" where
  "in_package name pkg \<longleftrightarrow> CHR ''.'' \<notin> set pkg \<and> CHR ''/'' \<notin> set pkg \<and>
     (\<exists>dir fn. CHR ''/'' \<notin> set fn \<and> (name = pkg @ ''.'' @ fn \<or> name = dir @ ''/'' @ pkg @ ''.'' @ fn))"

definition frames :: "string list \<Rightarrow> nat \<Rightarrow> string option" where
  "frames names n = (if n < length names then Some (names ! n) else None)"

definition caller_called_from :: "(nat \<Rightarrow> string option) \<Rightarrow> string \<Rightarrow> bool" where
  "caller_called_from stack pkg \<longleftrightarrow>
     (\<exists>get method caller from rest. stack = frames (get # method # caller # from # rest) \<and> in_package from pkg)"

definition st_Get :: "(nat \<Rightarrow> string option) \<Rightarrow> string \<Rightarrow> state_table \<Rightarrow> (string \<times> int) go" where
  "st_Get stack key kv =
     (case kv (key, getCaller stack) of None \<Rightarrow> Inl (Err ErrNoKey) | Some v \<Rightarrow> Inr (sv_value v, sv_timestamp v))"

definition GetFromNamespace :: "string \<Rightarrow> string \<Rightarrow> state_table \<Rightarrow> (string \<times> int) go" where
  "GetFromNamespace key namespace kv =
     (case kv (key, namespace) of None \<Rightarrow> Inl (Err ErrNoKey) | Some v \<Rightarrow> Inr (sv_value v, sv_timestamp v))"

definition st_GetAll :: "string \<Rightarrow> state_table \<Rightarrow> (string \<rightharpoonup> string)" where
  "st_GetAll namespace kv = (\<lambda>key. map_option sv_value (kv (key, namespace)))"

definition st_Set :: "(nat \<Rightarrow> string option) \<Rightarrow> int \<Rightarrow> string \<Rightarrow> string \<Rightarrow> state_table \<Rightarrow> state_table" where
  "st_Set stack now key val kv = kv((key, getCaller stack) \<mapsto> \<lparr>sv_value = val, sv_timestamp = now\<rparr>)"

definition st_Modify ::
    "(nat \<Rightarrow> string option) \<Rightarrow> int \<Rightarrow> string \<Rightarrow> string \<Rightarrow> state_table \<Rightarrow> unit go \<times> state_table" where
  "st_Modify stack now key val kv =
     (case kv (key, getCaller stack) of
        None \<Rightarrow> (Inl (Err ErrNoKey), kv)
      | Some v \<Rightarrow> (Inr (), kv((key, getCaller stack) \<mapsto> \<lparr>sv_value = val, sv_timestamp = now\<rparr>)))"

definition st_Delete :: "(nat \<Rightarrow> string option) \<Rightarrow> string \<Rightarrow> state_table \<Rightarrow> unit go \<times> state_table" where
  "st_Delete stack key kv =
     (case kv (key, getCaller stack) of
        None \<Rightarrow> (Inl (Err ErrNoKey), kv)
      | Some v \<Rightarrow> (Inr (), kv((key, getCaller stack) := None)))"

interpretation state: keyed_store "\<lambda>kv k. kv k" "\<lambda>k v kv. kv(k \<mapsto> v)"
  by unfold_locales simp

section \<open>Properties\<close>

text \<open>What the operations do, as updates of the map from namespaces and keys.\<close>

datatype state_op =
    SSet "nat \<Rightarrow> string option" int string string
  | SModify "nat \<Rightarrow> string option" int string string
  | SDelete "nat \<Rightarrow> string option" string

definition state_step :: "state_op \<Rightarrow> state_table \<Rightarrow> state_table" where
  "state_step op kv =
     (case op of
        SSet stack now key val \<Rightarrow> st_Set stack now key val kv
      | SModify stack now key val \<Rightarrow> snd (st_Modify stack now key val kv)
      | SDelete stack key \<Rightarrow> snd (st_Delete stack key kv))"

fun op_key :: "state_op \<Rightarrow> string \<times> string" where
  "op_key (SSet stack now key val) = (key, getCaller stack)"
| "op_key (SModify stack now key val) = (key, getCaller stack)"
| "op_key (SDelete stack key) = (key, getCaller stack)"

lemma state_step_other: "op_key op \<noteq> k \<Longrightarrow> state_step op kv k = kv k"
  by (cases op) (auto simp: state_step_def st_Set_def st_Modify_def st_Delete_def split: option.splits)

lemma fold_state_step_other: "\<forall>op\<in>set ops. op_key op \<noteq> k \<Longrightarrow> fold state_step ops kv k = kv k"
  by (induction ops arbitrary: kv) (auto simp: state_step_other)

lemma split_last_append: "c \<notin> set b \<Longrightarrow> split_last c (a @ c # b) = Some (a, b)"
proof -
  assume "c \<notin> set b"
  then have "takeWhile (\<lambda>x. x \<noteq> c) (rev b @ c # rev a) = rev b" "dropWhile (\<lambda>x. x \<noteq> c) (rev b @ c # rev a) = c # rev a"
    by (subst takeWhile_append2 dropWhile_append2; auto)+
  then show ?thesis by (simp add: split_last_def)
qed

lemma split_last_none: "c \<notin> set s \<Longrightarrow> split_last c s = None"
  by (simp add: split_last_def)

text \<open>The last dot is in the name of the function or before it; the package is what stands before the first dot after the last slash.\<close>

lemma last_dot:
  obtains before after where "split_last CHR ''.'' (a @ pkg @ CHR ''.'' # fn) = Some (a @ pkg @ before, after)"
    "before = [] \<or> (\<exists>t. before = CHR ''.'' # t \<and> set t \<subseteq> set fn)"
proof (cases "CHR ''.'' \<in> set fn")
  case False
  then show ?thesis using split_last_append [of "CHR ''.''" fn "a @ pkg"] that [of "[]" fn] by simp
next
  case True
  from split_list_last [OF this] obtain t u where "fn = t @ CHR ''.'' # u" "CHR ''.'' \<notin> set u" by blast
  then show ?thesis using split_last_append [of "CHR ''.''" u "a @ pkg @ CHR ''.'' # t"] that [of "CHR ''.'' # t" u] by auto
qed

lemma package_of_in: "in_package name pkg \<Longrightarrow> package_of name = pkg"
proof -
  assume "in_package name pkg"
  then obtain dir fn where pkg: "CHR ''.'' \<notin> set pkg" "CHR ''/'' \<notin> set pkg" and fn: "CHR ''/'' \<notin> set fn"
    and name: "name = [] @ pkg @ CHR ''.'' # fn \<or> name = (dir @ ''/'') @ pkg @ CHR ''.'' # fn"
    by (auto simp: in_package_def)
  then obtain a where a: "name = a @ pkg @ CHR ''.'' # fn" "a = [] \<or> a = dir @ ''/''" by blast
  obtain before after where last: "split_last CHR ''.'' name = Some (a @ pkg @ before, after)"
    and before: "before = [] \<or> (\<exists>t. before = CHR ''.'' # t \<and> set t \<subseteq> set fn)"
    using last_dot a(1) by metis
  have "CHR ''/'' \<notin> set (pkg @ before)" using before pkg fn by auto
  moreover have "hd (split (pkg @ before) CHR ''.'') = pkg"
    using before pkg by (auto simp: split_no_sep split_append)
  ultimately show ?thesis using a(2) last split_last_append [of "CHR ''/''" "pkg @ before" dir]
    by (auto simp: package_of_def split_last_none)
qed

lemma getCaller_from: "caller_called_from stack pkg \<Longrightarrow> getCaller stack = pkg"
  by (auto simp: caller_called_from_def getCaller_def frames_def numeral_3_eq_3 package_of_in)

fun op_stack :: "state_op \<Rightarrow> nat \<Rightarrow> string option" where
  "op_stack (SSet stack now key val) = stack"
| "op_stack (SModify stack now key val) = stack"
| "op_stack (SDelete stack key) = stack"

lemma op_key_stack: "op_key op = (fst (op_key op), getCaller (op_stack op))"
  by (cases op) simp_all

text \<open>
  C17. The namespace of an operation is the package of the function that called the function that uses the table (the caller's
  caller, not, as the comment of \<open>Get\<close> says, the package that called it). A value set this way from a package is what \<open>Get\<close>
  returns, with its timestamp, to every function called from that package, and \<open>GetFromNamespace\<close> and \<open>GetAll\<close> under the name
  of the package, after any operations on other keys or by functions called from other packages; a function called from
  another package finds under the key what it would have found before.
\<close>

theorem state_table_isolation:
  assumes "caller_called_from setter pkg" "caller_called_from getter pkg"
    and "caller_called_from other q" "q \<noteq> pkg"
    and "\<forall>op\<in>set ops. fst (op_key op) = key \<longrightarrow> (\<exists>p. caller_called_from (op_stack op) p \<and> p \<noteq> pkg)"
  shows "let kv' = fold state_step ops (st_Set setter now key val kv) in
     st_Get getter key kv' = Inr (val, now) \<and> GetFromNamespace key pkg kv' = Inr (val, now) \<and> st_GetAll pkg kv' key = Some val \<and>
     st_Get other key (st_Set setter now key val kv) = st_Get other key kv"
proof -
  have "op_key op \<noteq> (key, pkg)" if "op \<in> set ops" for op
    using assms(5) that op_key_stack [of op] getCaller_from by (metis fst_conv snd_conv)
  then have "fold state_step ops kv'' (key, pkg) = kv'' (key, pkg)" for kv''
    by (intro fold_state_step_other) blast
  then show ?thesis using assms(4)
    by (simp add: Let_def st_Get_def GetFromNamespace_def st_GetAll_def st_Set_def getCaller_from [OF assms(1)]
        getCaller_from [OF assms(2)] getCaller_from [OF assms(3)])
qed

text \<open>\<open>addToRouteTable\<close> of the route manager, called from \<open>UpdateRouteTable\<close>, and a handler of the management server.\<close>

definition route_stack :: "nat \<Rightarrow> string option" where
  "route_stack = frames [''net-perf/internal/system.getCaller'', ''net-perf/internal/system.(*StateTable).Set'',
     ''net-perf/internal/route.(*RouteManager).addToRouteTable'', ''net-perf/internal/route.(*RouteManager).UpdateRouteTable'', ''runtime.goexit'']"

definition server_stack :: "nat \<Rightarrow> string option" where
  "server_stack = frames [''net-perf/internal/system.getCaller'', ''net-perf/internal/system.(*StateTable).Get'',
     ''net-perf/internal/route.helper'', ''net-perf/internal/server.(*server).handle'', ''runtime.goexit'']"

lemma sample_stacks: "caller_called_from route_stack ''route''" "caller_called_from server_stack ''server''"
proof -
  have "in_package ''net-perf/internal/route.(*RouteManager).UpdateRouteTable'' ''route''" unfolding in_package_def
    by (intro conjI exI [of _ "''net-perf/internal''"] exI [of _ "''(*RouteManager).UpdateRouteTable''"]) simp_all
  moreover have "in_package ''net-perf/internal/server.(*server).handle'' ''server''" unfolding in_package_def
    by (intro conjI exI [of _ "''net-perf/internal''"] exI [of _ "''(*server).handle''"]) simp_all
  ultimately show "caller_called_from route_stack ''route''" "caller_called_from server_stack ''server''"
    unfolding caller_called_from_def route_stack_def server_stack_def by blast+
qed

theorem state_table_isolation_witness:
  "st_Get route_stack ''k'' (fold state_step [SDelete server_stack ''k''] (st_Set route_stack 7 ''k'' ''v'' Map.empty)) = Inr (''v'', 7) \<and>
   st_Get server_stack ''k'' (st_Set route_stack 7 ''k'' ''v'' Map.empty) = Inl (Err ErrNoKey)"
  using state_table_isolation [OF sample_stacks(1,1,2), of "[SDelete server_stack ''k'']" "''k''" 7 "''v''" Map.empty] sample_stacks(2)
  by (auto simp: Let_def st_Get_def)

end
