(* ===== verification/Bird.thy ===== *)
theory Bird
  imports System
begin

text \<open>
  \<^verbatim>\<open>internal/route/routers\<close>: the routes and the configuration of a BGP daemon, and \<open>bird.go\<close>, which reads
  them from the control socket and the configuration file of BIRD. The socket is a parameter: dialling it
  fails, or gives the lines BIRD will send; reading past the last one is an error (the deadline of ten seconds). What
  is written to the hash is kept as its bytes.
\<close>

section \<open>routers.go and config.go\<close>

record bgp_path =
  bp_AS :: int
  bp_ASPath :: "int list"
  bp_Next :: "ip option"
  bp_Interface :: string
  bp_MED :: int
  bp_LocalPreference :: int
  bp_OriginType :: string

record bgp_route =
  br_Network :: "ipnet option"
  br_Paths :: "bgp_path list"
  br_OriginAS :: int

record router_config =
  cf_ASNumber :: int

definition no_path :: bgp_path where
  "no_path = \<lparr>bp_AS = 0, bp_ASPath = [], bp_Next = None, bp_Interface = [], bp_MED = 0, bp_LocalPreference = 0, bp_OriginType = []\<rparr>"

definition no_route :: bgp_route where
  "no_route = \<lparr>br_Network = None, br_Paths = [], br_OriginAS = 0\<rparr>"

section \<open>GetConfig\<close>

text \<open>The expression \<open>local\s+as\s+(\d+)\<close> at the start of a text, and its leftmost match.\<close>

definition re_space :: "char \<Rightarrow> bool" where
  "re_space c \<longleftrightarrow> is_space c \<and> (of_char c :: nat) \<noteq> 11"

definition spaces_then :: "string \<Rightarrow> string \<Rightarrow> string option" where
  "spaces_then word s =
     (let r = dropWhile re_space s
      in if r = s \<or> \<not> has_prefix r word then None else Some (drop (length word) r))"

definition local_as_here :: "string \<Rightarrow> string option" where
  "local_as_here s =
     (if \<not> has_prefix s ''local'' then None
      else (case spaces_then ''as'' (drop 5 s) of
              None \<Rightarrow> None
            | Some r \<Rightarrow>
                (case spaces_then [] r of
                   None \<Rightarrow> None
                 | Some t \<Rightarrow> (let ds = takeWhile is_digit t in if ds = [] then None else Some ds))))"

fun local_as :: "string \<Rightarrow> string option" where
  "local_as [] = None"
| "local_as (c # s) = (case local_as_here (c # s) of Some ds \<Rightarrow> Some ds | None \<Rightarrow> local_as s)"

definition config_line :: "string \<Rightarrow> router_config \<Rightarrow> router_config go" where
  "config_line line config =
     (if contains line ''local as''
      then (case local_as line of
              None \<Rightarrow> Inr config
            | Some ds \<Rightarrow>
                (case atoi ds of
                   None \<Rightarrow> Inl (Err (Errorf ''error parsing AS number''))
                 | Some n \<Rightarrow> Inr (config\<lparr>cf_ASNumber := n\<rparr>)))
      else Inr config)"

text \<open>\<open>open_file\<close> is what opening and scanning a file gives: its lines and the error the scan ends with, if any.\<close>

definition GetConfig ::
    "(string \<Rightarrow> go_error + string list \<times> go_error option) \<Rightarrow> string \<Rightarrow> router_config go" where
  "GetConfig open_file mode =
     (case open_file (''/etc/bird/bird'' @ (if mode = ''v6'' then ''6'' else []) @ ''.conf'') of
        Inl e \<Rightarrow> Inl (Err (Errorf ''error opening file''))
      | Inr (lines, scan_err) \<Rightarrow>
          go_bind (go_fold config_line lines \<lparr>cf_ASNumber = 0\<rparr>)
            (\<lambda>config. case scan_err of
                        Some e \<Rightarrow> Inl (Err (Errorf ''error reading file''))
                      | None \<Rightarrow> Inr config))"

section \<open>The bytes of the hash\<close>

definition u32_bytes :: "int \<Rightarrow> string" where
  "u32_bytes i = map (\<lambda>k. char_of (nat (i div 256 ^ k mod 256))) [0..<4]"

definition path_bytes :: "bgp_path \<Rightarrow> string" where
  "path_bytes p =
     (case bp_Next p of Some nxt \<Rightarrow> ip_string nxt | None \<Rightarrow> []) @ bp_Interface p @
     u32_bytes (bp_AS p) @ u32_bytes (bp_LocalPreference p) @ u32_bytes (bp_MED p) @ bp_OriginType p @
     concat (map u32_bytes (bp_ASPath p))"

definition net_bytes :: "bgp_route \<Rightarrow> string" where
  "net_bytes r = (case br_Network r of Some n \<Rightarrow> ipnet_string n | None \<Rightarrow> []) @ u32_bytes (br_OriginAS r)"

section \<open>GetRoutes\<close>

record bird_state =
  bs_route :: bgp_route
  bs_routes :: "bgp_route list"
  bs_path :: bgp_path
  bs_isBGP :: bool
  bs_hash :: string

definition bird_init :: bird_state where
  "bird_init = \<lparr>bs_route = no_route, bs_routes = [], bs_path = no_path, bs_isBGP = False, bs_hash = []\<rparr>"

definition has_hop :: "bgp_path \<Rightarrow> bool" where
  "has_hop p \<longleftrightarrow> bp_Next p \<noteq> None \<or> bp_Interface p \<noteq> []"

definition add_path :: "bgp_path \<Rightarrow> bgp_route \<Rightarrow> bgp_route" where
  "add_path p r = r\<lparr>br_Paths := br_Paths r @ [p]\<rparr>"

text \<open>Complete the previous path, and before a new route the previous route.\<close>

definition complete_path :: "bird_state \<Rightarrow> bird_state" where
  "complete_path s =
     (if has_hop (bs_path s)
      then s\<lparr>bs_route := add_path (bs_path s) (bs_route s), bs_hash := bs_hash s @ path_bytes (bs_path s), bs_path := no_path\<rparr>
      else s)"

definition complete_route :: "bird_state \<Rightarrow> bird_state" where
  "complete_route s =
     (if br_Network (bs_route s) \<noteq> None
      then s\<lparr>bs_routes := bs_routes s @ [bs_route s], bs_hash := bs_hash s @ net_bytes (bs_route s), bs_route := no_route\<rparr>
      else s)"

definition set_hop :: "string list \<Rightarrow> bird_state \<Rightarrow> bird_state go" where
  "set_hop splits s =
     go_bind (go_index splits 2) (\<lambda>hop. go_bind (go_index splits 4)
       (\<lambda>dev. Inr (s\<lparr>bs_path := (bs_path s)\<lparr>bp_Next := ParseIP hop, bp_Interface := dev\<rparr>\<rparr>)))"

text \<open>The first digits of the last field are the origin.\<close>

definition origin_as :: "string list \<Rightarrow> int go" where
  "origin_as splits =
     (let match = takeWhile is_digit (dropWhile (\<lambda>c. \<not> is_digit c) (last splits))
      in if match = [] then Inr 0
         else (case atoi match of
                 None \<Rightarrow> Inl (Err (Wrapf ''failed to parse origin AS'' (Errorf ''strconv.Atoi'')))
               | Some n \<Rightarrow> Inr n))"

definition type_prefix :: string where
  "type_prefix = ''1008-'' @ [CHR 0x09] @ ''Type:''"

definition start_route :: "string list \<Rightarrow> string \<Rightarrow> string \<Rightarrow> bird_state \<Rightarrow> bird_state go" where
  "start_route splits rt nextLine s =
     (let typeFields = Strings.fields (split_n2 nextLine '':'' ! 1)
      in if typeFields \<noteq> [] \<and> trim_space (hd typeFields) = ''BGP''
         then
           let r = (bs_route s)\<lparr>br_Network := ParseCIDR rt\<rparr>
           in go_bind (if br_OriginAS r = 0 then origin_as splits else Inr (br_OriginAS r))
                (\<lambda>asn. set_hop splits (s\<lparr>bs_isBGP := True, bs_route := r\<lparr>br_OriginAS := asn\<rparr>\<rparr>))
         else Inr (s\<lparr>bs_isBGP := False\<rparr>))"

definition parse_as :: "string \<Rightarrow> string \<Rightarrow> int go" where
  "parse_as msg t =
     (case atoi (trim_space t) of None \<Rightarrow> Inl (Err (Wrapf msg (Errorf ''strconv.Atoi''))) | Some n \<Rightarrow> Inr n)"

definition as_path_step :: "nat \<times> string \<Rightarrow> bgp_path \<Rightarrow> bgp_path go" where
  "as_path_step ia p =
     go_bind (parse_as ''failed to parse AS path'' (snd ia))
       (\<lambda>n. Inr ((if fst ia = 0 then p\<lparr>bp_AS := n\<rparr> else p)\<lparr>bp_ASPath := bp_ASPath p @ [n]\<rparr>))"

text \<open>The attributes of a BGP path: \<open>split\<close> is the name and, where the line has a colon, the text after it.\<close>

definition path_attr :: "string list \<Rightarrow> bgp_path \<Rightarrow> bgp_path go" where
  "path_attr sp p =
     (let name = sp ! 0
      in if name = ''origin'' then go_bind (go_index sp 1) (\<lambda>v. Inr (p\<lparr>bp_OriginType := trim_space v\<rparr>))
         else if name = ''next_hop'' then
           go_bind (go_index sp 1) (\<lambda>v. go_bind (go_index (Strings.fields (trim_space v)) 0) (\<lambda>t. Inr (p\<lparr>bp_Next := ParseIP t\<rparr>)))
         else if name = ''as_path'' then
           go_bind (go_index sp 1)
             (\<lambda>v. if v \<noteq> [] then go_fold as_path_step (enumerate 0 (split (trim_space v) CHR '' '')) p
                  else Inr (p\<lparr>bp_ASPath := []\<rparr>))
         else if name = ''local_pref'' then
           go_bind (go_index sp 1)
             (\<lambda>v. go_bind (parse_as ''failed to parse local preference'' v) (\<lambda>n. Inr (p\<lparr>bp_LocalPreference := n\<rparr>)))
         else if name = ''med'' then
           go_bind (go_index sp 1)
             (\<lambda>v. go_bind (parse_as ''failed to parse MED'' v) (\<lambda>n. Inr (p\<lparr>bp_MED := n\<rparr>)))
         else Inr p)"

definition attr_line :: "string \<Rightarrow> bird_state \<Rightarrow> bird_state go" where
  "attr_line line s =
     (if (has_prefix line ''1012-'' \<or> has_prefix (trim_space line) ''BGP.'') \<and> bs_isBGP s
      then go_bind (go_index (split_n2 line ''BGP.'') 1)
             (\<lambda>half. go_bind (path_attr (split_n2 half '':'') (bs_path s)) (\<lambda>p. Inr (s\<lparr>bs_path := p\<rparr>)))
      else Inr s)"

text \<open>
  The loop at the label \<open>READLINE\<close> with the current line and the lines still to come. A next line that is no type line
  is dropped and the jump back handles the current line again.
\<close>

function bird_run :: "string \<Rightarrow> string list \<Rightarrow> bird_state \<Rightarrow> bird_state go" where
  "bird_run line lines s =
     (if has_prefix line ''0000'' then Inr s
      else
        let continue = (\<lambda>t. go_bind (attr_line line t)
              (\<lambda>t'. case lines of [] \<Rightarrow> Inr t' | l # ls \<Rightarrow> bird_run (trim_space l) ls t'))
        in if has_prefix line ''1007-''
           then
             let s1 = complete_path s; splits = Strings.fields line; rt = trim_prefix (hd splits) ''1007-''
             in if rt \<noteq> []
                then
                  let s2 = complete_route s1
                  in (case lines of
                        [] \<Rightarrow> Inl (Err (Errorf ''read''))
                      | next # rest \<Rightarrow>
                          (if has_prefix next type_prefix
                           then go_bind (start_route splits rt next s2)
                                  (\<lambda>t. go_bind (attr_line line t)
                                    (\<lambda>t'. case rest of [] \<Rightarrow> Inr t' | l # ls \<Rightarrow> bird_run (trim_space l) ls t'))
                           else bird_run line rest s2))
                else if bs_isBGP s1 then go_bind (set_hop splits s1) continue
                else continue s1
           else continue s)"
  by pat_completeness auto
termination by (relation "measure (\<lambda>(line, lines, s). length lines)") auto

declare bird_run.simps [simp del]

text \<open>After the loop the last route is completed, with its last path.\<close>

definition bird_finish :: "bird_state \<Rightarrow> bgp_route list \<times> string" where
  "bird_finish s =
     (if br_Network (bs_route s) \<noteq> None
      then let t = complete_route (complete_path s) in (bs_routes t, bs_hash t)
      else (bs_routes s, bs_hash s))"

definition bird_parse :: "string list \<Rightarrow> (bgp_route list \<times> string) go" where
  "bird_parse lines =
     go_bind (case lines of [] \<Rightarrow> Inr bird_init | l # ls \<Rightarrow> bird_run (trim_space l) ls bird_init)
       (\<lambda>s. Inr (bird_finish s))"

text \<open>\<open>connect\<close>: the lines after the welcome message.\<close>

definition connect :: "(string \<Rightarrow> go_error + string list) \<Rightarrow> string \<Rightarrow> string list go" where
  "connect dial mode =
     (case dial (if mode = ''v6'' then ''/run/bird/bird6.ctl'' else ''/run/bird/bird.ctl'') of
        Inl e \<Rightarrow> Inl (Err (Errorf ''error connecting to BIRD socket''))
      | Inr [] \<Rightarrow> Inl (Err (Errorf ''error reading welcome message''))
      | Inr (welcome # lines) \<Rightarrow>
          (if has_prefix welcome ''0001 '' then Inr lines else Inl (Err (Errorf ''invalid welcome message''))))"

definition bird_GetRoutes :: "(string \<Rightarrow> go_error + string list) \<Rightarrow> string \<Rightarrow> (bgp_route list \<times> string) go" where
  "bird_GetRoutes dial mode = go_bind (connect dial mode) bird_parse"

section \<open>What the result and its hash are\<close>

definition route_bytes :: "bgp_route \<Rightarrow> string" where
  "route_bytes r = concat (map path_bytes (br_Paths r)) @ net_bytes r"

definition routes_ok :: "bgp_route list \<Rightarrow> bool" where
  "routes_ok rs \<longleftrightarrow> (\<forall>r\<in>set rs. br_Network r \<noteq> None)"

text \<open>A line that opens a route: its network is not empty. A blank one is a further path of the same route.\<close>

definition opens_route :: "string \<Rightarrow> bool" where
  "opens_route line \<longleftrightarrow> has_prefix line ''1007-'' \<and> trim_prefix (hd (Strings.fields line)) ''1007-'' \<noteq> []"

definition net_parses :: "string \<Rightarrow> bool" where
  "net_parses line \<longleftrightarrow> (opens_route line \<longrightarrow> ParseCIDR (trim_prefix (hd (Strings.fields line)) ''1007-'') \<noteq> None)"

text \<open>Between two lines: the hash has the bytes of the completed routes and of the completed paths of the current one.\<close>

definition bird_hashed :: "bird_state \<Rightarrow> bool" where
  "bird_hashed s \<longleftrightarrow>
     bs_hash s = concat (map route_bytes (bs_routes s)) @ concat (map path_bytes (br_Paths (bs_route s))) \<and>
     routes_ok (bs_routes s)"

definition bird_clean :: "bird_state \<Rightarrow> bool" where
  "bird_clean s \<longleftrightarrow> (br_Network (bs_route s) = None \<longrightarrow> br_Paths (bs_route s) = [] \<and> \<not> has_hop (bs_path s))"

named_theorems bird_inv \<open>what the steps of the parser keep\<close>

lemma no_hop [simp]: "\<not> has_hop no_path"
  by (simp add: has_hop_def no_path_def)

lemma complete_path_inv [bird_inv]:
  "bird_hashed s \<Longrightarrow> bird_hashed (complete_path s)" "bird_clean s \<Longrightarrow> bird_clean (complete_path s)"
  "bs_isBGP (complete_path s) = bs_isBGP s" "\<not> has_hop (bs_path (complete_path s))"
  "br_Network (bs_route (complete_path s)) = br_Network (bs_route s)"
  by (auto simp: bird_hashed_def bird_clean_def complete_path_def add_path_def)

lemma complete_route_inv [bird_inv]:
  "bird_hashed s \<Longrightarrow> bird_hashed (complete_route s)"
  "bird_clean s \<Longrightarrow> \<not> has_hop (bs_path s) \<Longrightarrow> bird_clean (complete_route s)"
  "br_Network (bs_route (complete_route s)) = None"
  by (auto simp: bird_hashed_def bird_clean_def complete_route_def route_bytes_def no_route_def routes_ok_def)

lemma set_hop_inv:
  assumes "set_hop splits s = Inr t"
  shows "bird_hashed t = bird_hashed s \<and> bs_route t = bs_route s \<and> bs_isBGP t = bs_isBGP s"
  using assms by (auto simp: set_hop_def go_bind_eq_Inr bird_hashed_def)

lemma start_route_inv:
  assumes "start_route splits rt next s = Inr t" "bird_hashed s" "bird_clean s"
    and "ParseCIDR rt \<noteq> None" "br_Network (bs_route s) = None"
  shows "bird_hashed t \<and> bird_clean t \<and> (bs_isBGP t \<longrightarrow> br_Network (bs_route t) \<noteq> None)"
proof (cases "let ty = Strings.fields (split_n2 next '':'' ! 1) in ty \<noteq> [] \<and> trim_space (hd ty) = ''BGP''")
  case True
  then obtain asn where t: "set_hop splits (s\<lparr>bs_isBGP := True,
      bs_route := (bs_route s)\<lparr>br_Network := ParseCIDR rt, br_OriginAS := asn\<rparr>\<rparr>) = Inr t"
    using assms(1) by (auto simp: start_route_def Let_def go_bind_eq_Inr)
  from set_hop_inv [OF t] assms(2-4) show ?thesis by (auto simp: bird_hashed_def bird_clean_def)
next
  case False
  then have "t = s\<lparr>bs_isBGP := False\<rparr>" using assms(1) by (auto simp: start_route_def Let_def)
  with assms(2,3) show ?thesis by (auto simp: bird_hashed_def bird_clean_def)
qed

lemma attr_line_inv:
  assumes "attr_line line s = Inr t" "bird_hashed s" "bird_clean s" "bs_isBGP s \<longrightarrow> br_Network (bs_route s) \<noteq> None"
  shows "bird_hashed t \<and> bird_clean t \<and> (bs_isBGP t \<longrightarrow> br_Network (bs_route t) \<noteq> None)"
  using assms by (auto simp: attr_line_def go_bind_eq_Inr bird_hashed_def bird_clean_def split: if_splits)

definition bgp_bound :: "bird_state \<Rightarrow> bool" where
  "bgp_bound s \<longleftrightarrow> (bs_isBGP s \<longrightarrow> br_Network (bs_route s) \<noteq> None)"

text \<open>What a pass does after the \<open>1007-\<close> branch: the attributes, then the next line.\<close>

definition bird_next :: "string \<Rightarrow> string list \<Rightarrow> bird_state \<Rightarrow> bird_state go" where
  "bird_next line rest t =
     go_bind (attr_line line t) (\<lambda>t'. case rest of [] \<Rightarrow> Inr t' | l # ls \<Rightarrow> bird_run (trim_space l) ls t')"

lemma bird_run_opens:
  assumes "opens_route line"
  shows "bird_run line lines s =
    (case lines of
       [] \<Rightarrow> Inl (Err (Errorf ''read''))
     | next # rest \<Rightarrow>
         (if has_prefix next type_prefix
          then go_bind (start_route (Strings.fields line) (trim_prefix (hd (Strings.fields line)) ''1007-'') next
                 (complete_route (complete_path s))) (bird_next line rest)
          else bird_run line rest (complete_route (complete_path s))))"
proof -
  have "\<not> has_prefix line ''0000''" using assms by (auto simp: opens_route_def has_prefix_iff)
  then show ?thesis using assms by (subst bird_run.simps) (simp add: opens_route_def Let_def bird_next_def [abs_def] split: list.splits)
qed

lemma bird_run_other:
  assumes "\<not> opens_route line"
  shows "bird_run line lines s =
    (if has_prefix line ''0000'' then Inr s
     else if has_prefix line ''1007-''
       then (if bs_isBGP (complete_path s) then go_bind (set_hop (Strings.fields line) (complete_path s)) (bird_next line lines)
             else bird_next line lines (complete_path s))
     else bird_next line lines s)"
  using assms by (subst bird_run.simps) (simp add: opens_route_def Let_def bird_next_def [abs_def])

text \<open>The ways a run that succeeds goes on, and the rule they give for what holds at its end.\<close>

lemma bird_run_opens_cases:
  assumes "bird_run line lines s = Inr t" "opens_route line"
  obtains (missing) nxt rest where "lines = nxt # rest" "bird_run line rest (complete_route (complete_path s)) = Inr t"
  | (starts) nxt rest u where "lines = nxt # rest" "bird_next line rest u = Inr t"
      "start_route (Strings.fields line) (trim_prefix (hd (Strings.fields line)) ''1007-'') nxt (complete_route (complete_path s)) = Inr u"
proof (cases lines)
  case Nil
  then show thesis using assms(1) by (simp add: bird_run_opens [OF assms(2)])
next
  case (Cons nxt rest)
  then show thesis using assms(1) that by (auto simp: bird_run_opens [OF assms(2)] go_bind_eq_Inr split: if_splits)
qed

lemma bird_run_other_cases:
  assumes "bird_run line lines s = Inr t" "\<not> opens_route line"
  obtains (ends) "t = s"
  | (hop) u where "bs_isBGP s" "set_hop (Strings.fields line) (complete_path s) = Inr u" "bird_next line lines u = Inr t"
  | (path) "bird_next line lines (complete_path s) = Inr t"
  | (attribute) "bird_next line lines s = Inr t"
proof -
  have "s = t \<or> bird_next line lines (complete_path s) = Inr t \<or> bird_next line lines s = Inr t \<or>
      (\<exists>u. bs_isBGP s \<and> set_hop (Strings.fields line) (complete_path s) = Inr u \<and> bird_next line lines u = Inr t)"
    using assms(1) by (auto simp: bird_run_other [OF assms(2)] go_bind_eq_Inr bird_inv split: if_splits)
  with that show thesis by blast
qed

lemma bird_next_cases:
  assumes "bird_next line rest s = Inr t"
  obtains (ends) "rest = []" "attr_line line s = Inr t"
  | (goes_on) l ls u where "rest = l # ls" "attr_line line s = Inr u" "bird_run (trim_space l) ls u = Inr t"
  using assms that by (cases rest) (auto simp: bird_next_def go_bind_eq_Inr)

lemma bird_run_rule:
  assumes "bird_run line lines s = Inr t" "A s" "opens_route line \<or> B s" "L line" "\<forall>l\<in>set lines. L (trim_space l)"
    and closes: "\<And>s. A s \<Longrightarrow> A (complete_route (complete_path s))"
    and starts: "\<And>line nxt s u. start_route (Strings.fields line) (trim_prefix (hd (Strings.fields line)) ''1007-'') nxt
        (complete_route (complete_path s)) = Inr u \<Longrightarrow> opens_route line \<Longrightarrow> L line \<Longrightarrow> A s \<Longrightarrow> A u \<and> B u"
    and paths: "\<And>s. A s \<Longrightarrow> B s \<Longrightarrow> A (complete_path s) \<and> B (complete_path s)"
    and hops: "\<And>sp s u. set_hop sp (complete_path s) = Inr u \<Longrightarrow> bs_isBGP s \<Longrightarrow> A s \<Longrightarrow> B s \<Longrightarrow> A u \<and> B u"
    and attrs: "\<And>line s u. attr_line line s = Inr u \<Longrightarrow> A s \<Longrightarrow> B s \<Longrightarrow> A u \<and> B u"
  shows "A t"
  using assms(1-5)
proof (induction "length lines" arbitrary: line lines s rule: less_induct)
  case less
  have step: "A t" if n: "bird_next line rest u = Inr t" and u: "A u" "B u"
    and r: "length rest \<le> length lines" "set rest \<subseteq> set lines" for rest u
    using n
  proof (cases rule: bird_next_cases)
    case ends
    with attrs [OF ends(2) u] show ?thesis by simp
  next
    case (goes_on l ls u')
    from less.hyps [OF _ goes_on(3)] attrs [OF goes_on(2) u] goes_on(1) r less.prems(5) show ?thesis by auto
  qed
  show ?case
  proof (cases "opens_route line")
    case True
    from less.prems(1) True show ?thesis
    proof (cases rule: bird_run_opens_cases)
      case (missing nxt rest)
      from less.hyps [OF _ missing(2) closes [OF less.prems(2)]] missing(1) less.prems(4,5) True show ?thesis by simp
    next
      case (starts nxt rest u)
      with assms(7) [OF starts(3) True less.prems(4,2)] step [OF starts(2)] show ?thesis by auto
    qed
  next
    case False
    then have b: "B s" using less.prems(3) by simp
    from less.prems(1) False show ?thesis
    proof (cases rule: bird_run_other_cases)
      case (hop u)
      from step [OF hop(3)] hops [OF hop(2,1) less.prems(2) b] show ?thesis by simp
    qed (use step paths [OF less.prems(2) b] less.prems(2) b in auto)
  qed
qed

lemma bird_run_inv:
  assumes "bird_run line lines s = Inr t" "bird_hashed s" "bird_clean s" "opens_route line \<or> bgp_bound s"
    and "net_parses line" "\<forall>l\<in>set lines. net_parses (trim_space l)"
  shows "bird_hashed t \<and> bird_clean t"
proof (rule bird_run_rule [where A = "\<lambda>s. bird_hashed s \<and> bird_clean s" and B = bgp_bound and L = net_parses, OF assms(1) _ assms(4-6)])
  show "bird_hashed s \<and> bird_clean s" using assms(2,3) by simp
  show closed: "bird_hashed (complete_route (complete_path s)) \<and> bird_clean (complete_route (complete_path s))"
    if "bird_hashed s \<and> bird_clean s" for s using that bird_inv by blast
  show "(bird_hashed u \<and> bird_clean u) \<and> bgp_bound u"
    if "start_route (Strings.fields line) (trim_prefix (hd (Strings.fields line)) ''1007-'') nxt (complete_route (complete_path s)) = Inr u"
      "opens_route line" "net_parses line" "bird_hashed s \<and> bird_clean s" for line nxt s u
    using start_route_inv [OF that(1)] closed [OF that(4)] that(2,3) complete_route_inv(3) by (auto simp: bgp_bound_def net_parses_def)
  show "(bird_hashed (complete_path s) \<and> bird_clean (complete_path s)) \<and> bgp_bound (complete_path s)"
    if "bird_hashed s \<and> bird_clean s" "bgp_bound s" for s
    using that bird_inv by (simp add: bgp_bound_def)
  show "(bird_hashed u \<and> bird_clean u) \<and> bgp_bound u"
    if "set_hop sp (complete_path s) = Inr u" "bs_isBGP s" "bird_hashed s \<and> bird_clean s" "bgp_bound s" for sp s u
    using set_hop_inv [OF that(1)] that(2-) by (auto simp: bird_clean_def bgp_bound_def bird_inv)
  show "(bird_hashed u \<and> bird_clean u) \<and> bgp_bound u"
    if "attr_line line s = Inr u" "bird_hashed s \<and> bird_clean s" "bgp_bound s" for line s u
    using attr_line_inv [OF that(1)] that(2-) by (simp add: bgp_bound_def)
qed

text \<open>What every step of the parser keeps holds at its end.\<close>

lemma bird_run_keeps:
  assumes "bird_run line lines s = Inr t" "P s"
    and "\<And>s. P s \<Longrightarrow> P (complete_path s)" "\<And>s. P s \<Longrightarrow> P (complete_route s)"
    and "\<And>sp s t. set_hop sp s = Inr t \<Longrightarrow> P s \<Longrightarrow> P t"
    and "\<And>sp rt nxt s t. start_route sp rt nxt s = Inr t \<Longrightarrow> P s \<Longrightarrow> P t"
    and "\<And>line s t. attr_line line s = Inr t \<Longrightarrow> P s \<Longrightarrow> P t"
  shows "P t"
  by (rule bird_run_rule [where A = P and B = "\<lambda>_. True" and L = "\<lambda>_. True", OF assms(1,2)]) (use assms(3-7) in blast)+

text \<open>A type line that never comes: every line is dropped, the end of the table included.\<close>

lemma bird_run_lost:
  assumes "opens_route line" "\<forall>l\<in>set lines. \<not> has_prefix l type_prefix"
  shows "bird_run line lines s = Inl (Err (Errorf ''read''))"
  using assms(2) by (induction lines arbitrary: s) (simp_all add: bird_run_opens [OF assms(1)])

section \<open>Properties\<close>

text \<open>
  C16. When every network BIRD prints parses, the hash of a successful \<open>GetRoutes\<close> covers exactly the routes it returns: its
  bytes are those of each route's paths, network and origin, in order, and every returned route has a network.
\<close>

theorem bird_GetRoutes_hash:
  assumes "bird_GetRoutes dial mode = Inr (routes, h)" "connect dial mode = Inr lines"
    and "\<forall>l\<in>set lines. net_parses (trim_space l)"
  shows "h = concat (map route_bytes routes) \<and> routes_ok routes"
proof -
  obtain s where s: "(case lines of [] \<Rightarrow> Inr bird_init | l # ls \<Rightarrow> bird_run (trim_space l) ls bird_init) = Inr s"
    and fin: "bird_finish s = (routes, h)"
    using assms(1,2) by (auto simp: bird_GetRoutes_def bird_parse_def go_bind_eq_Inr)
  have init: "bird_hashed bird_init" "bird_clean bird_init" "bgp_bound bird_init"
    by (simp_all add: bird_init_def bird_hashed_def bird_clean_def bgp_bound_def routes_ok_def no_route_def)
  have inv: "bird_hashed s \<and> bird_clean s"
  proof (cases lines)
    case Nil
    with s init show ?thesis by simp
  next
    case (Cons l ls)
    with s init assms(3) show ?thesis by (intro bird_run_inv [of "trim_space l" ls bird_init s]) auto
  qed
  show ?thesis
  proof (cases "br_Network (bs_route s) = None")
    case True
    with inv fin show ?thesis by (auto simp: bird_finish_def bird_hashed_def bird_clean_def)
  next
    case False
    let ?t = "complete_route (complete_path s)"
    have "bird_hashed ?t" using inv bird_inv by blast
    moreover have "br_Paths (bs_route ?t) = []" using False by (simp add: complete_route_def no_route_def bird_inv)
    ultimately show ?thesis using False fin by (auto simp: bird_finish_def bird_hashed_def Let_def)
  qed
qed

text \<open>
  A route line whose next line is no type line swallows the lines after it: without a later type line the end
  of the table is skipped as well, and \<open>GetRoutes\<close> fails, although BIRD has answered completely.
\<close>

lemma bird_type_line_missing:
  assumes "opens_route (trim_space l)" "\<forall>l'\<in>set ls. \<not> has_prefix l' type_prefix"
  shows "bird_parse (l # ls) = Inl (Err (Errorf ''read''))"
  using assms by (simp add: bird_parse_def bird_run_lost)

definition newline :: string where
  "newline = [CHR 0x0A]"

lemma eval_line:
  "trim_space (''1007-10.0.0.0/8 via 10.0.0.1 on eth0'' @ newline) = ''1007-10.0.0.0/8 via 10.0.0.1 on eth0''"
  "opens_route ''1007-10.0.0.0/8 via 10.0.0.1 on eth0''"
  "has_prefix (''0000 '' @ newline) type_prefix = False"
  by code_simp+

lemma bird_type_line_missing_witness:
  "bird_parse [''1007-10.0.0.0/8 via 10.0.0.1 on eth0'' @ newline, ''0000 '' @ newline] = Inl (Err (Errorf ''read''))"
  by (rule bird_type_line_missing) (simp_all only: eval_line list.set ball_simps simp_thms)

definition sample_bird :: "string \<Rightarrow> go_error + string list" where
  "sample_bird addr = Inr
     [''0001 BIRD 1.6.8 ready.'' @ newline,
      ''1007-10.0.0.0/8 via 10.0.0.1 on eth0 [b1 2024] * (100) [AS65001i]'' @ newline,
      type_prefix @ '' BGP unicast univ'' @ newline,
      ''1012-'' @ [CHR 0x09] @ ''BGP.origin: IGP'' @ newline,
      [CHR 0x09] @ ''BGP.as_path: 65002 65001'' @ newline,
      ''1007-         via 10.0.0.2 on eth1 [b2 2024] (100) [AS65001i]'' @ newline,
      ''0000 '' @ newline]"

definition sample_routes :: "bgp_route list" where
  "sample_routes =
     [\<lparr>br_Network = Some \<lparr>net_ip = V4 10 0 0 0, net_len = 8\<rparr>,
       br_Paths =
         [\<lparr>bp_AS = 65002, bp_ASPath = [65002, 65001], bp_Next = Some (V4 10 0 0 1), bp_Interface = ''eth0'', bp_MED = 0,
           bp_LocalPreference = 0, bp_OriginType = ''IGP''\<rparr>,
          \<lparr>bp_AS = 0, bp_ASPath = [], bp_Next = Some (V4 10 0 0 2), bp_Interface = ''eth1'', bp_MED = 0,
           bp_LocalPreference = 0, bp_OriginType = []\<rparr>],
       br_OriginAS = 65001\<rparr>]"

lemma sample_bird_connect: "connect sample_bird ''v4'' = Inr (tl (case sample_bird [] of Inr l \<Rightarrow> l | Inl e \<Rightarrow> []))"
  by code_simp

lemma sample_bird_nets: "list_all (\<lambda>l. net_parses (trim_space l)) (tl (case sample_bird [] of Inr l \<Rightarrow> l | Inl e \<Rightarrow> []))"
  by code_simp
lemma sample_bird_routes: "map_sum id fst (bird_GetRoutes sample_bird ''v4'') = Inr sample_routes"
  by code_simp

theorem bird_GetRoutes_hash_witness:
  "bird_GetRoutes sample_bird ''v4'' = Inr (sample_routes, concat (map route_bytes sample_routes))"
proof -
  obtain h where h: "bird_GetRoutes sample_bird ''v4'' = Inr (sample_routes, h)"
    using sample_bird_routes by (cases "bird_GetRoutes sample_bird ''v4''") auto
  then have "h = concat (map route_bytes sample_routes) \<and> routes_ok sample_routes"
    by (rule bird_GetRoutes_hash [OF _ sample_bird_connect]) (use sample_bird_nets in \<open>simp only: list_all_iff\<close>)
  with h show ?thesis by simp
qed

end
