(* ===== verification/RouteManager.thy ===== *)
theory RouteManager
  imports Centralised Bird
begin

text \<open>
  \<^verbatim>\<open>internal/route\<close>: the route manager of \<open>route.go\<close>, its algorithms in \<open>algorithm.go\<close> and the interface to the other
  services in \<open>interface.go\<close>. Timeouts are not modelled, and logging is left out. The route manager and the centralised
  router hold the same graph.
\<close>

section \<open>State and environment\<close>

record 'k rm_env =
  re_central :: central_env
  re_nl :: "'k netlink"
  re_dial :: "nat \<Rightarrow> string \<Rightarrow> go_error + string list"
  re_open :: "string \<Rightarrow> go_error + string list \<times> go_error option"
  re_outbound :: "(ip \<times> ip) go"
  re_order :: "nat \<Rightarrow> (string \<rightharpoonup> kernel_route) \<Rightarrow> string list"
  re_interval :: int
  re_stack :: "nat \<Rightarrow> string option"
  re_disableCentralised :: bool

record 'k rm_world = central_world +
  rm_siteID :: int
  rm_ASNumber :: int
  rm_outboundV4 :: "ip option"
  rm_outboundV6 :: "ip option"
  rm_RouteTable :: route_table
  rm_graphReady :: bool
  rm_PathMap :: "string \<rightharpoonup> ip option"
  rm_hasCentral :: bool
  rm_stateTable :: state_table
  rm_updates :: nat
  rm_kernel :: 'k

abbreviation re_net :: "('k, 'e) rm_env_scheme \<Rightarrow> env" where
  "re_net E \<equiv> ce_net (re_central E)"

definition CustomRouteProtocol :: int where
  "CustomRouteProtocol = 201"

definition NewRouteManager ::
    "int \<Rightarrow> route_table \<Rightarrow> ('k, 'z) rm_world_scheme \<Rightarrow> ('k, 'z) rm_world_scheme" where
  "NewRouteManager site rt w =
     w\<lparr>the_graph := None, rm_siteID := site, rm_ASNumber := 0, rm_outboundV4 := None, rm_outboundV6 := None,
       rm_RouteTable := rt, rm_graphReady := False, rm_PathMap := Map.empty, rm_hasCentral := False\<rparr>"

text \<open>Operations of the kernel, of the BGP daemon and of the graph in the state of the manager.\<close>

definition on_kernel :: "('k, 'a) proc \<Rightarrow> (('k, 'z) rm_world_scheme, 'a) proc" where
  "on_kernel m w = (case m (rm_kernel w) of (r, k) \<Rightarrow> (r, w\<lparr>rm_kernel := k\<rparr>))"

definition read :: "('s \<Rightarrow> 'a) \<Rightarrow> ('s, 'a) proc" where
  "read f s = (Inr (f s), s)"

definition update :: "('s \<Rightarrow> 's) \<Rightarrow> ('s, unit) proc" where
  "update f s = (Inr (), f s)"

definition add_route :: "ipnet option \<Rightarrow> ip option \<Rightarrow> (('k, 'z) rm_world_scheme, unit) proc" where
  "add_route d gw = update (\<lambda>w. w\<lparr>rm_RouteTable := AddRoute d gw (rm_RouteTable w)\<rparr>)"

definition router_routes :: "('k, 'e) rm_env_scheme \<Rightarrow> string \<Rightarrow> ('z world_scheme, bgp_route list) proc" where
  "router_routes E mode = bind next_tick (\<lambda>n. lift_go (go_bind (bird_GetRoutes (re_dial E n) mode) (\<lambda>(rs, h). Inr rs)))"

definition shortest_path :: "int \<Rightarrow> int \<Rightarrow> ('z graph_world_scheme, int list \<times> float64) proc" where
  "shortest_path s t w =
     (case GetShortestPath (the_graph w) s t of
        None \<Rightarrow> (Inl (Panic NoReturn), w)
      | Some (r, g) \<Rightarrow> (r, w\<lparr>the_graph := g\<rparr>))"

definition need_network :: "bgp_route \<Rightarrow> ('s, ipnet) proc" where
  "need_network r = (case br_Network r of None \<Rightarrow> throw (Panic NilDereference) | Some n \<Rightarrow> ret n)"

section \<open>algorithm.go\<close>

definition siteIDToAS :: "int \<Rightarrow> int" where
  "siteIDToAS siteID = siteID + 64512"

definition asToSiteID :: "int \<Rightarrow> int" where
  "asToSiteID as_number = as_number - 64512"

fun total_cost :: "env \<Rightarrow> int \<Rightarrow> int list \<Rightarrow> float64 \<Rightarrow> ('z cost_world_scheme, float64) proc" where
  "total_cost E prev [] acc = ret acc"
| "total_cost E prev (a # rest) acc =
     bind (GetPathCost E prev a)
       (\<lambda>c. if c = PInf then ret PInf else total_cost E a rest (fadd acc (fadd c (Fin 10))))"

definition calculateTotalCost :: "env \<Rightarrow> int list \<Rightarrow> (('k, 'z) rm_world_scheme, float64) proc" where
  "calculateTotalCost E asPath = bind (read rm_ASNumber) (\<lambda>local. total_cost E local asPath (Fin 0))"

record lowest =
  lo_chosen :: nat
  lo_shortest :: nat
  lo_cost :: float64
  lo_len :: int

definition lowest_step :: "env \<Rightarrow> nat \<times> bgp_path \<Rightarrow> lowest \<Rightarrow> (('k, 'z) rm_world_scheme, lowest) proc" where
  "lowest_step E ip s =
     (let i = fst ip; asPath = bp_ASPath (snd ip);
          s1 = (if int (length asPath) < lo_len s then s\<lparr>lo_len := int (length asPath), lo_shortest := i\<rparr> else s)
      in attempt (calculateTotalCost E asPath)
           (\<lambda>r. case r of
              Inl e \<Rightarrow> ret s1
            | Inr c \<Rightarrow> ret (if flt c (lo_cost s1) then s1\<lparr>lo_cost := c, lo_chosen := i\<rparr> else s1)))"

definition lowest_index :: "env \<Rightarrow> bgp_path list \<Rightarrow> (('k, 'z) rm_world_scheme, nat) proc" where
  "lowest_index E paths =
     bind (for_each (lowest_step E) (enumerate 0 paths)
             \<lparr>lo_chosen = 0, lo_shortest = 0, lo_cost = PInf, lo_len = 2 ^ 63 - 1\<rparr>)
       (\<lambda>s. ret (if feq (lo_cost s) PInf then lo_shortest s else lo_chosen s))"

definition selectLowestCostBGPPath ::
    "('k, 'e) rm_env_scheme \<Rightarrow> bgp_route \<Rightarrow> (('k, 'z) rm_world_scheme, unit) proc" where
  "selectLowestCostBGPPath E r =
     bind (lowest_index (re_net E) (br_Paths r)) (\<lambda>i.
     bind (lift_go (go_index (br_Paths r) (int i))) (\<lambda>p.
     bind (read rm_ASNumber) (\<lambda>local.
     bind (if bp_ASPath p = [] \<or> hd (bp_ASPath p) = local
           then wrap ''error removing route'' (on_kernel (RemoveRoute (re_nl E) (br_Network r) CustomRouteProtocol))
           else ret ()) (\<lambda>u.
     if bp_ASPath p = [] \<or> \<not> has_prefix (bp_Interface p) ''wg'' then ret ()
     else add_route (br_Network r) (bp_Next p)))))"

text \<open>
  The neighbour of the origin with the cheapest path, for an origin outside the AS numbers of the sites: \<open>None\<close> when the
  route leaves through a local interface, otherwise the AS found, or the one given when no path has two.
\<close>

fun origin_search :: "bgp_path list \<Rightarrow> float64 \<Rightarrow> int \<Rightarrow> (('k, 'z) rm_world_scheme, int option) proc" where
  "origin_search [] best origin = ret (Some origin)"
| "origin_search (p # ps) best origin =
     (if has_prefix (bp_Interface p) ''en'' then ret None
      else if length (bp_ASPath p) < 2 then origin_search ps best origin
      else
        let x = bp_ASPath p ! (length (bp_ASPath p) - 2)
        in bind (read rm_ASNumber) (\<lambda>local.
           bind (wrap ''error getting shortest path'' (shortest_path (asToSiteID local) (asToSiteID x)))
             (\<lambda>(path, c). if flt c best then origin_search ps c x else origin_search ps best origin)))"

definition findSiteGW :: "('k, 'e) rm_env_scheme \<Rightarrow> string \<Rightarrow> int \<Rightarrow> ('z world_scheme, ip option) proc" where
  "findSiteGW E mode via =
     bind (wrap ''error getting routes'' (router_routes E mode))
       (\<lambda>routes. case filter (\<lambda>p. bp_ASPath p \<noteq> [] \<and> asToSiteID (hd (bp_ASPath p)) = via) (concat (map br_Paths routes)) of
                   [] \<Rightarrow> throw (Err (Errorf ''could not find gateway''))
                 | p # ps \<Rightarrow> ret (bp_Next p))"

definition mode_of :: "ipnet \<Rightarrow> string" where
  "mode_of n = (if is_v4 (net_ip n) then ''v4'' else ''v6'')"

definition gateway_key :: "string \<Rightarrow> int \<Rightarrow> string" where
  "gateway_key mode origin = mode @ ''-'' @ itoa origin"

definition graph_gateway ::
    "('k, 'e) rm_env_scheme \<Rightarrow> string \<Rightarrow> int \<Rightarrow> (('k, 'z) rm_world_scheme, ip option) proc" where
  "graph_gateway E mode originAS =
     bind (read (\<lambda>w. rm_PathMap w (gateway_key mode originAS)))
       (\<lambda>known. case known of
          Some gw \<Rightarrow> ret gw
        | None \<Rightarrow>
            bind (read rm_ASNumber) (\<lambda>local.
            bind (wrap ''error getting shortest path'' (shortest_path (asToSiteID local) (asToSiteID originAS)))
              (\<lambda>(path, c).
                 if length path < 2 then throw (Err (Errorf ''no path found''))
                 else bind (wrap ''error finding site gw'' (findSiteGW E mode (path ! 1)))
                   (\<lambda>gw. bind (update (\<lambda>w. w\<lparr>rm_PathMap := (rm_PathMap w)(gateway_key mode originAS \<mapsto> gw)\<rparr>))
                     (\<lambda>u. ret gw)))))"

definition graphBasedShortestPath ::
    "('k, 'e) rm_env_scheme \<Rightarrow> bgp_route \<Rightarrow> (('k, 'z) rm_world_scheme, unit) proc" where
  "graphBasedShortestPath E r =
     bind (if 65000 \<le> br_OriginAS r then origin_search (br_Paths r) PInf (br_OriginAS r) else ret (Some (br_OriginAS r)))
       (\<lambda>found. case found of
          None \<Rightarrow> ret ()
        | Some originAS \<Rightarrow>
            if 65000 \<le> originAS then throw (Err (Errorf ''no origin AS found''))
            else bind (read rm_ASNumber) (\<lambda>local.
              if originAS = local then ret ()
              else bind (need_network r) (\<lambda>n.
                bind (graph_gateway E (mode_of n) originAS) (add_route (Some n)))))"

definition site_as :: "int \<Rightarrow> bool" where
  "site_as a \<longleftrightarrow> 64512 \<le> a \<and> a < 65000"

definition centralisedBestPath ::
    "('k, 'e) rm_env_scheme \<Rightarrow> bgp_route \<Rightarrow> (('k, 'z) rm_world_scheme, unit) proc" where
  "centralisedBestPath E r =
     bind (if \<not> site_as (br_OriginAS r) then origin_search (br_Paths r) PInf (br_OriginAS r) else ret (Some (br_OriginAS r)))
       (\<lambda>found. case found of
          None \<Rightarrow> ret ()
        | Some originAS \<Rightarrow>
            if \<not> site_as originAS then throw (Err (Errorf ''no origin AS found''))
            else bind (read rm_ASNumber) (\<lambda>local.
              if originAS = local then ret ()
              else bind (need_network r) (\<lambda>n.
                bind (read (\<lambda>w. map_read (cr_siteRoutes w) (asToSiteID originAS))) (\<lambda>via.
                bind (wrap ''error finding site gw'' (findSiteGW E (mode_of n) via)) (add_route (Some n))))))"

section \<open>route.go\<close>

text \<open>\<open>updatedAt.After(time.Now().Add(-n * updateInterval))\<close>, for a router that is not nil.\<close>

definition central_fresh :: "('k, 'e) rm_env_scheme \<Rightarrow> int \<Rightarrow> (('k, 'z) rm_world_scheme, bool) proc" where
  "central_fresh E n =
     bind (read rm_hasCentral) (\<lambda>c. if \<not> c then ret False
       else bind (time_now (re_net E)) (\<lambda>now. read (\<lambda>w. now - re_interval E * n < cr_updatedAt w)))"

definition set_method :: "('k, 'e) rm_env_scheme \<Rightarrow> string \<Rightarrow> (('k, 'z) rm_world_scheme, unit) proc" where
  "set_method E val =
     bind (time_now (re_net E))
       (\<lambda>now. update (\<lambda>w. w\<lparr>rm_stateTable := st_Set (re_stack E) now ''update_method'' val (rm_stateTable w)\<rparr>))"

text \<open>One algorithm for a route: its error, if any. The warning names the address of the network.\<close>

definition try_algorithm :: "(('k, 'z) rm_world_scheme, unit) proc \<Rightarrow> bgp_route \<Rightarrow> (('k, 'z) rm_world_scheme, go_error option) proc" where
  "try_algorithm m r =
     attempt m (\<lambda>x. case x of Inr u \<Rightarrow> ret None | Inl e \<Rightarrow> bind (need_network r) (\<lambda>n. ret (Some e)))"

definition needs_route :: "int \<Rightarrow> bgp_route \<Rightarrow> bool" where
  "needs_route local r \<longleftrightarrow> \<not> (br_OriginAS r = local \<or> br_OriginAS r = 0 \<or> br_Paths r = [])"

text \<open>
  Centralised, then graph, then BGP; an algorithm that has not been reached yet leaves \<open>attempted\<close> false. The accumulator is
  what the code calls \<open>successCount\<close>, which it raises on errors, and the list of errors.
\<close>

definition add_step ::
    "('k, 'e) rm_env_scheme \<Rightarrow> bgp_route \<Rightarrow> nat \<times> go_error list \<Rightarrow> (('k, 'z) rm_world_scheme, nat \<times> go_error list) proc" where
  "add_step E r acc =
     bind (read rm_ASNumber) (\<lambda>local.
     if \<not> needs_route local r then ret acc
     else
       bind (central_fresh E 3) (\<lambda>fresh.
       bind (if fresh then bind (set_method E ''centralised'') (\<lambda>u. try_algorithm (centralisedBestPath E r) r) else ret None) (\<lambda>err1.
       bind (read rm_graphReady) (\<lambda>graph.
       bind (if (err1 \<noteq> None \<or> \<not> fresh) \<and> graph
             then bind (if \<not> fresh then set_method E ''graph'' else ret ()) (\<lambda>u. try_algorithm (graphBasedShortestPath E r) r)
             else ret err1) (\<lambda>err2.
       bind (if err2 \<noteq> None \<or> \<not> (fresh \<or> graph)
             then bind (if \<not> (fresh \<or> graph) then set_method E ''BGP'' else ret ())
                    (\<lambda>u. try_algorithm (selectLowestCostBGPPath E r) r)
             else ret None) (\<lambda>err3.
       ret (case err3 of
              None \<Rightarrow> acc
            | Some e \<Rightarrow> (fst acc + 1, snd acc @ [Wrapf ''all routing methods failed'' e]))))))))"

definition addToRouteTable :: "('k, 'e) rm_env_scheme \<Rightarrow> bgp_route list \<Rightarrow> (('k, 'z) rm_world_scheme, unit) proc" where
  "addToRouteTable E routes =
     bind (for_each (add_step E) routes (0, []))
       (\<lambda>acc. if snd acc \<noteq> [] then throw (Err (Errorf ''failed to process routes'')) else ret ())"

definition update_mode :: "('k, 'e) rm_env_scheme \<Rightarrow> string \<Rightarrow> unit \<Rightarrow> (('k, 'z) rm_world_scheme, unit) proc" where
  "update_mode E mode u =
     bind (wrap ''error getting routes'' (router_routes E mode))
       (\<lambda>routes. wrap ''error adding routes to route table'' (addToRouteTable E routes))"

definition UpdateRouteTable :: "('k, 'e) rm_env_scheme \<Rightarrow> (('k, 'z) rm_world_scheme, unit) proc" where
  "UpdateRouteTable E =
     bind (update (\<lambda>w. w\<lparr>rm_RouteTable := ClearRoutes (rm_RouteTable w)\<rparr>))
       (\<lambda>u. for_each (update_mode E) [''v4'', ''v6''] ())"

text \<open>The routes of the table, in the order of a range over its map.\<close>

definition table_routes :: "('k, 'e) rm_env_scheme \<Rightarrow> (('k, 'z) rm_world_scheme, kernel_route list) proc" where
  "table_routes E =
     bind next_tick (\<lambda>n. read (\<lambda>w. GetRoutes (re_order E n (rt_routeMap (rm_RouteTable w))) (rm_RouteTable w)))"

definition source_for :: "('k, 'z) rm_world_scheme \<Rightarrow> ipnet \<Rightarrow> ip option" where
  "source_for w d = (if is_v4 (net_ip d) then rm_outboundV4 w else rm_outboundV6 w)"

definition apply_step :: "('k, 'e) rm_env_scheme \<Rightarrow> kernel_route \<Rightarrow> unit \<Rightarrow> (('k, 'z) rm_world_scheme, unit) proc" where
  "apply_step E r u =
     (case kr_Destination r of
        None \<Rightarrow> throw (Panic NilDereference)
      | Some d \<Rightarrow>
          bind (read (\<lambda>w. source_for w d)) (\<lambda>src.
          bind (wrap ''error configuring route''
                  (on_kernel (ConfigureRoute (re_nl E) (Some d) (kr_Gateway r) src CustomRouteProtocol)))
            (\<lambda>code. ret ())))"

definition applyRouteTable :: "('k, 'e) rm_env_scheme \<Rightarrow> (('k, 'z) rm_world_scheme, unit) proc" where
  "applyRouteTable E = bind (table_routes E) (\<lambda>routes. for_each (apply_step E) routes ())"

definition remove_step ::
    "('k, 'e) rm_env_scheme \<Rightarrow> string list \<Rightarrow> nl_route \<Rightarrow> unit \<Rightarrow> (('k, 'z) rm_world_scheme, unit) proc" where
  "remove_step E keys r u =
     (if dst_string (nr_dst r) \<in> set keys then ret ()
      else wrap ''error removing route'' (on_kernel (RemoveRoute (re_nl E) (nr_dst r) CustomRouteProtocol)))"

definition removeOldKernelRoutes :: "('k, 'e) rm_env_scheme \<Rightarrow> (('k, 'z) rm_world_scheme, unit) proc" where
  "removeOldKernelRoutes E =
     bind (wrap ''error getting managed routes'' (on_kernel (ListManagedRoutes (re_nl E) CustomRouteProtocol)))
       (\<lambda>routes. bind (table_routes E)
         (\<lambda>table. for_each (remove_step E (map (\<lambda>r. dst_string (kr_Destination r)) table)) routes ()))"

definition refresh_graph :: "('k, 'e) rm_env_scheme \<Rightarrow> (('k, 'z) rm_world_scheme, unit) proc" where
  "refresh_graph E =
     attempt (RefreshWeights (re_net E))
       (\<lambda>r. case r of
          Inl e \<Rightarrow> update (\<lambda>w. w\<lparr>rm_graphReady := False\<rparr>)
        | Inr u \<Rightarrow> update (\<lambda>w. w\<lparr>rm_PathMap := Map.empty, rm_graphReady := True\<rparr>))"

definition SyncGraph :: "('k, 'e) rm_env_scheme \<Rightarrow> (('k, 'z) rm_world_scheme, unit) proc" where
  "SyncGraph E =
     bind (read the_graph)
       (\<lambda>g. bind (case g of
                    Some x \<Rightarrow> ret ()
                  | None \<Rightarrow> bind (wrap ''error initializing graph'' (NewGraph (re_net E)))
                              (\<lambda>x. update (\<lambda>w. w\<lparr>the_graph := Some x\<rparr>)))
              (\<lambda>u. refresh_graph E))"

definition SyncRouteTable :: "('k, 'e) rm_env_scheme \<Rightarrow> (('k, 'z) rm_world_scheme, unit) proc" where
  "SyncRouteTable E =
     bind (attempt (SyncGraph E)
             (\<lambda>r. case r of Inr u \<Rightarrow> ret () | Inl e \<Rightarrow> update (\<lambda>w. w\<lparr>rm_graphReady := False\<rparr>))) (\<lambda>u.
     bind (wrap ''error updating route table'' (UpdateRouteTable E)) (\<lambda>u.
     bind (wrap ''error removing outdated routes'' (removeOldKernelRoutes E)) (\<lambda>u.
     applyRouteTable E)))"

text \<open>What \<open>Start\<close> does before its loops; an error of the first update, of applying or of removing is only logged.\<close>

definition logged :: "('s, unit) proc \<Rightarrow> ('s, unit) proc" where
  "logged m = attempt m (\<lambda>r. ret ())"

definition start_manager :: "('k, 'e) rm_env_scheme \<Rightarrow> (('k, 'z) rm_world_scheme, unit) proc" where
  "start_manager E =
     bind (lift_go (GetConfig (re_open E) ''v4'')) (\<lambda>config.
     bind (update (\<lambda>w. w\<lparr>rm_ASNumber := cf_ASNumber config\<rparr>)) (\<lambda>u.
     bind (read (\<lambda>w. rm_siteID w + 64512)) (\<lambda>expected.
     if cf_ASNumber config \<noteq> expected then throw (Err (Errorf ''node id has invalid AS number''))
     else
       bind (lift_go (go_wrap ''error getting outbound IP'' (re_outbound E))) (\<lambda>(v4, v6).
       bind (update (\<lambda>w. w\<lparr>rm_outboundV4 := Some v4, rm_outboundV6 := Some v6\<rparr>)) (\<lambda>u.
       bind (attempt (NewGraph (re_net E))
               (\<lambda>r. case r of
                  Inr g \<Rightarrow> update (\<lambda>w. w\<lparr>the_graph := Some g, rm_graphReady := True\<rparr>)
                | Inl e \<Rightarrow> update (\<lambda>w. w\<lparr>the_graph := None, rm_graphReady := False\<rparr>))) (\<lambda>u.
       bind (update (\<lambda>w. (NewCentralisedRouter (the_graph w) w)\<lparr>rm_hasCentral := True\<rparr>)) (\<lambda>u.
       bind (logged (UpdateRouteTable E)) (\<lambda>u.
       bind (logged (applyRouteTable E)) (\<lambda>u.
       bind (logged (removeOldKernelRoutes E)) (\<lambda>u.
       update (\<lambda>w. w\<lparr>rm_RouteTable := MarkReady (rm_RouteTable w)\<rparr>)))))))))))"

datatype rm_event = RStop | RTimer | RUpdate

text \<open>
  The alignment loop (\<open>aligned\<close> is false) and then \<open>run\<close>: a timer event skips the update when the centralised router has made
  one recently, and the first one ends the alignment. The result is whether the loop goes on and the phase.
\<close>

definition rm_run_step ::
    "('k, 'e) rm_env_scheme \<Rightarrow> rm_event \<Rightarrow> bool \<Rightarrow> (('k, 'z) rm_world_scheme, bool \<times> bool) proc" where
  "rm_run_step E ev aligned =
     (case ev of
        RStop \<Rightarrow> ret (False, aligned)
      | RUpdate \<Rightarrow> bind (logged (SyncRouteTable E)) (\<lambda>u. ret (True, aligned))
      | RTimer \<Rightarrow>
          bind (central_fresh E (if aligned then 1 else 3)) (\<lambda>fresh.
          bind (if fresh then ret () else logged (SyncRouteTable E)) (\<lambda>u. ret (True, True))))"

section \<open>interface.go\<close>

text \<open>The centralised router is nil until \<open>Start\<close> has made it; a method of it reads its fields.\<close>

definition with_central :: "(('k, 'z) rm_world_scheme, 'a) proc \<Rightarrow> (('k, 'z) rm_world_scheme, 'a) proc" where
  "with_central m = bind (read rm_hasCentral) (\<lambda>c. if c then m else throw (Panic NilDereference))"

definition GetCentralisedRoute :: "int \<Rightarrow> (('k, 'z) rm_world_scheme, int) proc" where
  "GetCentralisedRoute destination =
     with_central (read (\<lambda>w. case GetSiteRouteMap w destination of None \<Rightarrow> - 1 | Some via \<Rightarrow> via))"

text \<open>\<open>rm_updates\<close> counts what has been put on the channel \<open>rtUpdateCh\<close>.\<close>

definition UpdateLocalRoutes ::
    "('k, 'e) rm_env_scheme \<Rightarrow> int list \<Rightarrow> int list \<Rightarrow> hop_table \<Rightarrow> (('k, 'z) rm_world_scheme, unit) proc" where
  "UpdateLocalRoutes E new_keys old_keys routes =
     bind (with_central (UpdateSiteRoutes (re_net E) new_keys old_keys routes))
       (\<lambda>updated. if \<not> re_disableCentralised E \<and> updated then update (\<lambda>w. w\<lparr>rm_updates := Suc (rm_updates w)\<rparr>) else ret ())"

definition GetGraphRoute :: "int \<Rightarrow> (('k, 'z) rm_world_scheme, int) proc" where
  "GetGraphRoute destination =
     bind (read the_graph) (\<lambda>g. if g = None then ret (- 1)
       else bind (read rm_ASNumber) (\<lambda>local.
         attempt (shortest_path (asToSiteID local) destination)
           (\<lambda>r. case r of Inl e \<Rightarrow> ret (- 1) | Inr (path, c) \<Rightarrow> lift_go (go_index path 1))))"

definition UpdateGraph :: "('k, 'e) rm_env_scheme \<Rightarrow> (('k, 'z) rm_world_scheme, unit) proc" where
  "UpdateGraph E = SyncGraph E"

end
