(* ===== verification/Forwarding.thy ===== *)
theory Forwarding
  imports Centralised
begin

text \<open>
  What the tables of the centralised router mean: forwarding hop by hop, the correctness of \<open>checkForLoops\<close>, and the
  invariants of the tables \<open>Refresh\<close> computes.
\<close>

section \<open>Forwarding\<close>

definition hop :: "site_tables \<Rightarrow> int \<Rightarrow> int \<Rightarrow> int option" where
  "hop m t x = (case m x of None \<Rightarrow> None | Some r \<Rightarrow> r t)"

text \<open>A packet for \<open>t\<close> at \<open>x\<close> comes to its destination, or to a node that has no entry for it.\<close>

inductive settles :: "site_tables \<Rightarrow> int \<Rightarrow> int \<Rightarrow> bool" where
  no_entry: "hop m t x = None \<Longrightarrow> settles m t x"
| last_hop: "hop m t x = Some t \<Longrightarrow> settles m t x"
| via: "hop m t x = Some y \<Longrightarrow> settles m t y \<Longrightarrow> settles m t x"

inductive delivers :: "site_tables \<Rightarrow> int \<Rightarrow> int \<Rightarrow> bool" where
  here: "delivers m t t"
| forward: "hop m t x = Some y \<Longrightarrow> delivers m t y \<Longrightarrow> delivers m t x"

inductive_simps settles_iff: "settles m t x"

lemma settles_next: "hop m t x = Some y \<Longrightarrow> y \<noteq> t \<Longrightarrow> settles m t x \<longleftrightarrow> settles m t y"
  by (subst settles_iff) auto

text \<open>A set of nodes that forwarding never leaves and that misses the destination.\<close>

lemma trapped:
  assumes "settles m t x" "x \<in> S" "\<forall>v\<in>S. \<exists>y\<in>S. hop m t v = Some y \<and> y \<noteq> t"
  shows False
  using assms by (induction rule: settles.induct) force+

lemma settles_delivers:
  assumes "settles m t x" "x \<in> S" "\<forall>v\<in>S. \<exists>y\<in>S. hop m t v = Some y"
  shows "delivers m t x"
  using assms
proof (induction rule: settles.induct)
  case (no_entry m t x)
  then show ?case by (metis option.distinct(1))
next
  case (via m t x y)
  then show ?case by (metis forward option.inject)
qed (blast intro: delivers.intros)

section \<open>checkForLoops\<close>

lemma loop_from_correct:
  assumes "finite (dom m)" "cur \<notin> V" "cur \<noteq> t" "t \<notin> V"
    and "\<forall>v\<in>V. \<exists>y\<in>insert cur V. hop m t v = Some y \<and> y \<noteq> t"
  shows "loop_from m t V cur = Some (\<not> settles m t cur)"
  using assms(2-5)
proof (induction "card (dom m - V)" arbitrary: V cur rule: less_induct)
  case less
  let ?V = "insert cur V"
  show ?case
  proof (cases "hop m t cur")
    case None
    then show ?thesis
      by (subst loop_from.simps) (auto simp: hop_def no_entry split: option.splits)
  next
    case (Some nxt)
    then obtain r where r: "m cur = Some r" "r t = Some nxt" by (auto simp: hop_def split: option.splits)
    consider "nxt \<in> ?V" | "nxt \<notin> ?V" "nxt = t" | "nxt \<notin> ?V" "nxt \<noteq> t" by blast
    then show ?thesis
    proof cases
      case 1
      then have "nxt \<noteq> t" using less.prems by auto
      with 1 Some less.prems(4) have "\<forall>v\<in>?V. \<exists>y\<in>?V. hop m t v = Some y \<and> y \<noteq> t" by auto
      then have "\<not> settles m t cur" using trapped by blast
      with 1 r show ?thesis by (subst loop_from.simps) simp
    next
      case 2
      then have "settles m t cur" using Some last_hop by blast
      with 2 r show ?thesis by (subst loop_from.simps) simp
    next
      case 3
      have "dom m - ?V \<subset> dom m - V" using r(1) less.prems(1) by auto
      then have "card (dom m - ?V) < card (dom m - V)" using assms(1) by (simp add: psubset_card_mono)
      then have "loop_from m t ?V nxt = Some (\<not> settles m t nxt)"
        by (rule less.hyps) (use 3 Some less.prems in auto)
      with 3 r Some show ?thesis by (subst loop_from.simps) (simp add: settles_next)
    qed
  qed
qed

definition ranges_over :: "central_env \<Rightarrow> site_tables \<Rightarrow> bool" where
  "ranges_over C m \<longleftrightarrow>
     set (ce_site_order C) = dom m \<and> (\<forall>s r. m s = Some r \<longrightarrow> set (ce_target_order C s) = dom r)"

lemma check_pair_correct:
  assumes "finite (dom m)" "hop m t s = Some v"
  shows "check_pair m s t () = (if settles m t s then Inr () else Inl (Err (Errorf ''loop detected'')))"
proof -
  have v: "site_read m s t = v" using assms(2) by (auto simp: site_read_def map_read_def hop_def split: option.splits)
  show ?thesis
  proof (cases "v = t")
    case True
    with v last_hop [of m t s] assms(2) show ?thesis by (simp add: check_pair_def)
  next
    case False
    with loop_from_correct [OF assms(1), of v "{}" t] settles_next [OF assms(2)] v show ?thesis
      by (simp add: check_pair_def Let_def)
  qed
qed

lemma go_fold_unit:
  assumes "\<And>x. x \<in> set xs \<Longrightarrow> f x () = (if P x then Inr () else Inl e)"
  shows "go_fold f xs () = (if \<forall>x\<in>set xs. P x then Inr () else Inl e)"
  using assms by (induction xs) auto

lemma checkForLoops_iff:
  assumes "ranges_over C m"
  shows "checkForLoops C m =
    (if \<forall>s t. hop m t s \<noteq> None \<longrightarrow> settles m t s then Inr () else Inl (Err (Errorf ''loop detected'')))"
proof -
  have fin: "finite (dom m)" using assms by (metis List.finite_set ranges_over_def)
  let ?P = "\<lambda>s. \<forall>t\<in>set (ce_target_order C s). settles m t s"
  have row: "go_fold (check_pair m s) (ce_target_order C s) () =
      (if ?P s then Inr () else Inl (Err (Errorf ''loop detected'')))" if "s \<in> set (ce_site_order C)" for s
  proof (rule go_fold_unit)
    fix t assume t: "t \<in> set (ce_target_order C s)"
    have "s \<in> dom m" using that assms unfolding ranges_over_def by simp
    then obtain r where r: "m s = Some r" by blast
    with t assms have "t \<in> dom r" unfolding ranges_over_def by simp
    with r obtain v where "hop m t s = Some v" by (auto simp: hop_def)
    with check_pair_correct [OF fin] show "check_pair m s t () =
      (if settles m t s then Inr () else Inl (Err (Errorf ''loop detected'')))" by blast
  qed
  have "(\<forall>s\<in>set (ce_site_order C). ?P s) \<longleftrightarrow> (\<forall>s t. hop m t s \<noteq> None \<longrightarrow> settles m t s)"
  proof (intro iffI allI impI ballI)
    fix s t assume *: "\<forall>s\<in>set (ce_site_order C). ?P s" "hop m t s \<noteq> None"
    then obtain r where "m s = Some r" "r t \<noteq> None" by (cases "m s") (auto simp: hop_def)
    then have "s \<in> set (ce_site_order C)" "t \<in> set (ce_target_order C s)" using assms unfolding ranges_over_def by auto
    with *(1) show "settles m t s" by blast
  next
    fix s t assume *: "\<forall>s t. hop m t s \<noteq> None \<longrightarrow> settles m t s" "s \<in> set (ce_site_order C)" "t \<in> set (ce_target_order C s)"
    then have "hop m t s \<noteq> None" using assms unfolding ranges_over_def hop_def by (cases "m s") auto
    with *(1) show "settles m t s" by blast
  qed
  moreover have "checkForLoops C m =
      (if \<forall>s\<in>set (ce_site_order C). ?P s then Inr () else Inl (Err (Errorf ''loop detected'')))"
    unfolding checkForLoops_def by (rule go_fold_unit) (rule row)
  ultimately show ?thesis by simp
qed

section \<open>The paths of the search\<close>

text \<open>An edge of the matrix, and what the search promises of the paths it returns, on any graph.\<close>

definition link :: "graph \<Rightarrow> int \<Rightarrow> int \<Rightarrow> bool" where
  "link g a b \<longleftrightarrow> (\<exists>x. mat_get (g_matrix g) a b = Inr x \<and> x \<noteq> PInf)"

definition good_path :: "graph \<Rightarrow> int \<Rightarrow> int list \<Rightarrow> bool" where
  "good_path g s p \<longleftrightarrow> p \<noteq> [] \<and> hd p = s \<and> distinct p \<and> successively (link g) p"

lemma top_n_extend_good:
  assumes "top_n_extend g cur v (visited, pq) = Inr (visited', pq')" "good_path g s (pr_path cur)"
    and "\<forall>r\<in>set pq. good_path g s (pr_path r)"
  shows "\<forall>r\<in>set pq'. good_path g s (pr_path r)"
proof -
  obtain x where x: "mat_get (g_matrix g) (last (pr_path cur)) (int v) = Inr x"
    using assms(1) by (auto simp: top_n_extend_def go_bind_eq_Inr)
  let ?new = "\<lparr>pr_path = pr_path cur @ [int v], pr_distance = fadd (pr_distance cur) x\<rparr>"
  have "pq' = pq \<or> pq' = heap_push path_queue_ops ?new pq \<and> int v \<notin> set (pr_path cur) \<and> x \<noteq> PInf"
    using assms(1) x by (auto simp: top_n_extend_def Let_def split: if_splits)
  then show ?thesis
  proof
    assume *: "pq' = heap_push path_queue_ops ?new pq \<and> int v \<notin> set (pr_path cur) \<and> x \<noteq> PInf"
    then have "good_path g s (pr_path ?new)"
      using assms(2) x by (auto simp: good_path_def link_def successively_append_iff)
    moreover have "set pq' = insert ?new (set pq)"
      using * path_queue.push_mset [of ?new pq] by (auto dest: arg_cong [where f = set_mset])
    ultimately show ?thesis using assms(3) by auto
  qed (use assms(3) in simp)
qed

lemma top_n_extends_good:
  assumes "go_fold (top_n_extend g cur) vs st = Inr st'" "good_path g s (pr_path cur)"
    and "\<forall>r\<in>set (snd st). good_path g s (pr_path r)"
  shows "\<forall>r\<in>set (snd st'). good_path g s (pr_path r)"
proof (rule go_fold_invariant [where P = "\<lambda>st. \<forall>r\<in>set (snd st). good_path g s (pr_path r)", OF assms(1,3)])
  fix x u v assume "\<forall>r\<in>set (snd u). good_path g s (pr_path r)" "top_n_extend g cur x u = Inr v"
  then show "\<forall>r\<in>set (snd v). good_path g s (pr_path r)"
    using top_n_extend_good [of g cur x "fst u" "snd u" "fst v" "snd v" s] assms(2) by simp
qed

lemma heap_pop_set:
  assumes "pq \<noteq> []" "heap_pop path_queue_ops pq = (c, pq')"
  shows "set pq = insert c (set pq')"
  using path_queue.pop_mset [of pq] assms by (auto dest: arg_cong [where f = set_mset])

lemma top_n_loop_good:
  assumes "top_n_loop (Some g) t n results st = Some (Inr rs)"
    and "\<forall>r\<in>set results. good_path g s (pr_path r) \<and> last (pr_path r) = t" "\<forall>r\<in>set (snd st). good_path g s (pr_path r)"
  shows "\<forall>r\<in>set rs. good_path g s (pr_path r) \<and> last (pr_path r) = t"
proof -
  define P where "P = (\<lambda>G e (n :: int) (results :: path_result list) (st :: top_n_queue) (y :: path_result list go). y = Inr rs \<longrightarrow> G = Some g \<longrightarrow> e = t \<longrightarrow>
     (\<forall>r\<in>set results. good_path g s (pr_path r) \<and> last (pr_path r) = t) \<longrightarrow>
     (\<forall>r\<in>set (snd st). good_path g s (pr_path r)) \<longrightarrow> (\<forall>r\<in>set rs. good_path g s (pr_path r) \<and> last (pr_path r) = t))"
  have "P (Some g) t n results st (Inr rs)"
  proof (rule top_n_loop.raw_induct [OF _ assms(1), of P])
    fix loop G e n results st y
    assume IH: "\<And>G e n results st y. loop G e n results st = Some y \<Longrightarrow> P G e n results st y"
      and eq: "(case st of (visited, pq) \<Rightarrow>
        if pq \<noteq> [] \<and> int (length results) < n then
          let (current, pq') = heap_pop path_queue_ops pq
          in if last (pr_path current) = e then loop G e n (results @ [current]) (visited, pq')
             else (case G of
                     None \<Rightarrow> Some (Inl (Panic NilDereference))
                   | Some g \<Rightarrow>
                       (case go_fold (top_n_extend g current) [0..<g_size g] (visited, pq') of
                          Inl e \<Rightarrow> Some (Inl e)
                        | Inr s' \<Rightarrow> loop G e n results s'))
        else Some (Inr results)) = Some y"
    obtain visited pq where st: "st = (visited, pq)" by fastforce
    show "P G e n results st y" unfolding P_def
    proof (intro impI)
      assume h: "y = Inr rs" "G = Some g" "e = t" "\<forall>r\<in>set results. good_path g s (pr_path r) \<and> last (pr_path r) = t"
        "\<forall>r\<in>set (snd st). good_path g s (pr_path r)"
      show "\<forall>r\<in>set rs. good_path g s (pr_path r) \<and> last (pr_path r) = t"
      proof (cases "pq \<noteq> [] \<and> int (length results) < n")
        case False
        then have "results = rs" using eq h st by (auto split: if_splits)
        with h show ?thesis by simp
      next
        case True
        obtain c pq' where pop: "heap_pop path_queue_ops pq = (c, pq')" by fastforce
        have set: "set pq = insert c (set pq')" using heap_pop_set [OF _ pop] True by simp
        show ?thesis
        proof (cases "last (pr_path c) = t")
          case last: True
          with eq h st True pop have run: "loop (Some g) t n (results @ [c]) (visited, pq') = Some (Inr rs)" by simp
          from IH [OF run] h last st set show ?thesis unfolding P_def by simp
        next
          case False
          with eq h st True pop obtain st' where ext: "go_fold (top_n_extend g c) [0..<g_size g] (visited, pq') = Inr st'"
            and run: "loop (Some g) t n results st' = Some (Inr rs)" by (auto split: sum.splits)
          have "\<forall>r\<in>set (snd st'). good_path g s (pr_path r)"
            by (rule top_n_extends_good [OF ext]) (use h st set in auto)
          with IH [OF run] h show ?thesis unfolding P_def by simp
        qed
      qed
    qed
  qed
  with assms(2,3) show ?thesis unfolding P_def by blast
qed

lemma GetTopN_good:
  assumes "GetTopNShortestPaths (Some g) s t n = Some (Inr rs)" "r \<in> set rs"
  shows "good_path g s (pr_path r) \<and> last (pr_path r) = t"
proof -
  let ?start = "\<lparr>pr_path = [s], pr_distance = Fin 0\<rparr>"
  have "set (heap_push path_queue_ops ?start []) = {?start}"
    using path_queue.push_mset [of ?start "[]"] by (auto dest: arg_cong [where f = set_mset])
  moreover have "top_n_loop (Some g) t n [] ({}, heap_push path_queue_ops ?start []) = Some (Inr rs)"
    using assms(1) by (auto simp: GetTopNShortestPaths_def go_bind_eq_Inr split: if_splits)
  ultimately show ?thesis using top_n_loop_good [of g t n "[]" _ rs s] assms(2) by (simp add: good_path_def)
qed

section \<open>The shared array behind a forward path\<close>

lemma write_tail_take:
  assumes "length arr = cap" "set (take m arr) \<subseteq> A" "set p \<subseteq> A" "set v \<subseteq> A"
  shows "length (write_tail cap p v arr) = cap \<and> set (take m (write_tail cap p v arr)) \<subseteq> A"
proof (cases "length p + length v \<le> cap")
  case True
  let ?l = "length p + length v"
  have "set (take m (p @ v @ drop ?l arr)) \<subseteq> set p \<union> set v \<union> set (take (m - ?l) (drop ?l arr))"
    using set_take_subset [of m p] set_take_subset [of "m - length p" v] by auto
  moreover have "set (take (m - ?l) (drop ?l arr)) \<subseteq> set (take m arr)"
  proof (cases "?l \<le> m")
    case True
    then have "take (m - ?l) (drop ?l arr) = drop ?l (take m arr)" by (simp add: take_drop)
    then show ?thesis using set_drop_subset by metis
  qed simp
  ultimately have "set (take m (p @ v @ drop ?l arr)) \<subseteq> A" using assms(2-4) by blast
  moreover have "write_tail cap p v arr = p @ v @ drop ?l arr" using True by (simp add: write_tail_def)
  moreover have "length (p @ v @ drop ?l arr) = cap" using True assms(1) by simp
  ultimately show ?thesis by simp
qed (use assms in \<open>simp add: write_tail_def\<close>)

lemma write_tails_take:
  assumes "length arr = cap" "set (take m arr) \<subseteq> A" "set p \<subseteq> A" "\<forall>u\<in>set us. set (tl u) \<subseteq> A"
  shows "length (fold (\<lambda>u. write_tail cap p (tl u)) us arr) = cap \<and>
     set (take m (fold (\<lambda>u. write_tail cap p (tl u)) us arr)) \<subseteq> A"
  using assms(1,2,4)
proof (induction us arbitrary: arr)
  case (Cons u us)
  with write_tail_take [OF Cons.prems(1,2) assms(3), of "tl u"] show ?case by auto
qed simp

lemma write_tails_prefix:
  assumes "take (length p) arr = p"
  shows "take (length p) (fold (\<lambda>u. write_tail cap p (tl u)) us arr) = p"
  using assms by (induction us arbitrary: arr) (auto simp: write_tail_def)

lemma length_write_tails:
  "length arr = cap \<Longrightarrow> length (fold (\<lambda>u. write_tail cap p (tl u)) us arr) = cap"
  by (induction us arbitrary: arr) (auto simp: write_tail_def)

text \<open>Whatever has been appended since: the length, the forward part, and only nodes of the paths.\<close>

lemma full_view_nodes:
  assumes "j < length vs" "j < k" "set p \<subseteq> A" "\<forall>u\<in>set vs. set (tl u) \<subseteq> A"
  shows "length (full_view cap p vs j k) = length p + length (tl (vs ! j)) \<and>
     take (length p) (full_view cap p vs j k) = p \<and> set (full_view cap p vs j k) \<subseteq> A"
proof (cases "length p + length (tl (vs ! j)) \<le> cap")
  case True
  let ?m = "length p + length (tl (vs ! j))" and ?f = "\<lambda>u. write_tail cap p (tl u)"
  let ?arr = "p @ replicate (cap - length p) (0 :: int)"
  have vs: "take k vs = take j vs @ vs ! j # drop (Suc j) (take k vs)"
    using assms(1,2) id_take_nth_drop [of j "take k vs"] by (simp add: min_def)
  let ?before = "fold ?f (take j vs) ?arr"
  have len: "length ?before = cap" using True length_write_tails [of ?arr cap p "take j vs"] by simp
  have pre: "take (length p) (fold ?f us ?arr) = p" for us using write_tails_prefix [of p ?arr cap us] by simp
  have "take ?m (?f (vs ! j) ?before) = p @ tl (vs ! j)" using True by (simp add: write_tail_def)
  moreover have "set (tl (vs ! j)) \<subseteq> A" using assms(1,4) nth_mem by blast
  ultimately have A: "set (take ?m (?f (vs ! j) ?before)) \<subseteq> A" using assms(3) by (simp only: set_append Un_subset_iff)
  have l: "length (?f (vs ! j) ?before) = cap" using True len by (simp add: write_tail_def)
  have f: "fold ?f (take k vs) ?arr = fold ?f (drop (Suc j) (take k vs)) (?f (vs ! j) ?before)"
    by (subst vs) simp
  have "length (fold ?f (take k vs) ?arr) = cap \<and> set (take ?m (fold ?f (take k vs) ?arr)) \<subseteq> A"
    unfolding f by (rule write_tails_take [OF l A assms(3)])
       (use assms(4) in \<open>blast dest: in_set_takeD in_set_dropD\<close>)
  moreover have "full_view cap p vs j k = take ?m (fold ?f (take k vs) ?arr)"
    using True by (simp add: full_view_def)
  ultimately show ?thesis using True pre [of "take k vs"] by (simp add: min_def)
next
  case False
  then have v: "full_view cap p vs j k = p @ tl (vs ! j)" by (simp add: full_view_def)
  have "set (tl (vs ! j)) \<subseteq> A" using assms(1,4) nth_mem by blast
  with assms(3) show ?thesis unfolding v by simp
qed

section \<open>The tables\<close>

definition tables_ok :: "int set \<Rightarrow> int set \<Rightarrow> site_tables \<Rightarrow> bool" where
  "tables_ok S N m \<longleftrightarrow> dom m = S \<and> (\<forall>s r. m s = Some r \<longrightarrow> dom r = S \<and> ran r \<subseteq> insert (- 1) N)"

text \<open>No route that has been set becomes unset again.\<close>

definition routed :: "int \<times> int \<Rightarrow> site_tables \<Rightarrow> bool" where
  "routed st m \<longleftrightarrow> site_read m (fst st) (snd st) \<noteq> - 1"

definition grows :: "site_tables \<Rightarrow> site_tables \<Rightarrow> bool" where
  "grows m m' \<longleftrightarrow> (\<forall>st. routed st m \<longrightarrow> routed st m')"

lemma grows_refl [simp]: "grows m m" and grows_trans: "grows m1 m2 \<Longrightarrow> grows m2 m3 \<Longrightarrow> grows m1 m3"
  by (simp_all add: grows_def)

lemma init_sites_ok: "tables_ok (path_sites ps) N (init_sites ps)"
  by (auto simp: tables_ok_def init_sites_def ran_def dom_def split: if_splits)

lemma site_write_ok:
  assumes "site_write x key v m = Inr m'" "tables_ok S N m" "key \<in> S" "v \<in> N" "- 1 \<notin> N"
  shows "tables_ok S N m' \<and> grows m m' \<and> routed (x, key) m'"
proof -
  obtain r where r: "m x = Some r" "m' = m(x \<mapsto> r(key \<mapsto> v))"
    using assms(1) by (auto simp: site_write_def split: option.splits)
  have "dom r = S" "ran r \<subseteq> insert (- 1) N" using r(1) assms(2) by (simp_all add: tables_ok_def)
  then have "dom (r(key \<mapsto> v)) = S" "ran (r(key \<mapsto> v)) \<subseteq> insert (- 1) N"
    using assms(3,4) by (auto simp: ran_def)
  moreover have "dom m' = S" using r assms(2) by (auto simp: tables_ok_def)
  ultimately have "tables_ok S N m'" using assms(2) r by (auto simp: tables_ok_def)
  moreover have "grows m m' \<and> routed (x, key) m'"
    using r assms(4,5) by (auto simp: grows_def routed_def site_read_def map_read_def split: option.splits)
  ultimately show ?thesis by blast
qed

lemma assign_hops_ok:
  assumes "assign_hops site target mid best is m = Inr (b, m')" "tables_ok S N m"
    and "site \<in> S" "target \<in> S" "set best \<subseteq> N" "- 1 \<notin> N" "\<forall>i\<in>set is. i + 1 < length best"
  shows "tables_ok S N m' \<and> grows m m'"
  using assms(1,2,7)
proof (induction "is" arbitrary: m)
  case (Cons i "is")
  let ?key = "if int i < mid then target else site"
  show ?case
  proof (cases "site_read m (best ! i) ?key \<noteq> - 1 \<and> site_read m (best ! i) ?key \<noteq> best ! (i + 1)")
    case True
    with Cons.prems show ?thesis by (simp add: Let_def)
  next
    case False
    then obtain m1 where w: "site_write (best ! i) ?key (best ! (i + 1)) m = Inr m1"
      and r: "assign_hops site target mid best is m1 = Inr (b, m')"
      using Cons.prems(1) by (auto simp: Let_def go_bind_eq_Inr split: if_splits)
    have "best ! (i + 1) \<in> N" using Cons.prems(3) assms(5) nth_mem [of "i + 1" best] by auto
    then have "tables_ok S N m1 \<and> grows m m1"
      using site_write_ok [OF w Cons.prems(2)] assms(3,4,6) by auto
    with Cons.IH [OF r] Cons.prems(3) show ?thesis by (auto intro: grows_trans)
  qed
qed simp

text \<open>A measured round trip: it starts with a hop towards the target.\<close>

definition round_trip :: "int set \<Rightarrow> int \<Rightarrow> int \<Rightarrow> route_result \<Rightarrow> bool" where
  "round_trip N site target r \<longleftrightarrow>
     set (rr_path r) \<subseteq> N \<and> 3 \<le> length (rr_path r) \<and> hd (rr_path r) = site \<and> target \<in> set (rr_path r)"

lemma first_index_pos:
  "t \<in> set xs \<Longrightarrow> hd xs \<noteq> t \<Longrightarrow> \<exists>i>0. first_index t xs = Some i"
proof (induction xs)
  case (Cons x xs)
  have nonneg: "first_index t ys = Some i \<Longrightarrow> 0 \<le> i" for ys i
    by (induction ys arbitrary: i) (auto split: if_splits)
  have "\<exists>i. first_index t ys = Some i" if "t \<in> set ys" for ys using that by (induction ys) auto
  with Cons nonneg obtain i where "first_index t xs = Some i" "0 \<le> i" by (metis list.sel(1) set_ConsD)
  with Cons show ?case by auto
qed simp

lemma select_route_ok:
  assumes "select_route site target rs m = Inr (b, m')" "tables_ok S N m" "site \<in> S" "target \<in> S" "- 1 \<notin> N"
    and "site \<noteq> target" "\<forall>r\<in>set rs. round_trip N site target r"
  shows "tables_ok S N m' \<and> grows m m' \<and> (b \<longrightarrow> routed (site, target) m')"
  using assms(1,2,7)
proof (induction rs arbitrary: m)
  case (Cons r rs)
  let ?best = "rr_path r"
  let ?mid = "case first_index target ?best of None \<Rightarrow> - 1 | Some i \<Rightarrow> i"
  have t: "set ?best \<subseteq> N" "3 \<le> length ?best" "hd ?best = site" "target \<in> set ?best"
    using Cons.prems(3) by (auto simp: round_trip_def)
  have mid: "0 < ?mid" using first_index_pos [OF t(4)] t(3) assms(6) by auto
  obtain ok m1 where a: "assign_hops site target ?mid ?best [0..<length ?best - 2] m = Inr (ok, m1)"
    and r: "if ok then b \<and> m1 = m' else select_route site target rs m1 = Inr (b, m')"
    using Cons.prems(1) by (auto simp: Let_def go_bind_eq_Inr split: if_splits)
  have m1: "tables_ok S N m1 \<and> grows m m1"
    by (rule assign_hops_ok [OF a Cons.prems(2) assms(3,4) t(1) assms(5)]) auto
  show ?case
  proof (cases ok)
    case False
    with r Cons.IH [of m1] m1 Cons.prems(3) show ?thesis by (auto intro: grows_trans)
  next
    case True
    have "[0..<length ?best - 2] = 0 # [1..<length ?best - 2]" using t(2) by (simp add: upt_conv_Cons)
    then have a0: "assign_hops site target ?mid ?best (0 # [1..<length ?best - 2]) m = Inr (True, m1)"
      using a True by simp
    have "?best ! 0 = site" using t(2,3) by (metis hd_conv_nth length_0_conv not_numeral_le_zero)
    with a0 mid obtain m2 where w: "site_write site target (?best ! 1) m = Inr m2"
      and rest: "assign_hops site target ?mid ?best [1..<length ?best - 2] m2 = Inr (True, m1)"
      by (auto simp: Let_def go_bind_eq_Inr split: if_splits)
    have "?best ! 1 \<in> N" using t(1,2) by (meson nth_mem subsetD less_le_trans one_less_numeral_iff semiring_norm(77))
    then have m2: "tables_ok S N m2 \<and> grows m m2 \<and> routed (site, target) m2"
      using site_write_ok [OF w Cons.prems(2) assms(4)] assms(5) by blast
    then have "tables_ok S N m1 \<and> grows m2 m1"
      by (intro assign_hops_ok [OF rest _ assms(3,4) t(1) assms(5)]) auto
    with m1 m2 r True show ?thesis by (auto simp: grows_def)
  qed
qed simp

section \<open>Measuring and routing a pair\<close>

lemma measurePathLatency_graph:
  fixes w :: "'z graph_world_scheme"
  shows "measurePathLatency C p w = (r, w') \<Longrightarrow> the_graph w' = the_graph w"
  by (auto simp: measurePathLatency_def bind_def next_tick_def split: list.splits if_splits prod.splits option.splits sum.splits)

lemma measure_pair_result:
  fixes w :: "'z graph_world_scheme"
  assumes "measure_pair C site target p vs ij rs w = (Inr rs', w')"
  shows "the_graph w' = the_graph w \<and> (rs' = rs \<or> (\<exists>r. rs' = rs @ [r] \<and>
      rr_path r = full_view (ce_grown_cap C (length p)) p vs (snd ij) (length vs)))"
proof -
  let ?p = "full_view (ce_grown_cap C (length p)) p vs (snd ij) (Suc (snd ij))"
  obtain x u where m: "measurePathLatency C ?p w = (x, u)" by fastforce
  have "w' = u \<and> (rs' = rs \<or> (\<exists>r. rs' = rs @ [r] \<and>
      rr_path r = full_view (ce_grown_cap C (length p)) p vs (snd ij) (length vs)))"
    using assms m by (auto simp: measure_pair_def Let_def attempt_def split: sum.splits go_fault.splits)
  with measurePathLatency_graph [OF m] show ?thesis by simp
qed

lemma good_path_nodes:
  assumes "successively (link g) p" "p \<noteq> []" "hd p \<in> N" "\<forall>a b. link g a b \<longrightarrow> b \<in> N"
  shows "set p \<subseteq> N"
  using assms
proof (induction p)
  case (Cons a p)
  then show ?case by (cases p) auto
qed simp

lemma good_path_len: "good_path g s p \<Longrightarrow> last p = t \<Longrightarrow> s \<noteq> t \<Longrightarrow> 2 \<le> length p"
  by (cases p; cases "tl p") (auto simp: good_path_def)

text \<open>What the two searches for a pair return.\<close>

definition searched :: "graph \<Rightarrow> int \<Rightarrow> int \<Rightarrow> int list list \<Rightarrow> bool" where
  "searched g s t ps \<longleftrightarrow> (\<forall>p\<in>set ps. good_path g s p \<and> last p = t)"

lemma searched_nodes:
  assumes "searched g s t ps" "s \<in> N" "\<forall>a b. link g a b \<longrightarrow> b \<in> N" "p \<in> set ps"
  shows "set p \<subseteq> N"
  using good_path_nodes [of g p N] assms by (auto simp: searched_def good_path_def)

lemma full_view_round_trip:
  assumes ps: "searched g site target ps" "p \<in> set ps" and vs: "searched g target site vs" "j < length vs"
    and N: "site \<in> N" "target \<in> N" "\<forall>a b. link g a b \<longrightarrow> b \<in> N" and ne: "site \<noteq> target"
    and r: "rr_path r = full_view cap p vs j (length vs)"
  shows "round_trip N site target r"
proof -
  have v: "set (tl u) \<subseteq> N" if "u \<in> set vs" for u
    using searched_nodes [OF vs(1) N(2,3) that] by (cases u) auto
  note nodes = full_view_nodes [OF vs(2) vs(2), of p N cap, OF searched_nodes [OF ps(1) N(1,3) ps(2)]]
  have f: "length (rr_path r) = length p + length (tl (vs ! j))" "take (length p) (rr_path r) = p" "set (rr_path r) \<subseteq> N"
    using nodes v r by simp_all
  have p: "good_path g site p" "last p = target" "2 \<le> length p"
    using ps good_path_len [of g site p target] ne by (auto simp: searched_def)
  have "2 \<le> length (vs ! j)"
    using vs nth_mem [OF vs(2)] good_path_len [of g target "vs ! j" site] ne by (auto simp: searched_def)
  then have "3 \<le> length (rr_path r)" using f(1) p(3) by simp
  moreover have "hd (rr_path r) = site"
    using f(2) p(1) by (metis good_path_def hd_take length_greater_0_conv)
  moreover have "target \<in> set (rr_path r)"
    using f(2) p(1,2) by (metis good_path_def in_set_takeD last_in_set)
  ultimately show ?thesis using f(3) by (simp add: round_trip_def)
qed

lemma measure_all_round_trips:
  fixes w :: "'z graph_world_scheme"
  assumes run: "measure_all C site target ps vs w = (Inr rs, w')"
    and ps: "searched g site target ps" and vs: "searched g target site vs"
    and N: "site \<in> N" "target \<in> N" "\<forall>a b. link g a b \<longrightarrow> b \<in> N" and ne: "site \<noteq> target"
  shows "the_graph w' = the_graph w \<and> (\<forall>r\<in>set rs. round_trip N site target r)"
proof (rule for_each_invariant [OF run [unfolded measure_all_def],
      of "\<lambda>rs u. the_graph u = the_graph w \<and> (\<forall>r\<in>set rs. round_trip N site target r)"])
  show "the_graph w = the_graph w \<and> (\<forall>r\<in>set []. round_trip N site target r)" by simp
next
  fix ij rs s rs' s'
  assume ij: "ij \<in> set (List.product [0..<length ps] [0..<length vs])"
    and inv: "the_graph s = the_graph w \<and> (\<forall>r\<in>set rs. round_trip N site target r)"
    and step: "(case ij of (i, j) \<Rightarrow> measure_pair C site target (ps ! i) vs (i, j)) rs s = (Inr rs', s')"
  obtain i j where e: "ij = (i, j)" "i < length ps" "j < length vs" 
    using ij unfolding set_product by auto
  note res = measure_pair_result [of C site target "ps ! i" vs "(i, j)" rs s rs' s']
  have "round_trip N site target r"
    if "rr_path r = full_view (ce_grown_cap C (length (ps ! i))) (ps ! i) vs j (length vs)" for r
    by (rule full_view_round_trip [OF ps nth_mem [OF e(2)] vs e(3) N ne that])
  with res step e(1) inv show "the_graph s' = the_graph w \<and> (\<forall>r\<in>set rs'. round_trip N site target r)" by auto
qed

definition reorders :: "central_env \<Rightarrow> bool" where
  "reorders C \<longleftrightarrow> (\<forall>rs. set (ce_arrival C rs) = set rs)"

lemma route_pair_ok:
  fixes w :: "'z graph_world_scheme"
  assumes run: "route_pair C site target m w = (Inr m', w')" and ok: "tables_ok S N m" "the_graph w = Some g"
    and N: "S \<subseteq> N" "- 1 \<notin> N" "\<forall>a b. link g a b \<longrightarrow> b \<in> N" and st: "site \<in> S" "target \<in> S" and C: "reorders C"
  shows "tables_ok S N m' \<and> grows m m' \<and> routed (site, target) m' \<and> the_graph w' = Some g"
proof -
  consider "routed (site, target) m" | "\<not> routed (site, target) m" "site = target"
    | "\<not> routed (site, target) m" "site \<noteq> target" by blast
  then show ?thesis
  proof cases
    case 1
    then have "m' = m" "w' = w" using run by (auto simp: route_pair_def routed_def)
    with 1 ok show ?thesis by simp
  next
    case 2
    then have "site_write site target site m = Inr m'" "w' = w" using run by (auto simp: route_pair_def routed_def)
    with site_write_ok [OF _ ok(1) st(2) _ N(2)] ok(2) N(1) st 2 show ?thesis by auto
  next
    case 3
    obtain fPath where f: "GetTopNShortestPaths (Some g) site target 5 = Some (Inr fPath)"
      using run 3 ok(2) by (cases "GetTopNShortestPaths (Some g) site target 5")
        (auto simp: route_pair_def routed_def bind_eq_Inr)
    obtain rPath where r: "GetTopNShortestPaths (Some g) target site 5 = Some (Inr rPath)"
      using run 3 ok(2) f by (cases "GetTopNShortestPaths (Some g) target site 5")
        (auto simp: route_pair_def routed_def bind_eq_Inr)
    obtain results w1 where me: "measure_all C site target (map pr_path fPath) (map pr_path rPath) w = (Inr results, w1)"
      and sel: "select_route site target (rank_results C results) m = Inr (True, m')" "w' = w1"
      using run 3 ok(2) f r by (auto simp: route_pair_def routed_def bind_eq_Inr split: if_splits)
    have "searched g site target (map pr_path fPath)" "searched g target site (map pr_path rPath)"
      using GetTopN_good [OF f] GetTopN_good [OF r] by (auto simp: searched_def)
    then have rt: "the_graph w1 = Some g" "\<forall>r\<in>set results. round_trip N site target r"
      using measure_all_round_trips [OF me _ _ _ _ N(3) 3(2)] ok(2) st N(1) by auto
    have "set (rank_results C results) = set results" using C by (simp add: rank_results_def reorders_def)
    with select_route_ok [OF sel(1) ok(1) st N(2) 3(2)] rt sel(2) show ?thesis by simp
  qed
qed

lemma route_sites_ok:
  fixes w :: "'z graph_world_scheme"
  assumes run: "for_each (route_site C) (ce_site_order C) m w = (Inr m', w')"
    and ok: "tables_ok S N m" "the_graph w = Some g"
    and N: "S \<subseteq> N" "- 1 \<notin> N" "\<forall>a b. link g a b \<longrightarrow> b \<in> N" and C: "reorders C"
    and order: "set (ce_site_order C) = S" "\<forall>s\<in>S. set (ce_target_order C s) = S"
  shows "tables_ok S N m' \<and> (\<forall>s\<in>S. \<forall>t\<in>S. routed (s, t) m')"
proof -
  let ?P = "\<lambda>m w. tables_ok S N m \<and> the_graph w = Some g"
  have site: "?P b t \<and> (\<forall>x\<in>S. routed (s, x) b) \<and> (\<forall>y. (\<forall>x\<in>S. routed (y, x) a) \<longrightarrow> (\<forall>x\<in>S. routed (y, x) b))"
    if s: "s \<in> set (ce_site_order C)" and a: "?P a u" and r: "route_site C s a u = (Inr b, t)" for s a b u t
  proof -
    have S: "s \<in> S" "set (ce_target_order C s) = S" using s order by auto
    let ?P' = "\<lambda>c v. ?P c v \<and> grows a c" and ?Q = "\<lambda>x c. routed (s, x) c"
    have "?P' b t \<and> (\<forall>x\<in>set (ce_target_order C s). ?Q x b) \<and> (\<forall>x. ?Q x a \<longrightarrow> ?Q x b)"
    proof (rule for_each_covers [of "route_pair C s" "ce_target_order C s" a u b t ?P' ?Q])
      show "for_each (route_pair C s) (ce_target_order C s) a u = (Inr b, t)" using r by (simp add: route_site_def)
      show "?P' a u" using a by simp
    next
      fix x c v c' v' assume "x \<in> set (ce_target_order C s)" "?P' c v" "route_pair C s x c v = (Inr c', v')"
      with route_pair_ok [OF _ _ _ N S(1) _ C, of x c v c' v'] S(2)
      have "?P c' v' \<and> grows c c' \<and> routed (s, x) c'" "grows a c" by blast+
      then show "?P' c' v' \<and> ?Q x c' \<and> (\<forall>y. ?Q y c \<longrightarrow> ?Q y c')" by (auto simp: grows_def)
    qed
    with S(2) show ?thesis by (simp add: grows_def)
  qed
  have "?P m' w' \<and> (\<forall>s\<in>set (ce_site_order C). \<forall>t\<in>S. routed (s, t) m') \<and>
      (\<forall>y. (\<forall>t\<in>S. routed (y, t) m) \<longrightarrow> (\<forall>t\<in>S. routed (y, t) m'))"
    by (rule for_each_covers [of "route_site C" "ce_site_order C" m w m' w' ?P "\<lambda>s m. \<forall>t\<in>S. routed (s, t) m", OF run _ site])
       (use ok in simp_all)
  with order(1) show ?thesis by simp
qed

section \<open>What computing the tables leaves alone\<close>

definition keeps :: "('z graph_world_scheme, 'a) proc \<Rightarrow> bool" where
  "keeps m \<longleftrightarrow> (\<forall>w. graph_world.more (snd (m w)) = graph_world.more w)"

named_theorems keeps_intro \<open>procedures that touch no field beyond the graph\<close>

lemma keepsD: "keeps m \<Longrightarrow> m w = (r, w') \<Longrightarrow> graph_world.more w' = graph_world.more w"
  unfolding keeps_def by (metis snd_conv)

lemma keeps_bind [keeps_intro]: "keeps m \<Longrightarrow> (\<And>v. keeps (k v)) \<Longrightarrow> keeps (bind m k)"
  by (auto simp: keeps_def bind_def split: prod.splits sum.splits) (metis snd_conv)+

lemma keeps_attempt [keeps_intro]: "keeps m \<Longrightarrow> (\<And>v. keeps (k v)) \<Longrightarrow> keeps (attempt m k)"
  by (auto simp: keeps_def attempt_def split: prod.splits sum.splits go_fault.splits) (metis snd_conv)+

lemma keeps_wrap [keeps_intro]: "keeps m \<Longrightarrow> keeps (wrap s m)"
  by (auto simp: keeps_def wrap_def split: prod.splits) (metis snd_conv)

lemma keeps_for_each [keeps_intro]: "(\<And>x a. keeps (f x a)) \<Longrightarrow> keeps (for_each f xs a)"
  by (induction xs arbitrary: a) (auto intro: keeps_bind simp: keeps_def [of "ret _"])

lemma keeps_basic [keeps_intro]: "keeps (ret v)" "keeps (throw e)" "keeps (lift_go r)" "keeps (\<lambda>w. (f w, w))" "keeps next_tick"
  by (simp_all add: keeps_def next_tick_def)

lemma keeps_ticks:
  fixes m :: "('z graph_world_scheme, 'a) proc"
  assumes "only_ticks m"
  shows "keeps m"
  unfolding keeps_def
proof
  fix w :: "'z graph_world_scheme"
  from assms obtain n where "snd (m w) = w\<lparr>ticks := n\<rparr>" unfolding only_ticks_def by blast
  then show "graph_world.more (snd (m w)) = graph_world.more w" by simp
qed

lemma keeps_GetPathCost [keeps_intro]: "keeps (GetPathCost E a b :: ('z graph_world_scheme, float64) proc)"
  unfolding keeps_def
proof
  fix w :: "'z graph_world_scheme"
  obtain r w' where g: "GetPathCost E a b w = (r, w')" by fastforce
  then have "graph_world.more w' = graph_world.more w" by (cases rule: GetPathCost_cases) auto
  with g show "graph_world.more (snd (GetPathCost E a b w)) = graph_world.more w" by simp
qed

lemma keeps_GetAllPaths [keeps_intro]: "keeps (GetAllPaths E :: ('z graph_world_scheme, network_path list) proc)"
  by (rule keeps_ticks [OF only_ticks_GetAllPaths])

lemma keeps_graph [keeps_intro]: "keeps get_graph" "keeps (put_matrix m)"
  by (auto simp: keeps_def get_graph_def put_matrix_def split: option.splits)

lemma keeps_RefreshWeights [keeps_intro]: "keeps (RefreshWeights E)"
  unfolding RefreshWeights_def refresh_step_def
  by (auto intro!: keeps_intro simp: Let_def)

lemma keeps_NewGraph [keeps_intro]: "keeps (NewGraph E :: ('z graph_world_scheme, graph) proc)"
  unfolding NewGraph_def new_graph_step_def Let_def
  by (auto intro!: keeps_intro)

lemma keeps_ready_graph [keeps_intro]: "keeps (ready_graph C :: ('z graph_world_scheme, unit) proc)"
proof -
  have "keeps (\<lambda>w. case the_graph w of
             Some g \<Rightarrow> (Inr (), w)
           | None \<Rightarrow> bind (wrap ''error initializing graph'' (NewGraph (ce_net C)))
                       (\<lambda>g (w :: 'z graph_world_scheme). (Inr (), w\<lparr>the_graph := Some g\<rparr>)) w)"
  proof -
    have "keeps (bind (wrap ''error initializing graph'' (NewGraph (ce_net C)))
                       (\<lambda>g (w :: 'z graph_world_scheme). (Inr (), w\<lparr>the_graph := Some g\<rparr>)))"
      by (intro keeps_intro) (simp add: keeps_def)
    then show ?thesis by (simp add: keeps_def split: option.splits)
  qed
  then show ?thesis unfolding ready_graph_def by (intro keeps_intro)
qed

lemma keeps_route_pair [keeps_intro]: "keeps (route_pair C s t m)"
  unfolding route_pair_def measure_all_def measure_pair_def measurePathLatency_def Let_def
  by (auto intro!: keeps_intro split: prod.splits sum.splits list.splits option.splits)

lemma keeps_compute_tables: "keeps (compute_tables C)"
  unfolding compute_tables_def route_site_def by (intro keeps_intro)

lemma same_sent:
  fixes w :: "'z central_world_scheme"
  shows "graph_world.more w' = graph_world.more w \<Longrightarrow> cr_sent w' = cr_sent w"
  by (cases w; cases w') simp

section \<open>The tables Refresh sends\<close>

definition central_ok :: "'z graph_world_scheme \<Rightarrow> bool" where
  "central_ok w \<longleftrightarrow> cost_cache_inv w \<and> (\<forall>g. the_graph w = Some g \<longrightarrow> graph_dims g)"

lemma ready_graph_links:
  fixes w :: "'z graph_world_scheme"
  assumes run: "ready_graph C w = (Inr (), w')" and ok: "central_ok w"
    and stable: "\<And>(v :: 'z graph_world_scheme) qs v'. GetAllPaths (ce_net C) v = (Inr qs, v') \<Longrightarrow> path_sites qs \<subseteq> S"
  obtains g where "the_graph w' = Some g" "\<forall>a b. link g a b \<longrightarrow> b \<in> S"
proof -
  obtain w1 g0 where g0: "the_graph w1 = Some g0" "graph_dims g0" and ref: "RefreshWeights (ce_net C) w1 = (Inr (), w')"
  proof (cases "the_graph w")
    case None
    then obtain g0 u where n: "NewGraph (ce_net C) w = (Inr g0, u)"
      and r: "RefreshWeights (ce_net C) (u\<lparr>the_graph := Some g0\<rparr>) = (Inr (), w')"
      using run by (auto simp: ready_graph_def bind_eq_Inr)
    have "cost_cache_inv w" using ok by (simp add: central_ok_def)
    from NewGraph_ok [OF n this] have "graph_dims g0" unfolding graph_dims_square by blast
    with r that [of "u\<lparr>the_graph := Some g0\<rparr>" g0] show thesis by simp
  next
    case (Some g0)
    with run ok that [of w g0] show thesis by (auto simp: ready_graph_def bind_eq_Inr central_ok_def)
  qed
  obtain ps v g where g: "GetAllPaths (ce_net C) w1 = (Inr ps, v)" "the_graph w' = Some g" "g_size g = g_size g0"
    "square (g_size g0) (g_matrix g)" "entries (g_size g0) (set ps) (g_matrix g)"
    using RefreshWeights_ok [OF ref g0] .
  have "b \<in> S" if "link g a b" for a b
  proof -
    obtain x where x: "mat_get (g_matrix g) a b = Inr x" "x \<noteq> PInf" using \<open>link g a b\<close> unfolding link_def by blast
    then have ab: "0 \<le> a" "nat a < g_size g0" "0 \<le> b" "nat b < g_size g0" "x = g_matrix g ! nat a ! nat b"
      using g(4) by (auto simp: mat_get_def go_bind_eq_Inr go_index_eq_Inr square_def)
    with x(2) g(5) have "\<lparr>np_source = a, np_target = b\<rparr> \<in> set ps" by (auto simp: entries_def)
    then have "b \<in> path_sites ps" by (force simp: path_sites_def)
    with stable [OF g(1)] show "b \<in> S" by blast
  qed
  with g(2) that show thesis by blast
qed

lemma hop_routed:
  assumes "tables_ok S N m" "routed (s, t) m" "s \<in> S" "t \<in> S"
  shows "\<exists>v\<in>N. hop m t s = Some v"
proof -
  obtain r where r: "m s = Some r" "dom r = S" "ran r \<subseteq> insert (- 1) N" using assms(1,3) by (auto simp: tables_ok_def)
  then obtain v where v: "r t = Some v" using assms(4) by blast
  then have "v \<in> insert (- 1) N" using r(3) by (auto simp: ran_def)
  moreover have "v \<noteq> - 1" using assms(2) r(1) v by (simp add: routed_def site_read_def map_read_def)
  ultimately show ?thesis using r(1) v by (auto simp: hop_def)
qed

text \<open>The range loops visit every site, and every site in the table of each.\<close>

definition site_orders :: "central_env \<Rightarrow> int set \<Rightarrow> bool" where
  "site_orders C S \<longleftrightarrow> set (ce_site_order C) = S \<and> (\<forall>s\<in>S. set (ce_target_order C s) = S)"

lemma compute_tables_delivers:
  fixes w :: "'z graph_world_scheme"
  assumes run: "compute_tables C w = (Inr sites, w')" and ok: "central_ok w"
    and ps: "GetAllPaths (ce_net C) w = (Inr ps, w1)" and C: "reorders C" "site_orders C (path_sites ps)"
    and stable: "\<And>(v :: 'z graph_world_scheme) qs v'. GetAllPaths (ce_net C) v = (Inr qs, v') \<Longrightarrow> path_sites qs \<subseteq> path_sites ps"
    and nonneg: "\<forall>s\<in>path_sites ps. 0 \<le> s"
  shows "dom sites = path_sites ps \<and> (\<forall>s\<in>path_sites ps. \<forall>r. sites s = Some r \<longrightarrow> dom r = path_sites ps) \<and>
    (\<forall>s\<in>path_sites ps. \<forall>t\<in>path_sites ps. (\<exists>v\<in>path_sites ps. hop sites t s = Some v) \<and> delivers sites t s)"
proof -
  let ?S = "path_sites ps"
  obtain w2 w3 where g: "ready_graph C w1 = (Inr (), w2)"
    and loop: "for_each (route_site C) (ce_site_order C) (init_sites ps) w2 = (Inr sites, w3)"
    and chk: "checkForLoops C sites = Inr ()"
    using run ps by (auto simp: compute_tables_def bind_eq_Inr)
  obtain n where "w1 = w\<lparr>ticks := n\<rparr>" using only_ticksD [OF only_ticks_GetAllPaths ps] by blast
  then have "central_ok w1" using ok by (simp add: central_ok_def cost_cache_inv_def)
  with g obtain g0 where g0: "the_graph w2 = Some g0" "\<forall>a b. link g0 a b \<longrightarrow> b \<in> ?S"
    by (rule ready_graph_links) (rule stable)
  have neg: "- 1 \<notin> ?S" using nonneg by fastforce
  have t: "tables_ok ?S ?S sites" and r: "\<forall>s\<in>?S. \<forall>t\<in>?S. routed (s, t) sites"
    using route_sites_ok [OF loop init_sites_ok g0(1) order_refl neg g0(2) C(1)] C(2) by (simp_all add: site_orders_def)
  have hops: "\<exists>v\<in>?S. hop sites t s = Some v" if "s \<in> ?S" "t \<in> ?S" for s t
    using hop_routed [OF t] r that by blast
  have dom: "dom r = ?S" if "sites s = Some r" for s r using t that by (simp add: tables_ok_def)
  have S: "dom sites = ?S" using t by (simp add: tables_ok_def)
  have "set (ce_target_order C s) = dom r" if "sites s = Some r" for s r
    using that S dom C(2) by (metis domI site_orders_def)
  then have "ranges_over C sites" using S C(2) by (simp add: ranges_over_def site_orders_def)
  with chk have settled: "settles sites t s" if "hop sites t s \<noteq> None" for s t
    using that by (simp add: checkForLoops_iff split: if_splits)
  have "delivers sites t s" if "s \<in> ?S" "t \<in> ?S" for s t
    using settles_delivers [of sites t s ?S] settled [of t s] hops that by fastforce
  with hops t dom show ?thesis by (simp add: tables_ok_def)
qed

section \<open>Distributing\<close>

lemma distribute_step_run:
  "distribute_step C m s u w =
    (case getSiteRPCConn C s of
       Inl e \<Rightarrow> (Inl e, w)
     | Inr conn \<Rightarrow>
         (let t = convertToInt32Map (ce_target_order C s) (case m s of None \<Rightarrow> Map.empty | Some r \<Rightarrow> r)
          in (case ce_update C (ticks w) s t of None \<Rightarrow> Inr () | Some e \<Rightarrow> Inl (Err (Wrapf ''error updating route'' e)),
              w\<lparr>ticks := Suc (ticks w), cr_sent := cr_sent w @ [(s, t)]\<rparr>)))"
  by (simp add: distribute_step_def bind_def next_tick_def Let_def split: option.splits sum.splits)

lemma Distribute_sent:
  fixes w :: "'z central_world_scheme"
  assumes "for_each (distribute_step C m) order () w = (r, w')"
  shows "\<exists>n\<le>length order. (r = Inr () \<longrightarrow> n = length order) \<and> cr_sent w' = cr_sent w @
     map (\<lambda>s. (s, convertToInt32Map (ce_target_order C s) (case m s of None \<Rightarrow> Map.empty | Some r \<Rightarrow> r))) (take n order)"
  using assms
proof (induction order arbitrary: w)
  case (Cons s order)
  let ?t = "convertToInt32Map (ce_target_order C s) (case m s of None \<Rightarrow> Map.empty | Some r \<Rightarrow> r)"
  let ?w = "w\<lparr>ticks := Suc (ticks w), cr_sent := cr_sent w @ [(s, ?t)]\<rparr>"
  show ?case
  proof (cases "getSiteRPCConn C s")
    case (Inl e)
    then have "w' = w" "r \<noteq> Inr ()" using Cons.prems by (auto simp: distribute_step_def bind_def)
    then show ?thesis by (intro exI [of _ 0]) simp
  next
    case (Inr conn)
    show ?thesis
    proof (cases "ce_update C (ticks w) s ?t")
      case (Some e)
      with Inr have "w' = ?w" "r \<noteq> Inr ()"
        using Cons.prems by (auto simp: distribute_step_run [of C m s "()" w] bind_def Let_def)
      then show ?thesis by (intro exI [of _ 1]) simp
    next
      case ok: None
      with Inr have "for_each (distribute_step C m) order () ?w = (r, w')"
        using Cons.prems by (simp add: distribute_step_run [of C m s "()" w] bind_def Let_def)
      from Cons.IH [OF this] obtain n where "n \<le> length order" "r = Inr () \<longrightarrow> n = length order"
        "cr_sent w' = cr_sent ?w @ map (\<lambda>s. (s, convertToInt32Map (ce_target_order C s)
           (case m s of None \<Rightarrow> Map.empty | Some r \<Rightarrow> r))) (take n order)" by blast
      then show ?thesis by (intro exI [of _ "Suc n"]) simp
    qed
  qed
qed simp

definition fits_int32 :: "int \<Rightarrow> bool" where
  "fits_int32 i \<longleftrightarrow> - (2 ^ 31) \<le> i \<and> i < 2 ^ 31"

lemma convertToInt32Map_id:
  assumes "set order = dom r" "\<forall>k v. r k = Some v \<longrightarrow> fits_int32 k \<and> fits_int32 v"
  shows "convertToInt32Map order r = r"
proof -
  have "fold (\<lambda>k out. out(to_int32 k \<mapsto> to_int32 (map_read r k))) ks m = (\<lambda>k. if k \<in> set ks then r k else m k)"
    if "set ks \<subseteq> dom r" for ks m
    using that
  proof (induction ks arbitrary: m)
    case (Cons k ks)
    then obtain v where v: "r k = Some v" by auto
    then have "to_int32 k = k" "to_int32 v = v" using assms(2) by (auto simp: fits_int32_def intro: to_int32_id)
    with v Cons show ?case by (auto simp: map_read_def fun_upd_def)
  qed simp
  from this [of order Map.empty] assms(1) show ?thesis by (auto simp: convertToInt32Map_def dom_def)
qed

text \<open>The conversion to \<open>int32\<close> keeps the tables, and without errors every site gets its table.\<close>

lemma converted_table:
  assumes "site_orders C S" "\<forall>s\<in>S. 0 \<le> s \<and> s < 2 ^ 31" "dom sites = S" "\<forall>s\<in>S. \<forall>r. sites s = Some r \<longrightarrow> dom r = S"
    and hops: "\<forall>s\<in>S. \<forall>t\<in>S. \<exists>v\<in>S. hop sites t s = Some v" and s: "s \<in> S"
  shows "convertToInt32Map (ce_target_order C s) (case sites s of None \<Rightarrow> Map.empty | Some r \<Rightarrow> r) = the (sites s)"
proof -
  obtain q where q: "sites s = Some q" using s assms(3) by blast
  have dq: "dom q = S" using assms(4) s q by blast
  then have "set (ce_target_order C s) = dom q" using assms(1) s by (simp add: site_orders_def)
  moreover have "fits_int32 k \<and> fits_int32 v" if kv: "q k = Some v" for k v
  proof -
    have k: "k \<in> S" using kv dq by blast
    then obtain v' where "v' \<in> S" "hop sites k s = Some v'" using hops s by blast
    then have "v \<in> S" using q kv by (simp add: hop_def)
    with k assms(2) have "0 \<le> k" "k < 2 ^ 31" "0 \<le> v" "v < 2 ^ 31" by blast+
    then show ?thesis by (simp add: fits_int32_def)
  qed
  ultimately show ?thesis using q convertToInt32Map_id by simp
qed

lemma distribute_returns:
  assumes "\<forall>a. ce_dial C a = None" "\<forall>i s t. ce_update C i s t = None"
  shows "\<exists>v. for_each (distribute_step C sites) order () w = (Inr (), v)"
proof (induction order arbitrary: w)
  case (Cons s order)
  with assms show ?case by (simp add: getSiteRPCConn_def distribute_step_run [of C sites s "()" w] bind_def Let_def)
qed simp

section \<open>Properties\<close>

text \<open>
  C14. \<open>checkForLoops\<close> always returns, and accepts the tables exactly when no packet can circle: from every site, for
  every destination it has an entry for, following the next hops ends.
\<close>

theorem checkForLoops_correct:
  assumes "ranges_over C m"
  shows "checkForLoops C m =
    (if \<forall>s t. hop m t s \<noteq> None \<longrightarrow> settles m t s then Inr () else Inl (Err (Errorf ''loop detected'')))"
  by (rule checkForLoops_iff [OF assms])

text \<open>
  C3. End-to-end delivery: when \<open>Refresh\<close> succeeds, the tables it sends, in the order of the sites and all of them unless a call
  fails, are complete and lead every packet from every site hop by hop to its destination. Nothing is
  assumed of the measured latencies, the order of the loops, or the array the measured paths share; the topology
  Prometheus reports must not change between the queries of one run.
\<close>

theorem central_Refresh_delivers:
  fixes w :: "'z central_world_scheme"
  assumes "central_Refresh C w = (Inr (), w')" "central_ok w" "GetAllPaths (ce_net C) w = (Inr ps, w1)"
    and "reorders C" "site_orders C (path_sites ps)" "\<forall>s\<in>path_sites ps. 0 \<le> s \<and> s < 2 ^ 31"
    and "\<And>(v :: 'z central_world_scheme) qs v'. GetAllPaths (ce_net C) v = (Inr qs, v') \<Longrightarrow> path_sites qs \<subseteq> path_sites ps"
  shows "\<exists>sites n. cr_sent w' = cr_sent w @ map (\<lambda>s. (s, the (sites s))) (take n (ce_site_order C)) \<and>
    ((\<forall>a. ce_dial C a = None) \<and> (\<forall>i s t. ce_update C i s t = None) \<longrightarrow> length (ce_site_order C) \<le> n) \<and>
    dom sites = path_sites ps \<and>
    (\<forall>s\<in>path_sites ps. \<forall>t\<in>path_sites ps. hop sites t s \<noteq> None \<and> delivers sites t s)"
proof -
  let ?S = "path_sites ps"
  obtain sites u where c: "compute_tables C w = (Inr sites, u)"
    and d: "attempt (Distribute C sites) (\<lambda>r. ret ()) u = (Inr (), w')"
    using assms(1) by (auto simp: central_Refresh_def bind_eq_Inr)
  obtain r where r: "for_each (distribute_step C sites) (ce_site_order C) () u = (r, w')"
    using d by (auto simp: attempt_def Distribute_def split: prod.splits sum.splits go_fault.splits)
  have "dom sites = ?S \<and> (\<forall>s\<in>?S. \<forall>r. sites s = Some r \<longrightarrow> dom r = ?S) \<and>
    (\<forall>s\<in>?S. \<forall>t\<in>?S. (\<exists>v\<in>?S. hop sites t s = Some v) \<and> delivers sites t s)"
  proof (rule compute_tables_delivers [OF c assms(2-5)])
    show "\<And>(v :: 'z central_world_scheme) qs v'. GetAllPaths (ce_net C) v = (Inr qs, v') \<Longrightarrow> path_sites qs \<subseteq> ?S"
      by (rule assms(7))
    show "\<forall>s\<in>?S. 0 \<le> s" using assms(6) by blast
  qed
  then have del: "dom sites = ?S" "\<forall>s\<in>?S. \<forall>r. sites s = Some r \<longrightarrow> dom r = ?S"
    "\<forall>s\<in>?S. \<forall>t\<in>?S. (\<exists>v\<in>?S. hop sites t s = Some v) \<and> delivers sites t s" by simp_all
  have conv: "convertToInt32Map (ce_target_order C s) (case sites s of None \<Rightarrow> Map.empty | Some r \<Rightarrow> r) = the (sites s)"
    if "s \<in> ?S" for s
    by (rule converted_table [OF assms(5,6) del(1,2) _ that]) (use del(3) in blast)
  obtain n where n: "r = Inr () \<longrightarrow> n = length (ce_site_order C)" "cr_sent w' = cr_sent u @
     map (\<lambda>s. (s, convertToInt32Map (ce_target_order C s) (case sites s of None \<Rightarrow> Map.empty | Some r \<Rightarrow> r)))
       (take n (ce_site_order C))" using Distribute_sent [OF r] by blast
  have "map (\<lambda>s. (s, convertToInt32Map (ce_target_order C s) (case sites s of None \<Rightarrow> Map.empty | Some r \<Rightarrow> r)))
       (take n (ce_site_order C)) = map (\<lambda>s. (s, the (sites s))) (take n (ce_site_order C))"
    using conv assms(5) by (auto simp: site_orders_def dest: in_set_takeD)
  moreover have "cr_sent u = cr_sent w" by (rule same_sent) (rule keepsD [OF keeps_compute_tables c])
  moreover have "r = Inr ()" if "\<forall>a. ce_dial C a = None" "\<forall>i s t. ce_update C i s t = None"
    using distribute_returns [OF that] r by (metis fst_conv)
  moreover have "\<forall>s\<in>?S. \<forall>t\<in>?S. hop sites t s \<noteq> None \<and> delivers sites t s"
    using del(3) by (metis option.distinct(1))
  ultimately show ?thesis using n del(1) by (intro exI [of _ sites] exI [of _ n]) (simp only: order_refl simp_thms, blast)
qed

text \<open>
  C15. \<open>UpdateSiteRoutes\<close> reports a change exactly when some site's next hop, read with Go's default 0, differs or a
  known site disappears; afterwards every read gives the new table's value, and a reported change stores exactly the new table.
\<close>

theorem UpdateSiteRoutes_correct:
  fixes w :: "'z central_world_scheme"
  assumes "enumerates new_keys routes" "enumerates old_keys (cr_siteRoutes w)"
    and "UpdateSiteRoutes E new_keys old_keys routes w = (Inr changed, w')"
  shows "(changed \<longleftrightarrow> (\<exists>k. map_read (cr_siteRoutes w) k \<noteq> map_read routes k) \<or> \<not> dom (cr_siteRoutes w) \<subseteq> dom routes) \<and>
    (\<forall>k. map_read (cr_siteRoutes w') k = map_read routes k) \<and>
    cr_siteRoutes w' = (if changed then routes else cr_siteRoutes w) \<and> cr_updatedAt w' = clock E (ticks w)"
proof -
  have new: "(\<lambda>k. if k \<in> set new_keys then routes k else None) = routes"
    using assms(1) by (auto simp: enumerates_def dom_def)
  have c: "changed = routes_differ new_keys old_keys routes (cr_siteRoutes w)"
    and w': "cr_siteRoutes w' = (if changed then routes else cr_siteRoutes w)" "cr_updatedAt w' = clock E (ticks w)"
    using assms(3) new by (auto simp: UpdateSiteRoutes_def Let_def)
  have gone: "list_ex (\<lambda>k. routes k = None) old_keys \<longleftrightarrow> \<not> dom (cr_siteRoutes w) \<subseteq> dom routes"
    using assms(2) by (auto simp: enumerates_def list_ex_iff)
  have diff: "map_read (cr_siteRoutes w) k = map_read routes k"
    if "\<not> changed" for k
  proof (cases "routes k")
    case None
    then have "cr_siteRoutes w k = None" using that gone c unfolding routes_differ_def by blast
    with None show ?thesis by (simp add: map_read_def)
  next
    case (Some v)
    then have "k \<in> set new_keys" using assms(1) by (auto simp: enumerates_def)
    with that c show ?thesis by (auto simp: routes_differ_def list_ex_iff)
  qed
  have "changed \<longleftrightarrow> (\<exists>k. map_read (cr_siteRoutes w) k \<noteq> map_read routes k) \<or> \<not> dom (cr_siteRoutes w) \<subseteq> dom routes"
  proof
    assume changed
    then show "(\<exists>k. map_read (cr_siteRoutes w) k \<noteq> map_read routes k) \<or> \<not> dom (cr_siteRoutes w) \<subseteq> dom routes"
      using c gone unfolding routes_differ_def list_ex_iff by blast
  next
    assume *: "(\<exists>k. map_read (cr_siteRoutes w) k \<noteq> map_read routes k) \<or> \<not> dom (cr_siteRoutes w) \<subseteq> dom routes"
    show changed
    proof (rule ccontr)
      assume n: "\<not> changed"
      with diff * have "\<not> dom (cr_siteRoutes w) \<subseteq> dom routes" by simp
      with gone c n show False unfolding routes_differ_def by blast
    qed
  qed
  moreover have "map_read (cr_siteRoutes w') k = map_read routes k" for k using diff w'(1) by (cases changed) auto
  ultimately show ?thesis using w' by blast
qed

text \<open>
  A new destination whose next hop is site 0 is no change: the comparison reads 0 for the missing key, so the
  route is not stored and no update of the kernel routes is triggered.
\<close>

lemma UpdateSiteRoutes_misses_zero:
  fixes w :: "'z central_world_scheme"
  assumes "cr_siteRoutes w k = None" "enumerates old_keys (cr_siteRoutes w)"
  shows "fst (UpdateSiteRoutes E (k # old_keys) old_keys ((cr_siteRoutes w)(k \<mapsto> 0)) w) = Inr False \<and>
     cr_siteRoutes (snd (UpdateSiteRoutes E (k # old_keys) old_keys ((cr_siteRoutes w)(k \<mapsto> 0)) w)) k = None"
proof -
  have "\<not> routes_differ (k # old_keys) old_keys ((cr_siteRoutes w)(k \<mapsto> 0)) (cr_siteRoutes w)"
    using assms by (auto simp: routes_differ_def list_ex_iff enumerates_def map_read_def)
  with assms(1) show ?thesis by (simp add: UpdateSiteRoutes_def)
qed

text \<open>
  The paths measured for one forward path share its array: when two return paths of the same length fit behind it,
  the append for the second overwrites the first, so that the path recorded for the first measurement is the second one.
\<close>

lemma full_view_overwritten:
  assumes "length u = length v" "length p + length (tl u) \<le> cap"
  shows "full_view cap p [v, u] 0 1 = p @ tl v \<and> full_view cap p [v, u] 0 2 = p @ tl u"
  using assms by (simp add: full_view_def write_tail_def eval_nat_numeral)

section \<open>Witnesses\<close>

text \<open>Two sites and a path each way, at a cost that is cached.\<close>

definition ring_env :: env where
  "ring_env = \<lparr>clock = (\<lambda>n. 0),
     http_get = (\<lambda>n r. HTTPStatus 200 (Decoded \<lparr>q_status = ''success'',
        q_result = [\<lparr>r_source = ''0'', r_target = ''1'', r_version = ''4'', r_values = []\<rparr>,
                    \<lparr>r_source = ''1'', r_target = ''0'', r_version = ''4'', r_values = []\<rparr>]\<rparr>)),
     version_order = (\<lambda>n. [''4'', ''6''])\<rparr>"

definition ring_central :: central_env where
  "ring_central =
     \<lparr>ce_net = ring_env, ce_localID = 0, ce_site_order = [1, 0], ce_target_order = (\<lambda>s. [0, 1]), ce_arrival = rev,
      ce_grown_cap = (\<lambda>l. 2 * l), ce_returned = (\<lambda>i j. 1), ce_measure = (\<lambda>n p. (7, None)), ce_latency = (\<lambda>n s p. Inr 9),
      ce_dial = (\<lambda>s. None), ce_update = (\<lambda>n s t. None), ce_consensus = Some (\<lambda>n. (True, True))\<rparr>"

definition ring_graph :: graph where
  "ring_graph = NewGraphFromMatrix [[PInf, Fin 1], [Fin 1, PInf]]"

definition ring_world :: central_world where
  "ring_world =
     \<lparr>ticks = 0,
      cost_cache = [generateCostCacheKey 64512 64513 \<mapsto> \<lparr>ce_cost = Fin 1, ce_expiration = 1\<rparr>,
                    generateCostCacheKey 64513 64512 \<mapsto> \<lparr>ce_cost = Fin 1, ce_expiration = 1\<rparr>],
      latency_cache = Map.empty, the_graph = Some ring_graph,
      cr_siteRoutes = Map.empty, cr_updatedAt = 0, cr_sent = []\<rparr>"

definition ring_paths :: "network_path list" where
  "ring_paths = [\<lparr>np_source = 0, np_target = 1\<rparr>, \<lparr>np_source = 1, np_target = 0\<rparr>]"

lemma ring_GetAllPaths: "GetAllPaths ring_env w = (Inr ring_paths, w\<lparr>ticks := Suc (ticks w)\<rparr>)"
proof -
  have "atoi ''0'' = Some 0" "atoi ''1'' = Some 1" by code_simp+
  then show ?thesis
    by (simp add: GetAllPaths_def query_range_def http_do_def decode_response_def bind_def ring_env_def parse_path_def
        ring_paths_def)
qed

lemma ring_sites: "path_sites ring_paths = {0, 1}"
  by (auto simp: path_sites_def ring_paths_def)

lemmas [code] = top_n_loop.simps

lemma ring_search:
  "GetTopNShortestPaths (Some ring_graph) 0 1 5 = Some (Inr [\<lparr>pr_path = [0, 1], pr_distance = Fin 1\<rparr>])"
  "GetTopNShortestPaths (Some ring_graph) 1 0 5 = Some (Inr [\<lparr>pr_path = [1, 0], pr_distance = Fin 1\<rparr>])"
  by code_simp+

lemma ring_ready:
  fixes w :: "'z graph_world_scheme"
  assumes "the_graph w = Some ring_graph" "cost_cache w = cost_cache ring_world"
  shows "ready_graph ring_central w = (Inr (), w\<lparr>ticks := ticks w + 3\<rparr>)"
proof -
  have cost: "GetPathCost ring_env 64512 64513 v = (Inr (Fin 1), v\<lparr>ticks := Suc (ticks v)\<rparr>)"
    "GetPathCost ring_env 64513 64512 v = (Inr (Fin 1), v\<lparr>ticks := Suc (ticks v)\<rparr>)"
    if "cost_cache v = cost_cache ring_world" for v :: "'z graph_world_scheme"
    using that by (simp_all add: GetPathCost_def cost_lookup_def bind_def time_now_def ring_world_def ring_env_def cost_key_inj)
  have "w\<lparr>the_graph := Some ring_graph\<rparr> = w" using assms(1) by (metis graph_world.surjective graph_world.update_convs(1))
  then show ?thesis
    using assms by (simp add: ready_graph_def bind_def wrap_def RefreshWeights_def get_graph_def ring_central_def
      ring_GetAllPaths put_matrix_def ring_paths_def refresh_step_def cost feq_def is_pinf_def ring_graph_def
      NewGraphFromMatrix_def mat_set_def go_index_def eval_nat_numeral)
qed

definition ring_tables :: site_tables where
  "ring_tables = [0 \<mapsto> [0 \<mapsto> 0, 1 \<mapsto> 1], 1 \<mapsto> [0 \<mapsto> 0, 1 \<mapsto> 1]]"

lemma ring_view: "full_view (Suc (Suc (Suc (Suc 0)))) [a, b] [[b, a]] 0 (Suc 0) = [a, b, a]"
  by (simp add: full_view_def write_tail_def)

lemma ring_pairs:
  fixes w :: "'z graph_world_scheme"
  assumes "the_graph w = Some ring_graph"
  shows "\<exists>w'. for_each (route_site ring_central) [1, 0] (init_sites ring_paths) w = (Inr ring_tables, w') \<and> the_graph w' = Some ring_graph"
  using assms
  by (simp add: route_site_def ring_central_def route_pair_def init_sites_def ring_sites site_read_def map_read_def ring_search
     bind_def measure_all_def measure_pair_def Let_def attempt_def measurePathLatency_def getSiteRPCConn_def next_tick_def full_view_def
     write_tail_def rank_results_def site_write_def)
     (auto simp: ring_tables_def ring_sites fun_eq_iff)

lemma ring_check: "checkForLoops ring_central ring_tables = Inr ()"
  by (simp add: checkForLoops_def ring_central_def check_pair_def site_read_def map_read_def ring_tables_def)

lemma ring_Refresh: "\<exists>w'. central_Refresh ring_central ring_world = (Inr (), w')"
proof -
  have net: "ce_net ring_central = ring_env" "ce_site_order ring_central = [1, 0]"
    "ce_dial ring_central a = None" "ce_update ring_central n s t = None" for a n s t
    by (simp_all add: ring_central_def)
  let ?w = "ring_world\<lparr>ticks := 4\<rparr>"
  obtain u where u: "for_each (route_site ring_central) [1, 0] (init_sites ring_paths) ?w = (Inr ring_tables, u)"
    using ring_pairs [of ?w] by (auto simp: ring_world_def)
  have step: "bind m k s = k v t" if "m s = (Inr v, t)" for m k s v t using that by (simp add: bind_def)
  have a: "GetAllPaths ring_env ring_world = (Inr ring_paths, ring_world\<lparr>ticks := 1\<rparr>)"
    using ring_GetAllPaths [of ring_world] by (simp add: ring_world_def)
  have r: "ready_graph ring_central (ring_world\<lparr>ticks := 1\<rparr>) = (Inr (), ?w)"
    using ring_ready [of "ring_world\<lparr>ticks := 1\<rparr>"] by (simp add: ring_world_def)
  have "compute_tables ring_central ring_world = (Inr ring_tables, u)"
    unfolding compute_tables_def net step [of "GetAllPaths ring_env", OF a] step [of "ready_graph ring_central", OF r]
      step [of "for_each (route_site ring_central) [1, 0] (init_sites ring_paths)", OF u] ring_check
    by (simp add: bind_def)
  then show ?thesis unfolding central_Refresh_def
    by (simp add: step attempt_def Distribute_def net distribute_step_run getSiteRPCConn_def bind_def Let_def)
qed

theorem central_Refresh_delivers_witness:
  "\<exists>w' sites n. central_Refresh ring_central ring_world = (Inr (), w') \<and> 2 \<le> n \<and>
     cr_sent w' = map (\<lambda>s. (s, the (sites s))) (take n [1, 0]) \<and> delivers sites 1 0"
proof -
  obtain w' where w': "central_Refresh ring_central ring_world = (Inr (), w')" using ring_Refresh by blast
  have ok: "central_ok ring_world"
    by (auto simp: central_ok_def cost_cache_inv_def ring_world_def ring_graph_def NewGraphFromMatrix_def graph_dims_def
        cost_key_inj cost_range_def split: if_splits)
  have get: "GetAllPaths (ce_net ring_central) v = (Inr ring_paths, v\<lparr>ticks := Suc (ticks v)\<rparr>)" for v :: central_world
    by (simp add: ring_central_def ring_GetAllPaths)
  have C: "reorders ring_central" "site_orders ring_central (path_sites ring_paths)"
    by (auto simp: reorders_def site_orders_def ring_central_def ring_sites)
  have "\<forall>s\<in>path_sites ring_paths. 0 \<le> s \<and> s < 2 ^ 31" by (simp add: ring_sites)
  moreover have "path_sites qs \<subseteq> path_sites ring_paths" if "GetAllPaths (ce_net ring_central) v = (Inr qs, v')"
    for v v' :: central_world and qs using that get [of v] by simp
  ultimately obtain sites n where n: "cr_sent w' = cr_sent ring_world @ map (\<lambda>s. (s, the (sites s))) (take n (ce_site_order ring_central))"
    "(\<forall>a. ce_dial ring_central a = None) \<and> (\<forall>i s t. ce_update ring_central i s t = None) \<longrightarrow>
       length (ce_site_order ring_central) \<le> n"
    "\<forall>s\<in>path_sites ring_paths. \<forall>t\<in>path_sites ring_paths. hop sites t s \<noteq> None \<and> delivers sites t s"
    using central_Refresh_delivers [OF w' ok get C] by blast
  then have "delivers sites 1 0" by (simp add: ring_sites)
  with w' n(1,2) show ?thesis
    by (intro exI [of _ w'] exI [of _ sites] exI [of _ n]) (simp add: ring_central_def ring_world_def)
qed

theorem checkForLoops_correct_witness:
  "checkForLoops ring_central ring_tables = Inr () \<and>
   checkForLoops (ring_central\<lparr>ce_site_order := [1, 2], ce_target_order := (\<lambda>s. [0])\<rparr>) [1 \<mapsto> [0 \<mapsto> 2], 2 \<mapsto> [0 \<mapsto> 1]]
     = Inl (Err (Errorf ''loop detected''))"
proof -
  let ?C = "ring_central\<lparr>ce_site_order := [1, 2], ce_target_order := (\<lambda>s. [0])\<rparr>"
  let ?m = "[1 \<mapsto> [0 \<mapsto> 2], 2 \<mapsto> [0 \<mapsto> 1]] :: site_tables"
  have "ranges_over ?C ?m" by (auto simp: ranges_over_def split: if_splits)
  from checkForLoops_correct [OF this] have c: "checkForLoops ?C ?m =
     (if \<forall>s t. hop ?m t s \<noteq> None \<longrightarrow> settles ?m t s then Inr () else Inl (Err (Errorf ''loop detected'')))" .
  have "\<not> settles ?m 0 1" using trapped [of ?m 0 1 "{1, 2}"] by (auto simp: hop_def)
  moreover have "hop ?m 0 1 \<noteq> None" by (simp add: hop_def)
  ultimately show ?thesis using c ring_check by auto
qed

theorem UpdateSiteRoutes_correct_witness:
  "\<exists>w'. UpdateSiteRoutes ring_env [1, 2] [] [1 \<mapsto> 1, 2 \<mapsto> 1] ring_world = (Inr True, w') \<and>
     cr_siteRoutes w' = [1 \<mapsto> 1, 2 \<mapsto> 1]"
proof -
  obtain c w' where r: "UpdateSiteRoutes ring_env [1, 2] [] [1 \<mapsto> 1, 2 \<mapsto> 1] ring_world = (Inr c, w')"
    by (simp add: UpdateSiteRoutes_def Let_def)
  have "enumerates [1, 2 :: int] [1 \<mapsto> 1, 2 \<mapsto> (1 :: int)]" "enumerates [] (cr_siteRoutes ring_world)"
    by (auto simp: enumerates_def ring_world_def)
  note u = UpdateSiteRoutes_correct [OF this r]
  have "map_read (cr_siteRoutes ring_world) 1 \<noteq> map_read [1 \<mapsto> 1, 2 \<mapsto> 1] 1" by (simp add: map_read_def ring_world_def)
  with u have c by blast
  with u r show ?thesis by simp
qed

lemma UpdateSiteRoutes_misses_zero_witness:
  "fst (UpdateSiteRoutes ring_env [3] [] [3 \<mapsto> 0] ring_world) = Inr False"
  using UpdateSiteRoutes_misses_zero [of ring_world 3 "[]" ring_env] by (simp add: ring_world_def)

lemma full_view_overwritten_witness:
  "full_view 6 [0, 1, 2, 3] [[3, 4, 0], [3, 5, 0]] 0 1 = [0, 1, 2, 3, 4, 0] \<and>
   full_view 6 [0, 1, 2, 3] [[3, 4, 0], [3, 5, 0]] 0 2 = [0, 1, 2, 3, 5, 0]"
  using full_view_overwritten [of "[3, 5, 0]" "[3, 4, 0]" "[0, 1, 2, 3]" 6] by simp

end
