(* ===== verification/IPText.thy ===== *)
theory IPText
  imports NetIP
begin

text \<open>
  The text of an address or a network determines it: what the route table and the removal of old kernel routes rely on when
  they use \<open>String()\<close> of a network as a key. Also what \<open>ParseCIDR\<close> returns is well formed.
\<close>

section \<open>Well-formed addresses\<close>

fun wf_ip :: "ip \<Rightarrow> bool" where
  "wf_ip (V4 a b c d) = True"
| "wf_ip (V6 gs) = (length gs = 8)"

definition wf_net :: "ipnet \<Rightarrow> bool" where
  "wf_net n = wf_ip (net_ip n)"

lemma mk_ip_wf: "length gs = 8 \<Longrightarrow> wf_ip (mk_ip gs)"
  by (auto simp: mk_ip_def split: list.splits)

lemma mask_ip_wf [simp]: "wf_ip (mask_ip n a) = wf_ip a"
  by (cases a) simp_all

lemma parse_ipv4_wf: "parse_ipv4 s = Some a \<Longrightarrow> wf_ip a"
  by (auto simp: parse_ipv4_def split: list.splits option.splits)

lemma ParseIP_wf: "ParseIP s = Some a \<Longrightarrow> wf_ip a"
  by (auto simp: ParseIP_def parse_ipv6_def split: list.splits if_splits option.splits
      dest: parse_ipv4_wf intro!: mk_ip_wf)

lemma mk_net_wf: "wf_ip a \<Longrightarrow> wf_net (mk_net c n a)"
  by (cases a) (simp_all add: mk_net_def wf_net_def)

lemma ParseCIDR_wf: "ParseCIDR s = Some n \<Longrightarrow> wf_net n"
  by (auto simp: ParseCIDR_def split: option.splits if_splits dest!: ParseIP_wf mk_net_wf)

section \<open>Hexadecimal groups\<close>

lemma hex_val_char: "d < 16 \<Longrightarrow> hex_val (hex_char d) = Some d"
proof -
  have "list_all (\<lambda>d. hex_val (hex_char d) = Some d) [0..<16]" by code_simp
  then show "d < 16 \<Longrightarrow> ?thesis" by (simp add: list_all_iff)
qed

declare hex_of.simps [simp del]

lemma hex_digits_append:
  "hex_digits (s @ t) acc = (case hex_digits s acc of None \<Rightarrow> None | Some a \<Rightarrow> hex_digits t a)"
  by (induction s arbitrary: acc) (auto split: option.splits)

lemma hex_digits_of: "hex_digits (hex_of n) 0 = Some n"
proof (induction n rule: hex_of.induct)
  case (1 n)
  then show ?case
    by (subst hex_of.simps) (auto simp: hex_val_char hex_digits_append)
qed

lemma hex_of_inj: "hex_of m = hex_of n \<Longrightarrow> m = n"
  using hex_digits_of by (metis option.inject)

lemma hex_of_chars: "c \<in> set (hex_of n) \<Longrightarrow> hex_val c \<noteq> None"
proof (induction n rule: hex_of.induct)
  case (1 n)
  then show ?case by (subst (asm) hex_of.simps) (auto simp: hex_val_char split: if_splits)
qed

lemma hex_of_nonempty: "hex_of n \<noteq> []"
  by (subst hex_of.simps) simp

definition group_text :: "string \<Rightarrow> bool" where
  "group_text s \<longleftrightarrow> s \<noteq> [] \<and> (\<forall>c\<in>set s. hex_val c \<noteq> None)"

lemma hex_group [simp]: "group_text (hex_of n)"
  by (auto simp: group_text_def hex_of_nonempty dest: hex_of_chars)

lemma group_chars:
  "group_text s \<Longrightarrow> CHR '':'' \<notin> set s \<and> CHR ''.'' \<notin> set s \<and> CHR ''/'' \<notin> set s \<and> s \<noteq> []"
proof -
  have "hex_val CHR '':'' = None" "hex_val CHR ''.'' = None" "hex_val CHR ''/'' = None" by code_simp+
  then show "group_text s \<Longrightarrow> ?thesis" by (auto simp: group_text_def)
qed

section \<open>Joined groups\<close>

lemma join_chars: "c \<in> set (join_with sep xs) \<Longrightarrow> c \<in> set sep \<or> (\<exists>x\<in>set xs. c \<in> set x)"
  by (induction sep xs rule: join_with.induct) auto

lemma split_join_append:
  "\<forall>x\<in>set xs. group_text x \<Longrightarrow>
     split (join_with '':'' xs @ CHR '':'' # rest) CHR '':'' = (if xs = [] then [[]] else xs) @ split rest CHR '':''"
proof (induction "'':''" xs rule: join_with.induct)
  case 1
  show ?case using split_append [of "CHR '':''" "[]" rest] by simp
next
  case (2 s)
  then show ?case using group_chars by (simp add: split_append)
next
  case (3 s t ss)
  then show ?case using group_chars by (simp add: split_append)
qed

lemma split_join:
  "\<forall>x\<in>set xs. group_text x \<Longrightarrow> split (join_with '':'' xs) CHR '':'' = (if xs = [] then [[]] else xs)"
proof (induction "'':''" xs rule: join_with.induct)
  case 1
  show ?case by (simp add: split_no_sep)
next
  case (2 s)
  then show ?case using group_chars by (simp add: split_no_sep)
next
  case (3 s t ss)
  then show ?case using group_chars by (simp add: split_append)
qed

text \<open>The groups before and after the compressed run, from the fields of the text.\<close>

definition left_groups :: "string list \<Rightarrow> string list" where
  "left_groups fs = takeWhile (\<lambda>s. s \<noteq> []) fs"

definition right_groups :: "string list \<Rightarrow> string list" where
  "right_groups fs = rev (takeWhile (\<lambda>s. s \<noteq> []) (rev fs))"

lemma split_compressed:
  assumes "\<forall>x\<in>set l. group_text x" "\<forall>x\<in>set r. group_text x"
  shows "left_groups (split (join_with '':'' l @ ''::'' @ join_with '':'' r) CHR '':'') = l \<and>
     right_groups (split (join_with '':'' l @ ''::'' @ join_with '':'' r) CHR '':'') = r \<and>
     [] \<in> set (split (join_with '':'' l @ ''::'' @ join_with '':'' r) CHR '':'')"
proof -
  have "split (join_with '':'' l @ ''::'' @ join_with '':'' r) CHR '':'' =
    (if l = [] then [[]] else l) @ [] # (if r = [] then [[]] else r)"
    using split_join_append [OF assms(1), of "CHR '':'' # join_with '':'' r"]
      split_append [of "CHR '':''" "[]" "join_with '':'' r"] split_join [OF assms(2)] by simp
  moreover have "\<forall>x\<in>set l. x \<noteq> []" "\<forall>x\<in>set r. x \<noteq> []" using assms group_chars by auto
  ultimately show ?thesis by (auto simp: left_groups_def right_groups_def takeWhile_append)
qed

section \<open>The text of an address\<close>

lemma zero_run_spec:
  "zero_run k gs = (i, n) \<Longrightarrow> k \<le> i \<and> i - k + n \<le> length gs \<and> take n (drop (i - k) gs) = replicate n 0"
proof (induction k gs arbitrary: i n rule: zero_run.induct)
  case (2 k g gs)
  let ?here = "length (takeWhile (\<lambda>x. x = 0) (g # gs))"
  obtain j m where jm: "zero_run (Suc k) gs = (j, m)" by fastforce
  show ?case
  proof (cases "m \<le> ?here")
    case True
    then have "i = k" "n = ?here" using 2(2) jm by (auto simp: Let_def)
    moreover have "take ?here (g # gs) = replicate ?here 0"
      by (metis (mono_tags, lifting) replicate_length_same set_takeWhileD takeWhile_eq_take)
    moreover have "?here \<le> length (g # gs)" by (rule length_takeWhile_le)
    ultimately show ?thesis by (simp only: diff_self_eq_0 drop_0 add_0 order_refl simp_thms)
  next
    case False
    then have "i = j" "n = m" using 2(2) jm by (auto simp: Let_def)
    with 2(1) [OF refl jm] show ?thesis by (auto simp: Suc_diff_le [symmetric] drop_Cons')
  qed
qed simp

text \<open>The printed groups before and after the run of zeros that is left out, if one is.\<close>

definition compressed :: "16 word list \<Rightarrow> bool" where
  "compressed gs \<longleftrightarrow> 2 \<le> snd (zero_run 0 gs)"

definition before_run :: "16 word list \<Rightarrow> 16 word list" where
  "before_run gs = take (fst (zero_run 0 gs)) gs"

definition after_run :: "16 word list \<Rightarrow> 16 word list" where
  "after_run gs = drop (fst (zero_run 0 gs) + snd (zero_run 0 gs)) gs"

definition hexes :: "16 word list \<Rightarrow> string list" where
  "hexes gs = map (\<lambda>g. hex_of (unat g)) gs"

lemma hexes_group: "\<forall>x\<in>set (hexes gs). group_text x"
  by (simp add: hexes_def)

lemma hexes_inj: "hexes a = hexes b \<longleftrightarrow> a = b"
proof -
  have "inj (\<lambda>g :: 16 word. hex_of (unat g))" by (auto simp: inj_def unsigned_word_eqI dest!: hex_of_inj)
  then show ?thesis by (simp add: hexes_def inj_map_eq_map)
qed

lemma ip_string_V6:
  "ip_string (V6 gs) =
     (if compressed gs then join_with '':'' (hexes (before_run gs)) @ ''::'' @ join_with '':'' (hexes (after_run gs))
      else join_with '':'' (hexes gs))"
  by (auto simp: compressed_def before_run_def after_run_def hexes_def take_map drop_map Let_def split: prod.splits)

lemma around_run: "gs = before_run gs @ replicate (length gs - length (before_run gs) - length (after_run gs)) 0 @ after_run gs"
proof -
  obtain i n where z: "zero_run 0 gs = (i, n)" by fastforce
  from zero_run_spec [OF z] have spec: "i + n \<le> length gs" "take n (drop i gs) = replicate n 0" by simp_all
  then have "gs = take i gs @ replicate n 0 @ drop (i + n) gs"
    by (metis add.commute append_take_drop_id drop_drop)
  then show ?thesis using spec z by (simp add: before_run_def after_run_def)
qed

lemma V6_text_inj:
  assumes "length a = 8" "length b = 8" "ip_string (V6 a) = ip_string (V6 b)"
  shows "a = b"
proof -
  let ?f = "\<lambda>gs. split (ip_string (V6 gs)) CHR '':''"
  have plain: "?f gs = hexes gs \<and> [] \<notin> set (?f gs)" if "\<not> compressed gs" "length gs = 8" for gs
  proof -
    have "gs \<noteq> []" using that(2) by auto
    moreover have "[] \<notin> set (hexes gs)" using hexes_group group_chars by blast
    moreover have "hexes gs \<noteq> []" using that(2) by (auto simp: hexes_def)
    ultimately show ?thesis using that(1) split_join [OF hexes_group, of gs] by (simp add: ip_string_V6 del: ip_string.simps)
  qed
  have short: "left_groups (?f gs) = hexes (before_run gs) \<and> right_groups (?f gs) = hexes (after_run gs) \<and> [] \<in> set (?f gs)"
    if "compressed gs" for gs
    using split_compressed [OF hexes_group hexes_group, of "before_run gs" "after_run gs"] that by (simp only: ip_string_V6 if_True)
  have f: "?f a = ?f b" using assms(3) by simp
  show ?thesis
  proof (cases "compressed a")
    case True
    with short f plain assms(2) have b: "compressed b" by metis
    from short [OF True] short [OF b] f have "before_run a = before_run b" "after_run a = after_run b"
      by (metis hexes_inj)+
    with around_run [of a] around_run [of b] assms(1,2) show ?thesis by metis
  next
    case False
    with short f plain assms(1) have b: "\<not> compressed b" by metis
    with plain [OF False assms(1)] plain [OF b assms(2)] f show ?thesis by (simp add: hexes_inj)
  qed
qed

lemma V4_text_dot: "CHR ''.'' \<in> set (ip_string (V4 a b c d))"
  by simp

lemma V6_text_chars: "c \<in> set (ip_string (V6 gs)) \<Longrightarrow> c \<noteq> CHR ''.'' \<and> c \<noteq> CHR ''/''"
  unfolding ip_string_V6 using hexes_group group_chars
  by (fastforce split: if_splits dest: join_chars)

lemma ip_string_inj:
  assumes "wf_ip a" "wf_ip b" "ip_string a = ip_string b"
  shows "a = b"
proof (cases a)
  case (V4 p q r s)
  show ?thesis
  proof (cases b)
    case b: (V4 p' q' r' s')
    with V4 assms(3) ParseIP_v4 show ?thesis by (metis option.inject)
  next
    case (V6 gs)
    with V4 assms(3) V4_text_dot V6_text_chars show ?thesis by metis
  qed
next
  case (V6 gs)
  show ?thesis
  proof (cases b)
    case (V4 p q r s)
    with V6 assms(3) V4_text_dot V6_text_chars show ?thesis by metis
  next
    case b: (V6 hs)
    with V6 assms V6_text_inj show ?thesis by simp
  qed
qed

lemma slash_not_ip: "CHR ''/'' \<notin> set (ip_string a)"
proof (cases a)
  case (V4 p q r s)
  then show ?thesis using slash_not_digits by simp
next
  case (V6 gs)
  then show ?thesis using V6_text_chars by blast
qed

lemma ipnet_string_inj:
  assumes "wf_net m" "wf_net n" "ipnet_string m = ipnet_string n"
  shows "m = n"
proof -
  have "split (ipnet_string k) CHR ''/'' = [ip_string (net_ip k), nat_digits (net_len k)]" for k :: ipnet
    by (simp add: ipnet_string_def split_append slash_not_ip split_no_sep slash_not_digits)
  with assms(3) have "ip_string (net_ip m) = ip_string (net_ip n)" "nat_digits (net_len m) = nat_digits (net_len n)"
    by (metis list.inject)+
  moreover from this(2) have "net_len m = net_len n" by (metis digits_val_nat_digits)
  ultimately show ?thesis using ip_string_inj assms(1,2) by (auto simp: wf_net_def)
qed

end
