(* ===== verification/Sync.thy ===== *)
theory Sync
  imports RouteManager Forwarding IPText "HOL-Library.List_Lexorder" "HOL-Library.Char_ord"
begin

text \<open>
  What \<open>SyncRouteTable\<close> does to the kernel: the invariants that every procedure of the route manager keeps, and the loops that
  remove and configure kernel routes.
\<close>

section \<open>Networks of the BGP routes\<close>

definition wf_dst :: "ipnet option \<Rightarrow> bool" where
  "wf_dst d \<longleftrightarrow> (\<exists>n. d = Some n \<and> wf_net n)"

definition bird_nets :: "bird_state \<Rightarrow> bool" where
  "bird_nets s \<longleftrightarrow> (\<forall>r\<in>set (bs_routes s). wf_dst (br_Network r)) \<and>
     (br_Network (bs_route s) = None \<or> wf_dst (br_Network (bs_route s)))"

lemma parsed_dst: "ParseCIDR rt = None \<or> wf_dst (ParseCIDR rt)"
  by (cases "ParseCIDR rt") (auto simp: wf_dst_def dest: ParseCIDR_wf)

lemma bird_nets_complete:
  "bird_nets s \<Longrightarrow> bird_nets (complete_path s)" "bird_nets s \<Longrightarrow> bird_nets (complete_route s)"
  by (auto simp: bird_nets_def complete_path_def add_path_def complete_route_def no_route_def)

lemma bird_nets_set_hop: "set_hop sp s = Inr t \<Longrightarrow> bird_nets s \<Longrightarrow> bird_nets t"
  by (auto simp: bird_nets_def set_hop_def go_bind_eq_Inr)

lemma bird_nets_start:
  assumes "start_route sp rt nxt s = Inr t" "bird_nets s"
  shows "bird_nets t"
proof (cases "let ty = Strings.fields (split_n2 nxt '':'' ! 1) in ty \<noteq> [] \<and> trim_space (hd ty) = ''BGP''")
  case True
  then obtain asn where t: "set_hop sp (s\<lparr>bs_isBGP := True,
      bs_route := (bs_route s)\<lparr>br_Network := ParseCIDR rt, br_OriginAS := asn\<rparr>\<rparr>) = Inr t"
    using assms(1) by (auto simp: start_route_def Let_def go_bind_eq_Inr)
  from bird_nets_set_hop [OF t] assms(2) parsed_dst [of rt] show ?thesis by (auto simp: bird_nets_def)
next
  case False
  then have "t = s\<lparr>bs_isBGP := False\<rparr>" using assms(1) by (auto simp: start_route_def Let_def)
  with assms(2) show ?thesis by (simp add: bird_nets_def)
qed

lemma bird_nets_attr: "attr_line line s = Inr t \<Longrightarrow> bird_nets s \<Longrightarrow> bird_nets t"
  by (auto simp: bird_nets_def attr_line_def go_bind_eq_Inr split: if_splits)

lemmas bird_nets_steps = bird_nets_complete bird_nets_set_hop bird_nets_start bird_nets_attr

lemma bird_GetRoutes_nets:
  assumes "bird_GetRoutes dial mode = Inr (routes, h)"
  shows "\<forall>r\<in>set routes. wf_dst (br_Network r)"
proof -
  obtain lines s where s: "(case lines of [] \<Rightarrow> Inr bird_init | l # ls \<Rightarrow> bird_run (trim_space l) ls bird_init) = Inr s"
    and fin: "bird_finish s = (routes, h)"
    using assms by (auto simp: bird_GetRoutes_def bird_parse_def go_bind_eq_Inr)
  have init: "bird_nets bird_init" by (simp add: bird_nets_def bird_init_def no_route_def)
  have "bird_nets s"
  proof (cases lines)
    case (Cons l ls)
    then have "bird_run (trim_space l) ls bird_init = Inr s" using s by simp
    from bird_run_keeps [where P = bird_nets, OF this init] bird_nets_steps show ?thesis by blast
  qed (use s init in simp)
  moreover from this have "bird_nets (complete_route (complete_path s))" using bird_nets_steps by blast
  ultimately show ?thesis using fin by (auto simp: bird_finish_def bird_nets_def Let_def split: if_splits)
qed

section \<open>The invariant of the route manager\<close>

definition kernel_ok :: "(ipnet \<Rightarrow> int) \<Rightarrow> nl_route set \<Rightarrow> bool" where
  "kernel_ok prio0 S \<longleftrightarrow>
     managed_ok prio0 CustomRouteProtocol S \<and> (\<forall>d. managed CustomRouteProtocol S d \<noteq> {} \<longrightarrow> wf_net d)"

definition table_ok :: "route_table \<Rightarrow> bool" where
  "table_ok rt \<longleftrightarrow> finite (dom (rt_routeMap rt)) \<and> table_inv rt \<and> (\<forall>r\<in>ran (rt_routeMap rt). wf_dst (kr_Destination r))"

definition manager_ok :: "('k \<Rightarrow> nl_route set) \<Rightarrow> (ipnet \<Rightarrow> int) \<Rightarrow> ('k, 'z) rm_world_scheme \<Rightarrow> bool" where
  "manager_ok R prio0 w \<longleftrightarrow> kernel_ok prio0 (R (rm_kernel w)) \<and> table_ok (rm_RouteTable w)"

lemma table_ok_clear: "table_ok (ClearRoutes rt)"
  by (simp add: table_ok_def ClearRoutes_def table_inv_def)

lemma table_ok_add:
  assumes "table_ok rt" "wf_dst d"
  shows "table_ok (AddRoute d gw rt)"
proof -
  have "ran ((rt_routeMap rt)(dst_string d \<mapsto> \<lparr>kr_Destination = d, kr_Gateway = gw\<rparr>)) \<subseteq>
    insert \<lparr>kr_Destination = d, kr_Gateway = gw\<rparr> (ran (rt_routeMap rt))" by (auto simp: ran_def)
  with assms show ?thesis by (auto simp: table_ok_def AddRoute_def table_inv_def)
qed

definition preserves :: "('s \<Rightarrow> bool) \<Rightarrow> ('s, 'a) proc \<Rightarrow> bool" where
  "preserves I m \<longleftrightarrow> (\<forall>w. I w \<longrightarrow> I (snd (m w)))"

named_theorems preserves_intro \<open>procedures that keep an invariant\<close>

lemma preservesD: "preserves I m \<Longrightarrow> I w \<Longrightarrow> m w = (r, w') \<Longrightarrow> I w'"
  unfolding preserves_def by (metis snd_conv)

lemma preserves_bind [preserves_intro]: "preserves I m \<Longrightarrow> (\<And>v. preserves I (k v)) \<Longrightarrow> preserves I (bind m k)"
  by (auto simp: preserves_def bind_def split: prod.splits sum.splits)

lemma preserves_attempt [preserves_intro]: "preserves I m \<Longrightarrow> (\<And>v. preserves I (k v)) \<Longrightarrow> preserves I (attempt m k)"
  by (auto simp: preserves_def attempt_def split: prod.splits sum.splits go_fault.splits)

lemma preserves_wrap [preserves_intro]: "preserves I m \<Longrightarrow> preserves I (wrap s m)"
  by (auto simp: preserves_def wrap_def split: prod.splits)

lemma preserves_basic [preserves_intro]:
  "preserves I (ret v)" "preserves I (throw e)" "preserves I (lift_go r)" "preserves I (read f)"
  by (simp_all add: preserves_def read_def)

lemma preserves_for_each [preserves_intro]:
  "(\<And>x a. x \<in> set xs \<Longrightarrow> preserves I (f x a)) \<Longrightarrow> preserves I (for_each f xs a)"
  by (induction xs arbitrary: a) (auto intro: preserves_intro)

lemma preserves_update: "(\<And>w. I w \<Longrightarrow> I (f w)) \<Longrightarrow> preserves I (update f)"
  by (simp add: preserves_def update_def)

lemma same_manager:
  fixes w w' :: "('k, 'z) rm_world_scheme"
  assumes "graph_world.more w' = graph_world.more w"
  shows "rm_kernel w' = rm_kernel w \<and> rm_RouteTable w' = rm_RouteTable w"
  using assms by (cases w; cases w') simp

lemma preserves_keeps:
  fixes m :: "(('k, 'z) rm_world_scheme, 'a) proc"
  assumes "keeps m"
  shows "preserves (manager_ok R prio0) m"
  unfolding preserves_def
proof (intro allI impI)
  fix w :: "('k, 'z) rm_world_scheme" assume "manager_ok R prio0 w"
  moreover have "graph_world.more (snd (m w)) = graph_world.more w" using assms unfolding keeps_def by blast
  ultimately show "manager_ok R prio0 (snd (m w))" using same_manager by (metis manager_ok_def)
qed

lemma keeps_low [keeps_intro]: "keeps (time_now E)" "keeps (read f)"
  by (simp_all add: keeps_def time_now_def read_def)

lemma keeps_shortest_path [keeps_intro]: "keeps (shortest_path s t)"
  by (auto simp: keeps_def shortest_path_def split: option.splits prod.splits)

lemma keeps_router_routes [keeps_intro]: "keeps (router_routes E mode :: ('z graph_world_scheme, bgp_route list) proc)"
  unfolding router_routes_def by (intro keeps_intro)

lemma keeps_findSiteGW [keeps_intro]: "keeps (findSiteGW E mode via :: ('z graph_world_scheme, ip option) proc)"
  unfolding findSiteGW_def by (auto intro!: keeps_intro split: list.splits)

lemma keeps_total_cost [keeps_intro]: "keeps (total_cost E prev as acc :: ('z graph_world_scheme, float64) proc)"
  by (induction "as" arbitrary: prev acc) (auto intro!: keeps_intro)

lemma keeps_lowest_index [keeps_intro]:
  "keeps (lowest_index E ps :: (('k, 'z) rm_world_scheme, nat) proc)"
  unfolding lowest_index_def lowest_step_def calculateTotalCost_def Let_def
  by (auto intro!: keeps_intro split: sum.splits)

lemma keeps_origin_search [keeps_intro]:
  "keeps (origin_search ps best origin :: (('k, 'z) rm_world_scheme, int option) proc)"
  by (induction ps arbitrary: best origin) (auto intro!: keeps_intro simp: Let_def split: prod.splits)

lemma keeps_central_fresh [keeps_intro]: "keeps (central_fresh E n :: (('k, 'z) rm_world_scheme, bool) proc)"
  unfolding central_fresh_def by (auto intro!: keeps_intro)

section \<open>Kernel operations\<close>

lemma managed_wf:
  assumes "kernel_ok prio0 S" "managed_ok prio0 CustomRouteProtocol S'"
    and "\<forall>e. managed CustomRouteProtocol S' e = {} \<or> managed CustomRouteProtocol S' e = managed CustomRouteProtocol S e \<or> wf_net e"
  shows "kernel_ok prio0 S'"
  using assms unfolding kernel_ok_def by metis

lemma RemoveRoute_ok:
  assumes laws: "kernel_laws nl R prio0" and ok: "kernel_ok prio0 (R k)"
    and run: "RemoveRoute nl dst CustomRouteProtocol k = (res, k')"
  shows "kernel_ok prio0 (R k')"
proof (cases dst)
  case None
  with run ok show ?thesis by (simp add: RemoveRoute_def)
next
  case (Some d)
  have m: "managed_ok prio0 CustomRouteProtocol (R k)" using ok by (simp add: kernel_ok_def)
  have r: "managed_ok prio0 CustomRouteProtocol (R k') \<and>
    (if go_ok res then managed CustomRouteProtocol (R k') d = {} \<and>
       (\<forall>e. e \<noteq> d \<longrightarrow> managed CustomRouteProtocol (R k') e = managed CustomRouteProtocol (R k) e)
     else R k' = R k)"
    using RemoveRoute_managed [OF laws m] run Some by simp
  show ?thesis
  proof (cases "go_ok res")
    case True
    with r have "managed CustomRouteProtocol (R k') e = {} \<or>
        managed CustomRouteProtocol (R k') e = managed CustomRouteProtocol (R k) e" for e by (cases "e = d") auto
    with r managed_wf [OF ok] show ?thesis by blast
  next
    case False
    with r ok show ?thesis by simp
  qed
qed

lemma ConfigureRoute_ok:
  assumes laws: "kernel_laws nl R prio0" and ok: "kernel_ok prio0 (R k)" and d: "wf_net d"
    and run: "ConfigureRoute nl (Some d) gw src CustomRouteProtocol k = (res, k')"
  shows "kernel_ok prio0 (R k') \<and>
    (\<forall>c. res = Inr c \<longrightarrow> managed CustomRouteProtocol (R k') d = {(gw, src)} \<and>
       (\<forall>e. e \<noteq> d \<longrightarrow> managed CustomRouteProtocol (R k') e = managed CustomRouteProtocol (R k) e))"
proof -
  have m: "managed_ok prio0 CustomRouteProtocol (R k)" using ok by (simp add: kernel_ok_def)
  have c: "configured prio0 CustomRouteProtocol d gw src (R k) res (R k')"
    by (rule ConfigureRoute_configured [OF laws m run])
  show ?thesis
  proof (cases res)
    case (Inl e)
    with c ok show ?thesis by (simp add: configured_def)
  next
    case (Inr n)
    with c have n: "managed_ok prio0 CustomRouteProtocol (R k')" "managed CustomRouteProtocol (R k') d = {(gw, src)}"
      "\<forall>e. e \<noteq> d \<longrightarrow> managed CustomRouteProtocol (R k') e = managed CustomRouteProtocol (R k) e"
      by (simp_all add: configured_def)
    then have "\<forall>e. managed CustomRouteProtocol (R k') e = {} \<or>
       managed CustomRouteProtocol (R k') e = managed CustomRouteProtocol (R k) e \<or> wf_net e" using d by metis
    with n managed_wf [OF ok] Inr show ?thesis by blast
  qed
qed

lemma on_kernel_run: "on_kernel m w = (r, w') \<longleftrightarrow> (\<exists>k. m (rm_kernel w) = (r, k) \<and> w' = w\<lparr>rm_kernel := k\<rparr>)"
  by (auto simp: on_kernel_def split: prod.splits)

lemma preserves_remove:
  "kernel_laws nl R prio0 \<Longrightarrow> preserves (manager_ok R prio0) (on_kernel (RemoveRoute nl d CustomRouteProtocol))"
  by (auto simp: preserves_def manager_ok_def on_kernel_def intro: RemoveRoute_ok split: prod.splits)

lemma preserves_add: "wf_dst d \<Longrightarrow> preserves (manager_ok R prio0) (add_route d gw)"
  unfolding add_route_def by (rule preserves_update) (simp add: manager_ok_def table_ok_add)

section \<open>The algorithms and the update of the table\<close>

lemma preserves_selectLowest:
  assumes "kernel_laws (re_nl E) R prio0" "wf_dst (br_Network r)"
  shows "preserves (manager_ok R prio0) (selectLowestCostBGPPath E r)"
  unfolding selectLowestCostBGPPath_def
  by (auto intro!: preserves_intro preserves_add preserves_remove assms preserves_keeps [OF keeps_lowest_index])

lemma preserves_graph_gateway: "preserves (manager_ok R prio0) (graph_gateway E mode origin)"
proof -
  have "preserves (manager_ok R prio0) (update (\<lambda>w. w\<lparr>rm_PathMap := f w\<rparr>))" for f
    by (rule preserves_update) (simp add: manager_ok_def)
  then show ?thesis unfolding graph_gateway_def
    by (auto intro!: preserves_intro preserves_keeps [OF keeps_shortest_path] preserves_keeps [OF keeps_findSiteGW]
        split: option.splits prod.splits)
qed

lemma preserves_need: "preserves I (need_network r)"
  unfolding need_network_def by (auto intro: preserves_intro split: option.splits)

lemma need_network_wf: "wf_dst (br_Network r) \<Longrightarrow> need_network r = ret n \<Longrightarrow> wf_dst (Some n)"
  by (auto simp: need_network_def wf_dst_def fun_eq_iff)

lemma preserves_graphBased:
  assumes "wf_dst (br_Network r)"
  shows "preserves (manager_ok R prio0) (graphBasedShortestPath E r)"
proof -
  obtain n where n: "br_Network r = Some n" "wf_dst (Some n)" using assms by (auto simp: wf_dst_def)
  show ?thesis unfolding graphBasedShortestPath_def need_network_def n(1) option.case bind_ret
    by (auto intro!: preserves_intro preserves_keeps [OF keeps_origin_search] preserves_graph_gateway preserves_add n(2)
        split: option.splits)
qed

lemma preserves_centralised:
  assumes "wf_dst (br_Network r)"
  shows "preserves (manager_ok R prio0) (centralisedBestPath E r)"
proof -
  obtain n where n: "br_Network r = Some n" "wf_dst (Some n)" using assms by (auto simp: wf_dst_def)
  show ?thesis unfolding centralisedBestPath_def need_network_def n(1) option.case bind_ret
    by (auto intro!: preserves_intro preserves_keeps [OF keeps_origin_search] preserves_keeps [OF keeps_findSiteGW]
        preserves_add n(2) split: option.splits)
qed

lemma preserves_try: "preserves I m \<Longrightarrow> preserves I (try_algorithm m r)"
  unfolding try_algorithm_def by (auto intro!: preserves_intro preserves_need split: sum.splits)

lemma preserves_set_method: "preserves (manager_ok R prio0) (set_method E val)"
  unfolding set_method_def
  by (auto intro!: preserves_intro preserves_keeps [OF keeps_low(1)] preserves_update simp: manager_ok_def)

lemma preserves_add_step:
  assumes "kernel_laws (re_nl E) R prio0" "wf_dst (br_Network r)"
  shows "preserves (manager_ok R prio0) (add_step E r acc)"
  unfolding add_step_def
  by (auto intro!: preserves_intro preserves_try preserves_set_method preserves_centralised preserves_graphBased
      preserves_selectLowest preserves_keeps [OF keeps_central_fresh] assms)

lemma router_routes_nets:
  assumes "router_routes E mode w = (Inr routes, w')"
  shows "\<forall>r\<in>set routes. wf_dst (br_Network r)"
  using assms bird_GetRoutes_nets
  by (fastforce simp: router_routes_def bind_eq_Inr go_bind_eq_Inr next_tick_def)

lemma preserves_update_mode:
  assumes "kernel_laws (re_nl E) R prio0"
  shows "preserves (manager_ok R prio0) (update_mode E mode u :: (('k, 'z) rm_world_scheme, unit) proc)"
  unfolding preserves_def
proof (intro allI impI)
  fix w :: "('k, 'z) rm_world_scheme" assume ok: "manager_ok R prio0 w"
  obtain x w1 where r: "router_routes E mode w = (x, w1)" by fastforce
  have ok1: "manager_ok R prio0 w1" by (rule preservesD [OF preserves_keeps [OF keeps_router_routes] ok r])
  show "manager_ok R prio0 (snd (update_mode E mode u w))"
  proof (cases x)
    case (Inl e)
    with r ok1 show ?thesis by (simp add: update_mode_def bind_def wrap_def go_wrap_def split: go_fault.splits)
  next
    case (Inr routes)
    have "preserves (manager_ok R prio0) (wrap ''error adding routes to route table''
        (addToRouteTable E routes :: (('k, 'z) rm_world_scheme, unit) proc))"
      unfolding addToRouteTable_def using router_routes_nets [OF r [unfolded Inr]]
      by (auto intro!: preserves_intro preserves_add_step [OF assms])
    then have "manager_ok R prio0 (snd (wrap ''error adding routes to route table'' (addToRouteTable E routes) w1))"
      using ok1 by (simp add: preserves_def)
    with r Inr show ?thesis by (simp add: update_mode_def bind_def wrap_def)
  qed
qed

lemma preserves_UpdateRouteTable:
  assumes "kernel_laws (re_nl E) R prio0"
  shows "preserves (manager_ok R prio0) (UpdateRouteTable E)"
proof -
  have "preserves (manager_ok R prio0) (update (\<lambda>w. w\<lparr>rm_RouteTable := ClearRoutes (rm_RouteTable w)\<rparr>))"
    by (rule preserves_update) (simp add: manager_ok_def table_ok_clear)
  then show ?thesis unfolding UpdateRouteTable_def
    by (intro preserves_intro preserves_update_mode [OF assms])
qed

lemma preserves_SyncGraph: "preserves (manager_ok R prio0) (SyncGraph E)"
proof -
  have "preserves (manager_ok R prio0) (update (\<lambda>w. w\<lparr>the_graph := f w\<rparr>))"
    "preserves (manager_ok R prio0) (update (\<lambda>w. w\<lparr>rm_graphReady := b\<rparr>))"
    "preserves (manager_ok R prio0) (update (\<lambda>w. w\<lparr>rm_PathMap := p, rm_graphReady := b\<rparr>))" for f b p
    by (rule preserves_update, simp add: manager_ok_def)+
  then show ?thesis unfolding SyncGraph_def refresh_graph_def
    by (auto intro!: preserves_intro preserves_keeps [OF keeps_NewGraph] preserves_keeps [OF keeps_RefreshWeights]
        split: option.splits sum.splits)
qed

section \<open>Removing and applying\<close>

abbreviation routes_at :: "('k \<Rightarrow> nl_route set) \<Rightarrow> 'k \<Rightarrow> ipnet \<Rightarrow> (ip option \<times> ip option) set" where
  "routes_at R k \<equiv> managed CustomRouteProtocol (R k)"

lemma remove_step_ok:
  assumes laws: "kernel_laws (re_nl E) R prio0" and ok: "kernel_ok prio0 (R (rm_kernel w))"
    and run: "remove_step E keys r () w = (Inr (), w')"
  obtains k where "w' = w\<lparr>rm_kernel := k\<rparr>" "kernel_ok prio0 (R k)"
    "\<And>d. routes_at R k d =
       (if nr_dst r = Some d \<and> dst_string (Some d) \<notin> set keys then {} else routes_at R (rm_kernel w) d)"
proof (cases "dst_string (nr_dst r) \<in> set keys")
  case True
  then have "w' = w\<lparr>rm_kernel := rm_kernel w\<rparr>" using run by (simp add: remove_step_def)
  with True ok that show thesis by metis
next
  case False
  obtain k where k: "RemoveRoute (re_nl E) (nr_dst r) CustomRouteProtocol (rm_kernel w) = (Inr (), k)" "w' = w\<lparr>rm_kernel := k\<rparr>"
    using run False by (auto simp: remove_step_def on_kernel_run)
  then obtain d where d: "nr_dst r = Some d" by (cases "nr_dst r") (auto simp: RemoveRoute_def)
  have m: "managed_ok prio0 CustomRouteProtocol (R (rm_kernel w))" using ok by (simp add: kernel_ok_def)
  have "routes_at R k d = {} \<and> (\<forall>e. e \<noteq> d \<longrightarrow> routes_at R k e = routes_at R (rm_kernel w) e)"
    using RemoveRoute_managed [OF laws m, of d "Inr ()" k] k(1) d by (simp add: go_ok_def)
  then have e: "routes_at R k e =
      (if nr_dst r = Some e \<and> dst_string (Some e) \<notin> set keys then {} else routes_at R (rm_kernel w) e)" for e
    using d False by auto
  show thesis by (rule that [OF k(2) RemoveRoute_ok [OF laws ok k(1)] e])
qed

lemma remove_loop_ok:
  assumes laws: "kernel_laws (re_nl E) R prio0"
    and run: "for_each (remove_step E keys) rs () w = (Inr (), w')" and ok: "kernel_ok prio0 (R (rm_kernel w))"
  obtains k where "w' = w\<lparr>rm_kernel := k\<rparr>" "kernel_ok prio0 (R k)"
    "\<And>d. routes_at R k d =
       (if (\<exists>r\<in>set rs. nr_dst r = Some d) \<and> dst_string (Some d) \<notin> set keys then {} else routes_at R (rm_kernel w) d)"
  using run ok
proof (induction rs arbitrary: w thesis)
  case Nil
  from Nil(1) [of "rm_kernel w"] Nil(2,3) show ?case by simp
next
  case (Cons r rs)
  obtain w1 where s: "remove_step E keys r () w = (Inr (), w1)" and l: "for_each (remove_step E keys) rs () w1 = (Inr (), w')"
    using Cons.prems(2) by (auto simp: bind_eq_Inr)
  obtain k1 where k1: "w1 = w\<lparr>rm_kernel := k1\<rparr>" "kernel_ok prio0 (R k1)"
    "\<And>d. routes_at R k1 d =
       (if nr_dst r = Some d \<and> dst_string (Some d) \<notin> set keys then {} else routes_at R (rm_kernel w) d)"
    by (rule remove_step_ok [OF laws Cons.prems(3) s]) blast
  obtain k where k: "w' = w1\<lparr>rm_kernel := k\<rparr>" "kernel_ok prio0 (R k)"
    "\<And>d. routes_at R k d =
       (if (\<exists>r\<in>set rs. nr_dst r = Some d) \<and> dst_string (Some d) \<notin> set keys then {} else routes_at R (rm_kernel w1) d)"
    by (rule Cons.IH [OF _ l]) (use k1(1,2) in simp_all)
  show ?case by (rule Cons.prems(1) [of k]) (use k k1 in auto)
qed

lemma apply_step_ok:
  assumes laws: "kernel_laws (re_nl E) R prio0" and ok: "kernel_ok prio0 (R (rm_kernel w))"
    and r: "kr_Destination r = Some d" "wf_net d" and run: "apply_step E r () w = (Inr (), w')"
  obtains k where "w' = w\<lparr>rm_kernel := k\<rparr>" "kernel_ok prio0 (R k)"
    "routes_at R k d = {(kr_Gateway r, source_for w d)}"
    "\<And>e. e \<noteq> d \<Longrightarrow> routes_at R k e = routes_at R (rm_kernel w) e"
proof -
  obtain c k where k: "ConfigureRoute (re_nl E) (Some d) (kr_Gateway r) (source_for w d) CustomRouteProtocol (rm_kernel w) = (Inr c, k)"
    "w' = w\<lparr>rm_kernel := k\<rparr>"
    using run r(1) by (auto simp: apply_step_def bind_eq_Inr read_def on_kernel_run)
  from ConfigureRoute_ok [OF laws ok r(2) k(1)] that [OF k(2)] show thesis by blast
qed

lemma apply_loop_ok:
  assumes laws: "kernel_laws (re_nl E) R prio0"
    and run: "for_each (apply_step E) rs () w = (Inr (), w')" and ok: "kernel_ok prio0 (R (rm_kernel w))"
    and wf: "\<forall>r\<in>set rs. wf_dst (kr_Destination r)"
    and inj: "\<forall>r\<in>set rs. \<forall>r'\<in>set rs. kr_Destination r = kr_Destination r' \<longrightarrow> r = r'"
  obtains k where "w' = w\<lparr>rm_kernel := k\<rparr>" "kernel_ok prio0 (R k)"
    "\<And>r d. r \<in> set rs \<Longrightarrow> kr_Destination r = Some d \<Longrightarrow> routes_at R k d = {(kr_Gateway r, source_for w d)}"
    "\<And>e. \<forall>r\<in>set rs. kr_Destination r \<noteq> Some e \<Longrightarrow> routes_at R k e = routes_at R (rm_kernel w) e"
  using run ok wf inj
proof (induction rs arbitrary: w thesis)
  case Nil
  from Nil(1) [of "rm_kernel w"] Nil(2,3) show ?case by simp
next
  case (Cons r rs)
  obtain w1 where s: "apply_step E r () w = (Inr (), w1)" and l: "for_each (apply_step E) rs () w1 = (Inr (), w')"
    using Cons.prems(2) by (auto simp: bind_eq_Inr)
  obtain d where d: "kr_Destination r = Some d" "wf_net d" using Cons.prems(4) by (auto simp: wf_dst_def)
  obtain k1 where k1: "w1 = w\<lparr>rm_kernel := k1\<rparr>" "kernel_ok prio0 (R k1)"
    "routes_at R k1 d = {(kr_Gateway r, source_for w d)}"
    "\<And>e. e \<noteq> d \<Longrightarrow> routes_at R k1 e = routes_at R (rm_kernel w) e"
    by (rule apply_step_ok [OF laws Cons.prems(3) d s]) blast
  have src: "source_for w1 = source_for w" and ker: "rm_kernel w1 = k1" using k1(1) by (simp_all add: source_for_def fun_eq_iff)
  have rest: "kernel_ok prio0 (R (rm_kernel w1))" "\<forall>r\<in>set rs. wf_dst (kr_Destination r)"
    "\<forall>r\<in>set rs. \<forall>r'\<in>set rs. kr_Destination r = kr_Destination r' \<longrightarrow> r = r'"
    using k1(2) ker Cons.prems(4,5) by simp_all
  obtain k where k: "w' = w1\<lparr>rm_kernel := k\<rparr>" "kernel_ok prio0 (R k)"
    "\<And>r d. r \<in> set rs \<Longrightarrow> kr_Destination r = Some d \<Longrightarrow> routes_at R k d = {(kr_Gateway r, source_for w1 d)}"
    "\<And>e. \<forall>r\<in>set rs. kr_Destination r \<noteq> Some e \<Longrightarrow> routes_at R k e = routes_at R (rm_kernel w1) e"
    using Cons.IH [OF _ l rest] by blast
  have first: "routes_at R k d = {(kr_Gateway r, source_for w d)}"
  proof (cases "\<exists>r'\<in>set rs. kr_Destination r' = Some d")
    case True
    with Cons.prems(5) d(1) have "r \<in> set rs" by (metis list.set_intros(1,2))
    with k(3) d(1) src show ?thesis by simp
  next
    case False
    with k(4) [of d] k1(3) ker show ?thesis by simp
  qed
  show ?case
  proof (rule Cons.prems(1) [of k])
    show "w' = w\<lparr>rm_kernel := k\<rparr>" using k(1) k1(1) by simp
    show "kernel_ok prio0 (R k)" by fact
    show "routes_at R k e = {(kr_Gateway q, source_for w e)}" if "q \<in> set (r # rs)" "kr_Destination q = Some e" for q e
      using that first d(1) k(3) [of q e] src by auto
    show "routes_at R k e = routes_at R (rm_kernel w) e" if "\<forall>q\<in>set (r # rs). kr_Destination q \<noteq> Some e" for e
      using that k(4) [of e] k1(4) [of e] ker d(1) by auto
  qed
qed

definition orders_table :: "('k, 'e) rm_env_scheme \<Rightarrow> bool" where
  "orders_table E \<longleftrightarrow> (\<forall>n m. finite (dom m) \<longrightarrow> enumerates (re_order E n m) m)"

lemma table_routes_set:
  assumes "orders_table E" "table_ok (rm_RouteTable w)" "table_routes E w = (Inr rs, w')"
  shows "set rs = ran (rt_routeMap (rm_RouteTable w)) \<and> w' = w\<lparr>ticks := Suc (ticks w)\<rparr>"
  using assms GetRoutes_set [of "re_order E (ticks w) (rt_routeMap (rm_RouteTable w))" "rm_RouteTable w"]
  by (auto simp: table_routes_def bind_def next_tick_def read_def orders_table_def table_ok_def)

text \<open>The kernel routes the table asks for.\<close>

definition wanted :: "('k, 'z) rm_world_scheme \<Rightarrow> ipnet \<Rightarrow> (ip option \<times> ip option) set" where
  "wanted w d = (case rt_routeMap (rm_RouteTable w) (ipnet_string d) of
     None \<Rightarrow> {} | Some r \<Rightarrow> {(kr_Gateway r, source_for w d)})"

lemma table_key:
  assumes "table_ok rt" "r \<in> ran (rt_routeMap rt)"
  shows "rt_routeMap rt (dst_string (kr_Destination r)) = Some r"
proof -
  obtain k where k: "rt_routeMap rt k = Some r" using assms(2) by (auto simp: ran_def)
  have "k = dst_string (kr_Destination r)" using assms(1) k unfolding table_ok_def table_inv_def by meson
  with k show ?thesis by simp
qed

lemma table_dst_unique:
  assumes "table_ok rt" "r \<in> ran (rt_routeMap rt)" "r' \<in> ran (rt_routeMap rt)" "kr_Destination r = kr_Destination r'"
  shows "r = r'"
  using table_key [OF assms(1,2)] table_key [OF assms(1,3)] assms(4) by (metis option.inject)

lemma table_find:
  assumes "table_ok rt" "wf_net d"
  shows "rt_routeMap rt (ipnet_string d) = Some r \<longleftrightarrow> r \<in> ran (rt_routeMap rt) \<and> kr_Destination r = Some d"
proof
  assume r: "rt_routeMap rt (ipnet_string d) = Some r"
  then obtain n where n: "kr_Destination r = Some n" "wf_net n"
    using assms(1) by (auto simp: table_ok_def wf_dst_def intro: ranI)
  moreover have "ipnet_string d = dst_string (kr_Destination r)" using r assms(1) unfolding table_ok_def table_inv_def by blast
  ultimately have "d = n" using ipnet_string_inj assms(2) by (simp add: dst_string_def)
  with r n show "r \<in> ran (rt_routeMap rt) \<and> kr_Destination r = Some d" by (auto intro: ranI)
next
  assume r: "r \<in> ran (rt_routeMap rt) \<and> kr_Destination r = Some d"
  with table_key [OF assms(1), of r] show "rt_routeMap rt (ipnet_string d) = Some r" by (simp add: dst_string_def)
qed

lemma table_missing:
  assumes "table_ok rt" "wf_net d" "rt_routeMap rt (ipnet_string d) = None"
  shows "\<forall>r\<in>ran (rt_routeMap rt). kr_Destination r \<noteq> Some d \<and> dst_string (kr_Destination r) \<noteq> dst_string (Some d)"
proof (intro ballI conjI)
  fix r assume r: "r \<in> ran (rt_routeMap rt)"
  then show "kr_Destination r \<noteq> Some d" using table_find [OF assms(1,2), of r] assms(3) by auto
  show "dst_string (kr_Destination r) \<noteq> dst_string (Some d)"
    using table_key [OF assms(1) r] assms(3) by (auto simp: dst_string_def)
qed

text \<open>Removing the old routes and applying the table leaves exactly the table.\<close>

lemma remove_apply:
  assumes laws: "kernel_laws (re_nl E) R prio0" and order: "orders_table E" and ok: "manager_ok R prio0 w"
    and rem: "removeOldKernelRoutes E w = (Inr (), w1)" and app: "applyRouteTable E w1 = (Inr (), w2)"
  shows "manager_ok R prio0 w2 \<and> rm_RouteTable w2 = rm_RouteTable w \<and>
    (\<forall>d. wf_net d \<longrightarrow> routes_at R (rm_kernel w2) d = wanted w2 d)"
proof -
  let ?rt = "rm_RouteTable w"
  have t: "table_ok ?rt" and kok: "kernel_ok prio0 (R (rm_kernel w))" using ok by (simp_all add: manager_ok_def)
  obtain l k0 where l: "ListManagedRoutes (re_nl E) CustomRouteProtocol (rm_kernel w) = (Inr l, k0)"
    and rest: "bind (table_routes E) (\<lambda>table. for_each (remove_step E (map (\<lambda>r. dst_string (kr_Destination r)) table)) l ())
      (w\<lparr>rm_kernel := k0\<rparr>) = (Inr (), w1)"
    using rem by (auto simp: removeOldKernelRoutes_def bind_eq_Inr on_kernel_run)
  have k0: "R k0 = R (rm_kernel w)" "set l = {r \<in> R (rm_kernel w). nr_proto r = CustomRouteProtocol}"
    using nl_list_proto_law [OF laws l] by simp_all
  obtain table v where tr: "table_routes E (w\<lparr>rm_kernel := k0\<rparr>) = (Inr table, v)"
    and loop: "for_each (remove_step E (map (\<lambda>r. dst_string (kr_Destination r)) table)) l () v = (Inr (), w1)"
    using rest by (auto simp: bind_eq_Inr)
  have v: "set table = ran (rt_routeMap ?rt)" "v = w\<lparr>rm_kernel := k0, ticks := Suc (ticks w)\<rparr>"
    using table_routes_set [OF order _ tr] t by simp_all
  let ?keys = "map (\<lambda>r. dst_string (kr_Destination r)) table"
  have "kernel_ok prio0 (R (rm_kernel v))" using v(2) k0 kok by simp
  then obtain k1 where k1: "w1 = v\<lparr>rm_kernel := k1\<rparr>" "kernel_ok prio0 (R k1)"
    "\<And>d. routes_at R k1 d =
       (if (\<exists>r\<in>set l. nr_dst r = Some d) \<and> dst_string (Some d) \<notin> set ?keys then {} else routes_at R (rm_kernel v) d)"
    by (rule remove_loop_ok [OF laws loop]) blast
  have rt1: "rm_RouteTable w1 = ?rt" using k1(1) v(2) by simp
  obtain table2 v2 where tr2: "table_routes E w1 = (Inr table2, v2)"
    and loop2: "for_each (apply_step E) table2 () v2 = (Inr (), w2)"
    using app by (auto simp: applyRouteTable_def bind_eq_Inr)
  have v2: "set table2 = ran (rt_routeMap ?rt)" "v2 = w1\<lparr>ticks := Suc (ticks w1)\<rparr>"
    using table_routes_set [OF order _ tr2] t rt1 by simp_all
  have pre: "kernel_ok prio0 (R (rm_kernel v2))" "\<forall>r\<in>set table2. wf_dst (kr_Destination r)"
    "\<forall>r\<in>set table2. \<forall>r'\<in>set table2. kr_Destination r = kr_Destination r' \<longrightarrow> r = r'"
    using k1 v2 t table_dst_unique [OF t] by (simp_all add: table_ok_def)
  obtain k2 where k2: "w2 = v2\<lparr>rm_kernel := k2\<rparr>" "kernel_ok prio0 (R k2)"
    "\<And>r d. r \<in> set table2 \<Longrightarrow> kr_Destination r = Some d \<Longrightarrow> routes_at R k2 d = {(kr_Gateway r, source_for v2 d)}"
    "\<And>e. \<forall>r\<in>set table2. kr_Destination r \<noteq> Some e \<Longrightarrow> routes_at R k2 e = routes_at R (rm_kernel v2) e"
    by (rule apply_loop_ok [OF laws loop2 pre]) blast
  have rt2: "rm_RouteTable w2 = ?rt" and src: "source_for v2 = source_for w2"
    using k2(1) v2(2) rt1 by (simp_all add: source_for_def fun_eq_iff)
  have "routes_at R k2 d = wanted w2 d" if d: "wf_net d" for d
  proof (cases "rt_routeMap ?rt (ipnet_string d)")
    case (Some r)
    then have "r \<in> set table2" "kr_Destination r = Some d" using table_find [OF t d] v2(1) by simp_all
    with k2(3) src Some rt2 show ?thesis by (simp add: wanted_def)
  next
    case None
    note none = table_missing [OF t d None]
    then have "dst_string (Some d) \<notin> set ?keys" using v(1) by fastforce
    moreover have "routes_at R (rm_kernel v) d = {}" if "\<not> (\<exists>r\<in>set l. nr_dst r = Some d)"
      using that k0 v(2) by (auto simp: managed_def)
    ultimately have "routes_at R k1 d = {}" using k1(3) by auto
    moreover have "routes_at R k2 d = routes_at R (rm_kernel v2) d" using k2(4) none v2(1) by simp
    ultimately show ?thesis using k1(1) v2(2) None rt2 by (simp add: wanted_def)
  qed
  moreover have "rm_kernel w2 = k2" using k2(1) by simp
  ultimately show ?thesis using k2(2) rt2 t by (simp add: manager_ok_def)
qed

lemma sync_kernel:
  assumes "SyncRouteTable E w = (Inr (), w')" "kernel_laws (re_nl E) R prio0" "orders_table E" "manager_ok R prio0 w"
  shows "manager_ok R prio0 w' \<and> (\<forall>d. wf_net d \<longrightarrow> routes_at R (rm_kernel w') d = wanted w' d)"
proof -
  obtain x w1 w2 w3 where g: "attempt (SyncGraph E)
             (\<lambda>r. case r of Inr u \<Rightarrow> ret () | Inl e \<Rightarrow> update (\<lambda>w. w\<lparr>rm_graphReady := False\<rparr>)) w = (Inr x, w1)"
    and u: "UpdateRouteTable E w1 = (Inr (), w2)" and rem: "removeOldKernelRoutes E w2 = (Inr (), w3)"
    and app: "applyRouteTable E w3 = (Inr (), w')"
    using assms(1) by (auto simp: SyncRouteTable_def bind_eq_Inr)
  have "preserves (manager_ok R prio0) (attempt (SyncGraph E)
             (\<lambda>r. case r of Inr u \<Rightarrow> ret () | Inl e \<Rightarrow> update (\<lambda>w. w\<lparr>rm_graphReady := False\<rparr>)))"
    by (auto intro!: preserves_intro preserves_SyncGraph preserves_update simp: manager_ok_def split: sum.splits)
  from preservesD [OF this assms(4) g] have "manager_ok R prio0 w1" .
  from preservesD [OF preserves_UpdateRouteTable [OF assms(2)] this u] have "manager_ok R prio0 w2" .
  from remove_apply [OF assms(2,3) this rem app] show ?thesis by blast
qed

section \<open>Properties\<close>

text \<open>
  C1. The kernel follows the table: after a successful \<open>SyncRouteTable\<close> the routes of the program's protocol in the kernel
  are exactly those of the route table it has computed, each network with the table's gateway and the source address of its
  IP version, whatever the kernel held before and whichever algorithms chose the gateways; the invariants hold again.
\<close>

theorem SyncRouteTable_kernel:
  assumes "SyncRouteTable E w = (Inr (), w')" "kernel_laws (re_nl E) R prio0" "orders_table E" "manager_ok R prio0 w"
  shows "manager_ok R prio0 w' \<and> (\<forall>d. wf_net d \<longrightarrow> routes_at R (rm_kernel w') d = wanted w' d)"
  using sync_kernel [OF assms] by blast

section \<open>A kernel and a run\<close>

definition toy_prio :: "ipnet \<Rightarrow> int" where
  "toy_prio d = (if is_v4 (net_ip d) then 0 else 1024)"

definition toy_install :: "nl_route \<Rightarrow> nl_route" where
  "toy_install r = r\<lparr>nr_prio := (case nr_dst r of None \<Rightarrow> 0 | Some d \<Rightarrow> toy_prio d)\<rparr>"

definition toy_nl :: "nl_route list netlink" where
  "toy_nl =
     \<lparr>nl_list_dst = (\<lambda>d k. (Inr (filter (\<lambda>x. nr_dst x = Some d) k), k)),
      nl_list_proto = (\<lambda>p k. (Inr (filter (\<lambda>x. nr_proto x = p) k), k)),
      nl_get = (\<lambda>a k. (Inr [], k)),
      nl_replace = (\<lambda>r k. (Inr (), toy_install r # filter (\<lambda>x. nl_key x \<noteq> nl_key (toy_install r)) k)),
      nl_add = (\<lambda>r k. if list_ex (\<lambda>x. nl_key x = nl_key (toy_install r)) k then (Inl (Err EEXIST), k)
                      else (Inr (), toy_install r # k)),
      nl_del = (\<lambda>r k. case filter (\<lambda>x. nr_dst x = nr_dst r \<and> nr_proto x = nr_proto r) k of
                        [] \<Rightarrow> (Inl (Err ESRCH), k) | x # xs \<Rightarrow> (Inr (), filter (\<lambda>y. y \<noteq> x) k)),
      nl_link_name = (\<lambda>l k. (Inr ''eth0'', k))\<rparr>"

lemma toy_laws: "kernel_laws toy_nl set toy_prio"
proof -
  have "list_dst_law toy_nl set" "list_proto_law toy_nl set"
    by (auto simp: list_dst_law_def list_proto_law_def toy_nl_def)
  moreover have "installed toy_prio r (toy_install r)" for r
    by (simp add: installed_def toy_install_def)
  then have "replace_law toy_nl set toy_prio" "add_law toy_nl set toy_prio"
    by (auto simp: replace_law_def add_law_def toy_nl_def go_ok_def list_ex_iff)
  moreover have "del_law toy_nl set"
    unfolding del_law_def
  proof (intro allI impI)
    fix r k u k' assume d: "nl_del toy_nl r k = (u, k')"
    let ?m = "\<lambda>x. nr_dst x = nr_dst r \<and> nr_proto x = nr_proto r"
    show "no_panic u \<and>
        (if go_ok u then \<exists>x\<in>set k. nr_dst x = nr_dst r \<and> nr_proto x = nr_proto r \<and> set k' = set k - {x}
         else set k' = set k \<and> (u = Inl (Err ESRCH) \<longrightarrow> (\<forall>x\<in>set k. \<not> ?m x)))"
    proof (cases "filter ?m k")
      case Nil
      with d show ?thesis by (auto simp: toy_nl_def go_ok_def filter_empty_conv)
    next
      case (Cons x xs)
      then have "x \<in> set k" "?m x" by (auto simp: filter_eq_Cons_iff)
      with d Cons show ?thesis by (auto simp: toy_nl_def go_ok_def)
    qed
  qed
  ultimately show ?thesis by (simp add: kernel_laws_def)
qed

definition toy_dial :: "string \<Rightarrow> go_error + string list" where
  "toy_dial addr = Inr
     (if addr = ''/run/bird/bird6.ctl'' then [''0001 BIRD'', ''0000 '']
      else [''0001 BIRD'', ''1007-10.0.0.0/8 via 10.0.0.1 on wg0.1_v4 [b1] * (100) [AS64513i]'', type_prefix @ '' BGP unicast univ'',
            ''1012-'' @ [CHR 0x09] @ ''BGP.as_path: 64513'', ''0000 ''])"

definition toy_net :: ipnet where
  "toy_net = \<lparr>net_ip = V4 10 0 0 0, net_len = 8\<rparr>"

definition toy_stale :: ipnet where
  "toy_stale = \<lparr>net_ip = V4 172 16 0 0, net_len = 12\<rparr>"

definition toy_route :: bgp_route where
  "toy_route = \<lparr>br_Network = Some toy_net,
     br_Paths = [\<lparr>bp_AS = 64513, bp_ASPath = [64513], bp_Next = Some (V4 10 0 0 1), bp_Interface = ''wg0.1_v4'', bp_MED = 0,
       bp_LocalPreference = 0, bp_OriginType = []\<rparr>], br_OriginAS = 64513\<rparr>"

lemma toy_bird: "map_sum id fst (bird_GetRoutes toy_dial ''v4'') = Inr [toy_route]"
  "map_sum id fst (bird_GetRoutes toy_dial ''v6'') = Inr []"
  by code_simp+

definition toy_env :: "nl_route list rm_env" where
  "toy_env =
     \<lparr>re_central = ring_central\<lparr>ce_net := \<lparr>clock = (\<lambda>n. 0), http_get = (\<lambda>n r. TransportError ctx_deadline), version_order = (\<lambda>n. [])\<rparr>\<rparr>,
      re_nl = toy_nl, re_dial = (\<lambda>n. toy_dial), re_open = (\<lambda>f. Inr ([''local as 64512''], None)),
      re_outbound = Inr (V4 10 9 9 9, V6 [0, 0, 0, 0, 0, 0, 0, 1]),
      re_order = (\<lambda>n m. sorted_list_of_set (dom m)), re_interval = 300, re_stack = (\<lambda>n. None), re_disableCentralised = False\<rparr>"

definition toy_world :: "nl_route list rm_world" where
  "toy_world =
     \<lparr>ticks = 0, cost_cache = Map.empty, latency_cache = Map.empty, the_graph = None, cr_siteRoutes = Map.empty, cr_updatedAt = 0,
      cr_sent = [], rm_siteID = 0, rm_ASNumber = 64512, rm_outboundV4 = Some (V4 10 9 9 9), rm_outboundV6 = None,
      rm_RouteTable = NewRouteTable, rm_graphReady = False, rm_PathMap = Map.empty, rm_hasCentral = False,
      rm_stateTable = Map.empty, rm_updates = 0, rm_kernel = [new_route toy_stale (Some (V4 10 0 0 9)) None 201]\<rparr>"

lemma toy_orders: "orders_table toy_env"
  by (simp add: orders_table_def toy_env_def enumerates_def)

lemma toy_routes:
  fixes w :: "'z world_scheme"
  shows "router_routes toy_env ''v4'' w = (Inr [toy_route], w\<lparr>ticks := Suc (ticks w)\<rparr>)"
    "router_routes toy_env ''v6'' w = (Inr [], w\<lparr>ticks := Suc (ticks w)\<rparr>)"
proof -
  have d: "re_dial toy_env n = toy_dial" for n by (simp add: toy_env_def)
  obtain h4 h6 where "bird_GetRoutes toy_dial ''v4'' = Inr ([toy_route], h4)" "bird_GetRoutes toy_dial ''v6'' = Inr ([], h6)"
    using toy_bird by (cases "bird_GetRoutes toy_dial ''v4''"; cases "bird_GetRoutes toy_dial ''v6''") auto
  then show "router_routes toy_env ''v4'' w = (Inr [toy_route], w\<lparr>ticks := Suc (ticks w)\<rparr>)"
    "router_routes toy_env ''v6'' w = (Inr [], w\<lparr>ticks := Suc (ticks w)\<rparr>)"
    by (simp_all add: router_routes_def bind_def next_tick_def d)
qed

definition toy_error :: go_error where
  "toy_error = Wrapf ''error making the request'' ctx_deadline"

lemma toy_down:
  fixes w :: "'z world_scheme"
  shows "query_range (re_net toy_env) s e t q w = (Inl (Err toy_error), w\<lparr>ticks := Suc (ticks w)\<rparr>)"
  by (simp add: query_range_def http_do_def decode_response_def bind_def toy_env_def toy_error_def)

lemma toy_no_cost:
  fixes w :: "'z cost_world_scheme"
  assumes "cost_cache w = Map.empty"
  shows "GetPathCost (re_net toy_env) 64512 64513 w =
    (Inl (Err (Errorf ''timed out getting preferred interface version'')), w\<lparr>ticks := Suc (ticks w)\<rparr>)"
proof -
  have "GetPreferredPath (re_net toy_env) 0 1 w = (Inl (Err toy_error), w\<lparr>ticks := Suc (ticks w)\<rparr>)"
    by (simp add: GetPreferredPath_def GetPathMetrics_def metrics_queries_def metrics_step_def toy_down bind_def Let_def)
  moreover have "errors_is toy_error ctx_deadline" by (simp add: toy_error_def ctx_deadline_def)
  ultimately show ?thesis using assms by (simp add: GetPathCost_def cost_lookup_def SetPathCost_def attempt_def bind_def)
qed

lemma toy_graph:
  fixes w :: "(nl_route list, 'z) rm_world_scheme"
  assumes "the_graph w = None"
  shows "SyncGraph toy_env w = (Inl (Err (Wrapf ''error initializing graph'' toy_error)), w\<lparr>ticks := Suc (ticks w)\<rparr>)"
  using assms by (simp add: SyncGraph_def bind_def read_def wrap_def NewGraph_def GetAllPaths_def toy_down)

lemma toy_select:
  fixes w :: "(nl_route list, 'z) rm_world_scheme"
  assumes "cost_cache w = Map.empty" "rm_ASNumber w = 64512"
  shows "selectLowestCostBGPPath toy_env toy_route w =
    (Inr (), w\<lparr>ticks := Suc (ticks w), rm_RouteTable := AddRoute (Some toy_net) (Some (V4 10 0 0 1)) (rm_RouteTable w)\<rparr>)"
  using assms
  by (simp add: selectLowestCostBGPPath_def lowest_index_def lowest_step_def calculateTotalCost_def toy_route_def bind_def read_def
      attempt_def toy_no_cost add_route_def update_def feq_def has_prefix_def go_index_def Let_def)

text \<open>The state after the update of the table.\<close>

definition toy_table :: route_table where
  "toy_table = AddRoute (Some toy_net) (Some (V4 10 0 0 1)) (ClearRoutes NewRouteTable)"

lemma toy_update:
  "\<exists>w. UpdateRouteTable toy_env (toy_world\<lparr>ticks := 1\<rparr>) = (Inr (), w) \<and> rm_RouteTable w = toy_table \<and>
     rm_kernel w = rm_kernel toy_world \<and> rm_outboundV4 w = rm_outboundV4 toy_world"
  by (simp add: UpdateRouteTable_def update_def update_mode_def bind_def wrap_def toy_routes addToRouteTable_def add_step_def
      read_def needs_route_def central_fresh_def set_method_def time_now_def try_algorithm_def attempt_def toy_select
      toy_world_def toy_table_def)
     (simp add: toy_route_def)

lemma toy_texts: "ipnet_string toy_net = ''10.0.0.0/8''" "ipnet_string toy_stale = ''172.16.0.0/12''"
  by code_simp+

lemma toy_table_routes:
  fixes w :: "(nl_route list, 'z) rm_world_scheme"
  assumes "rm_RouteTable w = toy_table"
  shows "table_routes toy_env w =
    (Inr [\<lparr>kr_Destination = Some toy_net, kr_Gateway = Some (V4 10 0 0 1)\<rparr>], w\<lparr>ticks := Suc (ticks w)\<rparr>)"
  using assms
  by (simp add: table_routes_def bind_def next_tick_def read_def toy_table_def AddRoute_def ClearRoutes_def NewRouteTable_def
      GetRoutes_def toy_env_def List.map_filter_simps)

lemma toy_finish:
  fixes w :: "(nl_route list, 'z) rm_world_scheme"
  assumes "rm_RouteTable w = toy_table" "rm_kernel w = rm_kernel toy_world" "rm_outboundV4 w = rm_outboundV4 toy_world"
  shows "\<exists>w1. removeOldKernelRoutes toy_env w = (Inr (), w1) \<and> (\<exists>w2. applyRouteTable toy_env w1 = (Inr (), w2))"
proof -
  have nl: "re_nl toy_env = toy_nl" by (simp add: toy_env_def)
  have v4: "is_v4 (net_ip toy_net)" by (simp add: toy_net_def)
  let ?w1 = "w\<lparr>ticks := Suc (ticks w), rm_kernel := []\<rparr>"
  have "removeOldKernelRoutes toy_env w = (Inr (), ?w1)"
    using assms
    by (simp add: removeOldKernelRoutes_def bind_def wrap_def on_kernel_def nl ListManagedRoutes_def relabel_def attempt_def
        toy_table_routes remove_step_def RemoveRoute_def toy_texts dst_string_def toy_world_def new_route_def CustomRouteProtocol_def
        toy_nl_def)
  moreover have "\<exists>w2. applyRouteTable toy_env ?w1 = (Inr (), w2)"
    using assms(1,3) v4
    by (simp add: applyRouteTable_def bind_def toy_table_routes apply_step_def read_def source_for_def wrap_def on_kernel_def nl
        ConfigureRoute_def configure_checked_def relabel_def attempt_def toy_world_def toy_nl_def)
  ultimately show ?thesis by blast
qed

lemma toy_run: "\<exists>w'. SyncRouteTable toy_env toy_world = (Inr (), w')"
proof -
  have g: "attempt (SyncGraph toy_env)
      (\<lambda>r. case r of Inr u \<Rightarrow> ret () | Inl e \<Rightarrow> update (\<lambda>w. w\<lparr>rm_graphReady := False\<rparr>)) toy_world = (Inr (), toy_world\<lparr>ticks := 1\<rparr>)"
    using toy_graph [of toy_world] by (simp add: attempt_def update_def toy_world_def)
  obtain w where u: "UpdateRouteTable toy_env (toy_world\<lparr>ticks := 1\<rparr>) = (Inr (), w)" "rm_RouteTable w = toy_table"
    "rm_kernel w = rm_kernel toy_world" "rm_outboundV4 w = rm_outboundV4 toy_world" using toy_update by blast
  obtain w1 w2 where r: "removeOldKernelRoutes toy_env w = (Inr (), w1)" "applyRouteTable toy_env w1 = (Inr (), w2)"
    using toy_finish [OF u(2-4)] by blast
  have "SyncRouteTable toy_env toy_world = (Inr (), w2)"
    unfolding SyncRouteTable_def bind_eq_Inr wrap_eq_Inr using g u(1) r by blast
  then show ?thesis by blast
qed

lemma toy_ok: "manager_ok set toy_prio toy_world"
  by (auto simp: manager_ok_def kernel_ok_def managed_ok_def managed_def toy_world_def new_route_def table_ok_def table_inv_def
        NewRouteTable_def toy_prio_def toy_stale_def wf_net_def)

lemma toy_env_nl: "re_nl toy_env = toy_nl"
  by (simp add: toy_env_def)

theorem SyncRouteTable_kernel_witness:
  "\<exists>w'. SyncRouteTable toy_env toy_world = (Inr (), w') \<and>
     routes_at set (rm_kernel toy_world) toy_stale = {(Some (V4 10 0 0 9), None)} \<and>
     routes_at set (rm_kernel w') toy_net = wanted w' toy_net \<and> routes_at set (rm_kernel w') toy_stale = wanted w' toy_stale"
proof -
  obtain w2 where run: "SyncRouteTable toy_env toy_world = (Inr (), w2)" using toy_run by blast
  have wf: "wf_net toy_net" "wf_net toy_stale" by (simp_all add: wf_net_def toy_net_def toy_stale_def)
  have old: "routes_at set (rm_kernel toy_world) toy_stale = {(Some (V4 10 0 0 9), None)}"
    by (auto simp: managed_def toy_world_def new_route_def CustomRouteProtocol_def)
  from SyncRouteTable_kernel [OF run toy_laws [folded toy_env_nl] toy_orders toy_ok] wf run old show ?thesis by blast
qed

end
