(* ===== verification/RouteLoop.thy ===== *)
theory RouteLoop
  imports Sync
begin

text \<open>
  The route manager of \<^verbatim>\<open>internal/route\<close> as a state machine: its start, the events of its loops and the calls of other services
  in any order, and what holds in every state they reach, whether operations fail or not.
\<close>

section \<open>The state machine\<close>

text \<open>
  From the state \<open>w0\<close> the daemon starts with: \<open>Start\<close>, then events of the alignment loop and of \<open>run\<close>, interleaved with
  the calls of the interface. The flag says whether the alignment is over.
\<close>

inductive rm_reaches ::
    "('k, 'e) rm_env_scheme \<Rightarrow> ('k, 'z) rm_world_scheme \<Rightarrow> bool \<Rightarrow> ('k, 'z) rm_world_scheme \<Rightarrow> bool"
  for E :: "('k, 'e) rm_env_scheme" and w0 :: "('k, 'z) rm_world_scheme" where
  started: "start_manager E w0 = (Inr (), w) \<Longrightarrow> rm_reaches E w0 False w"
| event: "rm_reaches E w0 aligned w \<Longrightarrow> rm_run_step E ev aligned w = (Inr (True, aligned'), w') \<Longrightarrow> rm_reaches E w0 aligned' w'"
| local_routes: "rm_reaches E w0 aligned w \<Longrightarrow> UpdateLocalRoutes E new_keys old_keys routes w = (r, w') \<Longrightarrow> rm_reaches E w0 aligned w'"
| graph_update: "rm_reaches E w0 aligned w \<Longrightarrow> UpdateGraph E w = (r, w') \<Longrightarrow> rm_reaches E w0 aligned w'"
| graph_route: "rm_reaches E w0 aligned w \<Longrightarrow> GetGraphRoute destination w = (n, w') \<Longrightarrow> rm_reaches E w0 aligned w'"

section \<open>What each step keeps\<close>

lemma preserves_logged: "preserves I m \<Longrightarrow> preserves I (logged m)"
  unfolding logged_def by (intro preserves_intro)

lemma preserves_next_tick: "preserves (manager_ok R prio0) (next_tick :: (('k, 'z) rm_world_scheme, nat) proc)"
  by (simp add: preserves_def next_tick_def manager_ok_def)

lemma preserves_table_routes: "preserves (manager_ok R prio0) (table_routes E)"
  unfolding table_routes_def by (intro preserves_intro preserves_next_tick)

lemma preserves_list_managed:
  assumes "kernel_laws (re_nl E) R prio0"
  shows "preserves (manager_ok R prio0)
    (on_kernel (ListManagedRoutes (re_nl E) CustomRouteProtocol) :: (('k, 'z) rm_world_scheme, nl_route list) proc)"
  unfolding preserves_def
proof (intro allI impI)
  fix w :: "('k, 'z) rm_world_scheme" assume ok: "manager_ok R prio0 w"
  obtain x k where l: "ListManagedRoutes (re_nl E) CustomRouteProtocol (rm_kernel w) = (x, k)" by (metis surj_pair)
  then have "R k = R (rm_kernel w)" using nl_list_proto_law [OF assms] by blast
  then show "manager_ok R prio0 (snd (on_kernel (ListManagedRoutes (re_nl E) CustomRouteProtocol) w))"
    using ok l by (simp add: on_kernel_def manager_ok_def)
qed

lemma preserves_removeOld:
  assumes "kernel_laws (re_nl E) R prio0"
  shows "preserves (manager_ok R prio0) (removeOldKernelRoutes E)"
  unfolding removeOldKernelRoutes_def remove_step_def
  by (auto intro!: preserves_intro preserves_list_managed preserves_table_routes preserves_remove assms)

lemma preserves_apply_step:
  assumes "kernel_laws (re_nl E) R prio0" "wf_dst (kr_Destination r)"
  shows "preserves (manager_ok R prio0) (apply_step E r u :: (('k, 'z) rm_world_scheme, unit) proc)"
proof -
  obtain d where d: "kr_Destination r = Some d" "wf_net d" using assms(2) by (auto simp: wf_dst_def)
  have "preserves (manager_ok R prio0) (on_kernel (ConfigureRoute (re_nl E) (Some d) gw src CustomRouteProtocol) :: (('k, 'z) rm_world_scheme, int) proc)"
    for gw src
    unfolding preserves_def
  proof (intro allI impI)
    fix w :: "('k, 'z) rm_world_scheme" assume ok: "manager_ok R prio0 w"
    obtain x k where c: "ConfigureRoute (re_nl E) (Some d) gw src CustomRouteProtocol (rm_kernel w) = (x, k)" by (metis surj_pair)
    have "kernel_ok prio0 (R k)" using ConfigureRoute_ok [OF assms(1) _ d(2) c] ok by (simp add: manager_ok_def)
    then show "manager_ok R prio0 (snd (on_kernel (ConfigureRoute (re_nl E) (Some d) gw src CustomRouteProtocol) w))"
      using ok c by (simp add: on_kernel_def manager_ok_def)
  qed
  then show ?thesis unfolding apply_step_def d(1) option.case by (intro preserves_intro)
qed

lemma preserves_applyRouteTable:
  assumes laws: "kernel_laws (re_nl E) R prio0" and order: "orders_table E"
  shows "preserves (manager_ok R prio0) (applyRouteTable E :: (('k, 'z) rm_world_scheme, unit) proc)"
  unfolding preserves_def
proof (intro allI impI)
  fix w :: "('k, 'z) rm_world_scheme" assume ok: "manager_ok R prio0 w"
  obtain rs w1 where tr: "table_routes E w = (Inr rs, w1)" by (simp add: table_routes_def bind_def next_tick_def read_def)
  have t: "table_ok (rm_RouteTable w)" using ok by (simp add: manager_ok_def)
  have wf: "\<forall>r\<in>set rs. wf_dst (kr_Destination r)" using table_routes_set [OF order t tr] t by (auto simp: table_ok_def)
  have ok1: "manager_ok R prio0 w1" by (rule preservesD [OF preserves_table_routes ok tr])
  have "preserves (manager_ok R prio0) (for_each (apply_step E) rs () :: (('k, 'z) rm_world_scheme, unit) proc)"
    by (intro preserves_for_each preserves_apply_step [OF laws]) (use wf in blast)
  then show "manager_ok R prio0 (snd (applyRouteTable E w))" using ok1 tr by (simp add: applyRouteTable_def bind_def preserves_def)
qed

lemma preserves_SyncRouteTable:
  assumes "kernel_laws (re_nl E) R prio0" "orders_table E"
  shows "preserves (manager_ok R prio0) (SyncRouteTable E)"
proof -
  have "preserves (manager_ok R prio0) (update (\<lambda>w. w\<lparr>rm_graphReady := False\<rparr>))"
    by (rule preserves_update) (simp add: manager_ok_def)
  then show ?thesis unfolding SyncRouteTable_def
    by (auto intro!: preserves_intro preserves_SyncGraph preserves_UpdateRouteTable preserves_removeOld preserves_applyRouteTable assms
        split: sum.splits)
qed

lemma preserves_start_manager:
  assumes "kernel_laws (re_nl E) R prio0" "orders_table E"
  shows "preserves (manager_ok R prio0) (start_manager E)"
proof -
  have "preserves (manager_ok R prio0) (update (\<lambda>w. w\<lparr>rm_ASNumber := n\<rparr>))"
    "preserves (manager_ok R prio0) (update (\<lambda>w. w\<lparr>rm_outboundV4 := a, rm_outboundV6 := b\<rparr>))"
    "preserves (manager_ok R prio0) (update (\<lambda>w. w\<lparr>the_graph := g, rm_graphReady := c\<rparr>))"
    "preserves (manager_ok R prio0) (update (\<lambda>w. (NewCentralisedRouter (the_graph w) w)\<lparr>rm_hasCentral := True\<rparr>))"
    "preserves (manager_ok R prio0) (update (\<lambda>w. w\<lparr>rm_RouteTable := MarkReady (rm_RouteTable w)\<rparr>))" for n a b g c
    by (rule preserves_update, simp add: manager_ok_def NewCentralisedRouter_def MarkReady_def table_ok_def table_inv_def)+
  then show ?thesis unfolding start_manager_def
    by (auto intro!: preserves_intro preserves_logged preserves_keeps [OF keeps_NewGraph] preserves_UpdateRouteTable
        preserves_applyRouteTable preserves_removeOld assms split: sum.splits prod.splits)
qed

lemma preserves_run_step:
  assumes "kernel_laws (re_nl E) R prio0" "orders_table E"
  shows "preserves (manager_ok R prio0) (rm_run_step E ev aligned)"
  unfolding rm_run_step_def
  by (cases ev) (auto intro!: preserves_intro preserves_logged preserves_SyncRouteTable preserves_keeps [OF keeps_central_fresh] assms)

lemma preserves_interface:
  fixes E :: "('k, 'e) rm_env_scheme"
  shows "preserves (manager_ok R prio0) (UpdateLocalRoutes E new_keys old_keys routes :: (('k, 'z) rm_world_scheme, unit) proc)"
    and "preserves (manager_ok R prio0) (UpdateGraph E :: (('k, 'z) rm_world_scheme, unit) proc)"
    and "preserves (manager_ok R prio0) (GetGraphRoute destination :: (('k, 'z) rm_world_scheme, int) proc)"
proof -
  have "preserves (manager_ok R prio0) (update (\<lambda>w. w\<lparr>rm_updates := Suc (rm_updates w)\<rparr>))"
    "preserves (manager_ok R prio0) (UpdateSiteRoutes (re_net E) new_keys old_keys routes)"
    by (rule preserves_update, simp add: manager_ok_def) (simp add: preserves_def UpdateSiteRoutes_def Let_def manager_ok_def)
  then show "preserves (manager_ok R prio0) (UpdateLocalRoutes E new_keys old_keys routes)"
    unfolding UpdateLocalRoutes_def with_central_def by (auto intro!: preserves_intro)
  show "preserves (manager_ok R prio0) (UpdateGraph E)" unfolding UpdateGraph_def by (rule preserves_SyncGraph)
  show "preserves (manager_ok R prio0) (GetGraphRoute destination)"
    unfolding GetGraphRoute_def
    by (auto intro!: preserves_intro preserves_keeps [OF keeps_shortest_path] split: sum.splits prod.splits)
qed

lemma reachable_ok:
  assumes laws: "kernel_laws (re_nl E) R prio0" "orders_table E" and "manager_ok R prio0 w0" "rm_reaches E w0 aligned w"
  shows "manager_ok R prio0 w"
  using assms(4)
proof (induction rule: rm_reaches.induct)
  case (started w)
  show ?case by (rule preservesD [OF preserves_start_manager [OF laws] assms(3) started])
next
  case (event aligned w ev aligned' w')
  show ?case by (rule preservesD [OF preserves_run_step [OF laws] event.IH event.hyps(2)])
next
  case (local_routes aligned w new_keys old_keys routes r w')
  show ?case by (rule preservesD [OF preserves_interface(1) local_routes.IH local_routes.hyps(2)])
next
  case (graph_update aligned w r w')
  show ?case by (rule preservesD [OF preserves_interface(2) graph_update.IH graph_update.hyps(2)])
next
  case (graph_route aligned w destination n w')
  show ?case by (rule preservesD [OF preserves_interface(3) graph_route.IH graph_route.hyps(2)])
qed

section \<open>Properties\<close>

text \<open>
  C2. The state of the route manager stays well-typed: after its start, after any events of its loops and any calls of other
  services in between, whether their operations fail half-way or not, the route table has one route for each network, well
  formed and stored under its text, and the routes of the program in the kernel have a well-formed destination, their default
  priority and one entry per network. Any later synchronisation that succeeds therefore leaves the kernel equal to the table.
\<close>

theorem route_manager_run:
  assumes "kernel_laws (re_nl E) R prio0" "orders_table E" "kernel_ok prio0 (R (rm_kernel w0))" "table_ok (rm_RouteTable w0)"
    and "rm_reaches E w0 aligned w"
  shows "table_ok (rm_RouteTable w) \<and> kernel_ok prio0 (R (rm_kernel w)) \<and>
    (\<forall>w'. SyncRouteTable E w = (Inr (), w') \<longrightarrow> (\<forall>d. wf_net d \<longrightarrow> routes_at R (rm_kernel w') d = wanted w' d))"
proof -
  have "manager_ok R prio0 w0" using assms(3,4) by (simp add: manager_ok_def)
  from reachable_ok [OF assms(1,2) this assms(5)] have ok: "manager_ok R prio0 w" .
  with sync_kernel [OF _ assms(1,2) ok] show ?thesis by (auto simp: manager_ok_def)
qed

lemma toy_config: "GetConfig (re_open toy_env) ''v4'' = Inr \<lparr>cf_ASNumber = 64512\<rparr>"
proof -
  have "GetConfig (\<lambda>f. Inr ([''local as 64512''], None)) ''v4'' = Inr \<lparr>cf_ASNumber = 64512\<rparr>" by code_simp
  then show ?thesis by (simp add: toy_env_def)
qed

lemma toy_start: "\<exists>w. start_manager toy_env toy_world = (Inr (), w)"
proof -
  have new: "NewGraph (re_net toy_env) w = (Inl (Err toy_error), w\<lparr>ticks := Suc (ticks w)\<rparr>)" for w :: "nl_route list rm_world"
    by (simp add: NewGraph_def GetAllPaths_def toy_down bind_def)
  have env: "re_interval toy_env = 300" "clock (re_net toy_env) n = 0" "re_outbound toy_env = Inr (V4 10 9 9 9, V6 [0, 0, 0, 0, 0, 0, 0, 1])"
    "re_nl toy_env = toy_nl" for n by (simp_all add: toy_env_def)
  define w1 where "w1 = toy_world\<lparr>rm_outboundV6 := Some (V6 [0, 0, 0, 0, 0, 0, 0, 1]), ticks := 1, rm_hasCentral := True, cr_updatedAt := zero_time\<rparr>"
  have "\<exists>w2. UpdateRouteTable toy_env w1 = (Inr (), w2) \<and> rm_RouteTable w2 = toy_table \<and> rm_kernel w2 = rm_kernel toy_world \<and>
      rm_outboundV4 w2 = rm_outboundV4 toy_world"
    by (simp add: UpdateRouteTable_def update_def update_mode_def bind_def wrap_def toy_routes addToRouteTable_def add_step_def
        read_def needs_route_def central_fresh_def set_method_def time_now_def try_algorithm_def attempt_def toy_select
        w1_def toy_world_def toy_table_def env zero_time_def second_def)
       (simp add: toy_route_def)
  then obtain w2 where u: "UpdateRouteTable toy_env w1 = (Inr (), w2)" "rm_RouteTable w2 = toy_table"
    "rm_kernel w2 = rm_kernel toy_world" "rm_outboundV4 w2 = rm_outboundV4 toy_world" by blast
  have v4: "is_v4 (net_ip toy_net)" by (simp add: toy_net_def)
  have ne: "toy_net \<noteq> toy_stale" "toy_stale \<noteq> toy_net" by (simp_all add: toy_net_def toy_stale_def)
  have "\<exists>w3. applyRouteTable toy_env w2 = (Inr (), w3) \<and> rm_RouteTable w3 = toy_table \<and>
      (\<exists>r. rm_kernel w3 = [r, new_route toy_stale (Some (V4 10 0 0 9)) None 201] \<and> nr_dst r = Some toy_net \<and> nr_proto r = 201)"
    using u(2-4) v4 ne
    by (simp add: applyRouteTable_def bind_def toy_table_routes apply_step_def read_def source_for_def wrap_def on_kernel_def env
        ConfigureRoute_def configure_checked_def relabel_def attempt_def toy_world_def toy_nl_def new_route_def CustomRouteProtocol_def
        nl_key_def toy_install_def)
  then obtain w3 r where a: "applyRouteTable toy_env w2 = (Inr (), w3)" "rm_RouteTable w3 = toy_table"
    "rm_kernel w3 = [r, new_route toy_stale (Some (V4 10 0 0 9)) None 201]" "nr_dst r = Some toy_net" "nr_proto r = 201" by blast
  have "\<exists>w4. removeOldKernelRoutes toy_env w3 = (Inr (), w4)"
    using a(2-5) ne
    by (simp add: removeOldKernelRoutes_def bind_def wrap_def on_kernel_def env ListManagedRoutes_def relabel_def attempt_def
        toy_table_routes remove_step_def RemoveRoute_def toy_texts dst_string_def new_route_def CustomRouteProtocol_def toy_nl_def)
  then obtain w4 where r: "removeOldKernelRoutes toy_env w3 = (Inr (), w4)" by blast
  show ?thesis
    using u(1) a(1) r new
    by (simp add: start_manager_def toy_config env bind_def update_def read_def logged_def attempt_def NewCentralisedRouter_def
        toy_world_def w1_def)
qed

theorem route_manager_run_witness:
  "\<exists>w. rm_reaches toy_env toy_world False w \<and> table_ok (rm_RouteTable w) \<and> kernel_ok toy_prio (set (rm_kernel w))"
proof -
  obtain w where "start_manager toy_env toy_world = (Inr (), w)" using toy_start by blast
  then have r: "rm_reaches toy_env toy_world False w" by (rule rm_reaches.started)
  have ok: "kernel_ok toy_prio (set (rm_kernel toy_world))" "table_ok (rm_RouteTable toy_world)"
    using toy_ok by (simp_all add: manager_ok_def)
  from route_manager_run [OF toy_laws [folded toy_env_nl] toy_orders ok r] r show ?thesis by blast
qed

end
