(* ===== verification/PathPing.thy ===== *)
theory PathPing
  imports TopN Netctl
begin

text \<open>
  \<^verbatim>\<open>internal/measure/pathping\<close>: the packet format, the server that forwards measurement packets along a path of sites and
  collects the round trips, and its client. The socket, the clock and the resolution of addresses are parameters; the results
  are guarded by a mutex, so each access is one step. The fields of a packet are words of their width; a \<open>time.Duration\<close> and the clock are integers
  (nanoseconds, far from the bounds of \<open>int64\<close>).
\<close>

section \<open>Little-endian integers\<close>

fun put_le :: "nat \<Rightarrow> nat \<Rightarrow> 8 word list" where
  "put_le 0 n = []"
| "put_le (Suc k) n = of_nat (n mod 256) # put_le k (n div 256)"

fun get_le :: "8 word list \<Rightarrow> nat" where
  "get_le [] = 0"
| "get_le (b # bs) = unat b + 256 * get_le bs"

definition put16 :: "16 word \<Rightarrow> 8 word list" where "put16 w = put_le 2 (unat w)"
definition put64 :: "64 word \<Rightarrow> 8 word list" where "put64 w = put_le 8 (unat w)"

text \<open>\<open>Uint16(buf[i:])\<close> and \<open>Uint64(buf[i:])\<close>, which panic when the buffer is too short.\<close>

definition get_at :: "nat \<Rightarrow> nat \<Rightarrow> 8 word list \<Rightarrow> nat go" where
  "get_at k i buf = (if i + k \<le> length buf then Inr (get_le (take k (drop i buf))) else Inl (Panic IndexOutOfRange))"

definition get16 :: "nat \<Rightarrow> 8 word list \<Rightarrow> 16 word go" where
  "get16 i buf = go_bind (get_at 2 i buf) (\<lambda>n. Inr (of_nat n))"

definition get64 :: "nat \<Rightarrow> 8 word list \<Rightarrow> 64 word go" where
  "get64 i buf = go_bind (get_at 8 i buf) (\<lambda>n. Inr (of_nat n))"

section \<open>Packets\<close>

record packet =
  pk_ID :: "64 word"
  pk_Origin :: "16 word"
  pk_CurrentHop :: "16 word"
  pk_Sequence :: "16 word"
  pk_PathLength :: "16 word"
  pk_Status :: "16 word"
  pk_StartTime :: "64 word"
  pk_Path :: "16 word list"
  pk_PathVer :: "16 word list"

definition calculatePacketSize :: "packet \<Rightarrow> nat" where
  "calculatePacketSize p = 26 + unat (pk_PathLength p) * 4"

text \<open>\<open>xs[0]\<close> to \<open>xs[n - 1]\<close> in turn.\<close>

definition first_elems :: "nat \<Rightarrow> 'a list \<Rightarrow> 'a list go" where
  "first_elems n xs = (if n \<le> length xs then Inr (take n xs) else Inl (Panic IndexOutOfRange))"

text \<open>The writes fill the buffer of \<open>calculatePacketSize\<close> bytes from the first to the last.\<close>

definition serialize :: "packet \<Rightarrow> 8 word list go" where
  "serialize p =
     go_bind (first_elems (unat (pk_PathLength p)) (pk_Path p)) (\<lambda>path.
     go_bind (first_elems (unat (pk_PathLength p)) (pk_PathVer p)) (\<lambda>vers.
       Inr (put64 (pk_ID p) @ put16 (pk_Origin p) @ put16 (pk_CurrentHop p) @ put16 (pk_Sequence p) @
            put16 (pk_PathLength p) @ put16 (pk_Status p) @ put64 (pk_StartTime p) @
            concat (map put16 path) @ concat (map put16 vers))))"

fun get16s :: "nat \<Rightarrow> nat \<Rightarrow> 8 word list \<Rightarrow> 16 word list go" where
  "get16s 0 i buf = Inr []"
| "get16s (Suc n) i buf = go_bind (get16 i buf) (\<lambda>w. go_bind (get16s n (i + 2) buf) (\<lambda>ws. Inr (w # ws)))"

definition deserializePacket :: "int \<Rightarrow> 8 word list \<Rightarrow> packet go" where
  "deserializePacket pathPingMax buf =
     (if length buf < 26 then Inl (Err (Errorf ''packet too small''))
      else
        go_bind (get64 0 buf) (\<lambda>ident. go_bind (get16 8 buf) (\<lambda>origin. go_bind (get16 10 buf) (\<lambda>current_hop.
        go_bind (get16 12 buf) (\<lambda>sq. go_bind (get16 14 buf) (\<lambda>len. go_bind (get16 16 buf) (\<lambda>status.
        go_bind (get64 18 buf) (\<lambda>start.
          if to_uint16 pathPingMax < len then Inl (Err (Errorf ''invalid path length''))
          else if length buf < 26 + unat len * 4 then Inl (Err (Errorf ''packet too small for path length''))
          else
            go_bind (get16s (unat len) 26 buf) (\<lambda>path. go_bind (get16s (unat len) (26 + 2 * unat len) buf) (\<lambda>vers.
              Inr \<lparr>pk_ID = ident, pk_Origin = origin, pk_CurrentHop = current_hop, pk_Sequence = sq, pk_PathLength = len,
                   pk_Status = status, pk_StartTime = start, pk_Path = path, pk_PathVer = vers\<rparr>))))))))))"

section \<open>The server\<close>

record ping_result =
  pr_id :: "64 word"
  pr_nodes :: "16 word list"
  pr_duration :: "int list"
  pr_lastUpdated :: int

record server =
  ps_ID :: "16 word"
  ps_Port :: int
  ps_peerAddrs :: "16 word \<Rightarrow> (16 word \<rightharpoonup> string) option"
  ps_active :: bool
  ps_history :: "int list"
  ps_index :: nat
  ps_results :: "string \<rightharpoonup> ping_result"

text \<open>The flags of the package; \<open>resolve\<close> is \<open>net.ResolveUDPAddr\<close>, which may refuse an address.\<close>

record ping_env =
  pe_max :: int
  pe_timeout :: int
  pe_historySize :: nat
  pe_port :: int
  pe_resolve :: "string \<Rightarrow> go_error + string"
  pe_write :: "string \<Rightarrow> 8 word list \<Rightarrow> go_error option"

text \<open>\<open>maxPacketSize\<close> is computed when the package is initialised, from the default of the flag.\<close>

definition maxPacketSize :: nat where
  "maxPacketSize = 26 + 16 * 4"

definition NewServer :: "ping_env \<Rightarrow> server option \<Rightarrow> int \<Rightarrow> server" where
  "NewServer E singleton siteID =
     (case singleton of
        Some s \<Rightarrow> s
      | None \<Rightarrow> \<lparr>ps_ID = to_uint16 siteID, ps_Port = pe_port E, ps_peerAddrs = Map.empty, ps_active = False,
                 ps_history = replicate (pe_historySize E) 0, ps_index = 0, ps_results = Map.empty\<rparr>)"

definition addPeer :: "ping_env \<Rightarrow> 16 word \<Rightarrow> 16 word \<Rightarrow> string \<Rightarrow> server \<Rightarrow> server go" where
  "addPeer E ident ver addr s =
     (case pe_resolve E addr of
        Inl e \<Rightarrow> Inl (Err (Wrapf ''invalid peer address'' e))
      | Inr udpAddr \<Rightarrow>
          (let m = (case ps_peerAddrs s ident of None \<Rightarrow> Map.empty | Some m \<Rightarrow> m)
           in Inr (s\<lparr>ps_peerAddrs := (ps_peerAddrs s)(ident \<mapsto> m(ver \<mapsto> udpAddr))\<rparr>)))"

definition GetAllPeers :: "go_error + string list \<Rightarrow> (int \<rightharpoonup> int list) go" where
  "GetAllPeers configs =
     go_bind (GetAllWGInterfacesFromConfig configs)
       (\<lambda>wgIfs. Inr (fold (\<lambda>iface peers.
            let m = (case peers (wg_RemoteIDInt iface) of
                       None \<Rightarrow> peers(wg_RemoteIDInt iface \<mapsto> [wg_IPVersionInt iface]) | Some vs \<Rightarrow> peers)
            in m(wg_RemoteIDInt iface \<mapsto> the (m (wg_RemoteIDInt iface)) @ [wg_IPVersionInt iface])) wgIfs Map.empty))"

definition peer_addr :: "int \<Rightarrow> int \<Rightarrow> int \<Rightarrow> string" where
  "peer_addr peer v port = ''10.201.'' @ itoa peer @ ''.'' @ itoa v @ '':'' @ itoa port"

definition start_peer :: "ping_env \<Rightarrow> (int \<rightharpoonup> int list) \<Rightarrow> int \<Rightarrow> server \<Rightarrow> server go" where
  "start_peer E peers peer s =
     (if peer = uint (ps_ID s) then Inr s
      else
        go_bind (go_fold (\<lambda>v. addPeer E (to_uint16 peer) (to_uint16 v) (peer_addr peer v (ps_Port s)))
                  (case peers peer of None \<Rightarrow> [] | Some vs \<Rightarrow> vs) s)
          (addPeer E (to_uint16 peer) 0 (peer_addr peer 1 (ps_Port s))))"

text \<open>\<open>order\<close> is the order of the range over the peers, \<open>listen\<close> the outcome of opening the socket.\<close>

definition ping_Start ::
    "ping_env \<Rightarrow> go_error option \<Rightarrow> go_error + string list \<Rightarrow> int list \<Rightarrow> server \<Rightarrow> server go" where
  "ping_Start E listen configs order s =
     (if ps_active s then Inl (Err (Errorf ''node already started''))
      else (case listen of
        Some e \<Rightarrow> Inl (Err (Wrapf ''failed to start listener'' e))
      | None \<Rightarrow>
          go_bind (go_wrap ''failed to get peers'' (GetAllPeers configs))
            (\<lambda>peers. go_bind (go_fold (start_peer E peers) order s) (\<lambda>t. Inr (t\<lparr>ps_active := True\<rparr>)))))"

section \<open>Processing times\<close>

definition getAverageProcessingDuration :: "ping_env \<Rightarrow> server \<Rightarrow> int" where
  "getAverageProcessingDuration E s =
     (let total = sum_list (filter (\<lambda>d. d \<noteq> 0) (ps_history s))
      in if total = 0 then 0 else go_quot total (int (pe_historySize E)))"

definition highProcessingDurationMultiplier :: int where
  "highProcessingDurationMultiplier = 100"

definition updateProcessingDuration :: "ping_env \<Rightarrow> int \<Rightarrow> server \<Rightarrow> server" where
  "updateProcessingDuration E duration s =
     (let avg = getAverageProcessingDuration E s
      in if 0 < avg \<and> avg * highProcessingDurationMultiplier < duration then s
         else s\<lparr>ps_history := (ps_history s)[ps_index s := duration],
                ps_index := (if ps_index s + 1 = pe_historySize E then 0 else ps_index s + 1)\<rparr>)"

section \<open>Forwarding and processing\<close>

text \<open>The packet as sent, with its address and bytes; the hop is counted in \<open>uint16\<close>.\<close>

definition forward_hop :: "ping_env \<Rightarrow> server \<Rightarrow> packet \<Rightarrow> bool \<Rightarrow> (packet \<times> string \<times> 8 word list) go" where
  "forward_hop E s p isOrigin =
     (let p1 = p\<lparr>pk_CurrentHop := (if isOrigin then 0 else pk_CurrentHop p + 1),
                 pk_StartTime := pk_StartTime p + word_of_int (getAverageProcessingDuration E s)\<rparr>;
          i = uint (pk_CurrentHop p1 + 1)
      in go_bind (go_index (pk_Path p1) i) (\<lambda>nextHop.
         go_bind (go_index (pk_PathVer p1) i) (\<lambda>nextHopVer.
           case (case ps_peerAddrs s nextHop of None \<Rightarrow> None | Some m \<Rightarrow> m nextHopVer) of
             None \<Rightarrow> Inl (Err (Errorf ''peer not found''))
           | Some addr \<Rightarrow> go_bind (serialize p1) (\<lambda>buf. Inr (p1, addr, buf)))))"

definition forwardPacket :: "ping_env \<Rightarrow> server \<Rightarrow> packet \<Rightarrow> bool \<Rightarrow> (string \<times> 8 word list) go" where
  "forwardPacket E s p isOrigin =
     go_bind (forward_hop E s p isOrigin) (\<lambda>(p1, addr, buf).
       case pe_write E addr buf of Some e \<Rightarrow> Inl (Err e) | None \<Rightarrow> Inr (addr, buf))"

definition test_id :: "16 word list \<Rightarrow> 64 word \<Rightarrow> string" where
  "test_id path ident = path_key (map uint path) @ ''-'' @ itoa (sint ident)"

definition record_result :: "int \<Rightarrow> packet \<Rightarrow> 16 word list \<Rightarrow> server \<Rightarrow> server" where
  "record_result now p path s =
     (let rtt = sint (word_of_int now - pk_StartTime p); k = test_id path (pk_ID p)
      in s\<lparr>ps_results := (ps_results s)(k \<mapsto>
             (case ps_results s k of
                None \<Rightarrow> \<lparr>pr_id = pk_ID p, pr_nodes = path, pr_duration = [rtt], pr_lastUpdated = now\<rparr>
              | Some r \<Rightarrow> r\<lparr>pr_duration := pr_duration r @ [rtt], pr_lastUpdated := now\<rparr>))\<rparr>)"

datatype handled = Recorded | UnknownOrigin | Forwarded string "8 word list" | NotForwarded go_error

definition processPacket :: "ping_env \<Rightarrow> int \<Rightarrow> packet \<Rightarrow> server \<Rightarrow> (handled \<times> server) go" where
  "processPacket E now p s =
     (if pk_CurrentHop p + 1 = pk_PathLength p - 1
      then if pk_Origin p = ps_ID s
           then go_bind (first_elems (unat (pk_PathLength p)) (pk_Path p))
                  (\<lambda>path. Inr (Recorded, record_result now p path s))
           else Inr (UnknownOrigin, s)
      else (case forwardPacket E s p False of
              Inr (addr, buf) \<Rightarrow> Inr (Forwarded addr buf, s)
            | Inl (Err e) \<Rightarrow> Inr (NotForwarded e, s)
            | Inl (Panic x) \<Rightarrow> Inl (Panic x)))"

text \<open>One datagram read by \<open>listen\<close>, cut to the buffer; what does not parse is dropped.\<close>

definition listen_step :: "ping_env \<Rightarrow> int \<Rightarrow> 8 word list \<Rightarrow> server \<Rightarrow> (handled option \<times> server) go" where
  "listen_step E now datagram s =
     (case deserializePacket (pe_max E) (take maxPacketSize datagram) of
        Inl (Err e) \<Rightarrow> Inr (None, s)
      | Inl (Panic x) \<Rightarrow> Inl (Panic x)
      | Inr p \<Rightarrow> go_bind (processPacket E now p s) (\<lambda>(h, t). Inr (Some h, t)))"

definition cleanUpResults :: "ping_env \<Rightarrow> int \<Rightarrow> server \<Rightarrow> server" where
  "cleanUpResults E now s =
     s\<lparr>ps_results := (\<lambda>k. case ps_results s k of
         None \<Rightarrow> None | Some r \<Rightarrow> if pe_timeout E * 3 < now - pr_lastUpdated r then None else Some r)\<rparr>"

section \<open>Measure\<close>

record measurement_options =
  mo_Count :: int
  mo_Interval :: int
  mo_PathVer :: "16 word list option"

record measured =
  ms_Status :: int
  ms_Protocol :: string
  ms_Path :: "16 word list"
  ms_Duration :: int
  ms_Loss :: int

definition new_result :: "16 word list \<Rightarrow> measured" where
  "new_result path = \<lparr>ms_Status = 0, ms_Protocol = ''pathping'', ms_Path = path, ms_Duration = 0, ms_Loss = 0\<rparr>"

text \<open>The checks of the path and the defaults of the options: the count, the interval and the versions to use.\<close>

definition measure_checked ::
    "ping_env \<Rightarrow> server \<Rightarrow> 16 word list \<Rightarrow> measurement_options \<Rightarrow> (int \<times> int \<times> 16 word list) go" where
  "measure_checked E s path opts =
     (if length path < 2 \<or> pe_max E < int (length path) then Inl (Err (Errorf ''invalid path length''))
      else if hd path \<noteq> ps_ID s then Inl (Err (Errorf ''path must start with local node ID''))
      else if hd path \<noteq> last path then Inl (Err (Errorf ''path must end with local node ID''))
      else
        let cnt = (if mo_Count opts \<le> 0 then 10 else mo_Count opts);
            interval = (if mo_Interval opts = 0 then 100000000 else mo_Interval opts)
        in (case mo_PathVer opts of
              None \<Rightarrow> Inr (cnt, interval, replicate (length path) 0)
            | Some vs \<Rightarrow>
                (if length vs \<noteq> length path then Inl (Err (Errorf ''path version must be the same length as the path''))
                 else if list_ex (\<lambda>v. v \<noteq> 0 \<and> v \<noteq> 4 \<and> v \<noteq> 6) vs then Inl (Err (Errorf ''invalid path version''))
                 else Inr (cnt, interval, vs))))"

definition first_packet :: "server \<Rightarrow> int \<Rightarrow> 16 word \<Rightarrow> int \<Rightarrow> 16 word list \<Rightarrow> 16 word list \<Rightarrow> packet" where
  "first_packet s startTime sq now path vers =
     \<lparr>pk_ID = word_of_int startTime, pk_Origin = ps_ID s, pk_CurrentHop = 0, pk_Sequence = sq,
      pk_PathLength = of_nat (length path), pk_Status = 0, pk_StartTime = word_of_int now, pk_Path = path, pk_PathVer = vers\<rparr>"

text \<open>
  The sending loop: \<open>s n\<close> and \<open>now n\<close> are the state of the server and the clock at packet \<open>n\<close>. The counter and its bound
  are \<open>uint16\<close>.
\<close>

definition send_packets ::
    "ping_env \<Rightarrow> (nat \<Rightarrow> server) \<Rightarrow> int \<Rightarrow> (nat \<Rightarrow> int) \<Rightarrow> 16 word list \<Rightarrow> 16 word list \<Rightarrow> int \<Rightarrow> (string \<times> 8 word list) list go" where
  "send_packets E s startTime now path vers cnt =
     go_fold (\<lambda>n sent. go_bind (go_wrap ''failed to send packet''
                 (forwardPacket E (s n) (first_packet (s n) startTime (of_nat n) (now n) path vers) True))
                 (\<lambda>out. Inr (sent @ [out])))
       [0..<unat (to_uint16 cnt)] []"

text \<open>The sum of the durations, added one by one to \<open>start\<close> as an \<open>int64\<close>, which wraps.\<close>

definition total_duration :: "int \<Rightarrow> ping_result \<Rightarrow> int" where
  "total_duration start r = fold (\<lambda>d sum. sint (word_of_int (sum + d) :: 64 word)) (pr_duration r) start"

text \<open>
  One pass of the waiting loop, at time \<open>now\<close> and with the timeout fired or not: the result with its error, or \<open>None\<close> to
  try again.
\<close>

definition measure_poll ::
    "ping_env \<Rightarrow> int \<Rightarrow> string \<Rightarrow> measured \<Rightarrow> bool \<Rightarrow> int \<Rightarrow> server \<Rightarrow> (measured \<times> go_error option) option \<times> server" where
  "measure_poll E cnt testID res fired now s =
     (let drop = s\<lparr>ps_results := (ps_results s)(testID := None)\<rparr>
      in if fired then
           (case ps_results s testID of
              Some r \<Rightarrow>
                (if pr_duration r \<noteq> []
                 then (Some (res\<lparr>ms_Duration := go_quot (total_duration (ms_Duration res) r) (int (length (pr_duration r)))\<rparr>, None), drop)
                 else (Some (res, Some (Errorf ''timeout waiting for results'')), s))
            | None \<Rightarrow> (Some (res, Some (Errorf ''timeout waiting for results'')), s))
         else
           (case ps_results s testID of
              None \<Rightarrow> (None, s)
            | Some r \<Rightarrow>
                (if int (length (pr_duration r)) = cnt \<or> pe_timeout E * 2 < now - pr_lastUpdated r
                 then
                   let d = total_duration (ms_Duration res) r
                   in (Some (res\<lparr>ms_Duration := (if pr_duration r \<noteq> [] then go_quot d (int (length (pr_duration r))) else d),
                                 ms_Status := 1\<rparr>, None), drop)
                 else (None, s))))"

text \<open>The loop over what it observes: whether the timeout has fired, the clock, and the state the listener has left.\<close>

fun measure_wait ::
    "ping_env \<Rightarrow> int \<Rightarrow> string \<Rightarrow> measured \<Rightarrow> (bool \<times> int \<times> server) list \<Rightarrow> ((measured \<times> go_error option) \<times> server) option" where
  "measure_wait E cnt testID res [] = None"
| "measure_wait E cnt testID res ((fired, now, s) # obs) =
     (case measure_poll E cnt testID res fired now s of
        (Some out, t) \<Rightarrow> Some (out, t)
      | (None, t) \<Rightarrow> measure_wait E cnt testID res obs)"

text \<open>\<open>None\<close> while the loop still waits after the given observations.\<close>

definition ping_Measure ::
    "ping_env \<Rightarrow> server \<Rightarrow> (nat \<Rightarrow> server) \<Rightarrow> int \<Rightarrow> (nat \<Rightarrow> int) \<Rightarrow> 16 word list \<Rightarrow> measurement_options
       \<Rightarrow> (bool \<times> int \<times> server) list \<Rightarrow> (measured \<times> go_error option) go option" where
  "ping_Measure E s states startTime now path opts obs =
     (let res = new_result path
      in case measure_checked E s path opts of
           Inl (Err e) \<Rightarrow> Some (Inr (res, Some e))
         | Inl (Panic x) \<Rightarrow> Some (Inl (Panic x))
         | Inr (cnt, interval, vers) \<Rightarrow>
             (case send_packets E states startTime now path vers cnt of
                Inl (Err e) \<Rightarrow> Some (Inr (res, Some e))
              | Inl (Panic x) \<Rightarrow> Some (Inl (Panic x))
              | Inr sent \<Rightarrow> map_option (\<lambda>x. Inr (fst x)) (measure_wait E cnt (test_id path (word_of_int startTime)) res obs)))"

section \<open>client.go\<close>

record ping_client =
  cl_Count :: int
  cl_Interval :: int

definition NewClient :: "int \<Rightarrow> int \<Rightarrow> ping_client" where
  "NewClient cnt interval = \<lparr>cl_Count = cnt, cl_Interval = interval\<rparr>"

definition client_Measure ::
    "ping_env \<Rightarrow> server option \<Rightarrow> (nat \<Rightarrow> server) \<Rightarrow> int \<Rightarrow> (nat \<Rightarrow> int) \<Rightarrow> ping_client \<Rightarrow> int list
       \<Rightarrow> (bool \<times> int \<times> server) list \<Rightarrow> (measured \<times> go_error option) go option" where
  "client_Measure E singleton states startTime now c path obs =
     (case singleton of
        None \<Rightarrow> Some (Inr (\<lparr>ms_Status = 0, ms_Protocol = [], ms_Path = [], ms_Duration = 0, ms_Loss = 0\<rparr>,
                         Some (Errorf ''pathping server not started'')))
      | Some s \<Rightarrow> ping_Measure E s states startTime now (map to_uint16 path)
                    \<lparr>mo_Count = cl_Count c, mo_Interval = cl_Interval c, mo_PathVer = None\<rparr> obs)"

section \<open>The packet format\<close>

lemma length_put_le [simp]: "length (put_le k n) = k"
  by (induction k arbitrary: n) simp_all

lemma get_put_le: "get_le (put_le k n) = n mod 256 ^ k"
proof (induction k arbitrary: n)
  case (Suc k)
  have "unat (of_nat (n mod 256) :: 8 word) = n mod 256"
    by (subst unat_of_nat) simp
  then show ?case using Suc [of "n div 256"] by (simp add: mod_mult2_eq add.commute)
qed simp

lemma length_puts [simp]: "length (put16 w) = 2" "length (put64 v) = 8"
  by (simp_all add: put16_def put64_def)

lemma get_at_append: "length a = i \<Longrightarrow> length m = k \<Longrightarrow> get_at k i (a @ m @ b) = Inr (get_le m)"
  by (simp add: get_at_def)

lemma get16_at: "length a = i \<Longrightarrow> get16 i (a @ put16 w @ b) = Inr w"
proof -
  have "unat w < 256 ^ 2" using unsigned_less [of w, where ?'a = nat] by simp
  then show "length a = i \<Longrightarrow> ?thesis" by (simp add: get16_def get_at_append put16_def get_put_le)
qed

lemma get64_at: "length a = i \<Longrightarrow> get64 i (a @ put64 w @ b) = Inr w"
proof -
  have "unat w < 256 ^ 8" using unsigned_less [of w, where ?'a = nat] by simp
  then show "length a = i \<Longrightarrow> ?thesis" by (simp add: get64_def get_at_append put64_def get_put_le)
qed

lemma get16s_at: "length a = i \<Longrightarrow> get16s (length ws) i (a @ concat (map put16 ws) @ b) = Inr ws"
proof (induction ws arbitrary: a i)
  case (Cons w ws)
  have "get16s (length ws) (i + 2) ((a @ put16 w) @ concat (map put16 ws) @ b) = Inr ws"
    by (rule Cons.IH) (use Cons.prems in simp)
  with get16_at [OF Cons.prems, of w "concat (map put16 ws) @ b"] show ?case by simp
qed simp

text \<open>A packet whose arrays have the stated length.\<close>

definition packet_ok :: "packet \<Rightarrow> bool" where
  "packet_ok p \<longleftrightarrow> length (pk_Path p) = unat (pk_PathLength p) \<and> length (pk_PathVer p) = unat (pk_PathLength p)"

lemma length_concat16 [simp]: "length (concat (map put16 ws)) = 2 * length ws"
  by (induction ws) simp_all

lemma serialize_ok:
  assumes "packet_ok p"
  shows "\<exists>buf. serialize p = Inr buf \<and> length buf = calculatePacketSize p"
  using assms by (simp add: serialize_def first_elems_def packet_ok_def calculatePacketSize_def)

lemma roundtrip_len:
  assumes "packet_ok p" "serialize p = Inr buf"
  shows "get16 14 buf = Inr (pk_PathLength p)"
proof -
  have "buf = (put64 (pk_ID p) @ put16 (pk_Origin p) @ put16 (pk_CurrentHop p) @ put16 (pk_Sequence p)) @ put16 (pk_PathLength p) @
      put16 (pk_Status p) @ put64 (pk_StartTime p) @ concat (map put16 (pk_Path p)) @ concat (map put16 (pk_PathVer p))"
    using assms by (simp add: serialize_def first_elems_def packet_ok_def)
  then show ?thesis by (simp only:) (rule get16_at, simp)
qed

lemma roundtrip:
  assumes "packet_ok p" "pk_PathLength p \<le> to_uint16 mx" "serialize p = Inr buf"
  shows "deserializePacket mx buf = Inr p"
proof -
  let ?n = "unat (pk_PathLength p)"
  have len: "length (pk_Path p) = ?n" "length (pk_PathVer p) = ?n" using assms(1) by (simp_all add: packet_ok_def)
  let ?path = "concat (map put16 (pk_Path p))" and ?vers = "concat (map put16 (pk_PathVer p))"
  have buf: "buf = put64 (pk_ID p) @ put16 (pk_Origin p) @ put16 (pk_CurrentHop p) @ put16 (pk_Sequence p) @
            put16 (pk_PathLength p) @ put16 (pk_Status p) @ put64 (pk_StartTime p) @ ?path @ ?vers"
    using assms(3) len by (simp add: serialize_def first_elems_def)
  have size: "length buf = 26 + ?n * 4" using len by (simp add: buf)
  have f: "get64 0 buf = Inr (pk_ID p)" "get16 8 buf = Inr (pk_Origin p)" "get16 10 buf = Inr (pk_CurrentHop p)"
    "get16 12 buf = Inr (pk_Sequence p)" "get16 14 buf = Inr (pk_PathLength p)" "get16 16 buf = Inr (pk_Status p)"
    "get64 18 buf = Inr (pk_StartTime p)"
    unfolding buf
    using get64_at [of "[]" 0] get16_at [of "put64 (pk_ID p)" 8]
      get16_at [of "put64 (pk_ID p) @ put16 (pk_Origin p)" 10]
      get16_at [of "put64 (pk_ID p) @ put16 (pk_Origin p) @ put16 (pk_CurrentHop p)" 12]
      get16_at [of "put64 (pk_ID p) @ put16 (pk_Origin p) @ put16 (pk_CurrentHop p) @ put16 (pk_Sequence p)" 14]
      get16_at [of "put64 (pk_ID p) @ put16 (pk_Origin p) @ put16 (pk_CurrentHop p) @ put16 (pk_Sequence p) @ put16 (pk_PathLength p)" 16]
      get64_at [of "put64 (pk_ID p) @ put16 (pk_Origin p) @ put16 (pk_CurrentHop p) @ put16 (pk_Sequence p) @
         put16 (pk_PathLength p) @ put16 (pk_Status p)" 18]
    by simp_all
  let ?head = "put64 (pk_ID p) @ put16 (pk_Origin p) @ put16 (pk_CurrentHop p) @ put16 (pk_Sequence p) @
            put16 (pk_PathLength p) @ put16 (pk_Status p) @ put64 (pk_StartTime p)"
  have "get16s ?n 26 buf = Inr (pk_Path p)"
    using get16s_at [of ?head 26 "pk_Path p" ?vers] len by (simp add: buf)
  moreover have "get16s ?n (26 + 2 * ?n) buf = Inr (pk_PathVer p)"
    using get16s_at [of "?head @ ?path" "26 + 2 * ?n" "pk_PathVer p" "[]"] len by (simp add: buf)
  ultimately show ?thesis using f size assms(2) by (simp add: deserializePacket_def not_less [symmetric])
qed

section \<open>What a received packet looks like\<close>

lemma get16s_length: "get16s n i buf = Inr ws \<Longrightarrow> length ws = n"
proof (induction n arbitrary: i ws)
  case (Suc n)
  then show ?case by (auto simp: go_bind_eq_Inr)
qed simp

lemma deserialize_ok: "deserializePacket mx buf = Inr p \<Longrightarrow> packet_ok p"
  by (auto simp: deserializePacket_def go_bind_eq_Inr packet_ok_def get16s_length split: if_splits)

text \<open>The packet a node sends on, and what \<open>forwardPacket\<close> does with it.\<close>

definition sent_packet :: "ping_env \<Rightarrow> server \<Rightarrow> packet \<Rightarrow> 16 word \<Rightarrow> packet" where
  "sent_packet E s p hop = p\<lparr>pk_CurrentHop := hop, pk_StartTime := pk_StartTime p + word_of_int (getAverageProcessingDuration E s)\<rparr>"

lemma sent_packet_ok: "packet_ok p \<Longrightarrow> packet_ok (sent_packet E s p hop)"
  by (simp add: sent_packet_def packet_ok_def)

lemma forward_hop_next:
  assumes ok: "packet_ok p" and hop: "hop = (if isOrigin then 0 else pk_CurrentHop p + 1)"
    and range: "unat (hop + 1) < unat (pk_PathLength p)"
  shows "\<exists>buf. serialize (sent_packet E s p hop) = Inr buf \<and>
     forward_hop E s p isOrigin =
       (case (case ps_peerAddrs s (pk_Path p ! unat (hop + 1)) of None \<Rightarrow> None | Some m \<Rightarrow> m (pk_PathVer p ! unat (hop + 1))) of
          None \<Rightarrow> Inl (Err (Errorf ''peer not found'')) | Some addr \<Rightarrow> Inr (sent_packet E s p hop, addr, buf))"
proof -
  obtain buf where buf: "serialize (sent_packet E s p hop) = Inr buf"
    using serialize_ok [OF sent_packet_ok [OF ok]] by blast
  have at: "go_index (pk_Path p) (uint (hop + 1)) = Inr (pk_Path p ! unat (hop + 1))"
    "go_index (pk_PathVer p) (uint (hop + 1)) = Inr (pk_PathVer p ! unat (hop + 1))"
    using ok range by (simp_all add: go_index_def packet_ok_def)
  have "forward_hop E s p isOrigin =
       (case (case ps_peerAddrs s (pk_Path p ! unat (hop + 1)) of None \<Rightarrow> None | Some m \<Rightarrow> m (pk_PathVer p ! unat (hop + 1))) of
          None \<Rightarrow> Inl (Err (Errorf ''peer not found''))
        | Some addr \<Rightarrow> go_bind (serialize (sent_packet E s p hop)) (\<lambda>buf. Inr (sent_packet E s p hop, addr, buf)))"
    using at by (simp add: forward_hop_def Let_def sent_packet_def hop [symmetric] cong: option.case_cong)
  then show ?thesis using buf by (intro exI [of _ buf]) (simp add: buf cong: option.case_cong)
qed

lemma hop_next: "hop + 1 + 1 = (hop + 2 :: 16 word)"
  by simp

lemma forward_in_range:
  assumes "packet_ok p" "unat (pk_CurrentHop p + 2) < unat (pk_PathLength p)"
  shows "forwardPacket E s p False \<noteq> Inl (Panic x)"
proof -
  have "unat (pk_CurrentHop p + 1 + 1) < unat (pk_PathLength p)" using assms(2) by (simp only: hop_next)
  from forward_hop_next [OF assms(1) _ this, of False E s] obtain buf where
    "forward_hop E s p False =
       (case (case ps_peerAddrs s (pk_Path p ! unat (pk_CurrentHop p + 1 + 1)) of
            None \<Rightarrow> None | Some m \<Rightarrow> m (pk_PathVer p ! unat (pk_CurrentHop p + 1 + 1))) of
          None \<Rightarrow> Inl (Err (Errorf ''peer not found''))
        | Some addr \<Rightarrow> Inr (sent_packet E s p (pk_CurrentHop p + 1), addr, buf))" by auto
  then show ?thesis by (simp add: forwardPacket_def split: option.split)
qed

lemma forward_out_of_range:
  assumes "packet_ok p" "unat (pk_PathLength p) \<le> unat (pk_CurrentHop p + 2)"
  shows "forwardPacket E s p False = Inl (Panic IndexOutOfRange)"
proof -
  have "\<not> unat (pk_CurrentHop p + 1 + 1) < length (pk_Path p)"
    using assms by (simp only: hop_next packet_ok_def not_less)
  then have "go_index (pk_Path p) (uint (pk_CurrentHop p + 1 + 1)) = Inl (Panic IndexOutOfRange)"
    by (simp only: go_index_def nat_uint_eq) simp
  then show ?thesis by (simp only: forwardPacket_def forward_hop_def Let_def) simp
qed

text \<open>
  C20. A datagram that parses makes the daemon panic exactly when its hop is not the one before the last and the next
  position is outside its path: nothing checks the hop of a packet that arrives, and the panic is outside any recovery.
\<close>

theorem processPacket_panics:
  assumes "deserializePacket mx buf = Inr p"
  shows "processPacket E now p s = Inl (Panic IndexOutOfRange) \<longleftrightarrow>
     pk_CurrentHop p + 1 \<noteq> pk_PathLength p - 1 \<and> unat (pk_PathLength p) \<le> unat (pk_CurrentHop p + 2)"
proof -
  note ok = deserialize_ok [OF assms]
  have arr: "first_elems (unat (pk_PathLength p)) (pk_Path p) = Inr (pk_Path p)"
    using ok by (simp add: first_elems_def packet_ok_def)
  show ?thesis
  proof (cases "unat (pk_CurrentHop p + 2) < unat (pk_PathLength p)")
    case True
    have "forwardPacket E s p False \<noteq> Inl (Panic x)" for x by (rule forward_in_range [OF ok True])
    with True arr show ?thesis by (auto simp: processPacket_def split: sum.split go_fault.split prod.split)
  next
    case False
    with arr forward_out_of_range [OF ok, of E s] show ?thesis by (simp add: processPacket_def)
  qed
qed

definition sample_packet :: "packet" where
  "sample_packet = \<lparr>pk_ID = 77, pk_Origin = 1, pk_CurrentHop = 0, pk_Sequence = 3, pk_PathLength = 4, pk_Status = 0,
     pk_StartTime = 1000, pk_Path = [1, 2, 3, 1], pk_PathVer = [0, 4, 6, 0]\<rparr>"

definition crafted_packet :: "packet" where
  "crafted_packet = \<lparr>pk_ID = 0, pk_Origin = 0, pk_CurrentHop = 7, pk_Sequence = 0, pk_PathLength = 0, pk_Status = 0,
     pk_StartTime = 0, pk_Path = [], pk_PathVer = []\<rparr>"

lemma crafted_parses: "deserializePacket 16 (replicate 10 0 @ [7, 0] @ replicate 14 0) = Inr crafted_packet"
  by code_simp

theorem processPacket_panics_witness:
  "deserializePacket 16 (replicate 10 0 @ [7, 0] @ replicate 14 0) = Inr crafted_packet \<and>
   (\<forall>E now s. processPacket E now crafted_packet s = Inl (Panic IndexOutOfRange))"
  using processPacket_panics [OF crafted_parses] crafted_parses
  by (simp add: crafted_packet_def)

text \<open>
  C19. What \<open>serialize\<close> writes is the size it computed and \<open>deserializePacket\<close> reads back: every packet whose two
  arrays have the length in its header, and whose length is at most the limit, survives the wire unchanged.
\<close>

theorem packet_roundtrip:
  assumes "packet_ok p" "pk_PathLength p \<le> to_uint16 mx"
  shows "\<exists>buf. serialize p = Inr buf \<and> length buf = calculatePacketSize p \<and> deserializePacket mx buf = Inr p"
  using serialize_ok [OF assms(1)] roundtrip [OF assms] by blast

theorem packet_roundtrip_witness:
  "\<exists>buf. serialize sample_packet = Inr buf \<and> length buf = calculatePacketSize sample_packet \<and>
     deserializePacket 16 buf = Inr sample_packet"
  by (rule packet_roundtrip) (simp_all add: sample_packet_def packet_ok_def to_uint16_def)

section \<open>Long paths\<close>

lemma get_at_prefix: "i + k \<le> n \<Longrightarrow> n \<le> length buf \<Longrightarrow> get_at k i (take n buf) = get_at k i buf"
  by (simp add: get_at_def drop_take min_def)

text \<open>
  \<open>maxPacketSize\<close> is computed from the default of the flag, 16 hops. With a larger limit a node sends the packets of
  a longer path, and every node that receives one cuts it to 90 bytes and drops it: such a path is never measured.
\<close>

lemma long_path_dropped:
  assumes "packet_ok p" "16 < unat (pk_PathLength p)" "serialize p = Inr buf"
  shows "listen_step E now buf s = Inr (None, s)"
proof -
  have size: "length buf = 26 + unat (pk_PathLength p) * 4"
    using serialize_ok [OF assms(1)] assms(3) by (auto simp: calculatePacketSize_def)
  let ?b = "take 90 buf"
  have len90: "length ?b = 90" using size assms(2) by simp
  have at: "get_at k i ?b = get_at k i buf" if "i + k \<le> 26" for i k
    by (rule get_at_prefix) (use that size assms(2) in simp_all)
  have ok: "\<exists>n. get_at k i ?b = Inr n" if "i + k \<le> 26" for i k
    using that len90 by (simp add: get_at_def)
  have "get16 14 buf = Inr (pk_PathLength p)"
    using roundtrip_len [OF assms(1,3)] .
  then have len: "get16 14 ?b = Inr (pk_PathLength p)" by (simp add: get16_def at)
  have "\<exists>w. get16 i ?b = Inr w" if "i + 2 \<le> 26" for i using ok [OF that] by (auto simp: get16_def)
  moreover have "\<exists>w. get64 i ?b = Inr w" if "i + 8 \<le> 26" for i using ok [OF that] by (auto simp: get64_def)
  ultimately obtain a b c d e f where
    "get64 0 ?b = Inr a" "get16 8 ?b = Inr b" "get16 10 ?b = Inr c" "get16 12 ?b = Inr d" "get16 16 ?b = Inr e" "get64 18 ?b = Inr f"
    by force
  then have "\<exists>x. deserializePacket (pe_max E) ?b = Inl (Err x)"
    using len len90 assms(2) by (simp add: deserializePacket_def)
  then show ?thesis by (auto simp: listen_step_def maxPacketSize_def)
qed

definition long_packet :: packet where
  "long_packet = sample_packet\<lparr>pk_PathLength := 17, pk_Path := replicate 17 1, pk_PathVer := replicate 17 0\<rparr>"

lemma long_path_dropped_witness:
  "\<exists>buf. serialize long_packet = Inr buf \<and> (\<forall>E now s. listen_step E now buf s = Inr (None, s))"
proof -
  have ok: "packet_ok long_packet" "16 < unat (pk_PathLength long_packet)"
    by (simp_all add: long_packet_def packet_ok_def)
  obtain buf where "serialize long_packet = Inr buf" using serialize_ok [OF ok(1)] by blast
  with long_path_dropped [OF ok] show ?thesis by blast
qed

section \<open>The number of packets\<close>

text \<open>
  \<open>Measure\<close> counts its packets in \<open>uint16\<close>: when all its sends succeed it has sent the count modulo 65536, so
  that a count that is a multiple of 65536 sends nothing and only waits.
\<close>

lemma measure_sends:
  assumes "send_packets E s startTime now path vers cnt = Inr sent"
  shows "int (length sent) = cnt mod 65536"
proof -
  have "length t = length u + length ns"
    if "go_fold (\<lambda>n sent. go_bind (go_wrap ''failed to send packet''
           (forwardPacket E (s n) (first_packet (s n) startTime (of_nat n) (now n) path vers) True))
           (\<lambda>out. Inr (sent @ [out]))) ns u = Inr t" for ns u t
    using that by (induction ns arbitrary: u) (auto simp: go_bind_eq_Inr)
  from this [OF assms [unfolded send_packets_def]] show ?thesis
    by (simp add: to_uint16_def unsigned_of_int take_bit_eq_mod)
qed

section \<open>Along the path\<close>

text \<open>
  The mesh seen from outside: the site that owns an address reads the datagram at the given time and its answer is sent on.
  The first argument bounds the number of datagrams; the clock is indexed by what remains of it.
\<close>

fun travel ::
    "ping_env \<Rightarrow> (16 word \<Rightarrow> server) \<Rightarrow> (string \<Rightarrow> 16 word) \<Rightarrow> (nat \<Rightarrow> int) \<Rightarrow> nat \<Rightarrow> string \<Rightarrow> 8 word list
       \<Rightarrow> (16 word \<times> handled \<times> server) option" where
  "travel E mesh owner tm 0 addr datagram = None"
| "travel E mesh owner tm (Suc n) addr datagram =
     (case listen_step E (tm n) datagram (mesh (owner addr)) of
        Inr (Some (Forwarded a d), t) \<Rightarrow> travel E mesh owner tm n a d
      | Inr (Some h, t) \<Rightarrow> Some (owner addr, h, t)
      | _ \<Rightarrow> None)"

text \<open>The packet as it leaves the node at position \<open>k\<close> of its path.\<close>

definition delays :: "ping_env \<Rightarrow> (16 word \<Rightarrow> server) \<Rightarrow> 16 word list \<Rightarrow> 64 word" where
  "delays E mesh sites = sum_list (map (\<lambda>x. word_of_int (getAverageProcessingDuration E (mesh x))) sites)"

definition left_at :: "ping_env \<Rightarrow> (16 word \<Rightarrow> server) \<Rightarrow> packet \<Rightarrow> nat \<Rightarrow> packet" where
  "left_at E mesh p k =
     p\<lparr>pk_CurrentHop := of_nat k, pk_StartTime := pk_StartTime p + delays E mesh (take (Suc k) (pk_Path p))\<rparr>"

text \<open>Every node of the path knows the address of its successor, at the version the packet asks for.\<close>

definition peers_along :: "(16 word \<Rightarrow> server) \<Rightarrow> (string \<Rightarrow> 16 word) \<Rightarrow> packet \<Rightarrow> bool" where
  "peers_along mesh owner p \<longleftrightarrow>
     (\<forall>k < length (pk_Path p) - 1. \<exists>m a. ps_peerAddrs (mesh (pk_Path p ! k)) (pk_Path p ! Suc k) = Some m \<and>
        m (pk_PathVer p ! Suc k) = Some a \<and> owner a = pk_Path p ! Suc k)"

lemma small_word: "n < 65536 \<Longrightarrow> unat (of_nat n :: 16 word) = n"
  by (simp add: unat_of_nat)

lemma delays_Suc: "k < length xs \<Longrightarrow>
    delays E mesh (take (Suc k) xs) = delays E mesh (take k xs) + word_of_int (getAverageProcessingDuration E (mesh (xs ! k)))"
  by (simp add: delays_def take_Suc_conv_app_nth)

lemma left_at_next:
  assumes "Suc k < length (pk_Path p)"
  shows "sent_packet E (mesh (pk_Path p ! Suc k)) (left_at E mesh p k) (of_nat k + 1) = left_at E mesh p (Suc k)"
  using assms by (simp add: sent_packet_def left_at_def delays_Suc algebra_simps)

lemma packet_ok_left_at [simp]: "packet_ok (left_at E mesh p k) = packet_ok p"
  by (simp add: left_at_def packet_ok_def)

lemma forward_along:
  assumes ok: "packet_ok p" and peers: "peers_along mesh owner p" and len: "length (pk_Path p) \<le> 16"
    and k: "Suc k < length (pk_Path p)" and wr: "\<And>a b. pe_write E a b = None"
    and at: "hop = of_nat k" "hop = (if isOrigin then 0 else pk_CurrentHop q + 1)"
    and q: "packet_ok q" "pk_Path q = pk_Path p" "pk_PathVer q = pk_PathVer p" "pk_PathLength q = pk_PathLength p"
    and nxt: "sent_packet E (mesh (pk_Path p ! k)) q hop = left_at E mesh p k"
  shows "\<exists>a buf. forwardPacket E (mesh (pk_Path p ! k)) q isOrigin = Inr (a, buf) \<and> owner a = pk_Path p ! Suc k \<and>
     serialize (left_at E mesh p k) = Inr buf"
proof -
  have L: "unat (pk_PathLength p) = length (pk_Path p)" using ok by (simp add: packet_ok_def)
  have "hop + 1 = of_nat (Suc k)" using at(1) by simp
  then have u: "unat (hop + 1) = Suc k" using small_word [of "Suc k"] k len by (simp only:)
  have r: "unat (hop + 1) < unat (pk_PathLength q)" using u k L q by simp
  obtain m a where a: "ps_peerAddrs (mesh (pk_Path p ! k)) (pk_Path p ! Suc k) = Some m" "m (pk_PathVer p ! Suc k) = Some a"
    "owner a = pk_Path p ! Suc k" using peers [unfolded peers_along_def, THEN spec, of k] k by (auto simp: less_diff_conv)
  from forward_hop_next [OF q(1) at(2) r, of E "mesh (pk_Path p ! k)", unfolded u nxt q(2,3)] obtain buf where
    buf: "serialize (left_at E mesh p k) = Inr buf"
    and f: "forward_hop E (mesh (pk_Path p ! k)) q isOrigin = Inr (left_at E mesh p k, a, buf)"
    using a(1,2) by auto
  have "forwardPacket E (mesh (pk_Path p ! k)) q isOrigin = Inr (a, buf)"
    by (simp add: forwardPacket_def f wr)
  with buf a(3) show ?thesis by blast
qed

lemma hop_word: "Suc k < length xs \<Longrightarrow> length xs \<le> 16 \<Longrightarrow> n = of_nat (length xs) \<Longrightarrow>
    (of_nat k + 1 = (n - 1 :: 16 word)) = (Suc (Suc k) = length xs)"
proof -
  assume a: "Suc k < length xs" "length xs \<le> 16" "n = of_nat (length xs)"
  have "n - 1 = of_nat (length xs - 1)" using a by (simp add: of_nat_diff)
  moreover have "of_nat k + 1 = (of_nat (Suc k) :: 16 word)" by simp
  ultimately have "(of_nat k + 1 = n - 1) = (unat (of_nat (Suc k) :: 16 word) = unat (of_nat (length xs - 1) :: 16 word))"
    by (simp only: word_unat_eq_iff)
  then show ?thesis using a by (simp only: small_word) auto
qed

lemma arrive:
  assumes ok: "packet_ok p" and len: "length (pk_Path p) \<le> 16" and mx: "pk_PathLength p \<le> to_uint16 (pe_max E)"
    and buf: "serialize (left_at E mesh p k) = Inr buf"
  shows "listen_step E now buf s = go_bind (processPacket E now (left_at E mesh p k) s) (\<lambda>(h, t). Inr (Some h, t))"
proof -
  let ?q = "left_at E mesh p k"
  have q: "packet_ok ?q" "pk_PathLength ?q \<le> to_uint16 (pe_max E)" using ok mx by (simp_all, simp add: left_at_def)
  have "length buf \<le> maxPacketSize"
    using serialize_ok [OF q(1)] buf len ok by (auto simp: calculatePacketSize_def maxPacketSize_def left_at_def packet_ok_def)
  then show ?thesis using roundtrip [OF q buf] by (simp add: listen_step_def)
qed

lemma travel_along:
  assumes ok: "packet_ok p" and peers: "peers_along mesh owner p" and len: "length (pk_Path p) \<le> 16"
    and mx: "pk_PathLength p \<le> to_uint16 (pe_max E)" and wr: "\<And>a b. pe_write E a b = None"
    and home: "last (pk_Path p) = pk_Origin p" "ps_ID (mesh (pk_Origin p)) = pk_Origin p"
  shows "Suc k + n = length (pk_Path p) - 1 \<Longrightarrow> serialize (left_at E mesh p k) = Inr buf \<Longrightarrow> owner a = pk_Path p ! Suc k \<Longrightarrow>
     travel E mesh owner tm (Suc n) a buf =
       Some (pk_Origin p, Recorded,
         record_result (tm 0) (left_at E mesh p (length (pk_Path p) - 2)) (pk_Path p) (mesh (pk_Origin p)))"
proof (induction n arbitrary: k a buf)
  case 0
  let ?q = "left_at E mesh p k"
  have L: "unat (pk_PathLength p) = length (pk_Path p)" using ok by (simp add: packet_ok_def)
  then have W: "pk_PathLength p = of_nat (length (pk_Path p))" by (metis unsigned_of_nat word_unat_eq_iff of_nat_unat ucast_id)
  have at: "pk_Path p ! Suc k = pk_Origin p" using 0 home(1) by (cases "pk_Path p = []") (simp_all add: last_conv_nth)
  have "pk_CurrentHop ?q + 1 = pk_PathLength ?q - 1"
    using hop_word [OF _ len W, of k] 0 by (simp add: left_at_def)
  moreover have "first_elems (unat (pk_PathLength ?q)) (pk_Path ?q) = Inr (pk_Path p)"
    using L by (simp add: first_elems_def left_at_def)
  ultimately have "processPacket E (tm 0) ?q (mesh (pk_Origin p)) =
      Inr (Recorded, record_result (tm 0) ?q (pk_Path p) (mesh (pk_Origin p)))"
    using home(2) by (simp add: processPacket_def) (simp add: left_at_def)
  moreover have "k = length (pk_Path p) - 2" using 0 by simp
  ultimately show ?case using arrive [OF ok len mx 0(2), of "tm 0" "mesh (pk_Origin p)"] 0(3) at by simp
next
  case (Suc n)
  let ?q = "left_at E mesh p k" and ?x = "pk_Path p ! Suc k"
  have L: "unat (pk_PathLength p) = length (pk_Path p)" using ok by (simp add: packet_ok_def)
  then have W: "pk_PathLength p = of_nat (length (pk_Path p))" by (metis unsigned_of_nat word_unat_eq_iff of_nat_unat ucast_id)
  have k: "Suc (Suc k) < length (pk_Path p)" using Suc.prems(1) by simp
  have "pk_CurrentHop ?q + 1 \<noteq> pk_PathLength ?q - 1"
    using hop_word [OF _ len W, of k] Suc.prems(1) k by (simp add: left_at_def)
  have hop: "of_nat (Suc k) = (if False then 0 else pk_CurrentHop ?q + 1)" by (simp add: left_at_def)
  have q: "packet_ok ?q" "pk_Path ?q = pk_Path p" "pk_PathVer ?q = pk_PathVer p" "pk_PathLength ?q = pk_PathLength p"
    using ok by (simp_all add: left_at_def packet_ok_def)
  have nxt: "sent_packet E (mesh ?x) ?q (of_nat (Suc k)) = left_at E mesh p (Suc k)"
    using left_at_next [of k p E mesh] k by (simp add: add.commute)
  obtain b buf' where b: "forwardPacket E (mesh ?x) ?q False = Inr (b, buf')" "owner b = pk_Path p ! Suc (Suc k)"
      "serialize (left_at E mesh p (Suc k)) = Inr buf'"
    using forward_along [OF ok peers len k wr refl hop q nxt] by blast
  have "processPacket E (tm (Suc n)) ?q (mesh ?x) = Inr (Forwarded b buf', mesh ?x)"
    using b(1) \<open>_ \<noteq> _\<close> by (simp add: processPacket_def)
  then have "listen_step E (tm (Suc n)) buf (mesh (owner a)) = Inr (Some (Forwarded b buf'), mesh ?x)"
    using arrive [OF ok len mx Suc.prems(2), of "tm (Suc n)" "mesh ?x"] Suc.prems(3) by simp
  then have "travel E mesh owner tm (Suc (Suc n)) a buf = travel E mesh owner tm (Suc n) b buf'"
    by (simp only: travel.simps) simp
  then show ?case using Suc.IH [OF _ b(3,2)] Suc.prems(1) by simp
qed

text \<open>
  C18. A measurement packet comes back. In a mesh where every site of a closed path of 2 to 16 hops knows its successor,
  a packet that \<open>Measure\<close> sends is forwarded from site to site and recorded at its origin, under the very key \<open>Measure\<close>
  polls, after as many datagrams as the path has hops; the round trip it adds is the elapsed time less the average
  processing times of all sites that forwarded it.
\<close>

theorem packet_comes_back:
  assumes path: "2 \<le> length path" "length path \<le> 16" "length vers = length path" "hd path = last path"
    and mx: "of_nat (length path) \<le> to_uint16 (pe_max E)" and wr: "\<And>a b. pe_write E a b = None"
    and home: "ps_ID (mesh (hd path)) = hd path"
    and p: "p = first_packet (mesh (hd path)) startTime sq now path vers"
    and peers: "peers_along mesh owner p"
  shows "\<exists>addr buf t. forwardPacket E (mesh (hd path)) p True = Inr (addr, buf) \<and>
     travel E mesh owner tm (length path - 1) addr buf = Some (hd path, Recorded, t) \<and>
     ps_results t (test_id path (word_of_int startTime)) =
       (let rtt = sint (word_of_int (tm 0) - word_of_int now - delays E mesh (butlast path))
        in Some (case ps_results (mesh (hd path)) (test_id path (word_of_int startTime)) of
             None \<Rightarrow> \<lparr>pr_id = word_of_int startTime, pr_nodes = path, pr_duration = [rtt], pr_lastUpdated = tm 0\<rparr>
           | Some r \<Rightarrow> r\<lparr>pr_duration := pr_duration r @ [rtt], pr_lastUpdated := tm 0\<rparr>))"
proof -
  have P [simp]: "pk_Path p = path" "pk_PathVer p = vers" "pk_Origin p = hd path" "pk_ID p = word_of_int startTime"
    "pk_StartTime p = word_of_int now" "pk_PathLength p = of_nat (length path)"
    using home by (simp_all add: p first_packet_def)
  have ok: "packet_ok p" using path small_word [of "length path"] by (simp add: packet_ok_def)
  have ne: "path \<noteq> []" using path(1) by auto
  have s0: "sent_packet E (mesh (pk_Path p ! 0)) p 0 = left_at E mesh p 0"
    using ne by (cases path) (simp_all add: sent_packet_def left_at_def delays_def)
  have k: "Suc 0 < length (pk_Path p)" and len: "length (pk_Path p) \<le> 16" using path by simp_all
  obtain a buf where f: "forwardPacket E (mesh (pk_Path p ! 0)) p True = Inr (a, buf)" "owner a = pk_Path p ! Suc 0"
    "serialize (left_at E mesh p 0) = Inr buf"
    using forward_along [OF ok peers len k wr _ _ ok refl refl refl s0, of True] by auto
  have n: "length path - 1 = Suc (length path - 2)" using path(1) by simp
  have "travel E mesh owner tm (length path - 1) a buf =
      Some (hd path, Recorded, record_result (tm 0) (left_at E mesh p (length path - 2)) path (mesh (hd path)))"
    using travel_along [OF ok peers len _ wr, where n = "length path - 2" and k = 0 and a = a and buf = buf and tm = tm]
      f(2,3) path home mx ne by (simp add: n)
  moreover have "Suc (length path - 2) = length path - 1" using path(1) by simp
  ultimately show ?thesis using f(1) ne
    by (simp add: hd_conv_nth record_result_def left_at_def Let_def diff_diff_eq butlast_conv_take split: option.split)
qed

text \<open>A mesh of three sites: site \<open>s\<close> of an address is its last byte but the port.\<close>

definition mesh_env :: ping_env where
  "mesh_env = \<lparr>pe_max = 16, pe_timeout = 1000000000, pe_historySize = 2, pe_port = 5124, pe_resolve = Inr, pe_write = (\<lambda>a b. None)\<rparr>"

definition mesh_owner :: "string \<Rightarrow> 16 word" where
  "mesh_owner a = (if a = ''10.201.1.1:5124'' then 1 else if a = ''10.201.2.1:5124'' then 2 else 3)"

definition mesh_server :: "16 word \<Rightarrow> server" where
  "mesh_server x = \<lparr>ps_ID = x, ps_Port = 5124,
     ps_peerAddrs = (\<lambda>y. Some (\<lambda>v. if v = 0 then Some (peer_addr (uint y) 1 5124) else None)), ps_active = True,
     ps_history = [10 * uint x, 10 * uint x], ps_index = 0, ps_results = Map.empty\<rparr>"

lemma mesh_addrs: "peer_addr 1 1 5124 = ''10.201.1.1:5124''" "peer_addr 2 1 5124 = ''10.201.2.1:5124''" "peer_addr 3 1 5124 = ''10.201.3.1:5124''"
  by code_simp+

lemma mesh_peers: "peers_along mesh_server mesh_owner (first_packet (mesh_server 1) 0 0 5000 [1, 2, 3, 1] [0, 0, 0, 0])"
proof -
  have "k = 0 \<or> k = 1 \<or> k = 2" if "k < 3" for k :: nat using that by auto
  then show ?thesis
    by (auto simp: peers_along_def first_packet_def mesh_server_def mesh_addrs mesh_owner_def nth_Cons')
qed

lemma mesh_delays: "delays mesh_env mesh_server [1, 2, 3] = 60"
  by (simp add: delays_def getAverageProcessingDuration_def mesh_server_def mesh_env_def Let_def go_quot_def)

theorem packet_comes_back_witness:
  "\<exists>addr buf t. forwardPacket mesh_env (mesh_server 1) (first_packet (mesh_server 1) 0 0 5000 [1, 2, 3, 1] [0, 0, 0, 0]) True = Inr (addr, buf) \<and>
     travel mesh_env mesh_server mesh_owner (\<lambda>n. 6000) 3 addr buf = Some (1, Recorded, t) \<and>
     ps_results t (test_id [1, 2, 3, 1] 0) =
       Some \<lparr>pr_id = 0, pr_nodes = [1, 2, 3, 1], pr_duration = [940], pr_lastUpdated = 6000\<rparr>"
proof -
  have mx: "of_nat (length [1, 2, 3, 1 :: 16 word]) \<le> to_uint16 (pe_max mesh_env)"
    and wr: "\<And>a b. pe_write mesh_env a b = None" and home: "ps_ID (mesh_server (hd [1, 2, 3, 1])) = hd [1, 2, 3, 1 :: 16 word]"
    and empty: "ps_results (mesh_server 1) = Map.empty"
    by (simp_all add: mesh_env_def to_uint16_def mesh_server_def)
  have d: "sint (6000 - 5000 - 60 :: 64 word) = 940" by simp
  show ?thesis
    using packet_comes_back [of "[1, 2, 3, 1]" "[0, 0, 0, 0]" mesh_env mesh_server "first_packet (mesh_server 1) 0 0 5000 [1, 2, 3, 1] [0, 0, 0, 0]"
        0 0 5000 mesh_owner "\<lambda>n. 6000", OF _ _ _ _ mx wr home _ mesh_peers]
    by (simp add: empty mesh_delays numeral_3_eq_3 del: travel.simps)
qed

section \<open>The average of a measurement\<close>

definition arrivals :: "(int \<times> packet) list \<Rightarrow> 16 word list \<Rightarrow> server \<Rightarrow> server" where
  "arrivals ps path s = fold (\<lambda>(now, p). record_result now p path) ps s"

lemma arrivals_more:
  assumes "\<forall>(now, p) \<in> set ps. pk_ID p = ident" "ps_results s (test_id path ident) = Some r"
  shows "\<exists>u. ps_results (arrivals ps path s) (test_id path ident) =
     Some (r\<lparr>pr_duration := pr_duration r @ map (\<lambda>(now, p). sint (word_of_int now - pk_StartTime p)) ps, pr_lastUpdated := u\<rparr>)"
  using assms
proof (induction ps arbitrary: s r)
  case (Cons x ps)
  obtain now p where x: "x = (now, p)" by force
  let ?rtt = "sint (word_of_int now - pk_StartTime p)"
  have "ps_results (record_result now p path s) (test_id path ident) =
      Some (r\<lparr>pr_duration := pr_duration r @ [?rtt], pr_lastUpdated := now\<rparr>)"
    using Cons.prems by (simp add: record_result_def Let_def x)
  from Cons.IH [OF _ this] Cons.prems(1) show ?case by (simp add: arrivals_def x)
next
  case Nil
  then show ?case by (intro exI [of _ "pr_lastUpdated r"]) (simp add: arrivals_def)
qed

text \<open>The sum wraps as a whole, and is the sum of the durations when that fits into 64 bits.\<close>

lemma total_duration_wraps:
  "fold (\<lambda>d sum. sint (word_of_int (sum + d) :: 64 word)) (map sint ws) (sint (w :: 64 word)) = sint (w + sum_list ws)"
proof (induction ws arbitrary: w)
  case (Cons v ws)
  have "sint (word_of_int (sint w + sint v) :: 64 word) = sint (w + v)" by simp
  with Cons show ?case by (simp add: add.assoc)
qed simp

lemma sint_sum_exact:
  assumes "- (2 ^ 63) \<le> (\<Sum>w\<leftarrow>ws. sint w)" "(\<Sum>w\<leftarrow>ws. sint w) < 2 ^ 63"
  shows "sint (sum_list ws :: 64 word) = (\<Sum>w\<leftarrow>ws. sint w)"
proof -
  have "sum_list ws = word_of_int (\<Sum>w\<leftarrow>ws. sint w)" by (induction ws) simp_all
  then show ?thesis using assms by (simp add: int_word_sint)
qed

text \<open>
  C21. The outcome of a measurement. When the packets of a test, as many as were asked for, have come back, the next poll
  returns the average of their round trips and forgets the test; nothing is left behind. The status is 1 when the timer of the
  measurement has not fired and 0, that of a failure, when it has. The durations are summed as 64-bit integers, whose sum
  may wrap because the start time is that of the packet; when the true sum fits, the average is exact.
\<close>

theorem measure_mean:
  assumes "ps \<noteq> []" "\<forall>(now, p) \<in> set ps. pk_ID p = ident" "ps_results s (test_id path ident) = None"
  shows "\<exists>t. measure_poll E (int (length ps)) (test_id path ident) (new_result path) fired now (arrivals ps path s) =
      (Some (\<lparr>ms_Status = (if fired then 0 else 1), ms_Protocol = ''pathping'', ms_Path = path,
        ms_Duration = go_quot (sint (\<Sum>(now, p)\<leftarrow>ps. word_of_int now - pk_StartTime p)) (int (length ps)), ms_Loss = 0\<rparr>, None), t) \<and>
      ps_results t (test_id path ident) = None \<and>
      (let exact = (\<Sum>(now, p)\<leftarrow>ps. sint (word_of_int now - pk_StartTime p))
       in - (2 ^ 63) \<le> exact \<and> exact < 2 ^ 63 \<longrightarrow> sint (\<Sum>(now, p)\<leftarrow>ps. word_of_int now - pk_StartTime p) = exact)"
proof -
  define ws where "ws = map (\<lambda>(now, p). word_of_int now - pk_StartTime p) ps"
  have ds: "map (\<lambda>(now, p). sint (word_of_int now - pk_StartTime p)) ps = map sint ws" by (auto simp: ws_def)
  obtain n p qs where ps: "ps = (n, p) # qs" using assms(1) by (cases ps) auto
  have "ps_results (record_result n p path s) (test_id path ident) =
      Some \<lparr>pr_id = ident, pr_nodes = path, pr_duration = [sint (word_of_int n - pk_StartTime p)], pr_lastUpdated = n\<rparr>"
    using assms by (simp add: record_result_def Let_def ps)
  from arrivals_more [OF _ this, of qs] assms(2) obtain u where res:
    "ps_results (arrivals ps path s) (test_id path ident) =
       Some \<lparr>pr_id = ident, pr_nodes = path, pr_duration = map sint ws, pr_lastUpdated = u\<rparr>"
    by (auto simp: arrivals_def ps ds [symmetric])
  have len: "length ws = length ps" "ws \<noteq> []" using assms(1) by (simp_all add: ws_def)
  have "total_duration 0 \<lparr>pr_id = ident, pr_nodes = path, pr_duration = map sint ws, pr_lastUpdated = u\<rparr> = sint (sum_list ws)"
    using total_duration_wraps [of ws 0] by (simp add: total_duration_def)
  with res len have "\<exists>t. measure_poll E (int (length ps)) (test_id path ident) (new_result path) fired now (arrivals ps path s) =
      (Some (\<lparr>ms_Status = (if fired then 0 else 1), ms_Protocol = ''pathping'', ms_Path = path,
        ms_Duration = go_quot (sint (sum_list ws)) (int (length ps)), ms_Loss = 0\<rparr>, None), t) \<and>
      ps_results t (test_id path ident) = None"
    by (simp add: measure_poll_def new_result_def Let_def)
  then show ?thesis using sint_sum_exact [of ws] by (simp add: ds Let_def ws_def [symmetric])
qed

theorem measure_mean_witness:
  "\<exists>t. measure_poll mesh_env 2 (test_id [1, 2, 1] 0) (new_result [1, 2, 1]) False 0
      (arrivals [(1100, sample_packet\<lparr>pk_ID := 0\<rparr>), (1301, sample_packet\<lparr>pk_ID := 0\<rparr>)] [1, 2, 1] (mesh_server 1)) =
      (Some (\<lparr>ms_Status = 1, ms_Protocol = ''pathping'', ms_Path = [1, 2, 1], ms_Duration = 200, ms_Loss = 0\<rparr>, None), t) \<and>
      ps_results t (test_id [1, 2, 1] 0) = None"
  using measure_mean [of "[(1100, sample_packet\<lparr>pk_ID := 0\<rparr>), (1301, sample_packet\<lparr>pk_ID := 0\<rparr>)]" 0 "mesh_server 1" "[1, 2, 1]"
      mesh_env False 0]
  by (simp add: mesh_server_def sample_packet_def go_quot_def)

lemma measure_sends_witness:
  "\<exists>sent. send_packets mesh_env (\<lambda>n. mesh_server 1) 0 (\<lambda>n. 0) [1, 2, 1] [0, 0, 0] 65536 = Inr sent \<and> int (length sent) = 0"
proof -
  have "send_packets mesh_env (\<lambda>n. mesh_server 1) 0 (\<lambda>n. 0) [1, 2, 1] [0, 0, 0] 65536 = Inr []"
    by (simp add: send_packets_def to_uint16_def)
  with measure_sends [OF this] show ?thesis by simp
qed

end
