(* ===== verification/Tunables.thy ===== *)
theory Tunables
  imports Kernel "HOL-Library.List_Lexorder" "HOL-Library.Char_ord"
begin

text \<open>
  \<^verbatim>\<open>internal/system/tunables\<close>: the kernel settings of the interfaces. Running \<open>sysctl -w\<close> is the parameter
  \<open>sysctl\<close>, an operation on the state of the kernel; the order of a range over the settings is the parameter \<open>order\<close>.
\<close>

type_synonym 'k sysctl = "string \<Rightarrow> string \<Rightarrow> ('k, unit) proc"
type_synonym settings = "string \<rightharpoonup> string"

text \<open>\<open>strings.Replace(iface, ".", "/", -1)\<close>.\<close>

definition slashed :: "string \<Rightarrow> string" where
  "slashed iface = map (\<lambda>c. if c = CHR ''.'' then CHR ''/'' else c) iface"

definition conf_key :: "string \<Rightarrow> string \<Rightarrow> string \<Rightarrow> string" where
  "conf_key fam iface name = ''net.'' @ fam @ ''.conf.'' @ iface @ ''.'' @ name"

definition interface_sysctls :: "string \<Rightarrow> settings" where
  "interface_sysctls iface =
     [conf_key ''ipv4'' iface ''forwarding'' \<mapsto> ''1'',
      conf_key ''ipv4'' iface ''accept_local'' \<mapsto> ''1'',
      conf_key ''ipv4'' iface ''route_localnet'' \<mapsto> ''1'',
      conf_key ''ipv4'' iface ''rp_filter'' \<mapsto> ''0'',
      conf_key ''ipv6'' iface ''forwarding'' \<mapsto> ''1'',
      conf_key ''ipv6'' iface ''accept_ra'' \<mapsto> (if has_prefix iface ''wg'' then ''0'' else ''2'')]"

definition global_sysctls :: settings where
  "global_sysctls =
     [''net.ipv4.conf.all.accept_local'' \<mapsto> ''1'', ''net.ipv4.conf.all.route_localnet'' \<mapsto> ''1'',
      ''net.ipv4.conf.default.accept_local'' \<mapsto> ''1'', ''net.ipv4.conf.default.route_localnet'' \<mapsto> ''1'',
      ''net.ipv4.conf.all.rp_filter'' \<mapsto> ''0'', ''net.ipv4.conf.default.rp_filter'' \<mapsto> ''0'',
      ''net.ipv6.conf.all.forwarding'' \<mapsto> ''1'']"

definition apply_settings :: "'k sysctl \<Rightarrow> (settings \<Rightarrow> string list) \<Rightarrow> string \<Rightarrow> settings \<Rightarrow> ('k, unit) proc" where
  "apply_settings sysctl order msg m =
     for_each (\<lambda>key u. case m key of None \<Rightarrow> ret () | Some v \<Rightarrow> relabel msg (sysctl key v)) (order m) ()"

definition ConfigureInterface :: "'k sysctl \<Rightarrow> (settings \<Rightarrow> string list) \<Rightarrow> string \<Rightarrow> ('k, unit) proc" where
  "ConfigureInterface sysctl order iface =
     apply_settings sysctl order ''failed to set interface sysctl'' (interface_sysctls (slashed iface))"

definition configureGlobal :: "'k sysctl \<Rightarrow> (settings \<Rightarrow> string list) \<Rightarrow> ('k, unit) proc" where
  "configureGlobal sysctl order = apply_settings sysctl order ''failed to set global sysctl'' global_sysctls"

text \<open>The interfaces are listed twice, once for WireGuard and once for the others.\<close>

definition tunables_Init ::
    "'k sysctl \<Rightarrow> (settings \<Rightarrow> string list) \<Rightarrow> interfaces \<Rightarrow> interfaces \<Rightarrow> ('k, unit) proc" where
  "tunables_Init sysctl order ifs1 ifs2 =
     bind (configureGlobal sysctl order) (\<lambda>u.
     bind (relabel ''failed to get WireGuard interfaces'' (lift_go (GetAllWGInterfaces ifs1))) (\<lambda>wgs.
     bind (for_each (\<lambda>i u. ConfigureInterface sysctl order (wg_Name i)) wgs ()) (\<lambda>u.
     bind (case ifs2 of Inl e \<Rightarrow> throw (Err (Errorf ''failed to get network interfaces'')) | Inr l \<Rightarrow> ret l) (\<lambda>nets.
     bind (for_each (\<lambda>i u. if has_prefix (if_name i) ''en'' then ConfigureInterface sysctl order (if_name i) else ret ()) nets ())
       (\<lambda>u. ConfigureInterface sysctl order ''lo'')))))"

section \<open>What a successful call has set\<close>

text \<open>
  \<open>get k key\<close> is the value of a setting in the kernel state \<open>k\<close>. A successful write of the setting of an interface sets
  it and nothing else. The entries \<open>all\<close> and \<open>default\<close> stand for many interfaces: a write to one of them may
  give the same setting of any of these the value as well, as Linux does for every interface with \<open>net.ipv6.conf.all.forwarding\<close>
  and for the interfaces without a value of their own with the entries of \<open>net.ipv4.conf.default\<close>.
\<close>

fun stands_for :: "string list \<Rightarrow> string list \<Rightarrow> bool" where
  "stands_for [n, fam, c, i, name] [n', fam', c', j, name'] \<longleftrightarrow>
     [n', fam', c', name'] = [n, fam, c, name] \<and> (i = ''all'' \<and> j \<noteq> ''all'' \<or> i = ''default'' \<and> j \<notin> {''all'', ''default''})"
| "stands_for _ _ \<longleftrightarrow> False"

definition spreads :: "string \<Rightarrow> string \<Rightarrow> bool" where
  "spreads key key' \<longleftrightarrow> stands_for (split key CHR ''.'') (split key' CHR ''.'')"

definition sysctl_law :: "'k sysctl \<Rightarrow> ('k \<Rightarrow> string \<Rightarrow> string option) \<Rightarrow> bool" where
  "sysctl_law sysctl get \<longleftrightarrow>
     (\<forall>key v k k'. sysctl key v k = (Inr (), k') \<longrightarrow> get k' key = Some v \<and>
        (\<forall>other. other \<noteq> key \<longrightarrow> get k' other = get k other \<or> spreads key other \<and> get k' other = Some v))"

lemma relabel_eq_Inr [simp]: "relabel msg m s = (Inr v, t) \<longleftrightarrow> m s = (Inr v, t)"
  by (auto simp: relabel_def attempt_def split: prod.splits sum.splits go_fault.splits)

text \<open>Settings that agree wherever one of them stands for another are all made, in any order.\<close>

lemma apply_loop:
  assumes law: "sysctl_law sysctl get" and sub: "set keys \<subseteq> dom m"
    and agree: "\<forall>a\<in>dom m. \<forall>b\<in>dom m. spreads a b \<longrightarrow> m a = m b"
    and run: "for_each (\<lambda>key u. case m key of None \<Rightarrow> ret () | Some v \<Rightarrow> relabel msg (sysctl key v)) keys () k = (Inr (), k')"
  shows "(key \<in> set keys \<longrightarrow> get k' key = m key) \<and>
    (key \<notin> set keys \<longrightarrow> get k' key = get k key \<or> (\<exists>a\<in>set keys. spreads a key \<and> get k' key = m a))"
  using sub run
proof (induction keys arbitrary: k)
  case (Cons a keys)
  then obtain v where v: "m a = Some v" by auto
  from Cons.prems(2) obtain j where j: "sysctl a v k = (Inr (), j)"
    "for_each (\<lambda>key u. case m key of None \<Rightarrow> ret () | Some v \<Rightarrow> relabel msg (sysctl key v)) keys () j = (Inr (), k')"
    by (auto simp: bind_eq_Inr v)
  have at: "get j a = Some v" and others: "key \<noteq> a \<Longrightarrow> get j key = get k key \<or> spreads a key \<and> get j key = Some v"
    using law j(1) by (auto simp: sysctl_law_def)
  note IH = Cons.IH [OF _ j(2)]
  show ?case
  proof (cases "key = a")
    case True
    moreover have "m b = Some v" if "b \<in> set keys" "spreads b a" for b using agree that Cons.prems(1) v by fastforce
    ultimately show ?thesis using IH Cons.prems(1) at v by fastforce
  next
    case False
    with others IH Cons.prems(1) v show ?thesis by auto
  qed
qed simp

lemma apply_settings_ok:
  assumes "sysctl_law sysctl get" "\<forall>a\<in>dom m. \<forall>b\<in>dom m. spreads a b \<longrightarrow> m a = m b"
    and "enumerates (order m) m" "apply_settings sysctl order msg m k = (Inr (), k')"
  shows "m \<subseteq>\<^sub>m get k'" "\<forall>a\<in>dom m. \<forall>key. \<not> spreads a key \<Longrightarrow> get k' = get k ++ m"
proof -
  have keys: "set (order m) = dom m" using assms(3) by (simp add: enumerates_def)
  note loop = apply_loop [OF assms(1) _ assms(2) assms(4) [unfolded apply_settings_def], unfolded keys]
  then show "m \<subseteq>\<^sub>m get k'" by (simp add: map_le_def)
  assume "\<forall>a\<in>dom m. \<forall>key. \<not> spreads a key"
  with loop show "get k' = get k ++ m" by (auto simp: fun_eq_iff map_add_def domIff split: option.splits)
qed

lemma split_conf_key:
  assumes "CHR ''.'' \<notin> set i" "fam = ''ipv4'' \<or> fam = ''ipv6''"
  shows "split (conf_key fam i name) CHR ''.'' = ''net'' # fam # ''conf'' # i # split name CHR ''.''"
proof -
  have "CHR ''.'' \<notin> set ''net''" "CHR ''.'' \<notin> set fam" "CHR ''.'' \<notin> set ''conf''" using assms(2) by auto
  then have "split (''net'' @ CHR ''.'' # fam @ CHR ''.'' # ''conf'' @ CHR ''.'' # i @ CHR ''.'' # name) CHR ''.'' =
      ''net'' # fam # ''conf'' # i # split name CHR ''.''"
    using assms(1) by (simp only: split_append not_False_eq_True)
  then show ?thesis by (simp add: conf_key_def)
qed

lemma slashed_no_dot [simp]: "CHR ''.'' \<notin> set (slashed i)"
  by (auto simp: slashed_def)

lemma stands_for_iface: "stands_for (a # b # c # i # rest) key \<Longrightarrow> i \<in> {''all'', ''default''}"
  by (induction "a # b # c # i # rest" key rule: stands_for.induct) auto

lemma interface_sysctls_alone:
  assumes "slashed i \<notin> {''all'', ''default''}" "a \<in> dom (interface_sysctls (slashed i))"
  shows "\<not> spreads a key"
proof -
  have "\<exists>fam name. (fam = ''ipv4'' \<or> fam = ''ipv6'') \<and> a = conf_key fam (slashed i) name"
    using assms(2) by (auto simp: interface_sysctls_def split: if_splits)
  with assms(1) show ?thesis by (auto simp: spreads_def split_conf_key dest!: stands_for_iface)
qed

lemma ConfigureInterface_ok:
  assumes "sysctl_law sysctl get" "\<forall>m. finite (dom m) \<longrightarrow> enumerates (order m) m"
    "ConfigureInterface sysctl order iface k = (Inr (), k')" "slashed iface \<notin> {''all'', ''default''}"
  shows "get k' = get k ++ interface_sysctls (slashed iface)"
proof -
  note alone = interface_sysctls_alone [OF assms(4)]
  have "enumerates (order (interface_sysctls (slashed iface))) (interface_sysctls (slashed iface))"
    using assms(2) by (simp add: interface_sysctls_def)
  from apply_settings_ok(2) [OF assms(1) _ this assms(3) [unfolded ConfigureInterface_def]] alone show ?thesis by blast
qed

text \<open>The global settings that stand for one another have the same value.\<close>

lemma global_agree: "\<forall>a\<in>dom global_sysctls. \<forall>b\<in>dom global_sysctls. spreads a b \<longrightarrow> global_sysctls a = global_sysctls b"
proof -
  let ?keys = "[''net.ipv4.conf.all.accept_local'', ''net.ipv4.conf.all.route_localnet'', ''net.ipv4.conf.default.accept_local'',
      ''net.ipv4.conf.default.route_localnet'', ''net.ipv4.conf.all.rp_filter'', ''net.ipv4.conf.default.rp_filter'',
      ''net.ipv6.conf.all.forwarding'']"
  have "list_all (\<lambda>a. list_all (\<lambda>b. spreads a b \<longrightarrow> global_sysctls a = global_sysctls b) ?keys) ?keys" by code_simp
  moreover have "dom global_sysctls \<subseteq> set ?keys" by (auto simp: global_sysctls_def split: if_splits)
  ultimately show ?thesis unfolding list_all_iff by blast
qed

section \<open>All interfaces\<close>

definition key_iface :: "string \<Rightarrow> string" where
  "key_iface key = split key CHR ''.'' ! 3"

lemma key_iface_conf:
  assumes "CHR ''.'' \<notin> set i" "fam = ''ipv4'' \<or> fam = ''ipv6''"
  shows "key_iface (conf_key fam i name) = i"
  by (simp add: key_iface_def split_conf_key [OF assms])

lemma dom_interface_sysctls: "CHR ''.'' \<notin> set i \<Longrightarrow> key \<in> dom (interface_sysctls i) \<Longrightarrow> key_iface key = i"
  by (auto simp: interface_sysctls_def key_iface_conf split: if_splits)

lemma dom_global: "key \<in> dom global_sysctls \<Longrightarrow> key_iface key \<in> {''all'', ''default''}"
proof -
  have "list_all (\<lambda>key. key_iface key = ''all'' \<or> key_iface key = ''default'')
     [''net.ipv4.conf.all.accept_local'', ''net.ipv4.conf.all.route_localnet'', ''net.ipv4.conf.default.accept_local'',
      ''net.ipv4.conf.default.route_localnet'', ''net.ipv4.conf.all.rp_filter'', ''net.ipv4.conf.default.rp_filter'',
      ''net.ipv6.conf.all.forwarding'']" by code_simp
  then show "key \<in> dom global_sysctls \<Longrightarrow> ?thesis" by (auto simp: global_sysctls_def split: if_splits)
qed

lemma dom_interface_global: "key \<in> dom (interface_sysctls (slashed i)) \<Longrightarrow> key \<in> dom global_sysctls \<Longrightarrow> slashed i \<in> {''all'', ''default''}"
  using dom_interface_sysctls [OF slashed_no_dot] dom_global by fastforce

text \<open>The interfaces \<open>Init\<close> looks after: none of them is called like a global entry.\<close>

definition looked_after :: "interfaces \<Rightarrow> interfaces \<Rightarrow> string set" where
  "looked_after ifs1 ifs2 =
     {''lo''} \<union> (case GetAllWGInterfaces ifs1 of Inl e \<Rightarrow> {} | Inr wgs \<Rightarrow> wg_Name ` set wgs) \<union>
     (case ifs2 of Inl e \<Rightarrow> {} | Inr l \<Rightarrow> {n \<in> if_name ` set l. has_prefix n ''en''})"

definition holds_for :: "('k \<Rightarrow> string \<Rightarrow> string option) \<Rightarrow> 'k \<Rightarrow> string set \<Rightarrow> bool" where
  "holds_for get k names \<longleftrightarrow> (\<forall>i\<in>names. interface_sysctls (slashed i) \<subseteq>\<^sub>m get k) \<and> global_sysctls \<subseteq>\<^sub>m get k"

lemma map_le_add_agree:
  assumes "m \<subseteq>\<^sub>m g" "\<And>key. key \<in> dom m \<Longrightarrow> key \<in> dom m' \<Longrightarrow> m key = m' key"
  shows "m \<subseteq>\<^sub>m g ++ m'"
  unfolding map_le_def
proof
  fix key assume a: "key \<in> dom m"
  show "m key = (g ++ m') key"
  proof (cases "key \<in> dom m'")
    case True
    then show ?thesis using assms(2) [OF a True] by (auto simp: map_add_def)
  next
    case False
    then show ?thesis using a assms(1) by (auto simp: map_add_def map_le_def domIff)
  qed
qed

lemma configured_more:
  assumes law: "sysctl_law sysctl get" and ord: "\<forall>m. finite (dom m) \<longrightarrow> enumerates (order m) m"
    and run: "ConfigureInterface sysctl order i k = (Inr (), k')" and name: "slashed i \<notin> {''all'', ''default''}"
    and holds: "holds_for get k names"
  shows "holds_for get k' (insert i names)"
proof -
  have g: "get k' = get k ++ interface_sysctls (slashed i)" by (rule ConfigureInterface_ok [OF law ord run name])
  have "interface_sysctls (slashed j) \<subseteq>\<^sub>m get k'" if "j \<in> names" for j
    unfolding g using holds that
    by (intro map_le_add_agree) (auto simp: holds_for_def dest!: dom_interface_sysctls [OF slashed_no_dot])
  moreover have "global_sysctls \<subseteq>\<^sub>m get k'"
    unfolding g using holds name
    by (intro map_le_add_agree) (use dom_interface_global [of _ i] in \<open>auto simp: holds_for_def\<close>)
  ultimately show ?thesis by (simp add: holds_for_def g)
qed

lemma configured_all:
  assumes law: "sysctl_law sysctl get" and ord: "\<forall>m. finite (dom m) \<longrightarrow> enumerates (order m) m"
    and run: "for_each (\<lambda>x u. if sel x then ConfigureInterface sysctl order (f x) else ret ()) xs () k = (Inr (), k')"
    and name: "\<forall>x\<in>set xs. sel x \<longrightarrow> slashed (f x) \<notin> {''all'', ''default''}"
    and holds: "holds_for get k names"
  shows "holds_for get k' (names \<union> {f x |x. x \<in> set xs \<and> sel x})"
  using run name holds
proof (induction xs arbitrary: k names)
  case (Cons x xs)
  obtain j where j: "(if sel x then ConfigureInterface sysctl order (f x) else ret ()) k = (Inr (), j)"
    "for_each (\<lambda>x u. if sel x then ConfigureInterface sysctl order (f x) else ret ()) xs () j = (Inr (), k')"
    using Cons.prems(1) by (auto simp: bind_eq_Inr)
  show ?case
  proof (cases "sel x")
    case True
    then have "holds_for get j (insert (f x) names)"
      using configured_more [OF law ord _ _ Cons.prems(3)] j(1) Cons.prems(2) by simp
    from Cons.IH [OF j(2) _ this] Cons.prems(2) True show ?thesis by (auto elim: back_subst [of "holds_for get k'"])
  next
    case False
    then have "j = k" using j(1) by simp
    with Cons.IH [OF j(2) _, of names] Cons.prems(2,3) False show ?thesis
      by (auto elim: back_subst [of "holds_for get k'"])
  qed
qed simp

lemma slashed_prefix: "has_prefix s p \<Longrightarrow> CHR ''.'' \<notin> set p \<Longrightarrow> has_prefix (slashed s) p"
  by (auto simp: has_prefix_iff slashed_def intro!: map_idI)

lemma ParseWGInterface_name: "ParseWGInterface s = Inr w \<Longrightarrow> wg_Name w = s \<and> has_prefix s ''wg''"
  by (auto simp: ParseWGInterface_def split: if_splits option.splits)

lemma GetAllWGInterfaces_prefix: "GetAllWGInterfaces ifs = Inr wgs \<Longrightarrow> w \<in> set wgs \<Longrightarrow> has_prefix (wg_Name w) ''wg''"
  using ParseWGInterface_name by (fastforce simp: GetAllWGInterfaces_def parsed_wg_def map_filter_def split: sum.splits)

text \<open>
  C25. When \<open>Init\<close> succeeds, every WireGuard interface, every Ethernet interface and the loopback have all their settings,
  and so have the global ones: no setting of one is undone by a later one, in whatever order the ranges over the maps run,
  although writing a global setting may change settings of the interfaces.
\<close>

theorem tunables_Init_ok:
  assumes law: "sysctl_law sysctl get" and ord: "\<forall>m. finite (dom m) \<longrightarrow> enumerates (order m) m"
    and run: "tunables_Init sysctl order ifs1 ifs2 k = (Inr (), k')"
  shows "(\<forall>i \<in> looked_after ifs1 ifs2. interface_sysctls (slashed i) \<subseteq>\<^sub>m get k') \<and> global_sysctls \<subseteq>\<^sub>m get k'"
proof -
  from run obtain k1 k2 k3 wgs l where
    g: "configureGlobal sysctl order k = (Inr (), k1)"
    and w: "GetAllWGInterfaces ifs1 = Inr wgs"
      "for_each (\<lambda>i u. ConfigureInterface sysctl order (wg_Name i)) wgs () k1 = (Inr (), k2)"
    and n: "ifs2 = Inr l"
      "for_each (\<lambda>i u. if has_prefix (if_name i) ''en'' then ConfigureInterface sysctl order (if_name i) else ret ()) l () k2 = (Inr (), k3)"
    and lo: "ConfigureInterface sysctl order ''lo'' k3 = (Inr (), k')"
    by (auto simp: tunables_Init_def bind_eq_Inr split: sum.splits)
  have "enumerates (order global_sysctls) global_sysctls" using ord by (simp add: global_sysctls_def)
  from apply_settings_ok(1) [OF law global_agree this g [unfolded configureGlobal_def]]
  have h1: "holds_for get k1 {}" by (simp add: holds_for_def)
  have wg: "has_prefix (wg_Name i) ''wg''" if "i \<in> set wgs" for i
    by (rule GetAllWGInterfaces_prefix [OF w(1) that])
  have name: "slashed s \<notin> {''all'', ''default''}" if "has_prefix s ''wg'' \<or> has_prefix s ''en''" for s
    using that slashed_prefix [of s "''wg''"] slashed_prefix [of s "''en''"] by (auto simp: has_prefix_def)
  have h2: "holds_for get k2 ({} \<union> {wg_Name i |i. i \<in> set wgs \<and> True})"
    by (rule configured_all [OF law ord _ _ h1]) (use w(2) wg name in auto)
  have h3: "holds_for get k3 ({} \<union> {wg_Name i |i. i \<in> set wgs \<and> True} \<union> {if_name i |i. i \<in> set l \<and> has_prefix (if_name i) ''en''})"
    by (rule configured_all [OF law ord n(2) _ h2]) (use name in auto)
  have "slashed ''lo'' \<notin> {''all'', ''default''}" by (simp add: slashed_def)
  from configured_more [OF law ord lo this h3] show ?thesis
    by (auto simp: holds_for_def looked_after_def w(1) n(1))
qed


text \<open>A kernel that takes every setting, and a setting of \<open>all\<close> or \<open>default\<close> for everything it stands for.\<close>

definition toy_sysctl :: "(string \<Rightarrow> string option) sysctl" where
  "toy_sysctl key v k = (Inr (), \<lambda>other. if other = key \<or> spreads key other then Some v else k other)"

definition toy_order :: "settings \<Rightarrow> string list" where
  "toy_order m = (if finite (dom m) then sorted_list_of_set (dom m) else [])"

lemma toy_order_enumerates: "\<forall>m. finite (dom m) \<longrightarrow> enumerates (toy_order m) m"
  by (simp add: toy_order_def enumerates_def)

lemma toy_total:
  assumes "\<forall>x\<in>set xs. \<forall>k. \<exists>k'. f x () k = (Inr (), k')"
  shows "\<exists>k'. for_each f xs () k = (Inr (), k')"
  using assms
proof (induction xs arbitrary: k)
  case (Cons x xs)
  have "\<exists>j. f x () k = (Inr (), j)" using Cons.prems by simp
  then obtain j where j: "f x () k = (Inr (), j)" by blast
  show ?case using Cons.IH [of j] Cons.prems by (auto simp: bind_def j)
qed simp

lemma toy_settings: "\<exists>k'. apply_settings toy_sysctl order msg m k = (Inr (), k')"
  unfolding apply_settings_def
  by (rule toy_total) (simp add: toy_sysctl_def relabel_def attempt_def split: option.split)

lemma toy_Init:
  assumes "ifs1 = Inr l1" "ifs2 = Inr l2"
  shows "\<exists>k'. tunables_Init toy_sysctl order ifs1 ifs2 k = (Inr (), k')"
proof -
  obtain k1 where k1: "configureGlobal toy_sysctl order k = (Inr (), k1)"
    using toy_settings unfolding configureGlobal_def by blast
  have conf: "\<exists>k'. ConfigureInterface toy_sysctl order i j = (Inr (), k')" for i j
    using toy_settings unfolding ConfigureInterface_def by blast
  obtain k2 where k2: "for_each (\<lambda>i u. ConfigureInterface toy_sysctl order (wg_Name i)) (parsed_wg (wg_names l1)) () k1 = (Inr (), k2)"
    using toy_total [of "parsed_wg (wg_names l1)" "\<lambda>i u. ConfigureInterface toy_sysctl order (wg_Name i)"] conf by blast
  let ?en = "\<lambda>i u. if has_prefix (if_name i) ''en'' then ConfigureInterface toy_sysctl order (if_name i) else ret ()"
  have "\<forall>x\<in>set l2. \<forall>k. \<exists>k'. ?en x () k = (Inr (), k')" using conf by simp
  from toy_total [of l2 ?en, OF this] obtain k3 where k3: "for_each ?en l2 () k2 = (Inr (), k3)" by blast
  show ?thesis using k1 k2 k3 conf [of "''lo''" k3] assms
    by (simp add: tunables_Init_def bind_def GetAllWGInterfaces_def relabel_def attempt_def)
qed

theorem tunables_Init_ok_witness:
  "\<exists>k. tunables_Init toy_sysctl toy_order (Inr []) (Inr [\<lparr>if_name = ''eno1'', if_loopback = False, if_addrs = Inr []\<rparr>]) Map.empty = (Inr (), k) \<and>
     k (conf_key ''ipv4'' ''eno1'' ''forwarding'') = Some ''1''"
proof -
  let ?ifs = "Inr [\<lparr>if_name = ''eno1'', if_loopback = False, if_addrs = Inr []\<rparr>] :: interfaces"
  obtain k where k: "tunables_Init toy_sysctl toy_order (Inr []) ?ifs Map.empty = (Inr (), k)" using toy_Init by blast
  have "sysctl_law toy_sysctl id" by (simp add: sysctl_law_def toy_sysctl_def)
  from tunables_Init_ok [OF this toy_order_enumerates k] have "interface_sysctls (slashed ''eno1'') \<subseteq>\<^sub>m k"
    by (auto simp: looked_after_def has_prefix_def)
  moreover have "slashed ''eno1'' = ''eno1''" by (simp add: slashed_def)
  moreover have "interface_sysctls ''eno1'' (conf_key ''ipv4'' ''eno1'' ''forwarding'') = Some ''1''"
    by (simp add: interface_sysctls_def conf_key_def)
  ultimately have "k (conf_key ''ipv4'' ''eno1'' ''forwarding'') = Some ''1''" by (auto simp: map_le_def dom_def)
  with k show ?thesis by blast
qed

end
