(* ===== verification/Watchdog.thy ===== *)
theory Watchdog
  imports Tunables Sync
begin

text \<open>
  \<^verbatim>\<open>internal/watchdog\<close>: the link watchdog, which keeps the routes between the sites on the preferred interfaces, and the
  route watchdog, which compares the route table with the kernel and with BIRD. The kernel, its files, \<open>netlink\<close>,
  \<open>sysctl\<close> and the hash are parameters. A goroutine that a loop starts runs as one step; sends on the channels of the other
  services are counted.
\<close>

section \<open>State and environment\<close>

text \<open>The routes of this package also set a scope and an address family.\<close>

record link_route = nl_route +
  lr_scope :: int
  lr_family :: int

record 'k wd_env =
  we_net :: env
  we_localID :: int
  we_interfaces :: "'k \<Rightarrow> interfaces"
  we_routefile :: "'k \<Rightarrow> proc_file"
  we_order :: "nat \<Rightarrow> (string \<rightharpoonup> string list) \<Rightarrow> string list"
  we_parse_net :: "string \<Rightarrow> go_error + ipnet"
  we_link :: "string \<Rightarrow> ('k, int) proc"
  we_add :: "link_route \<Rightarrow> ('k, unit) proc"
  we_replace :: "link_route \<Rightarrow> ('k, unit) proc"
  we_sysctl :: "'k sysctl"
  we_sysctl_order :: "settings \<Rightarrow> string list"
  we_nl :: "'k netlink"
  we_dial :: "nat \<Rightarrow> string \<Rightarrow> go_error + string list"
  we_table_order :: "nat \<Rightarrow> (string \<rightharpoonup> kernel_route) \<Rightarrow> string list"
  we_sum64 :: "string \<Rightarrow> 64 word"

record 'k wd_world = world +
  wd_kernel :: 'k
  wd_started :: bool
  wd_rtUpdates :: nat
  wd_measureUpdates :: nat
  wd_routeTable :: route_table
  wd_rtCache :: "string \<rightharpoonup> string option"

definition in_kernel :: "('k, 'a) proc \<Rightarrow> (('k, 'z) wd_world_scheme, 'a) proc" where
  "in_kernel m w = (case m (wd_kernel w) of (r, k) \<Rightarrow> (r, w\<lparr>wd_kernel := k\<rparr>))"

section \<open>link.go\<close>

text \<open>The versions of each remote site, in the order of the interfaces.\<close>

definition remote_versions :: "wg_interface list \<Rightarrow> (string \<rightharpoonup> string list)" where
  "remote_versions ifaces =
     fold (\<lambda>i m. m(wg_RemoteID i \<mapsto> (case m (wg_RemoteID i) of None \<Rightarrow> [] | Some vs \<Rightarrow> vs) @ [wg_IPVersion i])) ifaces Map.empty"

definition timed_out :: "go_error \<Rightarrow> bool" where
  "timed_out e \<longleftrightarrow> errors_is e ctx_canceled \<or> errors_is e ctx_deadline \<or> errors_as_netop e"

definition wg_prefix :: "int \<Rightarrow> string \<Rightarrow> string" where
  "wg_prefix localID remote = ''wg'' @ itoa localID @ ''.'' @ remote @ ''_v''"

text \<open>The two routes of \<open>addWGLinkRoutes\<close> and \<open>changeWGLinkRoutes\<close>, which differ in the operation and the messages.\<close>

definition SCOPE_LINK :: int where "SCOPE_LINK = 253"
definition FAMILY_V6 :: int where "FAMILY_V6 = 10"

definition link_dst4 :: "int \<Rightarrow> string" where
  "link_dst4 remote = ''10.201.'' @ itoa remote @ ''.0/24''"

definition link_dst6 :: "int \<Rightarrow> string" where
  "link_dst6 remote = ''fdac:c9:'' @ (if remote < 0 then CHR ''-'' # hex_of (nat (- remote)) else hex_of (nat remote)) @ ''::/64''"

definition link_route4 :: "int \<Rightarrow> ipnet \<Rightarrow> ip \<Rightarrow> link_route" where
  "link_route4 index dst src =
     \<lparr>nr_dst = Some dst, nr_gw = None, nr_src = Some src, nr_proto = 0, nr_prio = 0, nr_link = index, lr_scope = SCOPE_LINK, lr_family = 0\<rparr>"

definition link_route6 :: "int \<Rightarrow> ipnet \<Rightarrow> link_route" where
  "link_route6 index dst =
     \<lparr>nr_dst = Some dst, nr_gw = None, nr_src = None, nr_proto = 0, nr_prio = 0, nr_link = index, lr_scope = SCOPE_LINK, lr_family = FAMILY_V6\<rparr>"

definition wg_link_routes ::
    "string \<Rightarrow> (link_route \<Rightarrow> ('k, unit) proc) \<Rightarrow> ('k, 'e) wd_env_scheme \<Rightarrow> string \<Rightarrow> (('k, 'z) wd_world_scheme, unit) proc" where
  "wg_link_routes doing act E iface =
     bind (wrap ''error parsing interface'' (lift_go (ParseWGInterface iface))) (\<lambda>wg.
     bind (case atoi (wg_RemoteID wg) of
             None \<Rightarrow> throw (Err (Wrapf ''failed to convert remote ID to int'' (Errorf ''strconv.Atoi'')))
           | Some n \<Rightarrow> ret n) (\<lambda>remoteID.
     bind (wrap ''error getting interface'' (in_kernel (we_link E iface))) (\<lambda>index.
     bind (wrap ''error parsing IPv4 CIDR'' (lift_go (map_sum Err id (we_parse_net E (link_dst4 remoteID))))) (\<lambda>dst4.
     bind (case ParseIP (''10.201.'' @ itoa (we_localID E) @ ''.1'') of
             None \<Rightarrow> throw (Err (Errorf ''error parsing IPv4 source address''))
           | Some s \<Rightarrow> ret s) (\<lambda>src4.
     bind (wrap (doing @ '' IPv4 route'') (in_kernel (act (link_route4 index dst4 src4)))) (\<lambda>u.
     bind (wrap ''error parsing IPv6 CIDR'' (lift_go (map_sum Err id (we_parse_net E (link_dst6 remoteID))))) (\<lambda>dst6.
     wrap (doing @ '' IPv6 route'') (in_kernel (act (link_route6 index dst6))))))))))"

definition addWGLinkRoutes :: "('k, 'e) wd_env_scheme \<Rightarrow> string \<Rightarrow> (('k, 'z) wd_world_scheme, unit) proc" where
  "addWGLinkRoutes E = wg_link_routes ''error adding'' (we_add E) E"

definition changeWGLinkRoutes :: "('k, 'e) wd_env_scheme \<Rightarrow> string \<Rightarrow> (('k, 'z) wd_world_scheme, unit) proc" where
  "changeWGLinkRoutes E = wg_link_routes ''error replacing'' (we_replace E) E"

definition configure_link :: "('k, 'e) wd_env_scheme \<Rightarrow> string \<Rightarrow> (('k, 'z) wd_world_scheme, unit) proc" where
  "configure_link E iface = logged (in_kernel (ConfigureInterface (we_sysctl E) (we_sysctl_order E) iface))"

text \<open>\<open>addRoutes\<close>: the call assigns the version it returns, which is empty with every error.\<close>

definition addRoutes :: "('k, 'e) wd_env_scheme \<Rightarrow> int \<Rightarrow> (('k, 'z) wd_world_scheme, unit) proc" where
  "addRoutes E remoteID =
     bind (attempt (GetPreferredPath (we_net E) (we_localID E) remoteID)
             (\<lambda>r. case r of
                Inr (v, c) \<Rightarrow> ret v
              | Inl e \<Rightarrow> if timed_out e \<or> errors_is e ErrNoPaths then ret []
                         else throw (Err (Errorf ''failed to get preferred interface version''))))
       (\<lambda>version. addWGLinkRoutes E (wg_prefix (we_localID E) (itoa remoteID) @ version))"

definition addLink :: "('k, 'e) wd_env_scheme \<Rightarrow> wg_interface \<Rightarrow> (('k, 'z) wd_world_scheme, unit) proc" where
  "addLink E iface =
     bind (configure_link E (wg_Name iface))
       (\<lambda>u. case atoi (wg_RemoteID iface) of
              None \<Rightarrow> throw (Err (Wrapf ''failed to convert remote ID to int'' (Errorf ''strconv.Atoi'')))
            | Some remoteID \<Rightarrow> addRoutes E remoteID)"

text \<open>The version for a remote site with several: \<open>None\<close> skips the site. The first choice after the start is always 4.\<close>

definition preferred_version :: "('k, 'e) wd_env_scheme \<Rightarrow> string \<Rightarrow> (('k, 'z) wd_world_scheme, string option) proc" where
  "preferred_version E remote =
     (case atoi remote of
        None \<Rightarrow> throw (Err (Errorf ''failed to convert remote ID to int''))
      | Some rID \<Rightarrow>
          bind (attempt (GetPreferredPath (we_net E) (we_localID E) rID)
                  (\<lambda>r. case r of
                     Inr (v, c) \<Rightarrow> ret v
                   | Inl e \<Rightarrow> if timed_out e \<or> errors_is e ErrNoPaths then ret ''4''
                              else throw (Err (Errorf ''failed to get preferred interface version'')))) (\<lambda>version.
          bind (read wd_started) (\<lambda>started.
            if \<not> started then bind (update (\<lambda>w. w\<lparr>wd_started := True\<rparr>)) (\<lambda>u. ret (Some ''4''))
            else ret (if version = [] then None else Some version))))"

definition use_interface ::
    "('k, 'e) wd_env_scheme \<Rightarrow> string \<Rightarrow> string \<Rightarrow> (('k, 'z) wd_world_scheme, unit) proc" where
  "use_interface E remote preferred =
     bind (read (\<lambda>w. GetOutgoingWGInterface (we_routefile E (wd_kernel w)) remote))
       (\<lambda>iface.
          if iface = [] then
            bind (relabel ''failed to add route'' (addWGLinkRoutes E preferred)) (\<lambda>u. configure_link E preferred)
          else if iface \<noteq> preferred then relabel ''failed to change route'' (changeWGLinkRoutes E preferred)
          else ret ())"

definition manage_remote ::
    "('k, 'e) wd_env_scheme \<Rightarrow> (string \<rightharpoonup> string list) \<Rightarrow> string \<Rightarrow> unit \<Rightarrow> (('k, 'z) wd_world_scheme, unit) proc" where
  "manage_remote E m remote u =
     (case m remote of
        None \<Rightarrow> ret ()
      | Some versions \<Rightarrow>
          bind (if 1 < length versions then preferred_version E remote
                else bind (lift_go (go_index versions 0)) (\<lambda>v. ret (Some v)))
            (\<lambda>version. case version of
               None \<Rightarrow> ret ()
             | Some v \<Rightarrow> use_interface E remote (wg_prefix (we_localID E) remote @ v)))"

text \<open>The result \<open>updated\<close> is declared and returned, and never set.\<close>

definition manageLink :: "('k, 'e) wd_env_scheme \<Rightarrow> (('k, 'z) wd_world_scheme, bool) proc" where
  "manageLink E =
     bind (relabel ''failed to get WireGuard interfaces'' (bind (read (\<lambda>w. GetAllWGInterfaces (we_interfaces E (wd_kernel w)))) lift_go))
       (\<lambda>ifaces. bind next_tick
         (\<lambda>n. bind (for_each (manage_remote E (remote_versions ifaces)) (we_order E n (remote_versions ifaces)) ())
           (\<lambda>u. ret False)))"

datatype link_event = LinkTick | LinkNew wg_interface | LinkStop

definition link_step :: "('k, 'e) wd_env_scheme \<Rightarrow> link_event \<Rightarrow> (('k, 'z) wd_world_scheme, bool) proc" where
  "link_step E ev =
     (case ev of
        LinkTick \<Rightarrow>
          attempt (manageLink E)
            (\<lambda>r. case r of
               Inr updated \<Rightarrow> bind (if updated then update (\<lambda>w. w\<lparr>wd_rtUpdates := Suc (wd_rtUpdates w)\<rparr>) else ret ()) (\<lambda>u. ret True)
             | Inl e \<Rightarrow> ret True)
      | LinkNew iface \<Rightarrow>
          bind (logged (addLink E iface)) (\<lambda>u.
          bind (update (\<lambda>w. w\<lparr>wd_measureUpdates := Suc (wd_measureUpdates w)\<rparr>)) (\<lambda>u.
          bind (update (\<lambda>w. w\<lparr>wd_rtUpdates := Suc (wd_rtUpdates w)\<rparr>)) (\<lambda>u. ret True)))
      | LinkStop \<Rightarrow> ret False)"

section \<open>route.go\<close>

definition whitelistedRouteDev :: "string list" where
  "whitelistedRouteDev = [''cilium'']"

definition gw_string :: "ip option \<Rightarrow> string" where
  "gw_string g = (case g of None \<Rightarrow> ''<nil>'' | Some a \<Rightarrow> ip_string a)"

definition alignment_key :: "ipnet option \<Rightarrow> ip option \<Rightarrow> string" where
  "alignment_key d g = dst_string d @ ''_'' @ gw_string g"

text \<open>Whether one of the whitelisted devices has the route; a failed check counts as no.\<close>

fun managed_by_others :: "('k, 'e) wd_env_scheme \<Rightarrow> ipnet option \<Rightarrow> string list \<Rightarrow> (('k, 'z) wd_world_scheme, bool) proc" where
  "managed_by_others E d [] = ret False"
| "managed_by_others E d (wlD # rest) =
     attempt (in_kernel (RouteDeviceHasPrefix (we_nl E) d wlD 0))
       (\<lambda>r. case r of Inr True \<Rightarrow> ret True | _ \<Rightarrow> managed_by_others E d rest)"

fun misaligned :: "('k, 'e) wd_env_scheme \<Rightarrow> string list \<Rightarrow> kernel_route list \<Rightarrow> (('k, 'z) wd_world_scheme, bool) proc" where
  "misaligned E keys [] = ret False"
| "misaligned E keys (r # rest) =
     (if alignment_key (kr_Destination r) (kr_Gateway r) \<in> set keys then misaligned E keys rest
      else bind (managed_by_others E (kr_Destination r) whitelistedRouteDev)
             (\<lambda>others. if others then misaligned E keys rest else ret True))"

definition checkSystemRTAlignment :: "('k, 'e) wd_env_scheme \<Rightarrow> (('k, 'z) wd_world_scheme, bool) proc" where
  "checkSystemRTAlignment E =
     attempt (in_kernel (ListManagedRoutes (we_nl E) CustomRouteProtocol))
       (\<lambda>r. case r of
          Inl e \<Rightarrow> ret False
        | Inr routes \<Rightarrow>
            bind next_tick (\<lambda>n.
            bind (read (\<lambda>w. GetRoutes (we_table_order E n (rt_routeMap (wd_routeTable w))) (wd_routeTable w)))
              (misaligned E (map (\<lambda>r. alignment_key (nr_dst r) (nr_gw r)) routes))))"

text \<open>A hash is the bytes written to it, \<open>None\<close> the nil that comes with an error; \<open>Sum64\<close> of nil panics.\<close>

definition Sum64 :: "('k, 'e) wd_env_scheme \<Rightarrow> string option \<Rightarrow> (('k, 'z) wd_world_scheme, 64 word) proc" where
  "Sum64 E h = (case h of None \<Rightarrow> throw (Panic NilDereference) | Some b \<Rightarrow> ret (we_sum64 E b))"

definition router_step :: "('k, 'e) wd_env_scheme \<Rightarrow> string \<Rightarrow> bool \<Rightarrow> (('k, 'z) wd_world_scheme, bool) proc" where
  "router_step E mode needUpdate =
     bind next_tick (\<lambda>n.
     bind (attempt (lift_go (bird_GetRoutes (we_dial E n) mode))
             (\<lambda>r. case r of Inl e \<Rightarrow> ret None | Inr (rs, h) \<Rightarrow> ret (Some h))) (\<lambda>h.
     bind (read (\<lambda>w. wd_rtCache w mode)) (\<lambda>known. case known of
       None \<Rightarrow> bind (update (\<lambda>w. w\<lparr>wd_rtCache := (wd_rtCache w)(mode \<mapsto> h)\<rparr>)) (\<lambda>u. ret needUpdate)
     | Some old \<Rightarrow>
         bind (Sum64 E old) (\<lambda>a. bind (Sum64 E h) (\<lambda>b.
           if a \<noteq> b then bind (update (\<lambda>w. w\<lparr>wd_rtCache := (wd_rtCache w)(mode \<mapsto> h)\<rparr>)) (\<lambda>u. ret True)
           else ret needUpdate)))))"

definition checkRouterChanges :: "('k, 'e) wd_env_scheme \<Rightarrow> (('k, 'z) wd_world_scheme, bool) proc" where
  "checkRouterChanges E = for_each (router_step E) [''v4'', ''v6''] False"

text \<open>One tick of the loop of \<open>Start\<close>, which runs once the table is ready; the second check is skipped when the first is true.\<close>

definition route_tick :: "('k, 'e) wd_env_scheme \<Rightarrow> (('k, 'z) wd_world_scheme, unit) proc" where
  "route_tick E =
     bind (checkSystemRTAlignment E) (\<lambda>a.
     bind (if a then ret True else checkRouterChanges E) (\<lambda>needUpdate.
     if needUpdate then update (\<lambda>w. w\<lparr>wd_rtUpdates := Suc (wd_rtUpdates w)\<rparr>) else ret ()))"

section \<open>watchdog.go\<close>

definition NewLinkWatchdog :: "('k, 'z) wd_world_scheme \<Rightarrow> ('k, 'z) wd_world_scheme" where
  "NewLinkWatchdog w = w\<lparr>wd_started := False\<rparr>"

definition NewRouteWatchdog :: "route_table \<Rightarrow> ('k, 'z) wd_world_scheme \<Rightarrow> ('k, 'z) wd_world_scheme" where
  "NewRouteWatchdog rt w = w\<lparr>wd_routeTable := rt, wd_rtCache := Map.empty\<rparr>"

definition NewWatchdog :: "route_table \<Rightarrow> ('k, 'z) wd_world_scheme \<Rightarrow> ('k, 'z) wd_world_scheme" where
  "NewWatchdog rt w = NewRouteWatchdog rt (NewLinkWatchdog w)"


section \<open>The route watchdog\<close>

lemma in_kernel_run: "in_kernel m w = (r, w') \<longleftrightarrow> (\<exists>k. m (wd_kernel w) = (r, k) \<and> w' = w\<lparr>wd_kernel := k\<rparr>)"
  by (auto simp: in_kernel_def split: prod.splits)

lemma misaligned_none:
  assumes "\<forall>r\<in>set rs. alignment_key (kr_Destination r) (kr_Gateway r) \<in> set keys"
  shows "misaligned E keys rs w = (Inr False, w)"
  using assms by (induction rs) auto

lemma list_managed_total:
  assumes "kernel_laws nl R prio0" "ListManagedRoutes nl p k = (x, k')"
  shows "R k' = R k \<and> no_panic x \<and> (\<forall>l. x = Inr l \<longrightarrow> set l = {r \<in> R k. nr_proto r = p})"
proof -
  obtain y where y: "nl_list_proto nl p k = (y, k')" "x = (case y of Inl (Err e) \<Rightarrow> Inl (Err (Errorf ''failed to list routes'')) | _ \<Rightarrow> y)"
    using assms(2) unfolding ListManagedRoutes_def relabel_cases by blast
  have "no_panic y \<and> R k' = R k \<and> (\<forall>l. y = Inr l \<longrightarrow> set l = {r \<in> R k. nr_proto r = p})"
    using assms(1) y(1) unfolding kernel_laws_def list_proto_law_def by blast
  then show ?thesis using y(2) by (auto simp: no_panic_def split: sum.splits go_fault.splits)
qed

abbreviation table_now :: "('k, 'e) wd_env_scheme \<Rightarrow> ('k, 'z) wd_world_scheme \<Rightarrow> kernel_route list" where
  "table_now E w \<equiv> GetRoutes (we_table_order E (ticks w) (rt_routeMap (wd_routeTable w))) (wd_routeTable w)"

lemma check_run:
  assumes "ListManagedRoutes (we_nl E) CustomRouteProtocol (wd_kernel w) = (Inr routes, k)"
  shows "checkSystemRTAlignment E w =
    misaligned E (map (\<lambda>r. alignment_key (nr_dst r) (nr_gw r)) routes) (table_now E w) (w\<lparr>wd_kernel := k, ticks := Suc (ticks w)\<rparr>)"
  by (simp only: checkSystemRTAlignment_def attempt_def in_kernel_def assms bind_def next_tick_def read_def prod.case sum.case)
    simp

lemma aligned:
  assumes laws: "kernel_laws (we_nl E) R prio0"
    and order: "enumerates (we_table_order E (ticks w) (rt_routeMap (wd_routeTable w))) (rt_routeMap (wd_routeTable w))"
    and pres: "\<forall>r\<in>ran (rt_routeMap (wd_routeTable w)). \<exists>x\<in>R (wd_kernel w). nr_proto x = CustomRouteProtocol \<and>
      nr_dst x = kr_Destination r \<and> nr_gw x = kr_Gateway r"
  shows "fst (checkSystemRTAlignment E w) = Inr False"
proof -
  obtain x k where l: "ListManagedRoutes (we_nl E) CustomRouteProtocol (wd_kernel w) = (x, k)" by force
  note t = list_managed_total [OF laws l]
  show ?thesis
  proof (cases x)
    case (Inl f)
    then show ?thesis using t l
      by (cases f) (simp_all add: checkSystemRTAlignment_def attempt_def in_kernel_def)
  next
    case (Inr routes)
    let ?rs = "GetRoutes (we_table_order E (ticks w) (rt_routeMap (wd_routeTable w))) (wd_routeTable w)"
    have "set ?rs = ran (rt_routeMap (wd_routeTable w))" by (rule GetRoutes_set [OF order])
    have keys: "\<forall>r\<in>set ?rs. alignment_key (kr_Destination r) (kr_Gateway r) \<in> set (map (\<lambda>r. alignment_key (nr_dst r) (nr_gw r)) routes)"
    proof (intro ballI)
      fix r assume "r \<in> set ?rs"
      with \<open>set ?rs = _\<close> pres obtain x where x: "x \<in> R (wd_kernel w)" "nr_proto x = CustomRouteProtocol"
        "nr_dst x = kr_Destination r" "nr_gw x = kr_Gateway r" by blast
      then have "x \<in> set routes" using t Inr by blast
      then show "alignment_key (kr_Destination r) (kr_Gateway r) \<in> set (map (\<lambda>r. alignment_key (nr_dst r) (nr_gw r)) routes)"
        using x(3,4) by force
    qed
    show ?thesis unfolding check_run [OF l [unfolded Inr]] misaligned_none [OF keys] by simp
  qed
qed

text \<open>
  C22. The two services agree: right after a successful \<open>SyncRouteTable\<close> the check of the route watchdog finds nothing
  missing, so that a synchronisation never triggers the next one.
\<close>

theorem sync_then_aligned:
  fixes v' :: "('k, 'z) rm_world_scheme" and w :: "('k, 'y) wd_world_scheme"
  assumes run: "SyncRouteTable M v = (Inr (), v')" and laws: "kernel_laws (re_nl M) R prio0" and order: "orders_table M"
    and ok: "manager_ok R prio0 v"
    and same: "we_nl E = re_nl M" "wd_kernel w = rm_kernel v'" "wd_routeTable w = rm_RouteTable v'" "we_table_order E = re_order M"
  shows "fst (checkSystemRTAlignment E w) = Inr False"
proof (rule aligned)
  from sync_kernel [OF run laws order ok]
  have t: "table_ok (rm_RouteTable v')" and r: "\<And>d. wf_net d \<Longrightarrow> routes_at R (rm_kernel v') d = wanted v' d"
    by (auto simp: manager_ok_def)
  show "kernel_laws (we_nl E) R prio0" using laws same by simp
  show "enumerates (we_table_order E (ticks w) (rt_routeMap (wd_routeTable w))) (rt_routeMap (wd_routeTable w))"
    using order t same by (simp add: orders_table_def table_ok_def)
  show "\<forall>r\<in>ran (rt_routeMap (wd_routeTable w)). \<exists>x\<in>R (wd_kernel w). nr_proto x = CustomRouteProtocol \<and>
      nr_dst x = kr_Destination r \<and> nr_gw x = kr_Gateway r"
  proof
    fix x assume "x \<in> ran (rt_routeMap (wd_routeTable w))"
    then have x: "x \<in> ran (rt_routeMap (rm_RouteTable v'))" using same by simp
    then obtain d where d: "kr_Destination x = Some d" "wf_net d" using t by (auto simp: table_ok_def wf_dst_def)
    have "rt_routeMap (rm_RouteTable v') (ipnet_string d) = Some x" using table_key [OF t x] d by (simp add: dst_string_def)
    then have "(kr_Gateway x, source_for v' d) \<in> routes_at R (rm_kernel v') d" using r [OF d(2)] by (simp add: wanted_def)
    then show "\<exists>y\<in>R (wd_kernel w). nr_proto y = CustomRouteProtocol \<and> nr_dst y = kr_Destination x \<and> nr_gw y = kr_Gateway x"
      using d same by (auto simp: managed_def)
  qed
qed

definition cilium_has :: "('k, 'e) wd_env_scheme \<Rightarrow> 'k \<Rightarrow> ipnet option \<Rightarrow> bool" where
  "cilium_has E k d = (case fst (RouteDeviceHasPrefix (we_nl E) d ''cilium'' 0 k) of Inr b \<Rightarrow> b | Inl e \<Rightarrow> False)"

text \<open>The reading operations leave the kernel as it is and do not panic.\<close>

definition reads_only :: "('k, 'e) wd_env_scheme \<Rightarrow> bool" where
  "reads_only E \<longleftrightarrow> (\<forall>p k. snd (ListManagedRoutes (we_nl E) p k) = k) \<and>
     (\<forall>d k. snd (RouteDeviceHasPrefix (we_nl E) d ''cilium'' 0 k) = k \<and> no_panic (fst (RouteDeviceHasPrefix (we_nl E) d ''cilium'' 0 k)))"

lemma managed_by_others_run:
  assumes "reads_only E"
  shows "managed_by_others E d whitelistedRouteDev w = (Inr (cilium_has E (wd_kernel w) d), w)"
proof -
  obtain x k where x: "RouteDeviceHasPrefix (we_nl E) d ''cilium'' 0 (wd_kernel w) = (x, k)" by force
  from assms have "k = wd_kernel w \<and> no_panic x" using x by (auto simp: reads_only_def dest!: spec [of _ d] spec [of _ "wd_kernel w"])
  then show ?thesis
    by (auto simp: whitelistedRouteDev_def attempt_def in_kernel_def x cilium_has_def no_panic_def split: sum.splits go_fault.splits bool.splits)
qed

lemma misaligned_run:
  assumes "reads_only E"
  shows "misaligned E keys rs w =
    (Inr (\<exists>r\<in>set rs. alignment_key (kr_Destination r) (kr_Gateway r) \<notin> set keys \<and> \<not> cilium_has E (wd_kernel w) (kr_Destination r)), w)"
  by (induction rs) (auto simp: bind_def managed_by_others_run [OF assms])

text \<open>
  C23. A missing route is found: when the routes can be listed and some route of the table has no managed route with its
  texts in the kernel, and no whitelisted device has it, the check asks for an update.
\<close>

theorem checkSystemRTAlignment_exact:
  assumes "reads_only E" "fst (ListManagedRoutes (we_nl E) CustomRouteProtocol (wd_kernel w)) = Inr routes"
    "enumerates (we_table_order E (ticks w) (rt_routeMap (wd_routeTable w))) (rt_routeMap (wd_routeTable w))"
  shows "checkSystemRTAlignment E w =
    (Inr (\<exists>r\<in>ran (rt_routeMap (wd_routeTable w)).
        (\<forall>x\<in>set routes. alignment_key (nr_dst x) (nr_gw x) \<noteq> alignment_key (kr_Destination r) (kr_Gateway r)) \<and>
        \<not> cilium_has E (wd_kernel w) (kr_Destination r)), w\<lparr>ticks := Suc (ticks w)\<rparr>)"
proof -
  have l: "ListManagedRoutes (we_nl E) CustomRouteProtocol (wd_kernel w) = (Inr routes, wd_kernel w)"
    using assms(1,2) by (metis reads_only_def prod.collapse)
  show ?thesis
    unfolding check_run [OF l] misaligned_run [OF assms(1)] GetRoutes_set [OF assms(3)] by (simp add: image_iff) metis
qed


lemma router_step_cached:
  "wd_rtCache w mode = Some None \<Longrightarrow> \<exists>x. fst (router_step E mode b w) = Inl (Panic x)"
proof -
  assume c: "wd_rtCache w mode = Some None"
  show ?thesis
    by (cases "bird_GetRoutes (we_dial E (ticks w)) mode" rule: sum.exhaust [case_names Inl Inr]; cases "projl (bird_GetRoutes (we_dial E (ticks w)) mode)")
      (auto simp: router_step_def bind_def next_tick_def attempt_def read_def c Sum64_def split: prod.splits)
qed

lemma router_step_error:
  assumes "bird_GetRoutes (we_dial E (ticks w)) mode = Inl (Err e)"
  shows "router_step E mode b w =
    (case wd_rtCache w mode of
       None \<Rightarrow> (Inr b, w\<lparr>ticks := Suc (ticks w), wd_rtCache := (wd_rtCache w)(mode \<mapsto> None)\<rparr>)
     | Some h \<Rightarrow> (Inl (Panic NilDereference), w\<lparr>ticks := Suc (ticks w)\<rparr>))"
  using assms
  by (auto simp: router_step_def bind_def next_tick_def attempt_def read_def update_def Sum64_def split: option.splits)

lemma router_step_keeps:
  "snd (router_step E mode b w) = w' \<Longrightarrow> mode' \<noteq> mode \<Longrightarrow> wd_rtCache w' mode' = wd_rtCache w mode'"
  by (auto simp: router_step_def bind_def next_tick_def attempt_def read_def update_def Sum64_def
      split: option.splits sum.splits go_fault.splits prod.splits if_splits)

lemma router_step_ticks: "ticks (snd (router_step E mode b w)) = Suc (ticks w)"
  by (auto simp: router_step_def bind_def next_tick_def attempt_def read_def update_def Sum64_def
      split: option.splits sum.splits go_fault.splits prod.splits if_splits)

lemma router_step_fault: "fst (router_step E mode b w) = Inl y \<Longrightarrow> \<exists>x. y = Panic x"
  by (auto simp: router_step_def bind_def next_tick_def attempt_def read_def update_def Sum64_def
      split: option.splits sum.splits go_fault.splits prod.splits if_splits)

lemma check_first:
  "fst (router_step E ''v4'' False w) = Inl (Panic x) \<Longrightarrow> fst (checkRouterChanges E w) = Inl (Panic x)"
  by (auto simp: checkRouterChanges_def bind_def split: prod.splits sum.splits)

lemma check_second:
  "router_step E ''v4'' False w = (Inr b, w1) \<Longrightarrow> checkRouterChanges E w = router_step E ''v6'' b w1"
  by (auto simp: checkRouterChanges_def bind_def split: prod.splits sum.splits)

text \<open>A nil hash in the cache of either mode makes a check panic, whatever BIRD answers.\<close>

lemma nil_cached_panics:
  assumes "wd_rtCache w mode = Some None" "mode = ''v4'' \<or> mode = ''v6''"
  shows "\<exists>x. fst (checkRouterChanges E w) = Inl (Panic x)"
proof (cases "router_step E ''v4'' False w")
  case (Pair r w1)
  show ?thesis
  proof (cases r)
    case (Inl y)
    with Pair router_step_fault [of E "''v4''" False w y] check_first show ?thesis by (metis fst_conv)
  next
    case (Inr b)
    with Pair assms router_step_cached [of w "''v4''" E False] have mode: "mode = ''v6''" by auto
    from router_step_keeps [of E "''v4''" False w w1 "''v6''"] Pair assms(1) mode
    have "wd_rtCache w1 ''v6'' = Some None" by simp
    from router_step_cached [OF this] check_second [OF Pair [unfolded Inr]] show ?thesis by simp
  qed
qed

text \<open>
  C24. A failing BIRD crashes the daemon. When the query of either mode fails with an error, which is logged, its nil hash is
  used: if the cache of the mode is filled the check panics; if not, nil is cached, and unless this check panics already (in
  the other mode) the next one does, whatever BIRD answers then.
\<close>

theorem bird_failure_crashes:
  fixes E :: "('k, 'e) wd_env_scheme" and w :: "('k, 'z) wd_world_scheme"
  assumes "bird_GetRoutes (we_dial E n) mode = Inl (Err e)" "(mode, n) \<in> {(''v4'', ticks w), (''v6'', Suc (ticks w))}"
  shows "(\<exists>x. fst (checkRouterChanges E w) = Inl (Panic x)) \<or> wd_rtCache w mode = None \<and>
    (\<forall>(E' :: ('k, 'e) wd_env_scheme) (w' :: ('k, 'z) wd_world_scheme). wd_rtCache w' = wd_rtCache (snd (checkRouterChanges E w)) \<longrightarrow>
       (\<exists>x. fst (checkRouterChanges E' w') = Inl (Panic x)))"
proof (cases "\<exists>x. fst (checkRouterChanges E w) = Inl (Panic x)")
  case False
  obtain r w1 where first: "router_step E ''v4'' False w = (r, w1)" by force
  with False obtain b where r: "r = Inr b"
    using router_step_fault [of E "''v4''" False w] check_first by (cases r) fastforce+
  note second = check_second [OF first [unfolded r]]
  have w1: "ticks w1 = Suc (ticks w)" using router_step_ticks [of E "''v4''" False w] first by simp
  have kept: "wd_rtCache w1 ''v6'' = wd_rtCache w ''v6''" using router_step_keeps [of E "''v4''" False w w1 "''v6''"] first by simp
  have "wd_rtCache w mode = None \<and> wd_rtCache (snd (checkRouterChanges E w)) mode = Some None"
  proof (cases "mode = ''v4''")
    case True
    with assms have "bird_GetRoutes (we_dial E (ticks w)) ''v4'' = Inl (Err e)" by simp
    note step = router_step_error [OF this, of False]
    from step first r have "wd_rtCache w ''v4'' = None" "wd_rtCache w1 ''v4'' = Some None" by (auto split: option.splits)
    with True second router_step_keeps [of E "''v6''" b w1 _ "''v4''"] show ?thesis by simp
  next
    case False
    with assms w1 have m: "mode = ''v6''" "bird_GetRoutes (we_dial E (ticks w1)) ''v6'' = Inl (Err e)" by auto
    note step = router_step_error [OF m(2), of b]
    from step second \<open>\<nexists>x. _\<close> have "wd_rtCache w1 ''v6'' = None" by (auto split: option.splits)
    with step second kept m(1) show ?thesis by simp
  qed
  then have "\<exists>x. fst (checkRouterChanges E' w') = Inl (Panic x)"
    if "wd_rtCache w' = wd_rtCache (snd (checkRouterChanges E w))" for E' :: "('k, 'e) wd_env_scheme" and w' :: "('k, 'z) wd_world_scheme"
    using nil_cached_panics [of w' mode E'] that assms(2) by auto
  with \<open>wd_rtCache w mode = None \<and> _\<close> show ?thesis by blast
qed simp

section \<open>The link watchdog\<close>

lemma last_drop_ne: "drop n xs \<noteq> [] \<Longrightarrow> last (drop n xs) = last xs"
  by (simp add: last_drop)

lemma last_dropWhile_ne: "dropWhile P xs \<noteq> [] \<Longrightarrow> last (dropWhile P xs) = last xs"
proof (induction xs)
  case (Cons x xs)
  then show ?case by (cases "xs = []") auto
qed simp

lemma wg_match_last:
  assumes "wg_match s = Some (a, b, c)"
  shows "is_digit (last s)"
proof -
  define s1 where "s1 = dropWhile is_digit (drop 2 s)"
  define s3 where "s3 = drop 1 s1"
  have c: "c = drop 2 (dropWhile is_digit s3)" "c \<noteq> []" "list_all is_digit c"
    using assms by (auto simp: wg_match_def Let_def s3_def s1_def split: if_splits)
  have ne: "dropWhile is_digit s3 \<noteq> []" using c(1,2) by (metis drop_Nil)
  then have ne3: "s3 \<noteq> []" by (metis dropWhile.simps(1))
  then have ne1: "s1 \<noteq> []" unfolding s3_def by (metis drop_Nil)
  then have ne0: "drop 2 s \<noteq> []" unfolding s1_def by (metis dropWhile.simps(1))
  have "last c = last (dropWhile is_digit s3)" unfolding c(1) by (rule last_drop_ne) (use c in simp)
  also have "\<dots> = last s3" by (rule last_dropWhile_ne [OF ne])
  also have "\<dots> = last s1" unfolding s3_def by (rule last_drop_ne) (use ne3 s3_def in simp)
  also have "\<dots> = last (drop 2 s)" unfolding s1_def by (rule last_dropWhile_ne) (use ne1 s1_def in simp)
  also have "\<dots> = last s" by (rule last_drop_ne [OF ne0])
  finally have "last c = last s" .
  moreover have "is_digit (last c)" using c(2,3) by (simp add: list_all_iff)
  ultimately show ?thesis by simp
qed

lemma no_version: "\<exists>m. ParseWGInterface (wg_prefix l r) = Inl (Err m)"
proof -
  have "last (wg_prefix l r) = CHR ''v''" by (simp add: wg_prefix_def)
  then have "wg_match (wg_prefix l r) = None" using wg_match_last [of "wg_prefix l r"] by (cases "wg_match (wg_prefix l r)") (auto simp: is_digit_def)
  then show ?thesis by (simp add: ParseWGInterface_def)
qed

text \<open>
  The fallback of \<open>addRoutes\<close> is lost: the call that fails also overwrites the default version with its empty result.
  When the preferred path cannot be found the logs announce version 4, but the name of the interface has no version, and no
  route is added.
\<close>

lemma addRoutes_no_fallback:
  assumes "GetPreferredPath (we_net E) (we_localID E) remoteID w = (Inl (Err e), w')" "timed_out e \<or> errors_is e ErrNoPaths"
  shows "\<exists>m. addRoutes E remoteID w = (Inl (Err (Wrapf ''error parsing interface'' m)), w')"
proof -
  obtain m where "ParseWGInterface (wg_prefix (we_localID E) (itoa remoteID)) = Inl (Err m)" using no_version by blast
  then have "addWGLinkRoutes E (wg_prefix (we_localID E) (itoa remoteID)) w' = (Inl (Err (Wrapf ''error parsing interface'' m)), w')"
    by (simp add: addWGLinkRoutes_def wg_link_routes_def bind_def wrap_def)
  then show ?thesis using assms by (auto simp: addRoutes_def bind_def attempt_def)
qed

section \<open>Sample runs\<close>

definition toy_wd :: "nl_route list wd_env" where
  "toy_wd =
     \<lparr>we_net = \<lparr>clock = (\<lambda>n. 0), http_get = (\<lambda>n r. TransportError ctx_deadline), version_order = (\<lambda>n. [])\<rparr>, we_localID = 1,
      we_interfaces = (\<lambda>k. Inr []), we_routefile = (\<lambda>k. Inl (Errorf ''no file'')), we_order = (\<lambda>n m. []),
      we_parse_net = (\<lambda>s. Inl (Errorf ''no network'')), we_link = (\<lambda>s k. (Inr 1, k)), we_add = (\<lambda>r k. (Inr (), k)),
      we_replace = (\<lambda>r k. (Inr (), k)), we_sysctl = (\<lambda>key v k. (Inr (), k)), we_sysctl_order = (\<lambda>m. []), we_nl = toy_nl,
      we_dial = (\<lambda>n s. Inl (NetOp ''dial'')), we_table_order = re_order toy_env, we_sum64 = (\<lambda>b. of_nat (length b))\<rparr>"

definition toy_wd_world :: "nl_route list \<Rightarrow> route_table \<Rightarrow> nl_route list wd_world" where
  "toy_wd_world k rt = \<lparr>ticks = 0, wd_kernel = k, wd_started = False, wd_rtUpdates = 0, wd_measureUpdates = 0, wd_routeTable = rt,
     wd_rtCache = Map.empty\<rparr>"

theorem sync_then_aligned_witness:
  "\<exists>v'. SyncRouteTable toy_env toy_world = (Inr (), v') \<and>
     fst (checkSystemRTAlignment toy_wd (toy_wd_world (rm_kernel v') (rm_RouteTable v'))) = Inr False"
proof -
  obtain v' where run: "SyncRouteTable toy_env toy_world = (Inr (), v')" using toy_run by blast
  have "fst (checkSystemRTAlignment toy_wd (toy_wd_world (rm_kernel v') (rm_RouteTable v'))) = Inr False"
    by (rule sync_then_aligned [OF run toy_laws [folded toy_env_nl] toy_orders toy_ok])
      (simp_all add: toy_wd_def toy_wd_world_def toy_env_nl)
  with run show ?thesis by blast
qed

lemma toy_reads_only: "reads_only toy_wd"
proof -
  have step: "has_prefix_step toy_nl ''cilium'' 0 rs k = (Inr False, k)" for rs :: "nl_route list" and k
    by (induction rs) (auto simp: attempt_def toy_nl_def has_prefix_def)
  have nl: "we_nl toy_wd = toy_nl" by (simp add: toy_wd_def)
  have "snd (ListManagedRoutes toy_nl p k) = k" for p k
    by (simp add: ListManagedRoutes_def relabel_def attempt_def toy_nl_def)
  moreover have "snd (RouteDeviceHasPrefix toy_nl d ''cilium'' 0 k) = k \<and> no_panic (fst (RouteDeviceHasPrefix toy_nl d ''cilium'' 0 k))"
    for d k
  proof -
    have l: "nl_list_dst toy_nl n k = (Inr (filter (\<lambda>x. nr_dst x = Some n) k), k)" for n by (simp add: toy_nl_def)
    show ?thesis by (cases d) (simp_all add: RouteDeviceHasPrefix_def relabel_def attempt_def bind_def l step)
  qed
  ultimately show ?thesis by (simp add: reads_only_def nl)
qed

theorem checkSystemRTAlignment_exact_witness:
  "fst (checkSystemRTAlignment toy_wd (toy_wd_world [] toy_table)) = Inr True"
proof -
  let ?w = "toy_wd_world [] toy_table"
  have "fst (ListManagedRoutes (we_nl toy_wd) CustomRouteProtocol (wd_kernel ?w)) = Inr []"
    by (simp add: ListManagedRoutes_def relabel_def attempt_def toy_nl_def toy_wd_def toy_wd_world_def)
  moreover have "enumerates (we_table_order toy_wd (ticks ?w) (rt_routeMap (wd_routeTable ?w))) (rt_routeMap (wd_routeTable ?w))"
    by (simp add: toy_wd_def toy_env_def toy_wd_world_def enumerates_def toy_table_def AddRoute_def ClearRoutes_def)
  moreover have "\<not> cilium_has toy_wd (wd_kernel ?w) d" for d
    by (cases d) (simp_all add: cilium_has_def RouteDeviceHasPrefix_def relabel_def attempt_def bind_def toy_nl_def toy_wd_def
      toy_wd_world_def)
  moreover have "ran (rt_routeMap (wd_routeTable ?w)) \<noteq> {}"
    by (simp add: toy_wd_world_def toy_table_def AddRoute_def ClearRoutes_def)
  ultimately show ?thesis by (simp add: checkSystemRTAlignment_exact [OF toy_reads_only] ex_in_conv)
qed

text \<open>The query of the second mode fails in the first check; the second check panics.\<close>

theorem bird_failure_crashes_witness:
  "\<exists>x. fst (checkRouterChanges toy_wd (toy_wd_world [] NewRouteTable)) = Inr False \<and>
     fst (checkRouterChanges toy_wd (snd (checkRouterChanges toy_wd (toy_wd_world [] NewRouteTable)))) = Inl (Panic x)"
proof -
  let ?w = "toy_wd_world [] NewRouteTable"
  have fails: "\<exists>e. bird_GetRoutes (we_dial toy_wd n) mode = Inl (Err e)" if "mode = ''v4'' \<or> mode = ''v6''" for n mode
    using that by (auto simp: toy_wd_def bird_GetRoutes_def connect_def)
  obtain e4 where v4: "bird_GetRoutes (we_dial toy_wd (ticks ?w)) ''v4'' = Inl (Err e4)" using fails by blast
  obtain e6 where v6: "bird_GetRoutes (we_dial toy_wd (Suc (ticks ?w))) ''v6'' = Inl (Err e6)" using fails by blast
  let ?w1 = "?w\<lparr>ticks := Suc (ticks ?w), wd_rtCache := (wd_rtCache ?w)(''v4'' \<mapsto> None)\<rparr>"
  have first: "router_step toy_wd ''v4'' False ?w = (Inr False, ?w1)" using router_step_error [OF v4, of False] by (simp add: toy_wd_world_def)
  have "bird_GetRoutes (we_dial toy_wd (ticks ?w1)) ''v6'' = Inl (Err e6)" using v6 by simp
  from router_step_error [OF this, of False] have "fst (router_step toy_wd ''v6'' False ?w1) = Inr False" by (simp add: toy_wd_world_def)
  with check_second [OF first] have "fst (checkRouterChanges toy_wd ?w) = Inr False" by simp
  with bird_failure_crashes [OF v6, of ?w] show ?thesis by auto
qed

lemma addRoutes_no_fallback_witness:
  "\<exists>m. fst (addRoutes toy_wd 2 (toy_wd_world [] NewRouteTable)) = Inl (Err (Wrapf ''error parsing interface'' m))"
proof -
  let ?w = "toy_wd_world [] NewRouteTable"
  let ?e = "Wrapf ''error making the request'' ctx_deadline"
  have "GetPreferredPath (we_net toy_wd) (we_localID toy_wd) 2 ?w = (Inl (Err ?e), ?w\<lparr>ticks := 1\<rparr>)"
    by (simp add: GetPreferredPath_def GetPathMetrics_def GetPathLabel_def metrics_queries_def metrics_step_def query_range_def http_do_def
        toy_wd_def toy_wd_world_def bind_def decode_response_def)
  moreover have "timed_out ?e" by (simp add: timed_out_def ctx_deadline_def)
  ultimately show ?thesis using addRoutes_no_fallback [of toy_wd 2 ?w ?e] by fastforce
qed

end
