(* ===== verification/Bandwidth.thy ===== *)
theory Bandwidth
  imports PathPing Metrics
begin

text \<open>
  \<^verbatim>\<open>internal/measure/bandwidth\<close>: the flags and their validation, the UDP client and the server with its workers, one per
  client. The socket, the clock and \<open>math.Sqrt\<close> are parameters. A \<open>uint32\<close> is a 32-bit word, \<open>int\<close> and \<open>int64\<close> are
  integers where no value comes near their bounds.
\<close>

section \<open>Durations and conversions\<close>

text \<open>\<open>Duration.Seconds()\<close>, \<open>uint64(f)\<close> and \<open>uint32(f)\<close>.\<close>

definition seconds :: "int \<Rightarrow> float64" where
  "seconds d = fadd (f_of_int (go_quot d 1000000000)) (fdiv (f_of_int (d - go_quot d 1000000000 * 1000000000)) (Fin 1000000000))"

fun f_trunc :: "float64 \<Rightarrow> int" where
  "f_trunc (Fin x) = (if 0 \<le> x then \<lfloor>x\<rfloor> else - \<lfloor>- x\<rfloor>)"
| "f_trunc _ = 0"

definition f_uint64 :: "float64 \<Rightarrow> 64 word" where "f_uint64 f = word_of_int (f_trunc f)"
definition f_uint32 :: "float64 \<Rightarrow> 32 word" where "f_uint32 f = word_of_int (f_trunc f)"

definition put_be :: "nat \<Rightarrow> nat \<Rightarrow> 8 word list" where "put_be k n = rev (put_le k n)"
definition get_be :: "8 word list \<Rightarrow> nat" where "get_be bs = get_le (rev bs)"

section \<open>bandwidth.go\<close>

record bw_flags =
  bf_Port :: int
  bf_Duration :: int
  bf_Bandwidth :: int
  bf_PacketSize :: int
  bf_BufferSize :: int
  bf_MaxRetries :: int
  bf_RetryDelay :: int
  bf_Timeout :: int
  bf_StatsInterval :: int
  bf_ChannelBufferSize :: int
  bf_OutOfOrder :: int

definition default_flags :: bw_flags where
  "default_flags =
     \<lparr>bf_Port = 5121, bf_Duration = 2000000000, bf_Bandwidth = 512, bf_PacketSize = 1000, bf_BufferSize = 1500, bf_MaxRetries = 4,
      bf_RetryDelay = 250000000, bf_Timeout = 3000000000, bf_StatsInterval = 1000000000, bf_ChannelBufferSize = 1000,
      bf_OutOfOrder = 0\<rparr>"

definition bandwidthExponent :: int where "bandwidthExponent = 1024"

definition max_seconds :: "bw_flags \<Rightarrow> 64 word" where
  "max_seconds F = 4294967295 div (word_of_int (bf_Bandwidth F) * word_of_int bandwidthExponent)"

definition packets_per_second :: "bw_flags \<Rightarrow> 64 word" where
  "packets_per_second F =
     (word_of_int (bf_Bandwidth F) * word_of_int bandwidthExponent * f_uint64 (seconds (bf_Duration F))) div
     (word_of_int (bf_PacketSize F) * 8)"

definition validateFlags :: "bw_flags \<Rightarrow> unit go" where
  "validateFlags F =
     (if bf_Bandwidth F \<le> 0 then Inl (Err (Errorf ''bandwidth must be positive''))
      else if 4294967 < bf_Bandwidth F then Inl (Err (Errorf ''bandwidth too large''))
      else if flt (f_of_int (uint (max_seconds F))) (seconds (bf_Duration F)) then Inl (Err (Errorf ''duration too large''))
      else if bf_PacketSize F \<le> 0 then Inl (Err (Errorf ''packet size must be positive''))
      else if 9000 < bf_PacketSize F then Inl (Err (Errorf ''packet size too large''))
      else if bf_BufferSize F < bf_PacketSize F then Inl (Err (Errorf ''buffer size must be at least as large as packet size''))
      else if 65535 < bf_BufferSize F then Inl (Err (Errorf ''buffer size too large''))
      else if bf_ChannelBufferSize F \<le> 0 then Inl (Err (Errorf ''channel buffer size must be positive''))
      else if 10000 < bf_ChannelBufferSize F then Inl (Err (Errorf ''channel buffer size too large''))
      else if bf_MaxRetries F < 0 then Inl (Err (Errorf ''max retries cannot be negative''))
      else if 10 < bf_MaxRetries F then Inl (Err (Errorf ''max retries too large''))
      else if fle (seconds (bf_RetryDelay F)) (Fin 0) then Inl (Err (Errorf ''retry delay must be positive''))
      else if fle (seconds (bf_Timeout F)) (Fin 0) then Inl (Err (Errorf ''timeout must be positive''))
      else if fle (seconds (bf_StatsInterval F)) (Fin 0) then Inl (Err (Errorf ''stats interval must be positive''))
      else if bf_OutOfOrder F < 0 then Inl (Err (Errorf ''out-of-order threshold cannot be negative''))
      else if 4294967295 < packets_per_second F then Inl (Err (Errorf ''overflow in packets per second''))
      else if fle (seconds (bf_Timeout F)) (seconds (bf_StatsInterval F)) then Inl (Err (Errorf ''timeout must be greater than stats interval''))
      else Inr ())"

record bw_packet =
  bp_SequenceNumber :: "32 word"
  bp_Timestamp :: int

record client_stats =
  cs_TotalPackets :: "32 word"
  cs_DroppedPackets :: "32 word"
  cs_AverageJitter :: int
  cs_JitterVariance :: float64
  cs_MaxJitter :: int
  cs_StartTime :: int
  cs_LastUpdate :: int
  cs_HighestSeq :: "32 word"
  cs_OutOfOrderPackets :: "32 word"

record bw_result =
  br_Protocol :: string
  br_Status :: int
  br_Loss :: float64
  br_OutOfOrder :: float64
  br_Jitter :: float64
  br_Bandwidth :: int
  br_Duration :: float64
  br_TargetBandwidth :: int
  br_TargetDuration :: int
  br_PacketSize :: int

definition zero_bw_result :: bw_result where
  "zero_bw_result = \<lparr>br_Protocol = [], br_Status = 0, br_Loss = Fin 0, br_OutOfOrder = Fin 0, br_Jitter = Fin 0, br_Bandwidth = 0,
     br_Duration = Fin 0, br_TargetBandwidth = 0, br_TargetDuration = 0, br_PacketSize = 0\<rparr>"

section \<open>client.go\<close>

text \<open>\<open>packetsCount\<close> in \<open>uint32\<close>; a packet size that is a multiple of 2^29 divides by zero.\<close>

definition packetsCount :: "bw_flags \<Rightarrow> (32 word) go" where
  "packetsCount F =
     (if word_of_int (bf_PacketSize F) * 8 = (0 :: 32 word) then Inl (Panic DivideByZero)
      else Inr ((word_of_int (bf_Bandwidth F) * word_of_int bandwidthExponent * f_uint32 (seconds (bf_Duration F))) div
                (word_of_int (bf_PacketSize F) * 8)))"

text \<open>A packet on the wire: sequence number and time in big-endian order, then a filling.\<close>

definition encode_packet :: "int \<Rightarrow> bw_packet \<Rightarrow> 8 word \<Rightarrow> 8 word list go" where
  "encode_packet psize p fill =
     (if psize < 12 then Inl (Panic IndexOutOfRange)
      else Inr (put_be 4 (unat (bp_SequenceNumber p)) @ put_be 8 (unat (word_of_int (bp_Timestamp p) :: 64 word)) @
                replicate (nat psize - 12) fill))"

definition end_packet :: bw_packet where
  "end_packet = \<lparr>bp_SequenceNumber = 2 ^ 32 - 1, bp_Timestamp = 2 ^ 63 - 1\<rparr>"

text \<open>What the server answers while the client waits: a message of the final statistics, an error, or nothing in time.\<close>

datatype bw_reply = FinalStats string | ReceiveError go_error | NoReply

record bw_env =
  be_now :: "nat \<Rightarrow> int"
  be_error :: "nat \<Rightarrow> go_error option"
  be_write_end :: "nat \<Rightarrow> go_error option"
  be_reply :: "nat \<Rightarrow> bw_reply"
  be_took :: float64
  be_sqrt :: "float64 \<Rightarrow> float64"

text \<open>The sending loop, with the sequence numbers from 1 to below the count; the result is what has been written.\<close>

definition send_data :: "bw_flags \<Rightarrow> bw_env \<Rightarrow> 32 word \<Rightarrow> 8 word list list go" where
  "send_data F E cnt =
     go_fold (\<lambda>n sent.
         go_bind (encode_packet (bf_PacketSize F) \<lparr>bp_SequenceNumber = of_nat n, bp_Timestamp = be_now E n\<rparr> (of_nat n))
           (\<lambda>bytes. case be_error E n of
                      Some e \<Rightarrow> Inl (Err (Errorf ''error during test''))
                    | None \<Rightarrow> Inr (sent @ [bytes])))
       [1..<unat cnt] []"

text \<open>\<open>parseStats\<close>: the result with what has been written to it when an error is returned.\<close>

definition final_part :: "bw_flags \<Rightarrow> string list \<Rightarrow> int \<Rightarrow> bw_result \<Rightarrow> bw_result \<times> go_error option" where
  "final_part F parts received r =
     (if length parts \<noteq> 7 then (r, Some (Errorf ''invalid final stat string format''))
      else
        let r1 = r\<lparr>br_Status := 1\<rparr>
        in (case atoi (parts ! 6) of
              None \<Rightarrow> (r1, Some (Errorf ''error parsing duration''))
            | Some d \<Rightarrow>
                (if d \<le> 0 then (r1, Some (Errorf ''invalid test duration''))
                 else (r1\<lparr>br_Bandwidth := go_quot (bf_PacketSize F * 8 * received * bandwidthExponent) d\<rparr>, None))))"

definition parseStats :: "bw_flags \<Rightarrow> (float64 \<Rightarrow> float64) \<Rightarrow> 32 word \<Rightarrow> string \<Rightarrow> bw_result \<Rightarrow> bw_result \<times> go_error option" where
  "parseStats F root2 cnt s r =
     (let parts = split s CHR ''|'' in
      if length parts < 5 then (r, Some (Errorf ''invalid stat string format''))
      else if parts ! 0 \<noteq> ''STATS'' \<and> parts ! 0 \<noteq> ''FINAL'' then (r, Some (Errorf ''unknown stat type''))
      else (case atoi (parts ! 1) of
              None \<Rightarrow> (r, Some (Errorf ''error parsing total packets''))
            | Some received \<Rightarrow>
                if received \<le> 10 then (r, Some (Errorf ''invalid total packets received''))
                else (case atoi (parts ! 2) of
                        None \<Rightarrow> (r, Some (Errorf ''error parsing out of order packets''))
                      | Some ooo \<Rightarrow>
                          let r1 = r\<lparr>br_OutOfOrder := fmul (Fin 100) (fdiv (f_of_int ooo) (f_of_int received))\<rparr>
                          in (case atoi (parts ! 3) of
                                None \<Rightarrow> (r1, Some (Errorf ''error parsing lost packets''))
                              | Some dropped \<Rightarrow>
                                  let r2 = r1\<lparr>br_Loss := fmul (Fin 100)
                                             (fdiv (f_of_int (uint cnt - received - dropped)) (f_of_int (uint cnt)))\<rparr>
                                  in (case parse_float (parts ! 4) of
                                        None \<Rightarrow> (r2, Some (Errorf ''error parsing jitter''))
                                      | Some j \<Rightarrow>
                                          let r3 = r2\<lparr>br_Jitter := root2 j\<rparr>
                                          in if parts ! 0 = ''FINAL'' then final_part F parts received r3
                                             else (r3\<lparr>br_Status := 0\<rparr>, None))))))"

text \<open>The attempts to end the test: \<open>left\<close> of them remain.\<close>

fun retry_loop :: "bw_flags \<Rightarrow> bw_env \<Rightarrow> 32 word \<Rightarrow> nat \<Rightarrow> nat \<Rightarrow> bw_result \<Rightarrow> bw_result \<times> go_error option" where
  "retry_loop F E cnt 0 k r = (r, None)"
| "retry_loop F E cnt (Suc left) k r =
     (case be_write_end E k of
        Some e \<Rightarrow> (r, Some (Errorf ''error sending end of test''))
      | None \<Rightarrow>
          (case be_reply E k of
             FinalStats s \<Rightarrow>
               (case parseStats F (be_sqrt E) cnt s r of
                  (r', Some e) \<Rightarrow> (r', Some (Errorf ''error parsing final stats''))
                | (r', None) \<Rightarrow> (r', None))
           | _ \<Rightarrow> (if left = 0 then (r, Some (Errorf ''failed to complete test''))
                   else retry_loop F E cnt left (Suc k) r)))"

definition new_bw_result :: "bw_flags \<Rightarrow> bw_result" where
  "new_bw_result F = zero_bw_result\<lparr>br_Protocol := ''udp'', br_TargetBandwidth := bf_Bandwidth F, br_PacketSize := bf_PacketSize F,
     br_TargetDuration := f_trunc (seconds (bf_Duration F))\<rparr>"

definition runTest :: "bw_flags \<Rightarrow> bw_env \<Rightarrow> 32 word \<Rightarrow> bw_result \<Rightarrow> (bw_result \<times> go_error option) go" where
  "runTest F E cnt r =
     (if cnt = 0 then Inl (Panic DivideByZero)
      else (case send_data F E cnt of
              Inl (Panic x) \<Rightarrow> Inl (Panic x)
            | Inl (Err e) \<Rightarrow> Inr (r, Some e)
            | Inr sent \<Rightarrow>
                (case (if bf_MaxRetries F \<le> 0 then Inr [] else encode_packet (bf_PacketSize F) end_packet 0) of
                   Inl x \<Rightarrow> Inl x
                 | Inr bytes \<Rightarrow> Inr (retry_loop F E cnt (nat (bf_MaxRetries F)) 0 (r\<lparr>br_Duration := be_took E\<rparr>)))))"

text \<open>\<open>dial\<close> is the error of \<open>Dial\<close>, if any.\<close>

definition MeasureUDP :: "bw_flags \<Rightarrow> bw_env \<Rightarrow> go_error option \<Rightarrow> (bw_result \<times> go_error option) go" where
  "MeasureUDP F E dial =
     (case dial of
        Some e \<Rightarrow> Inr (zero_bw_result, Some e)
      | None \<Rightarrow> go_bind (packetsCount F) (\<lambda>cnt. runTest F E cnt (new_bw_result F)))"

text \<open>A message the receiving goroutine reads: heartbeats are ignored, final statistics passed on, others end it.\<close>

definition receive_message :: "string \<Rightarrow> bw_reply option" where
  "receive_message msg =
     (if has_prefix msg ''STATS'' then None
      else if has_prefix msg ''FINAL'' then Some (FinalStats msg)
      else Some (ReceiveError (Errorf ''unknown message type'')))"

section \<open>server.go\<close>

text \<open>
  The worker of a client is running, waits after the end of a test for a retry, or has returned and left its entry behind. Reading the clock for the second time
  just after setting the last update is the second time of a packet.
\<close>

datatype bw_mode = Running | Draining | Returned

record bw_server_client =
  sc_queue :: "bw_packet list"
  sc_mode :: bw_mode
  sc_stats :: client_stats

definition new_stats :: client_stats where
  "new_stats = \<lparr>cs_TotalPackets = 0, cs_DroppedPackets = 0, cs_AverageJitter = 0, cs_JitterVariance = Fin 0, cs_MaxJitter = 0,
     cs_StartTime = 0, cs_LastUpdate = 0, cs_HighestSeq = 0, cs_OutOfOrderPackets = 0\<rparr>"

definition order_stats :: "bw_flags \<Rightarrow> 32 word \<Rightarrow> client_stats \<Rightarrow> client_stats" where
  "order_stats F sq s =
     (if cs_HighestSeq s < sq then s\<lparr>cs_HighestSeq := sq\<rparr>
      else if cs_HighestSeq s - sq < word_of_int (bf_OutOfOrder F) then s\<lparr>cs_OutOfOrderPackets := cs_OutOfOrderPackets s + 1\<rparr>
      else s\<lparr>cs_DroppedPackets := cs_DroppedPackets s + 1\<rparr>)"

definition jitter_stats :: "int \<Rightarrow> client_stats \<Rightarrow> client_stats" where
  "jitter_stats jitter s =
     (let oldM = cs_AverageJitter s; total = cs_TotalPackets s + 1; avg = oldM + go_quot (jitter - oldM) (uint total)
      in s\<lparr>cs_TotalPackets := total, cs_AverageJitter := avg,
           cs_JitterVariance := fadd (cs_JitterVariance s) (fmul (f_of_int (jitter - oldM)) (f_of_int (jitter - avg))),
           cs_MaxJitter := max (cs_MaxJitter s) jitter\<rparr>)"

definition count_packet :: "bw_flags \<Rightarrow> int \<Rightarrow> int \<Rightarrow> bw_packet \<Rightarrow> client_stats \<Rightarrow> client_stats" where
  "count_packet F t1 t2 p s0 =
     (let s = s0\<lparr>cs_LastUpdate := t1\<rparr>
      in if 0 < cs_TotalPackets s
         then jitter_stats (go_quot (t2 - t1) 1000) (order_stats F (bp_SequenceNumber p) s)
         else s\<lparr>cs_StartTime := t1, cs_TotalPackets := 1, cs_AverageJitter := 0, cs_JitterVariance := Fin 0,
                cs_HighestSeq := bp_SequenceNumber p\<rparr>)"

definition is_end :: "bw_packet \<Rightarrow> bool" where
  "is_end p \<longleftrightarrow> bp_Timestamp p = 2 ^ 63 - 1 \<and> bp_SequenceNumber p = 2 ^ 32 - 1"

text \<open>\<open>%.3f\<close>: the decimal with three places next to the value, the even one when two are.\<close>

definition pad3 :: "nat \<Rightarrow> string" where
  "pad3 n = replicate (3 - length (nat_digits n)) CHR ''0'' @ nat_digits n"

fun fmt3 :: "float64 \<Rightarrow> string" where
  "fmt3 (Fin x) =
     (let n = nat (round_half_even (\<bar>x\<bar> * 1000))
      in (if x < 0 then ''-'' else []) @ nat_digits (n div 1000) @ ''.'' @ pad3 (n mod 1000))"
| "fmt3 PInf = ''+Inf''"
| "fmt3 NInf = ''-Inf''"
| "fmt3 NaN = ''NaN''"

definition micros :: "int \<Rightarrow> int" where
  "micros t = t div 1000"

definition stats_message :: "client_stats \<Rightarrow> string" where
  "stats_message s = ''STATS|'' @ itoa (uint (cs_TotalPackets s))"

definition final_message :: "client_stats \<Rightarrow> string" where
  "final_message s =
     ''FINAL|'' @ itoa (uint (cs_TotalPackets s)) @ ''|'' @ itoa (uint (cs_OutOfOrderPackets s)) @ ''|'' @
     itoa (uint (cs_DroppedPackets s)) @ ''|'' @ fmt3 (cs_JitterVariance s) @ ''|'' @ itoa (cs_MaxJitter s) @ ''|'' @
     itoa (micros (cs_LastUpdate s) - micros (cs_StartTime s))"

datatype bw_event = StatsTick | TimeoutTick | ReceivePacket int int | CleanupTimer | ServerStop

text \<open>
  One step of \<open>clientWorker\<close>: what it sends and its next state, \<open>None\<close> when it has returned and its entry is deleted.
  Receiving takes the head of the channel. A time-out before the first packet deletes the entry of the address nil, not its own.
\<close>

definition worker_packet :: "bw_flags \<Rightarrow> int \<Rightarrow> int \<Rightarrow> bw_server_client \<Rightarrow> string list \<times> bw_server_client option" where
  "worker_packet F t1 t2 c =
     (case sc_queue c of
        [] \<Rightarrow> ([], Some c)
      | p # q \<Rightarrow>
          (case sc_mode c of
             Running \<Rightarrow>
               (let s = count_packet F t1 t2 p (sc_stats c)
                in if is_end p then ([final_message s], Some (c\<lparr>sc_queue := q, sc_mode := Draining, sc_stats := s\<rparr>))
                   else ([], Some (c\<lparr>sc_queue := q, sc_stats := s\<rparr>)))
           | Draining \<Rightarrow>
               ((if is_end p then [final_message (sc_stats c)] else []), Some (c\<lparr>sc_queue := q, sc_mode := Running\<rparr>))
           | Returned \<Rightarrow> ([], Some c)))"

definition clientWorker :: "bw_flags \<Rightarrow> bw_event \<Rightarrow> bw_server_client \<Rightarrow> string list \<times> bw_server_client option" where
  "clientWorker F ev c =
     (case ev of
        ReceivePacket t1 t2 \<Rightarrow> worker_packet F t1 t2 c
      | ServerStop \<Rightarrow> ([], if sc_mode c = Draining then None else Some (c\<lparr>sc_mode := Returned\<rparr>))
      | StatsTick \<Rightarrow>
          ((if sc_mode c = Running \<and> 0 < cs_TotalPackets (sc_stats c) then [stats_message (sc_stats c)] else []), Some c)
      | TimeoutTick \<Rightarrow>
          ([], if sc_mode c \<noteq> Running then Some c
               else if cs_TotalPackets (sc_stats c) = 0 then Some (c\<lparr>sc_mode := Returned\<rparr>) else None)
      | CleanupTimer \<Rightarrow> ([], if sc_mode c = Draining then None else Some c))"

type_synonym bw_clients = "string \<rightharpoonup> bw_server_client"

definition decode_packet :: "8 word list \<Rightarrow> bw_packet" where
  "decode_packet buf =
     \<lparr>bp_SequenceNumber = of_nat (get_be (take 4 buf)), bp_Timestamp = sint (of_nat (get_be (take 8 (drop 4 buf))) :: 64 word)\<rparr>"

text \<open>A datagram: \<open>None\<close> while the channel of its client is full and the loop is blocked on it.\<close>

definition receive_datagram :: "bw_flags \<Rightarrow> string \<Rightarrow> 8 word list \<Rightarrow> bw_clients \<Rightarrow> bw_clients option" where
  "receive_datagram F remote datagram cs =
     (let buf = take (nat (bf_BufferSize F)) datagram in
      if length buf < 12 then Some cs
      else
        let c = (case cs remote of Some c \<Rightarrow> c | None \<Rightarrow> \<lparr>sc_queue = [], sc_mode = Running, sc_stats = new_stats\<rparr>)
        in if int (length (sc_queue c)) < bf_ChannelBufferSize F
           then Some (cs(remote \<mapsto> c\<lparr>sc_queue := sc_queue c @ [decode_packet buf]\<rparr>))
           else None)"

definition worker_step :: "bw_flags \<Rightarrow> string \<Rightarrow> bw_event \<Rightarrow> bw_clients \<Rightarrow> string list \<times> bw_clients" where
  "worker_step F remote ev cs =
     (case cs remote of
        None \<Rightarrow> ([], cs)
      | Some c \<Rightarrow> (case clientWorker F ev c of (out, c') \<Rightarrow> (out, cs(remote := c'))))"

text \<open>The listeners that \<open>Start\<close> creates, one per address of the loopback interface.\<close>

definition bw_Start :: "bw_flags \<Rightarrow> interfaces \<Rightarrow> string list go" where
  "bw_Start F ifs =
     (case validateFlags F of
        Inl e \<Rightarrow> Inl (Err (Errorf ''flags validation failed''))
      | Inr u \<Rightarrow>
          (case GetLocalLoopbackIP ifs of
             Inl (Err e) \<Rightarrow> Inl (Err (Errorf ''error getting local loopback IP''))
           | Inl (Panic x) \<Rightarrow> Inl (Panic x)
           | Inr addrs \<Rightarrow> Inr (map (\<lambda>a. a @ '':'' @ itoa (bf_Port F)) addrs)))"

section \<open>What the server counts\<close>

type_synonym timed_packet = "(int \<times> int) \<times> bw_packet"

definition serve :: "bw_flags \<Rightarrow> timed_packet list \<Rightarrow> client_stats \<Rightarrow> client_stats" where
  "serve F ps s = fold (\<lambda>((t1, t2), p). count_packet F t1 t2 p) ps s"

text \<open>The packets that are not above every packet before them, after the highest number \<open>h\<close>.\<close>

fun late :: "32 word \<Rightarrow> 32 word list \<Rightarrow> nat" where
  "late h [] = 0"
| "late h (q # qs) = (if h < q then late q qs else Suc (late h qs))"

definition seqs :: "timed_packet list \<Rightarrow> 32 word list" where
  "seqs ps = map (\<lambda>(t, p). bp_SequenceNumber p) ps"

text \<open>The counters a worker keeps once it has a packet.\<close>

definition counters :: "client_stats \<Rightarrow> 32 word \<times> 32 word \<times> 32 word \<times> 32 word" where
  "counters s = (cs_TotalPackets s, cs_DroppedPackets s, cs_OutOfOrderPackets s, cs_HighestSeq s)"

lemma late_le: "late h qs \<le> length qs"
  by (induction qs arbitrary: h) (auto intro: le_SucI)

lemma counters_step:
  assumes "bf_OutOfOrder F = 0" "counters s = (of_nat (Suc n), of_nat d, 0, h)" "Suc n < 2 ^ 32"
  shows "counters (count_packet F t1 t2 p s) =
    (of_nat (Suc (Suc n)), of_nat (if h < bp_SequenceNumber p then d else Suc d), 0, max h (bp_SequenceNumber p))"
proof -
  have "(of_nat (Suc n) :: 32 word) \<noteq> 0"
    using assms(3) by (simp add: word_of_nat_eq_0_iff del: of_nat_Suc) (auto dest: dvd_imp_le)
  then have "0 < cs_TotalPackets s" using assms(2) by (simp add: counters_def word_neq_0_conv [symmetric])
  then show ?thesis using assms(1,2)
    by (auto simp: counters_def count_packet_def jitter_stats_def order_stats_def Let_def max_def algebra_simps)
qed

lemma counters_serve:
  assumes "bf_OutOfOrder F = 0" "counters s = (of_nat (Suc n), of_nat d, 0, h)" "Suc n + length ps < 2 ^ 32"
  shows "\<exists>h'. counters (serve F ps s) = (of_nat (Suc n + length ps), of_nat (d + late h (seqs ps)), 0, h')"
  using assms(2,3)
proof (induction ps arbitrary: s n d h)
  case (Cons x ps)
  obtain t1 t2 p where x: "x = ((t1, t2), p)" by (metis prod.exhaust)
  let ?q = "bp_SequenceNumber p"
  have "counters (count_packet F t1 t2 p s) = (of_nat (Suc (Suc n)), of_nat (if h < ?q then d else Suc d), 0, max h ?q)"
    by (rule counters_step [OF assms(1) Cons.prems(1)]) (use Cons.prems(2) in simp)
  from Cons.IH [OF this] Cons.prems(2) show ?case
    by (auto simp: serve_def seqs_def x max_def split: if_splits)
qed (simp add: serve_def seqs_def)

lemma counters_from_start:
  assumes "bf_OutOfOrder F = 0" "ps \<noteq> []" "length ps < 2 ^ 32"
  shows "\<exists>h'. counters (serve F ps new_stats) = (of_nat (length ps), of_nat (late (hd (seqs ps)) (tl (seqs ps))), 0, h')"
proof -
  obtain t1 t2 p qs where ps: "ps = ((t1, t2), p) # qs" using assms(2) by (metis neq_Nil_conv prod.exhaust)
  have "counters (count_packet F t1 t2 p new_stats) = (of_nat (Suc 0), of_nat 0, 0, bp_SequenceNumber p)"
    by (simp add: counters_def count_packet_def new_stats_def)
  from counters_serve [OF assms(1) this, of qs] assms(3) show ?thesis by (simp add: ps serve_def seqs_def)
qed

section \<open>The text of the statistics\<close>

lemma no_bar_digits: "CHR ''|'' \<notin> set (nat_digits n)"
  using nat_digits_digit [of "CHR ''|''" n] by (auto simp: is_digit_def)

lemma no_bar_itoa: "CHR ''|'' \<notin> set (itoa i)"
  using no_bar_digits by (simp add: itoa_def)

lemma no_bar_fmt3: "CHR ''|'' \<notin> set (fmt3 x)"
  by (cases x) (auto simp: pad3_def no_bar_digits Let_def)

lemma split_final:
  "split (final_message s) CHR ''|'' =
     [''FINAL'', itoa (uint (cs_TotalPackets s)), itoa (uint (cs_OutOfOrderPackets s)), itoa (uint (cs_DroppedPackets s)),
      fmt3 (cs_JitterVariance s), itoa (cs_MaxJitter s), itoa (micros (cs_LastUpdate s) - micros (cs_StartTime s))]"
proof -
  have m: "final_message s = ''FINAL'' @ CHR ''|'' # itoa (uint (cs_TotalPackets s)) @ CHR ''|'' # itoa (uint (cs_OutOfOrderPackets s)) @
      CHR ''|'' # itoa (uint (cs_DroppedPackets s)) @ CHR ''|'' # fmt3 (cs_JitterVariance s) @ CHR ''|'' # itoa (cs_MaxJitter s) @
      CHR ''|'' # itoa (micros (cs_LastUpdate s) - micros (cs_StartTime s))"
    by (simp add: final_message_def)
  have f: "CHR ''|'' \<notin> set ''FINAL''" by simp
  show ?thesis unfolding m
    by (simp only: split_append [OF f] split_append [OF no_bar_itoa] split_append [OF no_bar_fmt3] split_no_sep [OF no_bar_itoa])
qed

lemma atoi_word: "atoi (itoa (uint (w :: 32 word))) = Some (uint w)"
proof -
  have "uint w < 2 ^ 32" using unsigned_less [of w, where ?'a = int] by simp
  then show ?thesis by (intro atoi_itoa) (simp add: in_int64_def order.trans [OF _ uint_ge_0 [of w]])
qed


section \<open>The loss the client reports\<close>

text \<open>
  C31. The loss of a bandwidth measurement, end to end. The server has counted data packets and the end of the test, the
  client parses its final message: with the default threshold the loss is computed from the packets the client believes to
  have sent, less the packets received, less once more those that came late, although they are among the received. So a
  complete test in order reports exactly 0, and each reordered packet lowers the result, below 0 when none is lost.
\<close>

theorem reported_loss:
  assumes flags: "bf_OutOfOrder F = 0"
    and ps: "10 \<le> length ps" "Suc (length ps) < 2 ^ 32" "\<forall>q\<in>set (seqs ps). q < 2 ^ 32 - 1"
    and e: "is_end e" and s: "s = serve F (ps @ [((t1, t2), e)]) new_stats"
    and jitter: "parse_float (fmt3 (cs_JitterVariance s)) = Some j"
    and dur: "micros (cs_StartTime s) < micros (cs_LastUpdate s)" "in_int64 (micros (cs_LastUpdate s) - micros (cs_StartTime s))"
  shows "\<exists>r'. parseStats F root2 cnt (final_message s) r = (r', None) \<and> br_Status r' = 1 \<and> br_Jitter r' = root2 j \<and>
     br_Loss r' = fmul (Fin 100)
       (fdiv (f_of_int (uint cnt - int (Suc (length ps)) - int (late (hd (seqs ps)) (tl (seqs ps))))) (f_of_int (uint cnt)))"
proof -
  let ?l = "late (hd (seqs ps)) (tl (seqs ps))"
  have ne: "ps \<noteq> []" using ps(1) by auto
  have sq: "seqs (ps @ [((t1, t2), e)]) = seqs ps @ [2 ^ 32 - 1]" using e by (simp add: seqs_def is_end_def)
  have ne': "seqs ps \<noteq> []" using ne by (simp add: seqs_def)
  have end_in_order: "late h (qs @ [2 ^ 32 - 1]) = late h qs" if "h < 2 ^ 32 - 1" "\<forall>q\<in>set qs. q < 2 ^ 32 - 1" for h qs
    using that by (induction qs arbitrary: h) auto
  have "late (hd (seqs ps @ [2 ^ 32 - 1])) (tl (seqs ps @ [2 ^ 32 - 1])) = ?l"
    using end_in_order [of "hd (seqs ps)" "tl (seqs ps)"] ps(3) ne' by (cases "seqs ps") auto
  then obtain h where c: "counters s = (of_nat (Suc (length ps)), of_nat ?l, 0, h)"
    using counters_from_start [OF flags, of "ps @ [((t1, t2), e)]"] ps(2) s sq by auto
  have l: "?l < 2 ^ 32" using late_le [of "hd (seqs ps)" "tl (seqs ps)"] ps(2) by (simp add: seqs_def)
  have t: "uint (cs_TotalPackets s) = int (Suc (length ps))" "uint (cs_DroppedPackets s) = int ?l" "uint (cs_OutOfOrderPackets s) = 0"
    using c ps(2) l by (simp_all add: counters_def unsigned_of_nat take_bit_nat_eq_self_iff del: of_nat_Suc) 
  have a: "atoi (itoa (micros (cs_LastUpdate s) - micros (cs_StartTime s))) = Some (micros (cs_LastUpdate s) - micros (cs_StartTime s))"
    by (rule atoi_itoa [OF dur(2)])
  have n: "atoi (itoa (int (Suc (length ps)))) = Some (int (Suc (length ps)))" "atoi (itoa (int ?l)) = Some (int ?l)"
    "atoi (itoa 0) = Some 0"
    using atoi_word [of "cs_TotalPackets s"] atoi_word [of "cs_DroppedPackets s"] atoi_word [of "cs_OutOfOrderPackets s"]
    unfolding t by simp_all
  show ?thesis
    unfolding parseStats_def split_final Let_def t
    using n a jitter dur(1) ps(1) by (simp add: final_part_def del: of_nat_Suc)
qed

text \<open>Eleven data packets of which the first two have changed places, and the end of the test.\<close>

definition sample_run :: "timed_packet list" where
  "sample_run = map (\<lambda>q. ((1000, 1000), \<lparr>bp_SequenceNumber = q, bp_Timestamp = 5\<rparr>)) [2, 1, 3, 4, 5, 6, 7, 8, 9, 10, 11]"

definition sample_stats :: client_stats where
  "sample_stats = serve default_flags (sample_run @ [((9000, 9000), end_packet)]) new_stats"

lemma sample_stats_facts:
  "cs_JitterVariance sample_stats = Fin 0 \<and> cs_StartTime sample_stats = 1000 \<and> cs_LastUpdate sample_stats = 9000"
  by code_simp

lemma fmt3_zero: "parse_float (fmt3 (Fin 0)) = Some (Fin 0)"
  by code_simp

lemma negative_loss: "flt (fmul (Fin 100) (fdiv (f_of_int (- 1)) (f_of_int 12))) (Fin 0)"
  by code_simp

theorem reported_loss_witness:
  "\<exists>r'. parseStats default_flags id 12 (final_message sample_stats) zero_bw_result = (r', None) \<and> br_Status r' = 1 \<and>
     flt (br_Loss r') (Fin 0)"
proof -
  have q: "seqs sample_run = [2, 1, 3, 4, 5, 6, 7, 8, 9, 10, 11]" by (simp add: sample_run_def seqs_def)
  have l: "length sample_run = 11" by (simp add: sample_run_def)
  have "bf_OutOfOrder default_flags = 0" by (simp add: default_flags_def)
  from reported_loss [OF this _ _ _ _ sample_stats_def, of "Fin 0" id 12 zero_bw_result] negative_loss show ?thesis
    by (auto simp: l q is_end_def end_packet_def sample_stats_facts fmt3_zero micros_def in_int64_def simp del: fmt3.simps)
qed

section \<open>Flags that validate and still crash\<close>

lemma uint_small: "0 \<le> i \<Longrightarrow> i < 2 ^ 32 \<Longrightarrow> uint (word_of_int i :: 32 word) = i"
  by (simp add: uint_word_of_int)

text \<open>
  \<open>validateFlags\<close> accepts flags with which every measurement panics: when the bandwidth and the whole seconds of the
  duration make less than one packet, the interval between packets is a division by zero.
\<close>

lemma validated_flags_panic:
  assumes "validateFlags F = Inr ()" "0 \<le> f_trunc (seconds (bf_Duration F))" "f_trunc (seconds (bf_Duration F)) < 2 ^ 32"
    "bf_Bandwidth F * 1024 * f_trunc (seconds (bf_Duration F)) < bf_PacketSize F * 8"
  shows "MeasureUDP F E None = Inl (Panic DivideByZero)"
proof -
  let ?s = "f_trunc (seconds (bf_Duration F))"
  have b: "0 < bf_Bandwidth F" "bf_Bandwidth F \<le> 4294967" "0 < bf_PacketSize F" "bf_PacketSize F \<le> 9000"
    using assms(1) by (auto simp: validateFlags_def split: if_splits)
  let ?n = "bf_Bandwidth F * 1024 * ?s" and ?p = "bf_PacketSize F * 8"
  have small: "0 \<le> ?n" "?n < 2 ^ 32" "0 < ?p" "?p < 2 ^ 32" using b assms(2,4) by simp_all
  have w: "uint (word_of_int ?n :: 32 word) = ?n" "uint (word_of_int ?p :: 32 word) = ?p"
    by (rule uint_small [OF small(1,2)]) (rule uint_small [OF order.strict_implies_order [OF small(3)] small(4)])
  have "uint (word_of_int ?n div word_of_int ?p :: 32 word) = 0"
    unfolding uint_div w using small(1) assms(4) by (simp add: div_pos_pos_trivial)
  then have zero: "word_of_int ?n div word_of_int ?p = (0 :: 32 word)" by (simp only: uint_0_iff)
  have size: "word_of_int (bf_PacketSize F) * 8 = (word_of_int ?p :: 32 word)" by simp
  have ne: "word_of_int (bf_PacketSize F) * 8 \<noteq> (0 :: 32 word)" unfolding size using w(2) small(3) by (metis less_irrefl uint_0_eq)
  have num: "word_of_int (bf_Bandwidth F) * word_of_int bandwidthExponent * f_uint32 (seconds (bf_Duration F)) = (word_of_int ?n :: 32 word)"
    by (simp add: f_uint32_def bandwidthExponent_def)
  have "packetsCount F = Inr 0"
    using ne unfolding packetsCount_def num size by (simp only: zero if_False)
  then show ?thesis by (simp add: MeasureUDP_def runTest_def)
qed

lemma sample_seconds:
  "seconds 2000000000 = Fin 2" "seconds 3000000000 = Fin 3" "seconds 1000000000 = Fin 1" "seconds 250000000 = Fin (1 / 4)"
  by code_simp+

lemma validated_flags_panic_witness:
  "validateFlags (default_flags\<lparr>bf_Bandwidth := 3\<rparr>) = Inr () \<and>
   (\<forall>E. MeasureUDP (default_flags\<lparr>bf_Bandwidth := 3\<rparr>) E None = Inl (Panic DivideByZero))"
proof -
  have "\<not> flt (f_of_int 1398101) (Fin 2)" by code_simp
  then have v: "validateFlags (default_flags\<lparr>bf_Bandwidth := 3\<rparr>) = Inr ()"
    by (simp add: validateFlags_def default_flags_def sample_seconds max_seconds_def packets_per_second_def bandwidthExponent_def
        f_uint64_def fle_def feq_def)
  with validated_flags_panic [OF v] show ?thesis by (simp add: default_flags_def sample_seconds)
qed

end
