(* ===== verification/Measure.thy ===== *)
theory Measure
  imports Bandwidth
begin

text \<open>
  \<^verbatim>\<open>internal/measure\<close>: the manager of the sites and their workers (\<open>measure.go\<close>), the workers of \<open>latency.go\<close>,
  \<open>bandwidth.go\<close> and \<open>path.go\<close> with the gauges they set, and the TCP and ICMP clients of \<open>latency\<close>. The network is a
  parameter: its answers are arguments of the steps. The gauges of Prometheus are a map from a name and its label values.
\<close>

section \<open>latency/tcp.go and latency/icmp.go\<close>

record latency_result =
  lt_Protocol :: string
  lt_Status :: int
  lt_AvgLatency :: int
  lt_Jitter :: int
  lt_Loss :: float64

definition attempts :: nat where "attempts = 10"

text \<open>\<open>dial i\<close> is what attempt \<open>i\<close> took, in microseconds, or \<open>None\<close> when it failed.\<close>

definition MeasureTCP :: "(nat \<Rightarrow> int option) \<Rightarrow> latency_result \<times> go_error option" where
  "MeasureTCP dial =
     (let latencies = List.map_filter dial [0..<attempts];
          n = int (length latencies);
          packetLoss = fmul (fdiv (f_of_int (int attempts - n)) (f_of_int (int attempts))) (Fin 100)
      in if latencies = []
         then (\<lparr>lt_Protocol = ''tcp'', lt_Status = 0, lt_AvgLatency = 0, lt_Jitter = 0, lt_Loss = Fin 0\<rparr>,
               Some (Errorf ''all connection attempts failed''))
         else
           let avgLatency = go_quot (sum_list latencies) n;
               jitter = go_quot (sum_list (map (\<lambda>l. let d = l - avgLatency in if d < 0 then - d else d) latencies)) n
           in (\<lparr>lt_Protocol = ''tcp'', lt_Status = 1, lt_AvgLatency = avgLatency, lt_Jitter = jitter, lt_Loss = packetLoss\<rparr>, None))"

text \<open>\<open>ping\<close> is the outcome of creating and running the pinger: the average and the deviation in microseconds, and the loss.\<close>

definition MeasureICMP :: "go_error + int \<times> int \<times> float64 \<Rightarrow> latency_result \<times> go_error option" where
  "MeasureICMP ping =
     (let failed = \<lparr>lt_Protocol = ''icmp'', lt_Status = 0, lt_AvgLatency = 0, lt_Jitter = 0, lt_Loss = Fin 0\<rparr>
      in case ping of
           Inl e \<Rightarrow> (failed, Some e)
         | Inr (avg, dev, loss) \<Rightarrow>
             (if feq loss (Fin 100) then (failed, None)
              else (\<lparr>lt_Protocol = ''icmp'', lt_Status = 1, lt_AvgLatency = avg, lt_Jitter = dev, lt_Loss = loss\<rparr>, None)))"

section \<open>Path names\<close>

text \<open>The order of Go strings, byte by byte.\<close>

fun str_less :: "string \<Rightarrow> string \<Rightarrow> bool" where
  "str_less s [] = False"
| "str_less [] (d # t) = True"
| "str_less (c # s) (d # t) = ((of_char c :: nat) < of_char d \<or> (c = d \<and> str_less s t))"

definition generatePathName :: "string \<Rightarrow> string \<Rightarrow> string" where
  "generatePathName src dst = (if str_less dst src then dst @ ''-'' @ src else src @ ''-'' @ dst)"

section \<open>Gauges\<close>

type_synonym gauges = "string \<times> string list \<rightharpoonup> float64"

definition set_gauge :: "string \<Rightarrow> string list \<Rightarrow> float64 \<Rightarrow> gauges \<Rightarrow> gauges" where
  "set_gauge name labels v g = g((name, labels) \<mapsto> v)"

text \<open>A measured value, or NaN without a successful measurement.\<close>

definition measured_or_nan :: "int \<Rightarrow> float64 \<Rightarrow> float64" where
  "measured_or_nan status v = (if status = 1 then v else NaN)"

definition latency_labels :: "wg_interface \<Rightarrow> string \<Rightarrow> string list" where
  "latency_labels i protocol =
     [protocol, wg_LocalID i, wg_RemoteID i, wg_IPVersion i, generatePathName (wg_LocalID i) (wg_RemoteID i)]"

definition generateLatencyMetrics :: "latency_result \<Rightarrow> wg_interface \<Rightarrow> gauges \<Rightarrow> gauges" where
  "generateLatencyMetrics r i =
     (let labels = latency_labels i (lt_Protocol r); v = measured_or_nan (lt_Status r)
      in set_gauge ''network_latency_jitter'' labels (v (f_of_int (lt_Jitter r))) \<circ>
         set_gauge ''network_latency_duration'' labels (v (f_of_int (lt_AvgLatency r))) \<circ>
         set_gauge ''network_latency_loss'' labels (v (lt_Loss r)) \<circ>
         set_gauge ''network_latency_status'' labels (f_of_int (lt_Status r)))"

definition unregisterLatencyMetrics :: "wg_interface \<Rightarrow> gauges \<Rightarrow> gauges" where
  "unregisterLatencyMetrics i =
     fold (\<lambda>protocol g.
         set_gauge ''network_latency_status'' (latency_labels i protocol) NaN
           (generateLatencyMetrics
              \<lparr>lt_Protocol = protocol, lt_Status = 0, lt_AvgLatency = 0, lt_Jitter = 0, lt_Loss = Fin 0\<rparr> i g))
       [''tcp'', ''icmp'']"

definition path_labels :: "wg_interface \<Rightarrow> string \<Rightarrow> string list" where
  "path_labels i protocol = [protocol, wg_LocalID i, wg_RemoteID i, generatePathName (wg_LocalID i) (wg_RemoteID i)]"

definition generatePathLatencyMetrics :: "measured \<Rightarrow> wg_interface \<Rightarrow> gauges \<Rightarrow> gauges" where
  "generatePathLatencyMetrics r i =
     (let labels = path_labels i (ms_Protocol r); v = measured_or_nan (ms_Status r)
      in set_gauge ''network_path_latency_duration'' labels (v (f_of_int (go_quot (ms_Duration r) 1000))) \<circ>
         set_gauge ''network_path_latency_loss'' labels (v (f_of_int (ms_Loss r))) \<circ>
         set_gauge ''network_path_latency_status'' labels (f_of_int (ms_Status r)))"

definition unregisterPathLatencyMetrics :: "wg_interface \<Rightarrow> gauges \<Rightarrow> gauges" where
  "unregisterPathLatencyMetrics i =
     set_gauge ''network_path_latency_status'' (path_labels i ''pathping'') NaN \<circ> generatePathLatencyMetrics (new_result []) i"

definition bandwidth_labels :: "bw_result \<Rightarrow> wg_interface \<Rightarrow> string list" where
  "bandwidth_labels r i =
     [br_Protocol r, wg_LocalID i, wg_RemoteID i, wg_IPVersion i, itoa (br_TargetBandwidth r), itoa (br_PacketSize r),
      itoa (br_TargetDuration r), generatePathName (wg_LocalID i) (wg_RemoteID i)]"

definition generateBandwidthMetrics :: "bw_result \<Rightarrow> wg_interface \<Rightarrow> gauges \<Rightarrow> gauges" where
  "generateBandwidthMetrics r i =
     (let labels = bandwidth_labels r i; v = measured_or_nan (br_Status r)
      in set_gauge ''network_bandwidth_out_of_order'' labels (v (br_OutOfOrder r)) \<circ>
         set_gauge ''network_bandwidth_result'' labels (v (f_of_int (br_Bandwidth r))) \<circ>
         set_gauge ''network_bandwidth_packet_loss'' labels (v (br_Loss r)) \<circ>
         set_gauge ''network_bandwidth_jitter'' labels (v (br_Jitter r)) \<circ>
         set_gauge ''network_bandwidth_status'' labels (f_of_int (br_Status r)))"

definition unregisterBandwidthMetrics :: "bw_result \<Rightarrow> wg_interface \<Rightarrow> gauges \<Rightarrow> gauges" where
  "unregisterBandwidthMetrics r i =
     set_gauge ''network_bandwidth_status'' (bandwidth_labels r i) NaN \<circ>
     generateBandwidthMetrics
       (zero_bw_result\<lparr>br_Protocol := br_Protocol r, br_TargetBandwidth := br_TargetBandwidth r, br_PacketSize := br_PacketSize r,
          br_TargetDuration := br_TargetDuration r\<rparr>) i"

section \<open>The loops of the workers\<close>

text \<open>
  Before its loop a worker sleeps for a part of five or fifty seconds that \<open>hash\<close>, which is \<open>xxhash.Sum64String\<close>, picks from
  its addresses: the hash as a float over \<open>2 ^ 64\<close>.
\<close>

definition worker_key :: "wg_interface \<Rightarrow> string \<Rightarrow> string \<Rightarrow> int \<Rightarrow> string" where
  "worker_key i sourceIP targetIP targetPort =
     ''iface='' @ wg_Name i @ '', sourceIP='' @ sourceIP @ '', targetIP='' @ targetIP @ '', targetPort='' @ itoa targetPort"

definition path_worker_key :: "string \<Rightarrow> string \<Rightarrow> string" where
  "path_worker_key sourceIP targetIP = ''sourceIP='' @ sourceIP @ '', targetIP='' @ targetIP"

definition randSleep :: "(string \<Rightarrow> 64 word) \<Rightarrow> int \<Rightarrow> string \<Rightarrow> int" where
  "randSleep hash longest key = f_trunc (fmul (f_of_int longest) (fdiv (f_of_int (uint (hash key))) (Fin (2 ^ 64))))"

definition bandwidth_sleep :: "(string \<Rightarrow> 64 word) \<Rightarrow> wg_interface \<Rightarrow> string \<Rightarrow> string \<Rightarrow> int \<Rightarrow> int" where
  "bandwidth_sleep hash i sourceIP targetIP targetPort = randSleep hash (50 * second) (worker_key i sourceIP targetIP targetPort)"

definition latency_sleep :: "(string \<Rightarrow> 64 word) \<Rightarrow> wg_interface \<Rightarrow> string \<Rightarrow> string \<Rightarrow> int \<Rightarrow> int" where
  "latency_sleep hash i sourceIP targetIP targetPort = randSleep hash (5 * second) (worker_key i sourceIP targetIP targetPort)"

definition path_sleep :: "(string \<Rightarrow> 64 word) \<Rightarrow> string \<Rightarrow> string \<Rightarrow> int" where
  "path_sleep hash sourceIP targetIP = randSleep hash (5 * second) (path_worker_key sourceIP targetIP)"

lemma round64_between:
  assumes "0 \<le> x" "x \<le> y" "round64 y = Fin y"
  shows "\<exists>q. round64 x = Fin q \<and> 0 \<le> q \<and> q \<le> y"
proof -
  have "round64 0 = Fin 0" using round64_small_int [of 0] by simp
  then have "Fin 0 \<le> round64 x" "round64 x \<le> Fin y"
    using round64_mono [of 0 x] round64_mono [OF assms(1,2)] assms by simp_all
  then show ?thesis by (cases "round64 x") simp_all
qed

text \<open>The rounding never makes the sleep longer than it may be.\<close>

lemma randSleep_bounds:
  assumes "0 \<le> longest" "longest \<le> 2 ^ 53"
  shows "0 \<le> randSleep hash longest key \<and> randSleep hash longest key \<le> longest"
proof -
  let ?h = "of_int (uint (hash key)) :: rat"
  have big: "round64 (2 ^ 64) = Fin (2 ^ 64)" by code_simp
  have one: "round64 1 = Fin 1" using round64_small_int [of 1] by simp
  have top: "round64 (of_int longest) = Fin (of_int longest)" by (rule round64_small_int [OF assms])
  have "uint (hash key) \<le> 2 ^ 64" using uint_lt2p [of "hash key"] by simp
  then have "(of_int (uint (hash key)) :: rat) \<le> of_int (2 ^ 64)" by (simp only: of_int_le_iff)
  then have h: "0 \<le> ?h" "?h \<le> 2 ^ 64" by (simp_all only: of_int_0_le_iff uint_ge_0 of_int_power of_int_numeral)
  obtain q where q: "f_of_int (uint (hash key)) = Fin q" "0 \<le> q" "q \<le> 2 ^ 64"
    using round64_between [OF h big] by (auto simp: f_of_int_def)
  have "0 \<le> q / 2 ^ 64" "q / 2 ^ 64 \<le> 1" using q by simp_all
  from round64_between [OF this one] obtain p where p: "fdiv (Fin q) (Fin (2 ^ 64)) = Fin p" "0 \<le> p" "p \<le> 1" by auto
  have "0 \<le> of_int longest * p" "of_int longest * p \<le> of_int longest" using p assms(1) by (simp_all add: mult_left_le)
  from round64_between [OF this top] obtain x where x: "fmul (f_of_int longest) (Fin p) = Fin x" "0 \<le> x" "x \<le> of_int longest"
    by (auto simp: f_of_int_def top)
  then have "randSleep hash longest key = \<lfloor>x\<rfloor>" by (simp only: randSleep_def q(1) p(1) f_trunc.simps if_True)
  then show ?thesis using x(2,3) by (simp add: floor_le_iff)
qed

text \<open>
  The shared flag \<open>working\<close> of a worker and the gauges. A tick of the latency worker runs both measurements side by side; they
  write different gauges, so their order does not matter.
\<close>

record worker_world =
  ww_gauges :: gauges
  ww_working :: bool

definition latency_tick :: "wg_interface \<Rightarrow> latency_result \<Rightarrow> latency_result \<Rightarrow> worker_world \<Rightarrow> worker_world" where
  "latency_tick i tcp icmp w =
     w\<lparr>ww_working := (lt_Status tcp = 1),
       ww_gauges := generateLatencyMetrics icmp i (generateLatencyMetrics tcp i (ww_gauges w))\<rparr>"

datatype 'r worker_event = Tick 'r | StopWorker

text \<open>A loop goes on while the step returns true.\<close>

definition latency_worker ::
    "wg_interface \<Rightarrow> ((nat \<Rightarrow> int option) \<times> (go_error + int \<times> int \<times> float64)) worker_event \<Rightarrow> worker_world \<Rightarrow> bool \<times> worker_world" where
  "latency_worker i ev w =
     (case ev of
        Tick (dial, ping) \<Rightarrow> (True, latency_tick i (fst (MeasureTCP dial)) (fst (MeasureICMP ping)) w)
      | StopWorker \<Rightarrow> (False, w\<lparr>ww_gauges := unregisterLatencyMetrics i (ww_gauges w)\<rparr>))"

definition path_worker :: "wg_interface \<Rightarrow> (measured \<times> go_error option) worker_event \<Rightarrow> worker_world \<Rightarrow> bool \<times> worker_world" where
  "path_worker i ev w =
     (case ev of
        Tick (r, e) \<Rightarrow> (True, w\<lparr>ww_gauges := generatePathLatencyMetrics r i (ww_gauges w)\<rparr>)
      | StopWorker \<Rightarrow> (False, w\<lparr>ww_gauges := unregisterPathLatencyMetrics i (ww_gauges w)\<rparr>))"

text \<open>The path of the path worker and the options of its client.\<close>

definition path_worker_path :: "wg_interface \<Rightarrow> int list" where
  "path_worker_path i = [wg_LocalIDInt i, wg_RemoteIDInt i, wg_LocalIDInt i]"

definition path_worker_client :: ping_client where
  "path_worker_client = NewClient 10 250000000"

text \<open>The bandwidth worker keeps its last result; the first measurement runs whatever the flag says.\<close>

definition bandwidth_worker ::
    "wg_interface \<Rightarrow> bool \<Rightarrow> bw_result worker_event \<Rightarrow> bw_result \<Rightarrow> worker_world \<Rightarrow> (bool \<times> bw_result) \<times> worker_world" where
  "bandwidth_worker i first ev last_result w =
     (case ev of
        Tick r \<Rightarrow>
          (if first \<or> ww_working w then ((True, r), w\<lparr>ww_gauges := generateBandwidthMetrics r i (ww_gauges w)\<rparr>)
           else
             let r' = last_result\<lparr>br_Status := 0\<rparr>
             in ((True, r'), w\<lparr>ww_gauges := generateBandwidthMetrics r' i (ww_gauges w)\<rparr>))
      | StopWorker \<Rightarrow> ((False, last_result), w\<lparr>ww_gauges := unregisterBandwidthMetrics last_result i (ww_gauges w)\<rparr>))"

section \<open>measure.go\<close>

text \<open>
  A worker has an identity, that of its stop channel; \<open>mg_closed\<close> is the set of closed ones and \<open>mg_started\<close> the
  goroutines started, each of which has bound its worker. The stop channels of the sites have numbers of their own;
  \<open>mg_closedSites\<close> is the set of closed ones.
\<close>

record worker =
  wk_id :: nat
  wk_iface :: wg_interface
  wk_sourceIP :: string
  wk_targetIP :: string
  wk_targetPort :: int

record site =
  st_siteID :: string
  st_interfaceWorkers :: "string \<rightharpoonup> worker"
  st_siteWorker :: worker
  st_stopCh :: nat

datatype worker_kind = PathLatencyWorker | BandwidthWorker | LatencyWorker

record manager =
  mg_sites :: "int \<rightharpoonup> site"
  mg_closed :: "nat set"
  mg_started :: "(worker_kind \<times> worker) set"
  mg_next :: nat
  mg_closedSites :: "nat set"
  mg_nextSite :: nat

definition NewManager :: manager where
  "NewManager = \<lparr>mg_sites = Map.empty, mg_closed = {}, mg_started = {}, mg_next = 0, mg_closedSites = {}, mg_nextSite = 0\<rparr>"

definition currentIfaces :: "wg_interface list \<Rightarrow> int \<Rightarrow> string set" where
  "currentIfaces ifaces r = {wg_Name i |i. i \<in> set ifaces \<and> wg_RemoteIDInt i = r}"

text \<open>\<open>close(w.stopCh)\<close> panics on a closed channel.\<close>

definition close_worker :: "worker \<Rightarrow> manager \<Rightarrow> manager go" where
  "close_worker w m =
     (if wk_id w \<in> mg_closed m then Inl (Panic ChannelClosed) else Inr (m\<lparr>mg_closed := insert (wk_id w) (mg_closed m)\<rparr>))"

definition close_site :: "site \<Rightarrow> manager \<Rightarrow> manager go" where
  "close_site s m =
     (if st_stopCh s \<in> mg_closedSites m then Inl (Panic ChannelClosed)
      else Inr (m\<lparr>mg_closedSites := insert (st_stopCh s) (mg_closedSites m)\<rparr>))"

text \<open>
  \<open>stop\<close>: the workers of the interfaces, in the order of the range, then the channel of the site. What it waits for in
  between, at most five seconds, is left out.
\<close>

definition close_workers :: "string list \<Rightarrow> site \<Rightarrow> manager \<Rightarrow> manager go" where
  "close_workers order s m =
     go_fold (\<lambda>name m. case st_interfaceWorkers s name of None \<Rightarrow> Inr m | Some w \<Rightarrow> close_worker w m) order m"

definition site_stop :: "string list \<Rightarrow> site \<Rightarrow> manager \<Rightarrow> manager go" where
  "site_stop order s m = go_bind (close_workers order s m) (close_site s)"

definition put_site :: "int \<Rightarrow> site option \<Rightarrow> manager \<Rightarrow> manager" where
  "put_site r s m = m\<lparr>mg_sites := (mg_sites m)(r := s)\<rparr>"

definition manager_remove :: "(site \<Rightarrow> string list) \<Rightarrow> wg_interface list \<Rightarrow> int \<Rightarrow> manager \<Rightarrow> manager go" where
  "manager_remove order ifaces r m =
     (case mg_sites m r of
        None \<Rightarrow> Inr m
      | Some s \<Rightarrow>
          (let name = wg_Name (wk_iface (st_siteWorker s))
           in if currentIfaces ifaces r = {} then go_bind (site_stop (order s) s m) (\<lambda>m'. Inr (put_site r None m'))
              else if name \<in> currentIfaces ifaces r then Inr m
              else (case st_interfaceWorkers s name of
                      None \<Rightarrow> Inl (Panic NilDereference)
                    | Some w \<Rightarrow>
                        go_bind (close_worker w m)
                          (\<lambda>m'. Inr (put_site r (Some (s\<lparr>st_interfaceWorkers := (st_interfaceWorkers s)(name := None)\<rparr>)) m')))))"

definition new_worker :: "wg_interface \<Rightarrow> string \<Rightarrow> nat \<Rightarrow> worker" where
  "new_worker i host n =
     \<lparr>wk_id = n, wk_iface = i, wk_sourceIP = ''10.201.'' @ wg_LocalID i @ ''.'' @ host,
      wk_targetIP = ''10.201.'' @ wg_RemoteID i @ ''.'' @ host, wk_targetPort = 22\<rparr>"

definition manager_add :: "wg_interface \<Rightarrow> manager \<Rightarrow> manager" where
  "manager_add i m =
     (let r = wg_RemoteIDInt i
      in case mg_sites m r of
           None \<Rightarrow>
             (let sw = new_worker i ''1'' (mg_next m); iw = new_worker i (wg_IPVersion i) (Suc (mg_next m));
                  s = \<lparr>st_siteID = wg_RemoteID i, st_interfaceWorkers = [wg_Name i \<mapsto> iw], st_siteWorker = sw,
                       st_stopCh = mg_nextSite m\<rparr>
              in (put_site r (Some s) m)
                   \<lparr>mg_started := mg_started m \<union> {(PathLatencyWorker, sw), (BandwidthWorker, iw), (LatencyWorker, iw)},
                    mg_next := mg_next m + 2, mg_nextSite := Suc (mg_nextSite m)\<rparr>)
         | Some s \<Rightarrow>
             (case st_interfaceWorkers s (wg_Name i) of
                Some w \<Rightarrow> m
              | None \<Rightarrow>
                  (let iw = new_worker i (wg_IPVersion i) (mg_next m)
                   in (put_site r (Some (s\<lparr>st_interfaceWorkers := (st_interfaceWorkers s)(wg_Name i \<mapsto> iw)\<rparr>)) m)
                        \<lparr>mg_started := mg_started m \<union> {(BandwidthWorker, iw), (LatencyWorker, iw)}, mg_next := Suc (mg_next m)\<rparr>)))"

text \<open>One cycle: removals in the order of the range over the sites, then additions. An error of listing skips the cycle.\<close>

definition manageWorkers ::
    "(manager \<Rightarrow> int list) \<Rightarrow> (site \<Rightarrow> string list) \<Rightarrow> interfaces \<Rightarrow> manager \<Rightarrow> manager go" where
  "manageWorkers sites_order order ifs m =
     (case GetAllWGInterfaces ifs of
        Inl (Panic x) \<Rightarrow> Inl (Panic x)
      | Inl (Err e) \<Rightarrow> Inr m
      | Inr ifaces \<Rightarrow>
          go_bind (go_fold (manager_remove order ifaces) (sites_order m) m) (\<lambda>m'. Inr (fold manager_add ifaces m')))"

text \<open>The loop: a cycle at the start and at each tick or update; on stop all sites are stopped.\<close>

datatype manager_event = Cycle interfaces | StopManager

definition manager_step ::
    "(manager \<Rightarrow> int list) \<Rightarrow> (site \<Rightarrow> string list) \<Rightarrow> manager_event \<Rightarrow> manager \<Rightarrow> (bool \<times> manager) go" where
  "manager_step sites_order order ev m =
     (case ev of
        Cycle ifs \<Rightarrow> go_bind (manageWorkers sites_order order ifs m) (\<lambda>m'. Inr (True, m'))
      | StopManager \<Rightarrow>
          go_bind (go_fold (\<lambda>r m. case mg_sites m r of None \<Rightarrow> Inr m | Some s \<Rightarrow> site_stop (order s) s m) (sites_order m) m)
            (\<lambda>m'. Inr (False, m')))"

text \<open>\<open>Start\<close> collects the errors of the services, in the order they are sent, once all have returned.\<close>

definition manager_Start :: "go_error option list \<Rightarrow> go_error option" where
  "manager_Start results =
     (if List.map_filter id results \<noteq> [] then Some (Errorf ''failed to start services'') else None)"

section \<open>TCP latency\<close>

lemma sum_list_bounds:
  assumes "\<forall>x\<in>set xs. lo \<le> x \<and> x \<le> (hi :: int)"
  shows "lo * int (length xs) \<le> sum_list xs \<and> sum_list xs \<le> hi * int (length xs)"
  using assms by (induction xs) (auto simp: algebra_simps)

lemma average_bounds:
  assumes "xs \<noteq> []" "0 \<le> lo" "\<forall>x\<in>set xs. lo \<le> x \<and> x \<le> (hi :: int)"
  shows "lo \<le> go_quot (sum_list xs) (int (length xs)) \<and> go_quot (sum_list xs) (int (length xs)) \<le> hi"
proof -
  have n: "0 < int (length xs)" using assms(1) by simp
  note b = sum_list_bounds [OF assms(3)]
  have "0 \<le> lo * int (length xs)" using assms(2) by simp
  with b have "0 \<le> sum_list xs" by linarith
  then have q: "go_quot (sum_list xs) (int (length xs)) = sum_list xs div int (length xs)" by (rule go_quot_nonneg [OF _ n])
  have "lo * int (length xs) div int (length xs) \<le> sum_list xs div int (length xs)" by (rule zdiv_mono1) (use b n in auto)
  moreover have "sum_list xs div int (length xs) \<le> hi * int (length xs) div int (length xs)" by (rule zdiv_mono1) (use b n in auto)
  ultimately show ?thesis using n by (simp add: q)
qed

lemma set_map_filter: "set (List.map_filter f xs) = {y. \<exists>x\<in>set xs. f x = Some y}"
  by (induction xs) (auto simp: List.map_filter_simps split: option.splits)

text \<open>
  C32. A TCP measurement succeeds exactly when one of its ten attempts connects; its latency then lies between the fastest and
  the slowest of the attempts that did, its jitter is at most their difference, and its loss is the share of the others.
\<close>

theorem MeasureTCP_bounds:
  assumes "0 \<le> lo" "\<forall>i l. dial i = Some l \<longrightarrow> lo \<le> l \<and> l \<le> hi"
  shows "let r = fst (MeasureTCP dial); ok = filter (\<lambda>i. dial i \<noteq> None) [0..<10]
    in (lt_Status r = 1 \<longleftrightarrow> ok \<noteq> []) \<and> (ok \<noteq> [] \<longrightarrow> lo \<le> lt_AvgLatency r \<and> lt_AvgLatency r \<le> hi \<and> 0 \<le> lt_Jitter r \<and> lt_Jitter r \<le> hi - lo \<and>
        lt_Loss r = fmul (fdiv (f_of_int (10 - int (length ok))) (f_of_int 10)) (Fin 100))"
proof -
  let ?l = "List.map_filter dial [0..<10]" and ?ok = "filter (\<lambda>i. dial i \<noteq> None) [0..<10]"
  have len: "length ?l = length ?ok" by (simp add: map_filter_def o_def)
  have b: "\<forall>x\<in>set ?l. lo \<le> x \<and> x \<le> hi" using assms(2) by (auto simp: set_map_filter)
  show ?thesis
  proof (cases "?ok = []")
    case True
    then have "?l = []" using len by simp
    then show ?thesis using True by (simp add: MeasureTCP_def attempts_def)
  next
    case False
    then have ne: "?l \<noteq> []" using len by (metis length_0_conv)
    let ?avg = "go_quot (sum_list ?l) (int (length ?l))"
    let ?dev = "map (\<lambda>l. let d = l - ?avg in if d < 0 then - d else d) ?l"
    have a: "lo \<le> ?avg" "?avg \<le> hi" using average_bounds [OF ne assms(1) b] by simp_all
    have "\<forall>x\<in>set ?dev. 0 \<le> x \<and> x \<le> hi - lo" using b a by (auto simp: Let_def)
    from average_bounds [OF _ order_refl this] ne have j: "0 \<le> go_quot (sum_list ?dev) (int (length ?l))"
      "go_quot (sum_list ?dev) (int (length ?l)) \<le> hi - lo" by simp_all
    show ?thesis using False ne a j by (simp add: MeasureTCP_def attempts_def Let_def len del: upt_Suc)
  qed
qed

theorem MeasureTCP_bounds_witness:
  "let r = fst (MeasureTCP (\<lambda>i. if i < 7 then Some (100 + int i) else None))
   in lt_Status r = 1 \<and> 100 \<le> lt_AvgLatency r \<and> lt_AvgLatency r \<le> 106 \<and> lt_Jitter r \<le> 6"
proof -
  let ?dial = "\<lambda>i. if i < 7 then Some (100 + int i) else None"
  have "\<forall>i l. ?dial i = Some l \<longrightarrow> 100 \<le> l \<and> l \<le> 106" by auto
  from MeasureTCP_bounds [OF _ this] show ?thesis by (simp add: Let_def upt_rec)
qed

section \<open>The names of paths\<close>

lemma digits_foldl: "foldl (\<lambda>n c. 10 * n + digit_val c) k s = k * 10 ^ length s + digits_val s"
proof (induction s arbitrary: k)
  case (Cons d s)
  have "digits_val (d # s) = digit_val d * 10 ^ length s + digits_val s"
    using Cons [of "digit_val d"] by (simp add: digits_val_def)
  then show ?case using Cons [of "10 * k + digit_val d"] by (simp add: algebra_simps)
qed (simp add: digits_val_def)

lemma digits_val_Cons: "digits_val (c # s) = digit_val c * 10 ^ length s + digits_val s"
  using digits_foldl [of "digit_val c" s] by (simp add: digits_val_def)

lemma digits_val_less: "list_all is_digit s \<Longrightarrow> digits_val s < 10 ^ length s"
proof (induction s)
  case (Cons c s)
  then have "digit_val c \<le> 9" "digits_val s < 10 ^ length s" by (auto simp: is_digit_def digit_val_def)
  then have "digit_val c * 10 ^ length s + digits_val s < 9 * 10 ^ length s + 10 ^ length s"
    by (intro add_le_less_mono mult_right_mono) simp_all
  then show ?case by (simp add: digits_val_Cons)
qed (simp add: digits_val_def)

lemma str_less_digits:
  "length s = length t \<Longrightarrow> list_all is_digit s \<Longrightarrow> list_all is_digit t \<Longrightarrow> str_less s t \<longleftrightarrow> digits_val s < digits_val t"
proof (induction s t rule: list_induct2)
  case (Cons c s d t)
  have lt: "digits_val s < 10 ^ length t" "digits_val t < 10 ^ length t"
    using Cons digits_val_less [of s] digits_val_less [of t] by simp_all
  have cd: "(of_char c :: nat) < of_char d \<longleftrightarrow> digit_val c < digit_val d" "c = d \<longleftrightarrow> digit_val c = digit_val d"
    using Cons.prems by (auto simp: is_digit_def digit_val_def) (metis eq_diff_iff of_char_eq_iff)
  have "x * 10 ^ length t + p < y * 10 ^ length t + q" if "x < y" "p < 10 ^ length t" for x y p q :: nat
  proof -
    have "Suc x * 10 ^ length t \<le> y * 10 ^ length t" using that(1) by (intro mult_right_mono) simp_all
    then show ?thesis using that(2) by simp
  qed
  from this [of "digit_val c" "digit_val d" "digits_val s" "digits_val t"] this [of "digit_val d" "digit_val c" "digits_val t" "digits_val s"]
    lt Cons cd show ?case
    by (cases "digit_val c" "digit_val d" rule: linorder_cases) (auto simp: digits_val_Cons)
qed (simp add: digits_val_def)

text \<open>
  C40. The two halves of the program name a path differently. The gauges order the two site numbers as strings, the queries as
  numbers: for numbers of the same length the names agree, but between a site 2 to 9 and a site 10 to 19 they never do, so
  that no query finds the metrics of these paths.
\<close>

theorem path_names:
  assumes "0 \<le> a" "0 \<le> b"
  shows "(length (itoa a) = length (itoa b) \<longrightarrow> generatePathName (itoa a) (itoa b) = GetPathLabel a b) \<and>
    (2 \<le> a \<and> a \<le> 9 \<and> 10 \<le> b \<and> b \<le> 19 \<longrightarrow> generatePathName (itoa a) (itoa b) \<noteq> GetPathLabel a b)"
proof (intro conjI impI)
  assume len: "length (itoa a) = length (itoa b)"
  have "list_all is_digit (nat_digits n)" for n using nat_digits_digit by (auto simp: list_all_iff)
  then have "str_less (itoa b) (itoa a) \<longleftrightarrow> nat b < nat a"
    using str_less_digits [of "itoa b" "itoa a"] len assms by (simp add: itoa_nonneg digits_val_nat_digits)
  then show "generatePathName (itoa a) (itoa b) = GetPathLabel a b"
    using assms by (auto simp: generatePathName_def GetPathLabel_def)
next
  assume r: "2 \<le> a \<and> a \<le> 9 \<and> 10 \<le> b \<and> b \<le> 19"
  have "list_all (\<lambda>a. list_all (\<lambda>b. generatePathName (itoa a) (itoa b) \<noteq> GetPathLabel a b)
      [10, 11, 12, 13, 14, 15, 16, 17, 18, 19]) [2, 3, 4, 5, 6, 7, 8, 9]" by code_simp
  moreover have "a \<in> set [2, 3, 4, 5, 6, 7, 8, 9]" "b \<in> set [10, 11, 12, 13, 14, 15, 16, 17, 18, 19]" using r by (simp_all, presburger+)
  ultimately show "generatePathName (itoa a) (itoa b) \<noteq> GetPathLabel a b" unfolding list_all_iff by blast
qed

theorem path_names_witness:
  "generatePathName ''12'' ''10'' = GetPathLabel 12 10 \<and> generatePathName ''9'' ''10'' \<noteq> GetPathLabel 9 10"
proof -
  have t: "itoa 12 = ''12''" "itoa 10 = ''10''" "itoa 9 = ''9''" by code_simp+
  show ?thesis using path_names [of 12 10] path_names [of 9 10] by (simp add: t)
qed

section \<open>Sites and workers\<close>

text \<open>
  The workers the manager holds: one for each site and one for each of its interfaces. Each is its own, runs its goroutines and is not stopped.
\<close>

datatype slot = SiteSlot int | InterfaceSlot int string

fun slot_site :: "slot \<Rightarrow> int" where
  "slot_site (SiteSlot r) = r"
| "slot_site (InterfaceSlot r name) = r"

fun slot_worker :: "manager \<Rightarrow> slot \<Rightarrow> worker option" where
  "slot_worker m (SiteSlot r) = map_option st_siteWorker (mg_sites m r)"
| "slot_worker m (InterfaceSlot r name) = (case mg_sites m r of None \<Rightarrow> None | Some s \<Rightarrow> st_interfaceWorkers s name)"

fun runs :: "manager \<Rightarrow> slot \<Rightarrow> worker \<Rightarrow> bool" where
  "runs m (SiteSlot r) w \<longleftrightarrow> (PathLatencyWorker, w) \<in> mg_started m"
| "runs m (InterfaceSlot r name) w \<longleftrightarrow>
     wg_Name (wk_iface w) = name \<and> (BandwidthWorker, w) \<in> mg_started m \<and> (LatencyWorker, w) \<in> mg_started m"

definition slot_ok :: "manager \<Rightarrow> slot \<Rightarrow> worker \<Rightarrow> bool" where
  "slot_ok m k w \<longleftrightarrow> wk_id w < mg_next m \<and> wk_id w \<notin> mg_closed m \<and> wg_RemoteIDInt (wk_iface w) = slot_site k \<and> runs m k w"

definition sites_finite :: "manager \<Rightarrow> bool" where
  "sites_finite m \<longleftrightarrow> finite (dom (mg_sites m)) \<and> (\<forall>s\<in>ran (mg_sites m). finite (dom (st_interfaceWorkers s)))"

definition manager_ok :: "manager \<Rightarrow> bool" where
  "manager_ok m \<longleftrightarrow> sites_finite m \<and> (\<forall>k w. slot_worker m k = Some w \<longrightarrow> slot_ok m k w) \<and>
     (\<forall>k k' w w'. slot_worker m k = Some w \<longrightarrow> slot_worker m k' = Some w' \<longrightarrow> wk_id w = wk_id w' \<longrightarrow> k = k')"

lemma manager_ok_new: "manager_ok NewManager"
proof -
  have "slot_worker NewManager k = None" for k by (cases k) (simp_all add: NewManager_def)
  then show ?thesis by (simp add: manager_ok_def sites_finite_def NewManager_def)
qed

lemma slot_ok_more:
  "slot_ok m k w \<Longrightarrow> mg_closed m' = mg_closed m \<Longrightarrow> mg_started m \<subseteq> mg_started m' \<Longrightarrow> mg_next m \<le> mg_next m' \<Longrightarrow> slot_ok m' k w"
  by (cases k) (auto simp: slot_ok_def)

text \<open>New workers with new identities.\<close>

lemma manager_ok_extend:
  assumes ok: "manager_ok m" and "sites_finite m'" and slots: "slot_worker m' = slot_worker m ++ N"
    and same: "mg_closed m' = mg_closed m" "mg_started m \<subseteq> mg_started m'" "mg_next m \<le> mg_next m'"
    and fresh: "\<And>k w. N k = Some w \<Longrightarrow> mg_next m \<le> wk_id w \<and> slot_ok m' k w"
    and inj: "\<And>k k' w w'. N k = Some w \<Longrightarrow> N k' = Some w' \<Longrightarrow> wk_id w = wk_id w' \<Longrightarrow> k = k'"
  shows "manager_ok m'"
proof -
  have old: "slot_ok m k w" if "slot_worker m k = Some w" for k w using ok that unfolding manager_ok_def by blast
  have "slot_ok m' k w" if "slot_worker m' k = Some w" for k w
    using that fresh old slot_ok_more [OF _ same] by (auto simp: slots map_add_Some_iff)
  moreover have "k = k'" if a: "slot_worker m' k = Some w" "slot_worker m' k' = Some w'" "wk_id w = wk_id w'" for k k' w w'
  proof -
    have new: "\<not> slot_worker m j = Some v" if "N j' = Some v'" "wk_id v = wk_id v'" for j j' v v'
      using fresh [OF that(1)] that(2) old [of j v] by (auto simp: slot_ok_def)
    consider "N k = Some w" "N k' = Some w'" | "N k = Some w" "slot_worker m k' = Some w'"
      | "slot_worker m k = Some w" "N k' = Some w'" | "slot_worker m k = Some w" "slot_worker m k' = Some w'"
      using a(1,2) unfolding slots map_add_Some_iff by blast
    then show ?thesis
      by cases (use a(3) inj new ok in \<open>unfold manager_ok_def; metis\<close>)+
  qed
  ultimately show ?thesis using assms(2) unfolding manager_ok_def by blast
qed

text \<open>Fewer workers, some identities closed.\<close>

lemma manager_ok_shrink:
  assumes ok: "manager_ok m" and "sites_finite m'" and slots: "slot_worker m' \<subseteq>\<^sub>m slot_worker m"
    and same: "mg_started m' = mg_started m" "mg_next m' = mg_next m"
    and closed: "\<And>k w. slot_worker m' k = Some w \<Longrightarrow> wk_id w \<notin> mg_closed m'"
  shows "manager_ok m'"
proof -
  have sub: "slot_worker m k = Some w" if "slot_worker m' k = Some w" for k w
    using slots that by (metis domI map_le_def)
  have "slot_ok m' k w" if "slot_worker m' k = Some w" for k w
  proof -
    have "slot_ok m k w" using sub [OF that] ok unfolding manager_ok_def by blast
    then show ?thesis using closed [OF that] same by (cases k) (simp_all add: slot_ok_def)
  qed
  moreover have "k = k'" if "slot_worker m' k = Some w" "slot_worker m' k' = Some w'" "wk_id w = wk_id w'" for k k' w w'
    using sub [OF that(1)] sub [OF that(2)] that(3) ok unfolding manager_ok_def by blast
  ultimately show ?thesis using assms(2) unfolding manager_ok_def by blast
qed

lemma slot_worker_put:
  assumes "mg_sites m' = (mg_sites m)(r \<mapsto> s)"
  shows "slot_worker m' k =
    (case k of SiteSlot r' \<Rightarrow> if r' = r then Some (st_siteWorker s) else slot_worker m k
     | InterfaceSlot r' name \<Rightarrow> if r' = r then st_interfaceWorkers s name else slot_worker m k)"
  using assms by (cases k) simp_all

lemma manager_add_slots:
  "\<exists>N. slot_worker (manager_add i m) = slot_worker m ++ N \<and> dom N \<subseteq> {SiteSlot (wg_RemoteIDInt i), InterfaceSlot (wg_RemoteIDInt i) (wg_Name i)} \<and>
     (\<forall>k w. N k = Some w \<longrightarrow> mg_next m \<le> wk_id w \<and> slot_ok (manager_add i m) k w) \<and>
     (\<forall>k k' w w'. N k = Some w \<longrightarrow> N k' = Some w' \<longrightarrow> wk_id w = wk_id w' \<longrightarrow> k = k') \<and>
     slot_worker (manager_add i m) (InterfaceSlot (wg_RemoteIDInt i) (wg_Name i)) \<noteq> None"
  if closed: "\<forall>j\<in>mg_closed m. j < mg_next m"
proof (cases "mg_sites m (wg_RemoteIDInt i)")
  case None
  let ?N = "[SiteSlot (wg_RemoteIDInt i) \<mapsto> new_worker i ''1'' (mg_next m),
     InterfaceSlot (wg_RemoteIDInt i) (wg_Name i) \<mapsto> new_worker i (wg_IPVersion i) (Suc (mg_next m))]"
  have sites: "mg_sites (manager_add i m) = (mg_sites m)(wg_RemoteIDInt i \<mapsto>
      \<lparr>st_siteID = wg_RemoteID i, st_interfaceWorkers = [wg_Name i \<mapsto> new_worker i (wg_IPVersion i) (Suc (mg_next m))],
       st_siteWorker = new_worker i ''1'' (mg_next m), st_stopCh = mg_nextSite m\<rparr>)"
    using None by (simp add: manager_add_def Let_def put_site_def)
  have "slot_worker (manager_add i m) = slot_worker m ++ ?N"
    by (rule ext) (auto simp: slot_worker_put [OF sites] map_add_def None split: slot.splits)
  moreover have "\<forall>k w. ?N k = Some w \<longrightarrow> mg_next m \<le> wk_id w \<and> slot_ok (manager_add i m) k w"
    using None closed by (auto simp: slot_ok_def manager_add_def Let_def put_site_def new_worker_def)
  moreover have "\<forall>k k' w w'. ?N k = Some w \<longrightarrow> ?N k' = Some w' \<longrightarrow> wk_id w = wk_id w' \<longrightarrow> k = k'"
  proof -
    have id: "k = SiteSlot (wg_RemoteIDInt i) \<and> wk_id w = mg_next m \<or>
        k = InterfaceSlot (wg_RemoteIDInt i) (wg_Name i) \<and> wk_id w = Suc (mg_next m)" if "?N k = Some w" for k w
      using that by (simp add: new_worker_def split: if_splits) (metis worker.select_convs(1))+
    show ?thesis
    proof (intro allI impI)
      fix k k' w w' assume a: "?N k = Some w" "?N k' = Some w'" "wk_id w = wk_id w'"
      from id [OF a(1)] id [OF a(2)] a(3) show "k = k'" by (elim disjE conjE) simp_all
    qed
  qed
  moreover have "dom ?N \<subseteq> {SiteSlot (wg_RemoteIDInt i), InterfaceSlot (wg_RemoteIDInt i) (wg_Name i)}" by simp
  moreover have "slot_worker (manager_add i m) (InterfaceSlot (wg_RemoteIDInt i) (wg_Name i)) \<noteq> None" using sites by simp
  ultimately show ?thesis by blast
next
  case (Some s)
  show ?thesis
  proof (cases "st_interfaceWorkers s (wg_Name i)")
    case None
    let ?N = "[InterfaceSlot (wg_RemoteIDInt i) (wg_Name i) \<mapsto> new_worker i (wg_IPVersion i) (mg_next m)]"
    have sites: "mg_sites (manager_add i m) = (mg_sites m)(wg_RemoteIDInt i \<mapsto>
        s\<lparr>st_interfaceWorkers := (st_interfaceWorkers s)(wg_Name i \<mapsto> new_worker i (wg_IPVersion i) (mg_next m))\<rparr>)"
      using None Some by (simp add: manager_add_def Let_def put_site_def)
    have "slot_worker (manager_add i m) = slot_worker m ++ ?N"
      by (rule ext) (auto simp: slot_worker_put [OF sites] map_add_def Some split: slot.splits)
    moreover have "\<forall>k w. ?N k = Some w \<longrightarrow> mg_next m \<le> wk_id w \<and> slot_ok (manager_add i m) k w"
      using None Some closed by (auto simp: slot_ok_def manager_add_def Let_def put_site_def new_worker_def)
    moreover have "\<forall>k k' w w'. ?N k = Some w \<longrightarrow> ?N k' = Some w' \<longrightarrow> wk_id w = wk_id w' \<longrightarrow> k = k'" by simp
    moreover have "dom ?N \<subseteq> {SiteSlot (wg_RemoteIDInt i), InterfaceSlot (wg_RemoteIDInt i) (wg_Name i)}" by simp
    moreover have "slot_worker (manager_add i m) (InterfaceSlot (wg_RemoteIDInt i) (wg_Name i)) \<noteq> None" using sites by simp
    ultimately show ?thesis by blast
  next
    case (Some w)
    with \<open>mg_sites m _ = _\<close> have "manager_add i m = m" by (simp add: manager_add_def)
    then show ?thesis using Some \<open>mg_sites m _ = _\<close> by (intro exI [of _ Map.empty]) simp
  qed
qed

lemma manager_add_frame:
  "mg_closed (manager_add i m) = mg_closed m" "mg_started m \<subseteq> mg_started (manager_add i m)" "mg_next m \<le> mg_next (manager_add i m)"
  "dom (mg_sites (manager_add i m)) = insert (wg_RemoteIDInt i) (dom (mg_sites m))"
  by (auto simp: manager_add_def Let_def put_site_def split: option.splits if_splits)

lemma manager_add_keeps: "slot_worker m k = Some w \<Longrightarrow> slot_worker (manager_add i m) k = Some w"
proof (cases k)
  case (SiteSlot r)
  show "slot_worker m k = Some w \<Longrightarrow> ?thesis"
    by (auto simp: SiteSlot manager_add_def Let_def put_site_def split: option.splits)
next
  case (InterfaceSlot r name)
  show "slot_worker m k = Some w \<Longrightarrow> ?thesis"
    by (auto simp: InterfaceSlot manager_add_def Let_def put_site_def split: option.splits)
qed

lemma sites_finite_add: "sites_finite m \<Longrightarrow> sites_finite (manager_add i m)"
  by (fastforce simp: sites_finite_def manager_add_def Let_def put_site_def ran_def split: option.splits if_splits)

text \<open>The identities in use and the closed ones are below the next.\<close>

definition ids_below :: "manager \<Rightarrow> bool" where
  "ids_below m \<longleftrightarrow> (\<forall>j\<in>mg_closed m. j < mg_next m)"

definition cycle_ok :: "manager \<Rightarrow> bool" where
  "cycle_ok m \<longleftrightarrow> manager_ok m \<and> ids_below m"

lemma cycle_ok_add:
  assumes "cycle_ok m"
  shows "cycle_ok (manager_add i m)"
proof -
  obtain N where N: "slot_worker (manager_add i m) = slot_worker m ++ N"
    "\<And>k w. N k = Some w \<Longrightarrow> mg_next m \<le> wk_id w \<and> slot_ok (manager_add i m) k w"
    "\<And>k k' w w'. N k = Some w \<Longrightarrow> N k' = Some w' \<Longrightarrow> wk_id w = wk_id w' \<Longrightarrow> k = k'"
    using manager_add_slots [where m = m and i = i] assms unfolding cycle_ok_def ids_below_def by blast
  have ok: "manager_ok m" "sites_finite m" "ids_below m" using assms by (simp_all add: cycle_ok_def manager_ok_def)
  have "manager_ok (manager_add i m)"
    by (rule manager_ok_extend [OF ok(1) sites_finite_add [OF ok(2)] N(1) manager_add_frame(1-3)]) (use N(2,3) in blast)+
  moreover have "ids_below (manager_add i m)"
    using ok(3) manager_add_frame(1,3) [where m = m and i = i] by (auto simp: ids_below_def intro: order.strict_trans2)
  ultimately show ?thesis by (simp add: cycle_ok_def)
qed

lemma additions_ok:
  assumes "cycle_ok m"
  shows "cycle_ok (fold manager_add is m) \<and> mg_closed (fold manager_add is m) = mg_closed m \<and>
    dom (mg_sites (fold manager_add is m)) = dom (mg_sites m) \<union> wg_RemoteIDInt ` set is \<and>
    (\<forall>k w. slot_worker m k = Some w \<longrightarrow> slot_worker (fold manager_add is m) k = Some w) \<and>
    (\<forall>i\<in>set is. slot_worker (fold manager_add is m) (InterfaceSlot (wg_RemoteIDInt i) (wg_Name i)) \<noteq> None) \<and>
    (\<forall>r name. slot_worker (fold manager_add is m) (InterfaceSlot r name) \<noteq> None \<longrightarrow>
       slot_worker m (InterfaceSlot r name) \<noteq> None \<or> name \<in> currentIfaces is r)"
  using assms
proof (induction "is" arbitrary: m)
  case (Cons i js)
  let ?m = "manager_add i m"
  obtain N where N: "slot_worker ?m = slot_worker m ++ N"
    "dom N \<subseteq> {SiteSlot (wg_RemoteIDInt i), InterfaceSlot (wg_RemoteIDInt i) (wg_Name i)}"
    "\<And>k w. N k = Some w \<Longrightarrow> mg_next m \<le> wk_id w"
    "slot_worker ?m (InterfaceSlot (wg_RemoteIDInt i) (wg_Name i)) \<noteq> None"
    using manager_add_slots [where m = m and i = i] Cons.prems unfolding cycle_ok_def ids_below_def by blast
  have keep: "slot_worker ?m k = Some w" if "slot_worker m k = Some w" for k w
    using that by (rule manager_add_keeps)
  have new: "slot_worker m (InterfaceSlot r name) \<noteq> None \<or> r = wg_RemoteIDInt i \<and> name = wg_Name i"
    if "slot_worker ?m (InterfaceSlot r name) \<noteq> None" for r name
    using that N(2) unfolding N(1) by (auto simp: map_add_def dom_def split: option.splits)
  note IH = Cons.IH [OF cycle_ok_add [OF Cons.prems, of i]]
  show ?case
  proof (intro conjI)
    show "cycle_ok (fold manager_add (i # js) m)" using IH by simp
    show "mg_closed (fold manager_add (i # js) m) = mg_closed m" using IH by (simp add: manager_add_frame)
    show "dom (mg_sites (fold manager_add (i # js) m)) = dom (mg_sites m) \<union> wg_RemoteIDInt ` set (i # js)"
      using IH by (simp add: manager_add_frame)
    show "\<forall>k w. slot_worker m k = Some w \<longrightarrow> slot_worker (fold manager_add (i # js) m) k = Some w"
      using IH keep by simp
    show "\<forall>x\<in>set (i # js). slot_worker (fold manager_add (i # js) m) (InterfaceSlot (wg_RemoteIDInt x) (wg_Name x)) \<noteq> None"
    proof
      fix x assume "x \<in> set (i # js)"
      then consider "x = i" | "x \<in> set js" by auto
      then show "slot_worker (fold manager_add (i # js) m) (InterfaceSlot (wg_RemoteIDInt x) (wg_Name x)) \<noteq> None"
      proof cases
        case 1
        from N(4) obtain w where "slot_worker ?m (InterfaceSlot (wg_RemoteIDInt i) (wg_Name i)) = Some w" by blast
        then show ?thesis using IH 1 by (metis fold_simps(2) option.distinct(1))
      next
        case 2
        then show ?thesis using IH by simp
      qed
    qed
    show "\<forall>r name. slot_worker (fold manager_add (i # js) m) (InterfaceSlot r name) \<noteq> None \<longrightarrow>
       slot_worker m (InterfaceSlot r name) \<noteq> None \<or> name \<in> currentIfaces (i # js) r"
    proof (intro allI impI)
      fix r name assume "slot_worker (fold manager_add (i # js) m) (InterfaceSlot r name) \<noteq> None"
      then have "slot_worker ?m (InterfaceSlot r name) \<noteq> None \<or> name \<in> currentIfaces js r" using IH by (simp only: fold_simps) blast
      then show "slot_worker m (InterfaceSlot r name) \<noteq> None \<or> name \<in> currentIfaces (i # js) r"
        using new [of r name] by (auto simp: currentIfaces_def)
    qed
  qed
qed (simp add: currentIfaces_def)

text \<open>What removals may do: they drop workers of interfaces and close exactly those.\<close>

definition removed :: "wg_interface list \<Rightarrow> manager \<Rightarrow> manager \<Rightarrow> bool" where
  "removed ifaces m m' \<longleftrightarrow> mg_started m' = mg_started m \<and> mg_next m' = mg_next m \<and> sites_finite m' \<and>
     slot_worker m' \<subseteq>\<^sub>m slot_worker m \<and> mg_closed m \<subseteq> mg_closed m' \<and>
     (\<forall>j\<in>mg_closed m' - mg_closed m. \<exists>r name w. slot_worker m (InterfaceSlot r name) = Some w \<and> wk_id w = j \<and>
        slot_worker m' (InterfaceSlot r name) = None) \<and>
     (\<forall>r name w. slot_worker m (InterfaceSlot r name) = Some w \<longrightarrow>
        slot_worker m' (InterfaceSlot r name) = Some w \<or> wk_id w \<in> mg_closed m' \<and> name \<notin> currentIfaces ifaces r)"

lemma map_leD: "f \<subseteq>\<^sub>m g \<Longrightarrow> f x = Some y \<Longrightarrow> g x = Some y"
  by (metis domI map_le_def)

lemma map_leI: "(\<And>x y. f x = Some y \<Longrightarrow> g x = Some y) \<Longrightarrow> f \<subseteq>\<^sub>m g"
  by (auto simp: map_le_def)

lemma removed_refl: "sites_finite m \<Longrightarrow> removed ifaces m m"
  by (simp add: removed_def)

lemma removed_trans:
  assumes a: "removed ifaces m m1" and b: "removed ifaces m1 m2"
  shows "removed ifaces m m2"
  unfolding removed_def
proof (intro conjI)
  have sub: "slot_worker m1 \<subseteq>\<^sub>m slot_worker m" "slot_worker m2 \<subseteq>\<^sub>m slot_worker m1" using a b by (simp_all add: removed_def)
  show "mg_started m2 = mg_started m" "mg_next m2 = mg_next m" "sites_finite m2" "mg_closed m \<subseteq> mg_closed m2"
    using a b by (auto simp: removed_def)
  show "slot_worker m2 \<subseteq>\<^sub>m slot_worker m" using sub by (rule map_le_trans [rotated])
  have gone: "slot_worker m2 k = None" if "slot_worker m1 k = None" for k using map_leD [OF sub(2), of k] that by (cases "slot_worker m2 k") auto
  show "\<forall>j\<in>mg_closed m2 - mg_closed m. \<exists>r name w. slot_worker m (InterfaceSlot r name) = Some w \<and> wk_id w = j \<and>
        slot_worker m2 (InterfaceSlot r name) = None"
  proof
    fix j assume j: "j \<in> mg_closed m2 - mg_closed m"
    show "\<exists>r name w. slot_worker m (InterfaceSlot r name) = Some w \<and> wk_id w = j \<and> slot_worker m2 (InterfaceSlot r name) = None"
    proof (cases "j \<in> mg_closed m1")
      case True
      with a j obtain r name w where "slot_worker m (InterfaceSlot r name) = Some w" "wk_id w = j" "slot_worker m1 (InterfaceSlot r name) = None"
        unfolding removed_def by blast
      then show ?thesis using gone by blast
    next
      case False
      with b j obtain r name w where "slot_worker m1 (InterfaceSlot r name) = Some w" "wk_id w = j" "slot_worker m2 (InterfaceSlot r name) = None"
        unfolding removed_def by blast
      then show ?thesis using map_leD [OF sub(1)] by blast
    qed
  qed
  show "\<forall>r name w. slot_worker m (InterfaceSlot r name) = Some w \<longrightarrow>
        slot_worker m2 (InterfaceSlot r name) = Some w \<or> wk_id w \<in> mg_closed m2 \<and> name \<notin> currentIfaces ifaces r"
  proof (intro allI impI)
    fix r name w assume "slot_worker m (InterfaceSlot r name) = Some w"
    then have "slot_worker m1 (InterfaceSlot r name) = Some w \<or> wk_id w \<in> mg_closed m1 \<and> name \<notin> currentIfaces ifaces r"
      using a unfolding removed_def by blast
    moreover have "slot_worker m1 (InterfaceSlot r name) = Some w \<longrightarrow>
        slot_worker m2 (InterfaceSlot r name) = Some w \<or> wk_id w \<in> mg_closed m2 \<and> name \<notin> currentIfaces ifaces r"
      and "mg_closed m1 \<subseteq> mg_closed m2"
      using b unfolding removed_def by blast+
    ultimately show "slot_worker m2 (InterfaceSlot r name) = Some w \<or> wk_id w \<in> mg_closed m2 \<and> name \<notin> currentIfaces ifaces r"
      by blast
  qed
qed

lemma removed_ok:
  assumes ok: "cycle_ok m" and rem: "removed ifaces m m'"
  shows "cycle_ok m'"
proof -
  have m: "manager_ok m" "ids_below m" using ok by (simp_all add: cycle_ok_def)
  have r: "sites_finite m'" "slot_worker m' \<subseteq>\<^sub>m slot_worker m" "mg_started m' = mg_started m" "mg_next m' = mg_next m"
    using rem by (simp_all add: removed_def)
  have slot: "slot_ok m k w" if "slot_worker m k = Some w" for k w using m(1) that unfolding manager_ok_def by blast
  have src: "j \<in> mg_closed m \<or> (\<exists>r name w. slot_worker m (InterfaceSlot r name) = Some w \<and> wk_id w = j \<and>
        slot_worker m' (InterfaceSlot r name) = None)" if "j \<in> mg_closed m'" for j
    using rem that unfolding removed_def by blast
  have "manager_ok m'"
  proof (rule manager_ok_shrink [OF m(1) r])
    fix k w assume kw: "slot_worker m' k = Some w"
    have old: "slot_worker m k = Some w" by (rule map_leD [OF r(2) kw])
    show "wk_id w \<notin> mg_closed m'"
    proof
      assume "wk_id w \<in> mg_closed m'"
      then obtain r name v where "slot_worker m (InterfaceSlot r name) = Some v" "wk_id v = wk_id w" "slot_worker m' (InterfaceSlot r name) = None"
        using src [of "wk_id w"] slot [OF old] unfolding slot_ok_def by blast
      moreover from this have "InterfaceSlot r name = k" using m(1) old unfolding manager_ok_def by blast
      ultimately show False using kw by simp
    qed
  qed
  moreover have "ids_below m'"
    unfolding ids_below_def r(4)
  proof
    fix j assume "j \<in> mg_closed m'"
    from src [OF this] show "j < mg_next m"
      using m(2) slot unfolding ids_below_def slot_ok_def by blast
  qed
  ultimately show ?thesis by (simp add: cycle_ok_def)
qed

lemma close_workers_closes:
  "close_workers order s m = Inr m' \<Longrightarrow>
    m' = m\<lparr>mg_closed := mg_closed m \<union> {wk_id w |name w. name \<in> set order \<and> st_interfaceWorkers s name = Some w}\<rparr>"
proof (induction order arbitrary: m)
  case (Cons n order)
  then show ?case
  proof (cases "st_interfaceWorkers s n")
    case None
    with Cons.prems have "close_workers order s m = Inr m'" by (simp add: close_workers_def)
    moreover have "{wk_id w |x w. (x = n \<or> x \<in> set order) \<and> st_interfaceWorkers s x = Some w} =
        {wk_id w |x w. x \<in> set order \<and> st_interfaceWorkers s x = Some w}" using None by auto
    ultimately show ?thesis using Cons.IH by simp
  next
    case (Some w)
    with Cons.prems have "close_workers order s (m\<lparr>mg_closed := insert (wk_id w) (mg_closed m)\<rparr>) = Inr m'"
      by (auto simp: close_workers_def close_worker_def split: if_splits)
    note IH = Cons.IH [OF this]
    have "{wk_id v |x v. x \<in> set (n # order) \<and> st_interfaceWorkers s x = Some v} =
        insert (wk_id w) {wk_id v |x v. x \<in> set order \<and> st_interfaceWorkers s x = Some v}" using Some by auto
    then show ?thesis using IH by (simp del: list.set(2))
  qed
qed (simp add: close_workers_def)

lemma sites_finite_put: "sites_finite m \<Longrightarrow> (\<And>s. x = Some s \<Longrightarrow> finite (dom (st_interfaceWorkers s))) \<Longrightarrow> sites_finite (put_site r x m)"
  by (cases x) (auto simp: sites_finite_def put_site_def ran_def split: if_splits)

lemma site_stop_all:
  assumes "site_stop order s m = Inr m'" "enumerates order (st_interfaceWorkers s)"
  shows "m' = m\<lparr>mg_closed := mg_closed m \<union> {wk_id w |name w. st_interfaceWorkers s name = Some w},
    mg_closedSites := insert (st_stopCh s) (mg_closedSites m)\<rparr>"
proof -
  obtain m1 where m1: "close_workers order s m = Inr m1" "close_site s m1 = Inr m'"
    using assms(1) by (auto simp: site_stop_def go_bind_eq_Inr)
  have "{wk_id w |name w. name \<in> set order \<and> st_interfaceWorkers s name = Some w} =
      {wk_id w |name w. st_interfaceWorkers s name = Some w}" using assms(2) by (auto simp: enumerates_def)
  with close_workers_closes [OF m1(1)] m1(2) show ?thesis by (simp add: close_site_def split: if_splits)
qed

text \<open>A site is dropped with all its workers, or it loses the worker of one interface.\<close>

lemma removed_drop:
  assumes "sites_finite m" "mg_sites m r = Some s" "currentIfaces ifaces r = {}"
    and m': "m' = (put_site r None m)\<lparr>mg_closed := mg_closed m \<union> {wk_id w |name w. st_interfaceWorkers s name = Some w},
      mg_closedSites := insert (st_stopCh s) (mg_closedSites m)\<rparr>"
  shows "removed ifaces m m'"
proof -
  have slots: "slot_worker m' k = (if slot_site k = r then None else slot_worker m k)" for k
    by (cases k) (simp_all add: m' put_site_def)
  have "sites_finite (put_site r None m)" by (rule sites_finite_put [OF assms(1)]) simp
  then have "sites_finite m'" by (simp add: m' sites_finite_def)
  moreover have "slot_worker m' \<subseteq>\<^sub>m slot_worker m" by (rule map_leI) (simp add: slots split: if_splits)
  moreover have "slot_worker m (InterfaceSlot r name) = st_interfaceWorkers s name" for name using assms(2) by simp
  ultimately show ?thesis
    unfolding removed_def using slots assms(3) by (auto simp: m' put_site_def simp del: slot_worker.simps)
qed

lemma removed_lose:
  assumes fin: "sites_finite m" and s: "mg_sites m r = Some s" "st_interfaceWorkers s name = Some w" "name \<notin> currentIfaces ifaces r"
    and m': "m' = put_site r (Some (s\<lparr>st_interfaceWorkers := (st_interfaceWorkers s)(name := None)\<rparr>))
      (m\<lparr>mg_closed := insert (wk_id w) (mg_closed m)\<rparr>)" (is "_ = put_site r (Some ?s) _")
  shows "removed ifaces m m'"
proof -
  have slots: "slot_worker m' k = (if k = InterfaceSlot r name then None else slot_worker m k)" for k
    using s(1) by (cases k) (auto simp: m' put_site_def)
  have "finite (dom (st_interfaceWorkers s))" using fin s(1) by (auto simp: sites_finite_def ran_def)
  then have "sites_finite (put_site r (Some ?s) m)" by (intro sites_finite_put [OF fin]) auto
  then have "sites_finite m'" by (simp add: m' put_site_def sites_finite_def)
  moreover have "slot_worker m' \<subseteq>\<^sub>m slot_worker m" by (rule map_leI) (simp add: slots split: if_splits)
  moreover have "slot_worker m (InterfaceSlot r name) = Some w" using s by simp
  ultimately show ?thesis
    unfolding removed_def using slots s(3) by (auto simp: m' put_site_def simp del: slot_worker.simps)
qed

lemma manager_remove_removed:
  assumes ok: "cycle_ok m" and ord: "\<forall>s. mg_sites m r = Some s \<longrightarrow> enumerates (order s) (st_interfaceWorkers s)" and run: "manager_remove order ifaces r m = Inr m'"
  shows "removed ifaces m m' \<and> (\<forall>r'. r' \<noteq> r \<longrightarrow> mg_sites m' r' = mg_sites m r') \<and> (mg_sites m' r \<noteq> None \<longrightarrow> currentIfaces ifaces r \<noteq> {}) \<and>
    (mg_sites m r \<noteq> None \<longrightarrow> currentIfaces ifaces r \<noteq> {} \<longrightarrow> mg_sites m' r \<noteq> None)"
proof (cases "mg_sites m r")
  case None
  then show ?thesis using run removed_refl [of m] ok by (simp add: manager_remove_def cycle_ok_def manager_ok_def)
next
  case (Some s)
  have fin: "sites_finite m" using ok by (simp add: cycle_ok_def manager_ok_def)
  let ?name = "wg_Name (wk_iface (st_siteWorker s))"
  consider (gone) "currentIfaces ifaces r = {}" | (keep) "?name \<in> currentIfaces ifaces r" |
    (lost) "currentIfaces ifaces r \<noteq> {}" "?name \<notin> currentIfaces ifaces r" by blast
  then show ?thesis
  proof cases
    case gone
    then obtain m1 where m1: "site_stop (order s) s m = Inr m1" "m' = put_site r None m1"
      using run Some by (auto simp: manager_remove_def Let_def go_bind_eq_Inr)
    have "m' = (put_site r None m)\<lparr>mg_closed := mg_closed m \<union> {wk_id w |name w. st_interfaceWorkers s name = Some w},
        mg_closedSites := insert (st_stopCh s) (mg_closedSites m)\<rparr>"
      using site_stop_all [OF m1(1)] ord Some m1(2) by (simp add: put_site_def)
    with removed_drop [OF fin Some gone this] gone show ?thesis by (simp add: put_site_def)
  next
    case keep
    then have "currentIfaces ifaces r \<noteq> {}" by blast
    then have "m' = m" using run Some keep by (simp add: manager_remove_def Let_def)
    then show ?thesis using removed_refl [OF fin] keep by auto
  next
    case lost
    obtain w where w: "st_interfaceWorkers s ?name = Some w"
      and m': "m' = put_site r (Some (s\<lparr>st_interfaceWorkers := (st_interfaceWorkers s)(?name := None)\<rparr>))
        (m\<lparr>mg_closed := insert (wk_id w) (mg_closed m)\<rparr>)"
      using run Some lost by (auto simp: manager_remove_def Let_def go_bind_eq_Inr close_worker_def split: option.splits if_splits)
    from removed_lose [OF fin Some w lost(2) m'] lost m' show ?thesis by (simp add: put_site_def)
  qed
qed

lemma removals_ok:
  assumes "cycle_ok m" "distinct rs" "\<forall>r\<in>set rs. \<forall>s. mg_sites m r = Some s \<longrightarrow> enumerates (order s) (st_interfaceWorkers s)"
    and "go_fold (manager_remove order ifaces) rs m = Inr m'"
  shows "removed ifaces m m' \<and> (\<forall>r. r \<notin> set rs \<longrightarrow> mg_sites m' r = mg_sites m r) \<and>
    (\<forall>r\<in>set rs. mg_sites m' r \<noteq> None \<longrightarrow> currentIfaces ifaces r \<noteq> {}) \<and>
    (\<forall>r. mg_sites m r \<noteq> None \<longrightarrow> currentIfaces ifaces r \<noteq> {} \<longrightarrow> mg_sites m' r \<noteq> None)"
  using assms
proof (induction rs arbitrary: m)
  case Nil
  then show ?case using removed_refl [of m ifaces] by (simp add: cycle_ok_def manager_ok_def)
next
  case (Cons r rs)
  then obtain m1 where m1: "manager_remove order ifaces r m = Inr m1" "go_fold (manager_remove order ifaces) rs m1 = Inr m'"
    by (auto simp: go_bind_eq_Inr)
  have "\<forall>s. mg_sites m r = Some s \<longrightarrow> enumerates (order s) (st_interfaceWorkers s)" using Cons.prems(3) by simp
  note R = manager_remove_removed [OF Cons.prems(1) this m1(1)]
  have other: "mg_sites m1 r' = mg_sites m r'" if "r' \<noteq> r" for r' using R that by blast
  have ok1: "cycle_ok m1" using removed_ok [OF Cons.prems(1)] R by blast
  have "mg_sites m1 x = mg_sites m x" if "x \<in> set rs" for x by (rule other) (use that Cons.prems(2) in auto)
  then have "\<forall>r\<in>set rs. \<forall>s. mg_sites m1 r = Some s \<longrightarrow> enumerates (order s) (st_interfaceWorkers s)" using Cons.prems(3) by simp
  note IH = Cons.IH [OF ok1 _ this m1(2)]
  have d: "distinct rs" "r \<notin> set rs" using Cons.prems(2) by simp_all
  note IH = IH [OF d(1)]
  have "removed ifaces m m'" using R IH by (blast intro: removed_trans)
  moreover have "\<forall>x. x \<notin> set (r # rs) \<longrightarrow> mg_sites m' x = mg_sites m x" using IH other by simp
  moreover have "\<forall>x\<in>set (r # rs). mg_sites m' x \<noteq> None \<longrightarrow> currentIfaces ifaces x \<noteq> {}"
    using IH R d(2) by (metis set_ConsD)
  moreover have "\<forall>x. mg_sites m x \<noteq> None \<longrightarrow> currentIfaces ifaces x \<noteq> {} \<longrightarrow> mg_sites m' x \<noteq> None"
    using IH R other by metis
  ultimately show ?case by blast
qed

lemma slot_site_worker: "slot_worker m k \<noteq> None \<Longrightarrow> mg_sites m (slot_site k) \<noteq> None"
  by (cases k) (auto split: option.splits)

lemma currentIfaces_nonempty: "currentIfaces ifaces r \<noteq> {} \<longleftrightarrow> r \<in> wg_RemoteIDInt ` set ifaces"
  by (auto simp: currentIfaces_def)

text \<open>
  C26. A cycle of the manager leaves exactly the sites of the listed interfaces. Every listed interface has its own worker
  that runs and is not stopped, the one it had before if it had one; the workers of interfaces whose site is gone are
  stopped. The worker of a site itself is never stopped, even when its site is dropped.
\<close>

theorem manage_complete:
  assumes ok: "cycle_ok m" and "enumerates (sites_order m) (mg_sites m)"
    and "\<forall>s\<in>ran (mg_sites m). enumerates (order s) (st_interfaceWorkers s)"
    and ifs: "GetAllWGInterfaces ifs = Inr ifaces" and run: "manageWorkers sites_order order ifs m = Inr m'"
  shows "cycle_ok m' \<and> dom (mg_sites m') = wg_RemoteIDInt ` set ifaces \<and>
    (\<forall>i\<in>set ifaces. \<exists>w. slot_worker m' (InterfaceSlot (wg_RemoteIDInt i) (wg_Name i)) = Some w \<and>
       slot_ok m' (InterfaceSlot (wg_RemoteIDInt i) (wg_Name i)) w) \<and>
    (\<forall>r name w. slot_worker m (InterfaceSlot r name) = Some w \<longrightarrow>
       (name \<in> currentIfaces ifaces r \<longrightarrow> slot_worker m' (InterfaceSlot r name) = Some w) \<and>
       (r \<notin> wg_RemoteIDInt ` set ifaces \<longrightarrow> wk_id w \<in> mg_closed m')) \<and>
    (\<forall>r w. slot_worker m (SiteSlot r) = Some w \<longrightarrow> wk_id w \<notin> mg_closed m')"
proof -
  have dist: "distinct (sites_order m)" and set_so: "set (sites_order m) = dom (mg_sites m)"
    using assms(2) by (simp_all add: enumerates_def)
  obtain m1 where m1: "go_fold (manager_remove order ifaces) (sites_order m) m = Inr m1" and m': "m' = fold manager_add ifaces m1"
    using run by (auto simp: manageWorkers_def ifs go_bind_eq_Inr)
  have ord: "\<forall>r\<in>set (sites_order m). \<forall>s. mg_sites m r = Some s \<longrightarrow> enumerates (order s) (st_interfaceWorkers s)"
    using assms(3) by (auto simp: ran_def)
  note R = removals_ok [OF ok dist ord m1]
  have rem: "removed ifaces m m1" using R by blast
  have ok1: "cycle_ok m1" by (rule removed_ok [OF ok rem])
  note A = additions_ok [OF ok1, of ifaces, folded m']
  have sites1: "mg_sites m1 r \<noteq> None \<longleftrightarrow> mg_sites m r \<noteq> None \<and> currentIfaces ifaces r \<noteq> {}" for r
    using R set_so by (cases "r \<in> set (sites_order m)") auto
  have "dom (mg_sites m') = wg_RemoteIDInt ` set ifaces"
    using A sites1 by (auto simp: dom_def currentIfaces_nonempty)
  moreover have "\<exists>w. slot_worker m' (InterfaceSlot (wg_RemoteIDInt i) (wg_Name i)) = Some w \<and>
       slot_ok m' (InterfaceSlot (wg_RemoteIDInt i) (wg_Name i)) w" if "i \<in> set ifaces" for i
    using A that unfolding cycle_ok_def manager_ok_def by blast
  moreover have "(name \<in> currentIfaces ifaces r \<longrightarrow> slot_worker m' (InterfaceSlot r name) = Some w) \<and>
       (r \<notin> wg_RemoteIDInt ` set ifaces \<longrightarrow> wk_id w \<in> mg_closed m')" if w: "slot_worker m (InterfaceSlot r name) = Some w" for r name w
  proof -
    have c: "slot_worker m1 (InterfaceSlot r name) = Some w \<or> wk_id w \<in> mg_closed m1 \<and> name \<notin> currentIfaces ifaces r"
      using rem w unfolding removed_def by blast
    have "slot_worker m1 (InterfaceSlot r name) \<noteq> Some w" if "r \<notin> wg_RemoteIDInt ` set ifaces"
      using sites1 [of r] that slot_site_worker [of m1 "InterfaceSlot r name"] by (auto simp: currentIfaces_nonempty)
    then show ?thesis using c A by blast
  qed
  moreover have "wk_id w \<notin> mg_closed m'" if w: "slot_worker m (SiteSlot r) = Some w" for r w
  proof
    assume "wk_id w \<in> mg_closed m'"
    then have "wk_id w \<in> mg_closed m1" using A by simp
    moreover have "wk_id w \<notin> mg_closed m" using ok w unfolding cycle_ok_def manager_ok_def slot_ok_def by blast
    ultimately obtain r' name v where "slot_worker m (InterfaceSlot r' name) = Some v" "wk_id v = wk_id w"
      using rem unfolding removed_def by blast
    then have "InterfaceSlot r' name = SiteSlot r" using ok w unfolding cycle_ok_def manager_ok_def by blast
    then show False by simp
  qed
  ultimately show ?thesis using A by blast
qed

lemma manager_remove_panics: "manager_remove order ifaces r m = Inl e \<Longrightarrow> \<exists>x. e = Panic x"
proof -
  have close: "\<exists>x. e = Panic x" if "close_worker w m = Inl e" for w m e using that by (auto simp: close_worker_def split: if_splits)
  have workers: "\<exists>x. e = Panic x" if "close_workers ns s m = Inl e" for ns s m e
    using that unfolding close_workers_def
  proof (induction ns arbitrary: m)
    case (Cons n ns)
    then show ?case using close by (cases "st_interfaceWorkers s n") (auto simp: go_bind_def split: sum.splits)
  qed simp
  have stop: "\<exists>x. e = Panic x" if "site_stop ns s m = Inl e" for ns s m e
    using that workers by (auto simp: site_stop_def close_site_def go_bind_def split: sum.splits if_splits)
  show "manager_remove order ifaces r m = Inl e \<Longrightarrow> \<exists>x. e = Panic x"
    using close stop by (auto simp: manager_remove_def Let_def go_bind_def split: option.splits if_splits sum.splits)
qed

lemma removals_panic: "go_fold (manager_remove order ifaces) rs m = Inl e \<Longrightarrow> \<exists>x. e = Panic x"
proof (induction rs arbitrary: m)
  case (Cons r rs)
  then show ?case using manager_remove_panics [of order ifaces r m] by (auto simp: go_bind_def split: sum.splits)
qed simp

lemma removals_split:
  assumes ok: "cycle_ok m" and en: "enumerates rs (mg_sites m)"
    and ord: "\<forall>s\<in>ran (mg_sites m). enumerates (order s) (st_interfaceWorkers s)"
    and r: "mg_sites m r = Some s" and run: "go_fold (manager_remove order ifaces) rs m = Inr m'"
  obtains u v where "mg_sites u r = Some s" "manager_remove order ifaces r u = Inr v" "slot_worker m' \<subseteq>\<^sub>m slot_worker v"
proof -
  have dist: "distinct rs" and set_rs: "set rs = dom (mg_sites m)" using en by (simp_all add: enumerates_def)
  have "r \<in> set rs" using r set_rs by blast
  then obtain xs ys where rs: "rs = xs @ r # ys" by (auto simp: in_set_conv_decomp)
  obtain u v where u: "go_fold (manager_remove order ifaces) xs m = Inr u" and v: "manager_remove order ifaces r u = Inr v"
    and m': "go_fold (manager_remove order ifaces) ys v = Inr m'"
    using run by (auto simp: rs go_fold_append go_bind_eq_Inr)
  have all: "\<forall>s. mg_sites m x = Some s \<longrightarrow> enumerates (order s) (st_interfaceWorkers s)" for x
    using ord by (auto simp: ran_def)
  have U: "removed ifaces m u" "\<forall>x. x \<notin> set xs \<longrightarrow> mg_sites u x = mg_sites m x"
    using removals_ok [OF ok _ _ u] dist all by (auto simp: rs)
  have ur: "mg_sites u r = Some s" using U(2) dist r by (simp add: rs)
  have oku: "cycle_ok u" by (rule removed_ok [OF ok U(1)])
  have "\<forall>s. mg_sites u r = Some s \<longrightarrow> enumerates (order s) (st_interfaceWorkers s)" using ur r all by simp
  note V = manager_remove_removed [OF oku this v]
  have okv: "cycle_ok v" using removed_ok [OF oku] V by blast
  have "mg_sites v x = mg_sites m x" if "x \<in> set ys" for x
    using V U(2) dist that by (metis disjoint_iff distinct.simps(2) distinct_append list.set_intros(2) rs)
  then have "\<forall>r\<in>set ys. \<forall>s. mg_sites v r = Some s \<longrightarrow> enumerates (order s) (st_interfaceWorkers s)" using all by simp
  then have "removed ifaces v m'" using removals_ok [OF okv _ _ m'] dist by (simp add: rs)
  then show ?thesis using that ur v by (simp add: removed_def)
qed

text \<open>A cycle that comes to its end leaves such a site without the worker of its own interface.\<close>

lemma manage_loses:
  assumes ok: "cycle_ok m" and en: "enumerates (sites_order m) (mg_sites m)"
    and ord: "\<forall>s\<in>ran (mg_sites m). enumerates (order s) (st_interfaceWorkers s)"
    and ifs: "GetAllWGInterfaces ifs = Inr ifaces" and run: "manageWorkers sites_order order ifs m = Inr m2"
    and r: "mg_sites m r = Some s" and lost: "wg_Name (wk_iface (st_siteWorker s)) \<notin> currentIfaces ifaces r" "currentIfaces ifaces r \<noteq> {}"
  obtains s2 where "cycle_ok m2" "mg_sites m2 r = Some s2" "st_siteWorker s2 = st_siteWorker s"
    "st_interfaceWorkers s2 (wg_Name (wk_iface (st_siteWorker s))) = None"
proof -
  let ?name = "wg_Name (wk_iface (st_siteWorker s))"
  obtain m1 where m1: "go_fold (manager_remove order ifaces) (sites_order m) m = Inr m1" and m2: "m2 = fold manager_add ifaces m1"
    using run by (auto simp: manageWorkers_def ifs go_bind_eq_Inr)
  obtain u v where u: "mg_sites u r = Some s" "manager_remove order ifaces r u = Inr v" "slot_worker m1 \<subseteq>\<^sub>m slot_worker v"
    by (rule removals_split [OF ok en ord r m1])
  have "slot_worker v (InterfaceSlot r ?name) = None"
    using u(1,2) lost by (auto simp: manager_remove_def Let_def go_bind_eq_Inr put_site_def split: option.splits)
  then have gone1: "slot_worker m1 (InterfaceSlot r ?name) = None" using map_leD [OF u(3)] by (metis not_None_eq)
  have dist: "distinct (sites_order m)" and all: "\<forall>r\<in>set (sites_order m). \<forall>s. mg_sites m r = Some s \<longrightarrow> enumerates (order s) (st_interfaceWorkers s)"
    using en ord by (auto simp: enumerates_def ran_def)
  note R = removals_ok [OF ok dist all m1]
  have ok1: "cycle_ok m1" using removed_ok [OF ok] R by blast
  have "mg_sites m1 r \<noteq> None" using R r lost(2) by blast
  then obtain w where w: "slot_worker m1 (SiteSlot r) = Some w" by auto
  moreover have "slot_worker m (SiteSlot r) = Some w" using R w map_leD [of "slot_worker m1" "slot_worker m"] by (simp only: removed_def)
  ultimately have kept1: "slot_worker m1 (SiteSlot r) = Some (st_siteWorker s)" using r by simp
  note A = additions_ok [OF ok1, of ifaces, folded m2]
  have "slot_worker m2 (SiteSlot r) = Some (st_siteWorker s)" using A kept1 by blast
  then obtain s2 where s2: "mg_sites m2 r = Some s2" "st_siteWorker s2 = st_siteWorker s" by auto
  have "slot_worker m2 (InterfaceSlot r ?name) = None" using A gone1 lost(1) by blast
  then have "st_interfaceWorkers s2 ?name = None" using s2(1) by simp
  with that s2 A show ?thesis by blast
qed

text \<open>
  C28. When the interface a site was first seen with disappears while another one of the site stays, the manager does not
  survive: of the next two cycles, with the same interfaces, the second dereferences the worker the first has deleted.
\<close>

theorem interface_loss_crashes:
  assumes ok: "cycle_ok m" and en: "enumerates (sites_order m) (mg_sites m)"
    and ord: "\<forall>s\<in>ran (mg_sites m). enumerates (order s) (st_interfaceWorkers s)"
    and en1: "\<forall>m1. manageWorkers sites_order order ifs m = Inr m1 \<longrightarrow> enumerates (sites_order m1) (mg_sites m1) \<and>
        (\<forall>s\<in>ran (mg_sites m1). enumerates (order s) (st_interfaceWorkers s))"
    and ifs: "GetAllWGInterfaces ifs = Inr ifaces"
    and r: "mg_sites m r = Some s" and lost: "wg_Name (wk_iface (st_siteWorker s)) \<notin> currentIfaces ifaces r" "currentIfaces ifaces r \<noteq> {}"
  shows "\<exists>x. go_bind (manageWorkers sites_order order ifs m) (manageWorkers sites_order order ifs) = Inl (Panic x)"
proof (cases "manageWorkers sites_order order ifs m")
  case (Inl e)
  then have "go_fold (manager_remove order ifaces) (sites_order m) m = Inl e"
    by (auto simp: manageWorkers_def ifs go_bind_def split: sum.splits)
  from removals_panic [OF this] Inl show ?thesis by auto
next
  case (Inr m2)
  obtain s2 where ok2: "cycle_ok m2" and s2: "mg_sites m2 r = Some s2" "st_siteWorker s2 = st_siteWorker s"
    and gone2: "st_interfaceWorkers s2 (wg_Name (wk_iface (st_siteWorker s))) = None"
    by (rule manage_loses [OF ok en ord ifs Inr r lost])
  have en2: "enumerates (sites_order m2) (mg_sites m2)" "\<forall>s\<in>ran (mg_sites m2). enumerates (order s) (st_interfaceWorkers s)"
    using en1 Inr by blast+
  show ?thesis
  proof (cases "go_fold (manager_remove order ifaces) (sites_order m2) m2")
    case e: (Inl e)
    then show ?thesis using removals_panic [OF e] Inr by (auto simp: manageWorkers_def ifs)
  next
    case m3: (Inr m3)
    obtain u' v' where "mg_sites u' r = Some s2" "manager_remove order ifaces r u' = Inr v'"
      by (rule removals_split [OF ok2 en2 s2(1) m3])
    then have False using s2(2) gone2 lost by (simp add: manager_remove_def Let_def)
    then show ?thesis ..
  qed
qed

text \<open>Two interfaces to site 2, and one to site 3.\<close>

definition example_if :: "string \<Rightarrow> net_if" where
  "example_if name = \<lparr>if_name = name, if_loopback = False, if_addrs = Inr []\<rparr>"

definition example_wg :: "string \<Rightarrow> int \<Rightarrow> string \<Rightarrow> int \<Rightarrow> wg_interface" where
  "example_wg remote r version v =
     \<lparr>wg_Name = ''wg1.'' @ remote @ ''_v'' @ version, wg_LocalID = ''1'', wg_LocalIDInt = 1, wg_RemoteID = remote, wg_RemoteIDInt = r,
      wg_IPVersion = version, wg_IPVersionInt = v\<rparr>"

definition example_manager :: manager where
  "example_manager = fold manager_add [example_wg ''2'' 2 ''4'' 4, example_wg ''2'' 2 ''6'' 6] NewManager"

definition example_sites :: "manager \<Rightarrow> int list" where
  "example_sites m = filter (\<lambda>r. mg_sites m r \<noteq> None) [2, 3]"

definition example_order :: "site \<Rightarrow> string list" where
  "example_order s = filter (\<lambda>n. st_interfaceWorkers s n \<noteq> None) [''wg1.2_v4'', ''wg1.2_v6'', ''wg1.3_v4'']"

lemma example_ok: "cycle_ok example_manager"
proof -
  have "cycle_ok NewManager" using manager_ok_new by (simp add: cycle_ok_def ids_below_def NewManager_def)
  from additions_ok [OF this] show ?thesis unfolding example_manager_def by blast
qed

lemma example_parsed:
  "GetAllWGInterfaces (Inr [example_if ''wg1.2_v4'', example_if ''wg1.3_v4'']) = Inr [example_wg ''2'' 2 ''4'' 4, example_wg ''3'' 3 ''4'' 4]"
  "GetAllWGInterfaces (Inr [example_if ''wg1.2_v6'']) = Inr [example_wg ''2'' 2 ''6'' 6]"
  by code_simp+

lemmas example_defs = example_manager_def example_wg_def manager_add_def Let_def put_site_def NewManager_def

lemma example_run:
  "mg_sites example_manager = [2 \<mapsto> \<lparr>st_siteID = ''2'',
     st_interfaceWorkers = [''wg1.2_v4'' \<mapsto> new_worker (example_wg ''2'' 2 ''4'' 4) ''4'' 1, ''wg1.2_v6'' \<mapsto> new_worker (example_wg ''2'' 2 ''6'' 6) ''6'' 2],
     st_siteWorker = new_worker (example_wg ''2'' 2 ''4'' 4) ''1'' 0, st_stopCh = 0\<rparr>]"
  by (simp add: example_defs numeral_2_eq_2)

lemma example_enumerates:
  "enumerates (example_sites example_manager) (mg_sites example_manager)"
  "\<forall>s\<in>ran (mg_sites example_manager). enumerates (example_order s) (st_interfaceWorkers s)"
  by (auto simp: example_run example_sites_def example_order_def enumerates_def)

lemma currentIfaces_list:
  "currentIfaces [] r = {}"
  "currentIfaces (i # js) r = (if wg_RemoteIDInt i = r then insert (wg_Name i) (currentIfaces js r) else currentIfaces js r)"
  by (auto simp: currentIfaces_def)

lemma example_cycle1:
  "\<exists>m'. manageWorkers example_sites example_order (Inr [example_if ''wg1.2_v4'', example_if ''wg1.3_v4'']) example_manager = Inr m'"
  by (simp add: manageWorkers_def example_parsed example_sites_def example_run manager_remove_def currentIfaces_list example_wg_def new_worker_def)

theorem manage_complete_witness:
  "\<exists>m'. manageWorkers example_sites example_order (Inr [example_if ''wg1.2_v4'', example_if ''wg1.3_v4'']) example_manager = Inr m' \<and>
    cycle_ok m' \<and> dom (mg_sites m') = {2, 3}"
proof -
  from example_cycle1 obtain m' where m': "manageWorkers example_sites example_order (Inr [example_if ''wg1.2_v4'', example_if ''wg1.3_v4'']) example_manager = Inr m'"
    by blast
  note R = manage_complete [OF example_ok example_enumerates example_parsed(1) m']
  then have "dom (mg_sites m') = {2, 3}" by (simp add: example_wg_def)
  then show ?thesis using m' R by blast
qed

lemma example_cycle2:
  "manageWorkers example_sites example_order (Inr [example_if ''wg1.2_v6'']) example_manager = Inr m' \<Longrightarrow>
    mg_sites m' = [2 \<mapsto> \<lparr>st_siteID = ''2'',
      st_interfaceWorkers = [''wg1.2_v6'' \<mapsto> new_worker (example_wg ''2'' 2 ''6'' 6) ''6'' 2],
      st_siteWorker = new_worker (example_wg ''2'' 2 ''4'' 4) ''1'' 0, st_stopCh = 0\<rparr>]"
  by (auto simp: manageWorkers_def example_parsed example_sites_def example_run manager_remove_def currentIfaces_list example_wg_def
      new_worker_def Let_def go_bind_eq_Inr close_worker_def put_site_def manager_add_def fun_upd_twist split: if_splits)

theorem interface_loss_crashes_witness:
  "\<exists>x. go_bind (manageWorkers example_sites example_order (Inr [example_if ''wg1.2_v6'']) example_manager)
    (manageWorkers example_sites example_order (Inr [example_if ''wg1.2_v6''])) = Inl (Panic x)"
proof (rule interface_loss_crashes [where sites_order = example_sites and order = example_order and r = 2,
      OF example_ok example_enumerates _ example_parsed(2)])
  show "\<forall>m1. manageWorkers example_sites example_order (Inr [example_if ''wg1.2_v6'']) example_manager = Inr m1 \<longrightarrow>
      enumerates (example_sites m1) (mg_sites m1) \<and> (\<forall>s\<in>ran (mg_sites m1). enumerates (example_order s) (st_interfaceWorkers s))"
    using example_cycle2 by (auto simp: example_sites_def example_order_def enumerates_def)
  show "mg_sites example_manager 2 = Some (the (mg_sites example_manager 2))" by (simp add: example_run)
qed (simp_all add: example_run currentIfaces_list example_wg_def new_worker_def)

end
