(* ===== verification/Lifecycle.thy ===== *)
theory Lifecycle
  imports Measure
begin

text \<open>
  The measurement manager of \<^verbatim>\<open>internal/measure/measure.go\<close> over its life: the states its cycles reach, and that no channel is
  closed twice on the way or at the stop.
\<close>

section \<open>The states of the manager\<close>

text \<open>Each cycle ranges over its maps in an order of its own and finds interfaces of its own; the listing may fail.\<close>

inductive manager_reaches :: "manager \<Rightarrow> bool" where
  new: "manager_reaches NewManager"
| cycle: "manager_reaches m \<Longrightarrow> enumerates (sites_order m) (mg_sites m) \<Longrightarrow>
    \<forall>s\<in>ran (mg_sites m). enumerates (order s) (st_interfaceWorkers s) \<Longrightarrow>
    manageWorkers sites_order order ifs m = Inr m' \<Longrightarrow> manager_reaches m'"

lemma cycle_ok_NewManager: "cycle_ok NewManager"
  using manager_ok_new by (simp add: cycle_ok_def ids_below_def NewManager_def)

lemma manageWorkers_ok:
  assumes ok: "cycle_ok m" and ord: "enumerates (sites_order m) (mg_sites m)"
    "\<forall>s\<in>ran (mg_sites m). enumerates (order s) (st_interfaceWorkers s)" and run: "manageWorkers sites_order order ifs m = Inr m'"
  shows "cycle_ok m'"
proof (cases "GetAllWGInterfaces ifs")
  case (Inl f)
  then have "m' = m" using run by (simp add: manageWorkers_def split: go_fault.splits)
  with ok show ?thesis by simp
next
  case (Inr ifaces)
  obtain m1 where m1: "go_fold (manager_remove order ifaces) (sites_order m) m = Inr m1" and m': "m' = fold manager_add ifaces m1"
    using run by (auto simp: manageWorkers_def Inr go_bind_eq_Inr)
  have "removed ifaces m m1"
    using removals_ok [OF ok _ _ m1] ord by (auto simp: enumerates_def ran_def)
  with removed_ok [OF ok] additions_ok [of m1 ifaces] show ?thesis by (simp add: m')
qed

lemma reaches_ok: "manager_reaches m \<Longrightarrow> cycle_ok m"
  by (induction rule: manager_reaches.induct) (blast intro: cycle_ok_NewManager manageWorkers_ok)+

text \<open>The channels of the sites: each site has one of its own, numbered below the next, and it is open.\<close>

definition site_chans_ok :: "manager \<Rightarrow> bool" where
  "site_chans_ok m \<longleftrightarrow> (\<forall>j\<in>mg_closedSites m. j < mg_nextSite m) \<and>
     (\<forall>r s. mg_sites m r = Some s \<longrightarrow> st_stopCh s < mg_nextSite m \<and> st_stopCh s \<notin> mg_closedSites m \<and>
       (\<forall>r' s'. mg_sites m r' = Some s' \<longrightarrow> st_stopCh s' = st_stopCh s \<longrightarrow> r' = r))"

lemma site_chans_add: "site_chans_ok m \<Longrightarrow> site_chans_ok (manager_add i m)"
  by (auto simp: site_chans_ok_def manager_add_def Let_def put_site_def split: option.splits if_splits)
    (metis less_irrefl less_SucI)+

lemma site_chans_adds: "site_chans_ok m \<Longrightarrow> site_chans_ok (fold manager_add is m)"
  by (induction "is" arbitrary: m) (simp_all add: site_chans_add)

lemma site_chans_same:
  assumes ok: "site_chans_ok m" and same: "mg_closedSites m' = mg_closedSites m" "mg_nextSite m' = mg_nextSite m"
    and sites: "\<And>x t. mg_sites m' x = Some t \<Longrightarrow> \<exists>s. mg_sites m x = Some s \<and> st_stopCh s = st_stopCh t"
  shows "site_chans_ok m'"
  unfolding site_chans_ok_def same
proof (intro conjI allI impI)
  show "\<forall>j\<in>mg_closedSites m. j < mg_nextSite m" using ok by (simp add: site_chans_ok_def)
  fix r s assume s: "mg_sites m' r = Some s"
  from sites [OF s] show "st_stopCh s < mg_nextSite m" "st_stopCh s \<notin> mg_closedSites m"
    using ok unfolding site_chans_ok_def by force+
  fix r' s' assume "mg_sites m' r' = Some s'" "st_stopCh s' = st_stopCh s"
  with sites [OF s] sites [of r' s'] show "r' = r" using ok unfolding site_chans_ok_def by metis
qed

lemma site_chans_remove:
  assumes ok: "site_chans_ok m" and ord: "\<forall>s. mg_sites m r = Some s \<longrightarrow> enumerates (order s) (st_interfaceWorkers s)"
    and run: "manager_remove order ifaces r m = Inr m'"
  shows "site_chans_ok m'"
proof (cases "mg_sites m r")
  case None
  with run ok show ?thesis by (simp add: manager_remove_def)
next
  case (Some s)
  let ?name = "wg_Name (wk_iface (st_siteWorker s))"
  let ?lose = "\<lambda>w :: worker. put_site r (Some (s\<lparr>st_interfaceWorkers := (st_interfaceWorkers s)(?name := None)\<rparr>))
        (m\<lparr>mg_closed := insert (wk_id w) (mg_closed m)\<rparr>)"
  have "m' = m \<or> (\<exists>w. m' = ?lose w)" if ne: "currentIfaces ifaces r \<noteq> {}"
  proof (cases "?name \<in> currentIfaces ifaces r")
    case True
    with run Some ne show ?thesis by (simp add: manager_remove_def Let_def)
  next
    case False
    then obtain w where "st_interfaceWorkers s ?name = Some w" "close_worker w m = Inr (m\<lparr>mg_closed := insert (wk_id w) (mg_closed m)\<rparr>)"
      using run Some ne by (cases "st_interfaceWorkers s ?name") (auto simp: manager_remove_def Let_def go_bind_eq_Inr close_worker_def split: if_splits)
    with run Some ne False have "m' = ?lose w" by (simp add: manager_remove_def Let_def)
    then show ?thesis by blast
  qed
  then consider (gone) "currentIfaces ifaces r = {}" | (keep) "m' = m" | (lost) "\<exists>w. m' = ?lose w" by blast
  then show ?thesis
  proof cases
    case gone
    then obtain m1 where m1: "site_stop (order s) s m = Inr m1" "m' = put_site r None m1"
      using run Some by (auto simp: manager_remove_def Let_def go_bind_eq_Inr)
    from site_stop_all [OF m1(1)] ord Some m1(2) ok show ?thesis by (auto simp: site_chans_ok_def put_site_def)
  next
    case keep
    with ok show ?thesis by simp
  next
    case lost
    then obtain w where m': "m' = ?lose w" by blast
    show ?thesis by (rule site_chans_same [OF ok]) (use m' Some in \<open>auto simp: put_site_def split: if_splits\<close>)
  qed
qed

lemma manager_remove_removed_sites:
  assumes "cycle_ok m" "distinct (r # rs)" "manager_remove order ifaces r m = Inr m1"
    and "\<forall>x\<in>set (r # rs). \<forall>s. mg_sites m x = Some s \<longrightarrow> enumerates (order s) (st_interfaceWorkers s)"
  shows "cycle_ok m1 \<and> (\<forall>x\<in>set rs. \<forall>s. mg_sites m1 x = Some s \<longrightarrow> enumerates (order s) (st_interfaceWorkers s))"
proof -
  have "\<forall>s. mg_sites m r = Some s \<longrightarrow> enumerates (order s) (st_interfaceWorkers s)" using assms(4) by simp
  note R = manager_remove_removed [OF assms(1) this assms(3)]
  then show ?thesis using removed_ok [OF assms(1)] assms(2,4) by (metis distinct.simps(2) list.set_intros(2))
qed

lemma site_chans_removes:
  assumes "cycle_ok m" "site_chans_ok m" "distinct rs"
    and "\<forall>r\<in>set rs. \<forall>s. mg_sites m r = Some s \<longrightarrow> enumerates (order s) (st_interfaceWorkers s)"
    and "go_fold (manager_remove order ifaces) rs m = Inr m'"
  shows "site_chans_ok m'"
  using assms
proof (induction rs arbitrary: m)
  case (Cons r rs)
  then obtain m1 where m1: "manager_remove order ifaces r m = Inr m1" "go_fold (manager_remove order ifaces) rs m1 = Inr m'"
    by (auto simp: go_bind_eq_Inr)
  have "site_chans_ok m1" by (rule site_chans_remove [OF Cons.prems(2) _ m1(1)]) (use Cons.prems(4) in simp)
  with manager_remove_removed_sites [OF Cons.prems(1,3) m1(1) Cons.prems(4)] show ?case
    using Cons.IH [of m1] Cons.prems(3) m1(2) by simp
qed simp

lemma manageWorkers_site_chans:
  assumes "cycle_ok m" "site_chans_ok m" "enumerates (sites_order m) (mg_sites m)"
    "\<forall>s\<in>ran (mg_sites m). enumerates (order s) (st_interfaceWorkers s)" "manageWorkers sites_order order ifs m = Inr m'"
  shows "site_chans_ok m'"
proof (cases "GetAllWGInterfaces ifs")
  case (Inl f)
  then show ?thesis using assms(2,5) by (simp add: manageWorkers_def split: go_fault.splits)
next
  case (Inr ifaces)
  obtain m1 where m1: "go_fold (manager_remove order ifaces) (sites_order m) m = Inr m1" and m': "m' = fold manager_add ifaces m1"
    using assms(5) by (auto simp: manageWorkers_def Inr go_bind_eq_Inr)
  have "site_chans_ok m1"
    by (rule site_chans_removes [OF assms(1,2) _ _ m1]) (use assms(3,4) in \<open>auto simp: enumerates_def ran_def\<close>)
  then show ?thesis by (simp add: m' site_chans_adds)
qed

lemma reaches_site_chans: "manager_reaches m \<Longrightarrow> site_chans_ok m"
proof (induction rule: manager_reaches.induct)
  case new
  show ?case by (simp add: site_chans_ok_def NewManager_def)
next
  case cycle
  then show ?case using manageWorkers_site_chans reaches_ok by blast
qed

section \<open>Closing channels\<close>

text \<open>The channels of the sites in \<open>rs\<close>.\<close>

definition site_ids :: "manager \<Rightarrow> int set \<Rightarrow> nat set" where
  "site_ids m rs = {st_stopCh s |r s. r \<in> rs \<and> mg_sites m r = Some s}"

lemma site_ids_simps:
  "site_ids m {} = {}" "site_ids m (insert r rs) = site_ids m {r} \<union> site_ids m rs"
  by (auto simp: site_ids_def)

definition interface_ids :: "manager \<Rightarrow> int set \<Rightarrow> nat set" where
  "interface_ids m rs = {wk_id w |r name w. r \<in> rs \<and> slot_worker m (InterfaceSlot r name) = Some w}"

lemma interface_ids_simps:
  "interface_ids m {} = {}" "interface_ids m (insert r rs) = interface_ids m {r} \<union> interface_ids m rs"
  by (auto simp: interface_ids_def)

lemma slot_worker_closed: "slot_worker (m\<lparr>mg_closed := C, mg_closedSites := D\<rparr>) k = slot_worker m k"
  by (cases k) simp_all

lemma interface_ids_closed: "interface_ids (m\<lparr>mg_closed := C, mg_closedSites := D\<rparr>) X = interface_ids m X"
  unfolding interface_ids_def slot_worker_closed ..

lemma site_ids_closed: "site_ids (m\<lparr>mg_closed := C, mg_closedSites := D\<rparr>) X = site_ids m X"
  by (simp add: site_ids_def)

lemma close_workers_returns:
  assumes "distinct order" "\<forall>n\<in>set order. \<forall>w. st_interfaceWorkers s n = Some w \<longrightarrow> wk_id w \<notin> mg_closed m"
    and "\<forall>n n' w w'. st_interfaceWorkers s n = Some w \<longrightarrow> st_interfaceWorkers s n' = Some w' \<longrightarrow> wk_id w = wk_id w' \<longrightarrow> n = n'"
  shows "\<exists>m'. close_workers order s m = Inr m'"
  using assms(1,2)
proof (induction order arbitrary: m)
  case (Cons n order)
  show ?case
  proof (cases "st_interfaceWorkers s n")
    case None
    then show ?thesis using Cons by (auto simp: close_workers_def)
  next
    case (Some w)
    have "\<forall>k\<in>set order. \<forall>v. st_interfaceWorkers s k = Some v \<longrightarrow> wk_id v \<notin> mg_closed (m\<lparr>mg_closed := insert (wk_id w) (mg_closed m)\<rparr>)"
      using Cons.prems Some assms(3) by auto
    from Cons.IH [OF _ this] Cons.prems Some show ?thesis by (auto simp: close_workers_def close_worker_def)
  qed
qed (simp add: close_workers_def)

text \<open>The worker of an interface is its own: what a site stops is open and belongs to no other site.\<close>

lemma stop_site:
  assumes slots: "\<forall>k k' w w'. slot_worker m k = Some w \<longrightarrow> slot_worker m k' = Some w' \<longrightarrow> wk_id w = wk_id w' \<longrightarrow> k = k'"
    and "interface_ids m {r} \<inter> mg_closed m = {}" and "site_ids m {r} \<inter> mg_closedSites m = {}" and s: "mg_sites m r = Some s" "enumerates order (st_interfaceWorkers s)"
  shows "site_stop order s m = Inr (m\<lparr>mg_closed := mg_closed m \<union> interface_ids m {r},
    mg_closedSites := mg_closedSites m \<union> site_ids m {r}\<rparr>)"
proof -
  have w: "slot_worker m (InterfaceSlot r n) = st_interfaceWorkers s n" for n using s(1) by simp
  have "n = n'" if "st_interfaceWorkers s n = Some v" "st_interfaceWorkers s n' = Some v'" "wk_id v = wk_id v'" for n n' v v'
  proof -
    have "slot_worker m (InterfaceSlot r n) = Some v" "slot_worker m (InterfaceSlot r n') = Some v'" using that w by simp_all
    then have "InterfaceSlot r n = InterfaceSlot r n'" using slots that(3) by blast
    then show ?thesis by simp
  qed
  moreover have "\<forall>n\<in>set order. \<forall>v. st_interfaceWorkers s n = Some v \<longrightarrow> wk_id v \<notin> mg_closed m"
    using assms(2) w by (auto simp: interface_ids_def simp del: slot_worker.simps)
  ultimately obtain m' where m': "close_workers order s m = Inr m'"
    using close_workers_returns [of order s m] s(2) by (auto simp: enumerates_def)
  have ids: "site_ids m {r} = {st_stopCh s}" using s(1) by (auto simp: site_ids_def)
  have "{wk_id v |n v. n \<in> set order \<and> st_interfaceWorkers s n = Some v} = interface_ids m {r}"
    using s(2) w by (auto simp: interface_ids_def enumerates_def simp del: slot_worker.simps)
  with close_workers_closes [OF m'] m' assms(3) show ?thesis by (simp add: site_stop_def close_site_def ids)
qed

lemma stop_sites:
  assumes slots: "\<forall>k k' w w'. slot_worker m k = Some w \<longrightarrow> slot_worker m k' = Some w' \<longrightarrow> wk_id w = wk_id w' \<longrightarrow> k = k'"
    and chans: "\<forall>r r' s s'. mg_sites m r = Some s \<longrightarrow> mg_sites m r' = Some s' \<longrightarrow> st_stopCh s' = st_stopCh s \<longrightarrow> r' = r"
    and "interface_ids m (set rs) \<inter> mg_closed m = {}" "site_ids m (set rs) \<inter> mg_closedSites m = {}" "distinct rs"
    and ord: "\<forall>s\<in>ran (mg_sites m). enumerates (order s) (st_interfaceWorkers s)"
  shows "go_fold (\<lambda>r m. case mg_sites m r of None \<Rightarrow> Inr m | Some s \<Rightarrow> site_stop (order s) s m) rs m =
    Inr (m\<lparr>mg_closed := mg_closed m \<union> interface_ids m (set rs), mg_closedSites := mg_closedSites m \<union> site_ids m (set rs)\<rparr>)"
  using assms
proof (induction rs arbitrary: m)
  case (Cons r rs)
  let ?m = "m\<lparr>mg_closed := mg_closed m \<union> interface_ids m {r}, mg_closedSites := mg_closedSites m \<union> site_ids m {r}\<rparr>"
  note same = slot_worker_closed and ids = interface_ids_closed site_ids_closed
  note split_ids = interface_ids_simps(2) [of _ r "set rs"] site_ids_simps(2) [of _ r "set rs"]
  have first: "(case mg_sites m r of None \<Rightarrow> Inr m | Some s \<Rightarrow> site_stop (order s) s m) = Inr ?m"
  proof (cases "mg_sites m r")
    case None
    then have "interface_ids m {r} = {}" "site_ids m {r} = {}" by (simp_all add: interface_ids_def site_ids_def)
    with None show ?thesis by simp
  next
    case (Some s)
    have "interface_ids m {r} \<inter> mg_closed m = {}" "site_ids m {r} \<inter> mg_closedSites m = {}"
      using Cons.prems(3,4) by (auto simp: split_ids)
    moreover have "enumerates (order s) (st_interfaceWorkers s)" using Cons.prems(6) Some by (auto intro: ranI)
    ultimately show ?thesis using stop_site [OF Cons.prems(1) _ _ Some] Some by simp
  qed
  have "interface_ids m {r} \<inter> interface_ids m (set rs) = {}"
    using Cons.prems(1,5) unfolding interface_ids_def by (auto simp del: slot_worker.simps)
  then have i: "interface_ids ?m (set rs) \<inter> mg_closed ?m = {}"
    using Cons.prems(3) unfolding ids by (auto simp: split_ids)
  have "site_ids m {r} \<inter> site_ids m (set rs) = {}"
    using Cons.prems(2,5) unfolding site_ids_def by auto
  then have j: "site_ids ?m (set rs) \<inter> mg_closedSites ?m = {}"
    using Cons.prems(4) unfolding ids by (auto simp: split_ids)
  have "\<forall>k k' w w'. slot_worker ?m k = Some w \<longrightarrow> slot_worker ?m k' = Some w' \<longrightarrow> wk_id w = wk_id w' \<longrightarrow> k = k'"
    using Cons.prems(1) unfolding same .
  from Cons.IH [OF this _ i j] Cons.prems(2,5,6) first show ?case
    by (simp add: ids split_ids Un_assoc del: slot_worker.simps)
qed (simp add: interface_ids_simps site_ids_simps)

lemma site_ids_open: "site_chans_ok m \<Longrightarrow> site_ids m rs \<inter> mg_closedSites m = {}"
  unfolding site_ids_def site_chans_ok_def by blast

lemma interface_ids_open: "cycle_ok m \<Longrightarrow> interface_ids m rs \<inter> mg_closed m = {}"
  unfolding interface_ids_def cycle_ok_def manager_ok_def slot_ok_def by blast

text \<open>The only fault of a removal is the missing worker of a lost interface.\<close>

lemma removal_fault:
  assumes ok: "cycle_ok m" and chans: "site_chans_ok m"
    and ord: "\<forall>s. mg_sites m r = Some s \<longrightarrow> enumerates (order s) (st_interfaceWorkers s)"
    and run: "manager_remove order ifaces r m = Inl f"
  shows "f = Panic NilDereference"
proof -
  obtain s where s: "mg_sites m r = Some s" using run by (cases "mg_sites m r") (simp_all add: manager_remove_def)
  have slots: "\<forall>k k' w w'. slot_worker m k = Some w \<longrightarrow> slot_worker m k' = Some w' \<longrightarrow> wk_id w = wk_id w' \<longrightarrow> k = k'"
    using ok unfolding cycle_ok_def manager_ok_def by blast
  obtain m' where stop: "site_stop (order s) s m = Inr m'"
    using stop_site [OF slots interface_ids_open [OF ok] site_ids_open [OF chans] s] ord s by blast
  have "close_worker w m = Inr (m\<lparr>mg_closed := insert (wk_id w) (mg_closed m)\<rparr>)" if "st_interfaceWorkers s n = Some w" for n w
  proof -
    have "slot_worker m (InterfaceSlot r n) = Some w" using s that by simp
    then have "wk_id w \<notin> mg_closed m" using ok unfolding cycle_ok_def manager_ok_def slot_ok_def by blast
    then show ?thesis by (simp add: close_worker_def)
  qed
  then show ?thesis using run s stop by (auto simp: manager_remove_def Let_def split: if_splits option.splits)
qed

lemma removals_fault:
  assumes "cycle_ok m" "site_chans_ok m" "distinct rs"
    and "\<forall>r\<in>set rs. \<forall>s. mg_sites m r = Some s \<longrightarrow> enumerates (order s) (st_interfaceWorkers s)"
    and "go_fold (manager_remove order ifaces) rs m = Inl f"
  shows "f = Panic NilDereference"
  using assms
proof (induction rs arbitrary: m)
  case (Cons r rs)
  have ord: "\<forall>s. mg_sites m r = Some s \<longrightarrow> enumerates (order s) (st_interfaceWorkers s)" using Cons.prems(4) by simp
  show ?case
  proof (cases "manager_remove order ifaces r m")
    case (Inl g)
    then show ?thesis using removal_fault [OF Cons.prems(1,2) ord] Cons.prems(5) by simp
  next
    case (Inr m1)
    from manager_remove_removed_sites [OF Cons.prems(1,3) Inr Cons.prems(4)] site_chans_remove [OF Cons.prems(2) ord Inr]
    show ?thesis using Cons.IH [of m1] Cons.prems(3,5) Inr by simp
  qed
qed simp

section \<open>Properties\<close>

text \<open>
  C27. No channel is closed twice. In every state the cycles of the manager reach, each site and interface has a worker of its
  own that runs and is not stopped; the only way a further cycle panics is the nil dereference of a lost first interface,
  never a second close; and a stop at any time returns, having closed exactly the channels of the interface workers and those
  of the sites themselves. (The channels of the site workers stay open.)
\<close>

theorem manager_closes_once:
  assumes "manager_reaches m" "enumerates (sites_order m) (mg_sites m)"
    and "\<forall>s\<in>ran (mg_sites m). enumerates (order s) (st_interfaceWorkers s)" "GetAllWGInterfaces ifs = Inr ifaces"
  shows "cycle_ok m \<and> (\<forall>f. manageWorkers sites_order order ifs m = Inl f \<longrightarrow> f = Panic NilDereference) \<and>
    manager_step sites_order order StopManager m = Inr (False, m\<lparr>mg_closed := mg_closed m \<union> interface_ids m (dom (mg_sites m)),
      mg_closedSites := mg_closedSites m \<union> {st_stopCh s |r s. mg_sites m r = Some s}\<rparr>)"
proof (intro conjI allI impI)
  show ok: "cycle_ok m" by (rule reaches_ok [OF assms(1)])
  have chans: "site_chans_ok m" by (rule reaches_site_chans [OF assms(1)])
  have so: "distinct (sites_order m)" "set (sites_order m) = dom (mg_sites m)" using assms(2) by (simp_all add: enumerates_def)
  show "f = Panic NilDereference" if "manageWorkers sites_order order ifs m = Inl f" for f
    using removals_fault [OF ok chans so(1), of order ifaces f] that assms(3,4)
    by (auto simp: manageWorkers_def go_bind_eq_Inl ran_def)
  have slots: "\<forall>k k' w w'. slot_worker m k = Some w \<longrightarrow> slot_worker m k' = Some w' \<longrightarrow> wk_id w = wk_id w' \<longrightarrow> k = k'"
    using ok unfolding cycle_ok_def manager_ok_def by blast
  have distinct: "\<forall>r r' s s'. mg_sites m r = Some s \<longrightarrow> mg_sites m r' = Some s' \<longrightarrow> st_stopCh s' = st_stopCh s \<longrightarrow> r' = r"
    using chans unfolding site_chans_ok_def by blast
  have "site_ids m (dom (mg_sites m)) = {st_stopCh s |r s. mg_sites m r = Some s}" by (auto simp: site_ids_def)
  with stop_sites [OF slots distinct interface_ids_open [OF ok] site_ids_open [OF chans] so(1) assms(3)]
  show "manager_step sites_order order StopManager m = Inr (False, m\<lparr>mg_closed := mg_closed m \<union> interface_ids m (dom (mg_sites m)),
      mg_closedSites := mg_closedSites m \<union> {st_stopCh s |r s. mg_sites m r = Some s}\<rparr>)"
    by (simp add: manager_step_def so(2))
qed

lemma example_reached: "manager_reaches example_manager"
proof (rule manager_reaches.cycle [OF manager_reaches.new, of "\<lambda>m. []" "\<lambda>s. []"])
  have "GetAllWGInterfaces (Inr [example_if ''wg1.2_v4'', example_if ''wg1.2_v6'']) = Inr [example_wg ''2'' 2 ''4'' 4, example_wg ''2'' 2 ''6'' 6]"
    by code_simp
  then show "manageWorkers (\<lambda>m. []) (\<lambda>s. []) (Inr [example_if ''wg1.2_v4'', example_if ''wg1.2_v6'']) NewManager = Inr example_manager"
    by (simp add: manageWorkers_def example_manager_def)
qed (simp_all add: NewManager_def enumerates_def)

theorem manager_closes_once_witness:
  "\<exists>m'. manager_step example_sites example_order StopManager example_manager = Inr (False, m') \<and> mg_closed m' = {1, 2} \<and>
    mg_closedSites m' = {0}"
proof -
  let ?ws = "[''wg1.2_v4'' \<mapsto> new_worker (example_wg ''2'' 2 ''4'' 4) ''4'' 1, ''wg1.2_v6'' \<mapsto> new_worker (example_wg ''2'' 2 ''6'' 6) ''6'' 2]"
  have "slot_worker example_manager (InterfaceSlot 2 n) = ?ws n" for n by (simp add: example_run)
  then have "interface_ids example_manager {2} = wk_id ` ran ?ws"
    unfolding interface_ids_def ran_def by (auto simp del: slot_worker.simps fun_upd_apply)
  then have "interface_ids example_manager (dom (mg_sites example_manager)) = {1, 2}"
    by (simp add: example_run new_worker_def insert_commute)
  moreover have "{st_stopCh s |r s. mg_sites example_manager r = Some s} = {0}" by (auto simp: example_run split: if_splits)
  moreover have "mg_closed example_manager = {}" "mg_closedSites example_manager = {}" by (simp_all add: example_defs)
  ultimately show ?thesis
    using manager_closes_once [where sites_order = example_sites and order = example_order, OF example_reached example_enumerates example_parsed(1)]
    by simp
qed

end
