(* ===== verification/Session.thy ===== *)
theory Session
  imports Bandwidth
begin

text \<open>
  The client of a bandwidth measurement (\<^verbatim>\<open>internal/measure/bandwidth/client.go\<close>) as the two goroutines it consists of: the one
  that runs the test and cleans up, and the one that receives messages. They share the connection, the channel \<open>stopCh\<close> and two
  channels without a buffer. The steps of both interleave in every order, labelled with what the connection, the clock and the
  choices of \<open>select\<close> contribute; Bandwidth has the same test as one function of the answers it gets, and what a run of the
  goroutines returns is shown to be the value of that function for the answers the labels determine.
\<close>

section \<open>State\<close>

text \<open>
  Where the receiver is: before the check of \<open>stopCh\<close>, before the deadline is set, in \<open>Read\<close>, blocked in a send on one of the
  channels, or returned.
\<close>

datatype receiver = Polling | Arming | Reading | GivingStats string | GivingError go_error | Gone

text \<open>
  Where the other goroutine is: before the test, before the packet \<open>n\<close>, before the notification of attempt \<open>k\<close> and in the
  \<open>select\<close> after it; then in \<open>cleanup\<close>, before it closes the connection, before it closes \<open>stopCh\<close>, in the loop that drains the
  channels, before it closes each of them, and at its end.
\<close>

datatype client_phase =
    Starting | Sending nat | Ending nat | Waiting nat
  | Closing | Stopping | Joining | ClosingStats | ClosingErrors | Over

text \<open>
  \<open>ss_outcome\<close> is what \<open>runTest\<close> has returned, with the result at that time; \<open>ss_panic\<close> a panic of one of the two goroutines on a
  closed channel, which ends the daemon. \<open>ss_timed_out\<close> says that the timer ended the draining.
\<close>

record client_session =
  ss_phase :: client_phase
  ss_recv :: receiver
  ss_conn :: bool
  ss_stop :: bool
  ss_stats_closed :: bool
  ss_errors_closed :: bool
  ss_timed_out :: bool
  ss_result :: bw_result
  ss_outcome :: "(bw_result \<times> go_error option) go"
  ss_panic :: "go_panic option"

definition session_start :: "bw_flags \<Rightarrow> client_session" where
  "session_start F = \<lparr>ss_phase = Starting, ss_recv = Polling, ss_conn = True, ss_stop = False, ss_stats_closed = False,
     ss_errors_closed = False, ss_timed_out = False, ss_result = new_bw_result F, ss_outcome = Inr (new_bw_result F, None),
     ss_panic = None\<rparr>"

text \<open>
  What happens in a step: the receiver reads a message or fails; the time of a packet is read, which is followed by the
  \<open>select\<close> that looks for an error; the notification of an attempt is written, with the error of \<open>Write\<close>; the \<open>select\<close>
  after it takes what the receiver sends, or its delay is over; the cleanup takes what the receiver sends. The events of the
  test and the cleanup do not say what is taken.
\<close>

datatype session_event =
    Heard string | ReadFailed go_error
  | PacketAt int | EndWritten "go_error option" | Received | DelayOver
  | Drained

section \<open>The receiver\<close>

definition received :: "string \<Rightarrow> receiver" where
  "received msg =
     (case receive_message msg of
        Some (FinalStats m) \<Rightarrow> GivingStats m
      | Some (ReceiveError e) \<Rightarrow> GivingError e
      | _ \<Rightarrow> Polling)"

text \<open>\<open>receiveMessage\<close>. On a closed connection every call fails; on an open one it may.\<close>

inductive receiver_step :: "client_session \<Rightarrow> session_event list \<Rightarrow> client_session \<Rightarrow> bool" where
  stopped: "ss_recv s = Polling \<Longrightarrow> ss_stop s \<Longrightarrow> receiver_step s [] (s\<lparr>ss_recv := Gone\<rparr>)"
| polls: "ss_recv s = Polling \<Longrightarrow> \<not> ss_stop s \<Longrightarrow> receiver_step s [] (s\<lparr>ss_recv := Arming\<rparr>)"
| arms: "ss_recv s = Arming \<Longrightarrow> ss_conn s \<Longrightarrow> receiver_step s [] (s\<lparr>ss_recv := Reading\<rparr>)"
| arm_fails: "ss_recv s = Arming \<Longrightarrow> e = Errorf ''error setting read deadline'' \<Longrightarrow>
    receiver_step s [ReadFailed e] (s\<lparr>ss_recv := GivingError e\<rparr>)"
| reads: "ss_recv s = Reading \<Longrightarrow> ss_conn s \<Longrightarrow> receiver_step s [Heard msg] (s\<lparr>ss_recv := received msg\<rparr>)"
| read_fails: "ss_recv s = Reading \<Longrightarrow> e = Errorf ''error receiving message'' \<Longrightarrow>
    receiver_step s [ReadFailed e] (s\<lparr>ss_recv := GivingError e\<rparr>)"
| stats_closed: "ss_recv s = GivingStats m \<Longrightarrow> ss_stats_closed s \<Longrightarrow> receiver_step s [] (s\<lparr>ss_panic := Some ChannelClosed\<rparr>)"
| errors_closed: "ss_recv s = GivingError e \<Longrightarrow> ss_errors_closed s \<Longrightarrow> receiver_step s [] (s\<lparr>ss_panic := Some ChannelClosed\<rparr>)"

section \<open>The test\<close>

text \<open>\<open>return\<close> of \<open>runTest\<close>: the deferred cleanup is next, after a panic as well.\<close>

definition finish :: "(bw_result \<times> go_error option) go \<Rightarrow> client_session \<Rightarrow> client_session" where
  "finish r s = s\<lparr>ss_phase := Closing, ss_outcome := r\<rparr>"

definition next_attempt :: "bw_flags \<Rightarrow> nat \<Rightarrow> client_session \<Rightarrow> client_session" where
  "next_attempt F k s =
     (if int k = bf_MaxRetries F - 1 then finish (Inr (ss_result s, Some (Errorf ''failed to complete test''))) s
      else s\<lparr>ss_phase := Ending (Suc k)\<rparr>)"

definition data_packet :: "bw_flags \<Rightarrow> nat \<Rightarrow> int \<Rightarrow> 8 word list go" where
  "data_packet F n t = encode_packet (bf_PacketSize F) \<lparr>bp_SequenceNumber = of_nat n, bp_Timestamp = t\<rparr> (of_nat n)"

text \<open>
  \<open>runTest\<close>, for \<open>cnt\<close> packets. A \<open>select\<close> with a default takes an error that the receiver is about to send; after the
  notification any of the cases that are ready may be taken, and the delay may always be over.
\<close>

inductive test_step :: "bw_flags \<Rightarrow> (float64 \<Rightarrow> float64) \<Rightarrow> float64 \<Rightarrow> 32 word \<Rightarrow>
    client_session \<Rightarrow> session_event list \<Rightarrow> client_session \<Rightarrow> bool"
  for F :: bw_flags and root2 :: "float64 \<Rightarrow> float64" and took :: float64 and cnt :: "32 word" where
  no_packets: "ss_phase s = Starting \<Longrightarrow> cnt = 0 \<Longrightarrow> test_step F root2 took cnt s [] (finish (Inl (Panic DivideByZero)) s)"
| starts: "ss_phase s = Starting \<Longrightarrow> cnt \<noteq> 0 \<Longrightarrow> test_step F root2 took cnt s [] (s\<lparr>ss_phase := Sending 1\<rparr>)"
| packet_panics: "ss_phase s = Sending n \<Longrightarrow> n < unat cnt \<Longrightarrow> data_packet F n t = Inl x \<Longrightarrow> test_step F root2 took cnt s [PacketAt t] (finish (Inl x) s)"
| packet: "ss_phase s = Sending n \<Longrightarrow> n < unat cnt \<Longrightarrow> data_packet F n t = Inr bytes \<Longrightarrow> (\<And>e. ss_recv s \<noteq> GivingError e) \<Longrightarrow>
    test_step F root2 took cnt s [PacketAt t] (s\<lparr>ss_phase := Sending (Suc n)\<rparr>)"
| packet_error: "ss_phase s = Sending n \<Longrightarrow> n < unat cnt \<Longrightarrow> data_packet F n t = Inr bytes \<Longrightarrow> ss_recv s = GivingError e \<Longrightarrow>
    test_step F root2 took cnt s [PacketAt t] (finish (Inr (ss_result s, Some (Errorf ''error during test''))) (s\<lparr>ss_recv := Gone\<rparr>))"
| no_attempts: "ss_phase s = Sending n \<Longrightarrow> \<not> n < unat cnt \<Longrightarrow> bf_MaxRetries F \<le> 0 \<Longrightarrow> r = (ss_result s)\<lparr>br_Duration := took\<rparr> \<Longrightarrow>
    test_step F root2 took cnt s [] (finish (Inr (r, None)) (s\<lparr>ss_result := r\<rparr>))"
| sent: "ss_phase s = Sending n \<Longrightarrow> \<not> n < unat cnt \<Longrightarrow> 0 < bf_MaxRetries F \<Longrightarrow>
    test_step F root2 took cnt s [] (s\<lparr>ss_phase := Ending 0, ss_result := (ss_result s)\<lparr>br_Duration := took\<rparr>\<rparr>)"
| end_panics: "ss_phase s = Ending k \<Longrightarrow> encode_packet (bf_PacketSize F) end_packet 0 = Inl x \<Longrightarrow> test_step F root2 took cnt s [] (finish (Inl x) s)"
| end_fails: "ss_phase s = Ending k \<Longrightarrow> encode_packet (bf_PacketSize F) end_packet 0 = Inr bytes \<Longrightarrow>
    test_step F root2 took cnt s [EndWritten (Some e)] (finish (Inr (ss_result s, Some (Errorf ''error sending end of test''))) s)"
| end_sent: "ss_phase s = Ending k \<Longrightarrow> encode_packet (bf_PacketSize F) end_packet 0 = Inr bytes \<Longrightarrow>
    test_step F root2 took cnt s [EndWritten None] (s\<lparr>ss_phase := Waiting k\<rparr>)"
| final: "ss_phase s = Waiting k \<Longrightarrow> ss_recv s = GivingStats m \<Longrightarrow> parseStats F root2 cnt m (ss_result s) = (r, err) \<Longrightarrow>
    test_step F root2 took cnt s [Received]
      (finish (Inr (r, map_option (\<lambda>e. Errorf ''error parsing final stats'') err)) (s\<lparr>ss_recv := Polling, ss_result := r\<rparr>))"
| gave_error: "ss_phase s = Waiting k \<Longrightarrow> ss_recv s = GivingError e \<Longrightarrow>
    test_step F root2 took cnt s [Received] (next_attempt F k (s\<lparr>ss_recv := Gone\<rparr>))"
| delay: "ss_phase s = Waiting k \<Longrightarrow> test_step F root2 took cnt s [DelayOver] (next_attempt F k s)"

section \<open>The cleanup\<close>

text \<open>
  \<open>cleanup\<close>: it closes the connection and \<open>stopCh\<close>, receives what the receiver still sends until that has returned or the timer
  is over, and closes the two channels.
\<close>

inductive cleanup_step :: "client_session \<Rightarrow> session_event list \<Rightarrow> client_session \<Rightarrow> bool" where
  closes_conn: "ss_phase s = Closing \<Longrightarrow> cleanup_step s [] (s\<lparr>ss_phase := Stopping, ss_conn := False\<rparr>)"
| closes_stop: "ss_phase s = Stopping \<Longrightarrow>
    cleanup_step s [] (if ss_stop s then s\<lparr>ss_panic := Some ChannelClosed\<rparr> else s\<lparr>ss_phase := Joining, ss_stop := True\<rparr>)"
| takes_stats: "ss_phase s = Joining \<Longrightarrow> ss_recv s = GivingStats m \<Longrightarrow> cleanup_step s [Drained] (s\<lparr>ss_recv := Polling\<rparr>)"
| takes_error: "ss_phase s = Joining \<Longrightarrow> ss_recv s = GivingError e \<Longrightarrow> cleanup_step s [Drained] (s\<lparr>ss_recv := Gone\<rparr>)"
| joined: "ss_phase s = Joining \<Longrightarrow> ss_recv s = Gone \<Longrightarrow> cleanup_step s [] (s\<lparr>ss_phase := ClosingStats\<rparr>)"
| times_out: "ss_phase s = Joining \<Longrightarrow> cleanup_step s [] (s\<lparr>ss_phase := ClosingStats, ss_timed_out := True\<rparr>)"
| closes_stats: "ss_phase s = ClosingStats \<Longrightarrow>
    cleanup_step s [] (if ss_stats_closed s then s\<lparr>ss_panic := Some ChannelClosed\<rparr> else s\<lparr>ss_phase := ClosingErrors, ss_stats_closed := True\<rparr>)"
| closes_errors: "ss_phase s = ClosingErrors \<Longrightarrow>
    cleanup_step s [] (if ss_errors_closed s then s\<lparr>ss_panic := Some ChannelClosed\<rparr> else s\<lparr>ss_phase := Over, ss_errors_closed := True\<rparr>)"

text \<open>A step of either goroutine, while the daemon is alive.\<close>

definition session_does ::
    "bw_flags \<Rightarrow> (float64 \<Rightarrow> float64) \<Rightarrow> float64 \<Rightarrow> 32 word \<Rightarrow> client_session \<Rightarrow> session_event list \<Rightarrow> client_session \<Rightarrow> bool" where
  "session_does F root2 took cnt s ev s' \<longleftrightarrow>
     ss_panic s = None \<and> (receiver_step s ev s' \<or> test_step F root2 took cnt s ev s' \<or> cleanup_step s ev s')"

definition session_step :: "bw_flags \<Rightarrow> (float64 \<Rightarrow> float64) \<Rightarrow> float64 \<Rightarrow> 32 word \<Rightarrow> client_session \<Rightarrow> client_session \<Rightarrow> bool" where
  "session_step F root2 took cnt s s' \<longleftrightarrow> (\<exists>ev. session_does F root2 took cnt s ev s')"

abbreviation session_runs :: "bw_flags \<Rightarrow> (float64 \<Rightarrow> float64) \<Rightarrow> float64 \<Rightarrow> 32 word \<Rightarrow> client_session \<Rightarrow> client_session \<Rightarrow> bool" where
  "session_runs F root2 took cnt \<equiv> (session_step F root2 took cnt)\<^sup>*\<^sup>*"

abbreviation session_trace ::
    "bw_flags \<Rightarrow> (float64 \<Rightarrow> float64) \<Rightarrow> float64 \<Rightarrow> 32 word \<Rightarrow> client_session \<Rightarrow> session_event list \<Rightarrow> client_session \<Rightarrow> bool" where
  "session_trace F root2 took cnt \<equiv> labelled_runs (session_does F root2 took cnt)"

lemma trace_runs: "session_trace F root2 took cnt s tr s' \<Longrightarrow> session_runs F root2 took cnt s s'"
  by (induction rule: labelled_runs.induct) (auto simp: session_step_def intro: rtranclp.rtrancl_into_rtrancl)

text \<open>Every run has a trace.\<close>

lemma runs_trace: "session_runs F root2 took cnt s s' \<Longrightarrow> \<exists>tr. session_trace F root2 took cnt s tr s'"
  by (induction rule: rtranclp_induct) (auto simp: session_step_def intro: labelled_runs.intros)

section \<open>Channels and panics\<close>

text \<open>How far the cleanup is.\<close>

fun cleanup_rank :: "client_phase \<Rightarrow> nat" where
  "cleanup_rank Stopping = 1"
| "cleanup_rank Joining = 2"
| "cleanup_rank ClosingStats = 3"
| "cleanup_rank ClosingErrors = 4"
| "cleanup_rank Over = 5"
| "cleanup_rank _ = 0"

definition channels_ok :: "client_session \<Rightarrow> bool" where
  "channels_ok s \<longleftrightarrow>
     (ss_conn s \<longleftrightarrow> cleanup_rank (ss_phase s) = 0) \<and> (ss_stop s \<longleftrightarrow> 2 \<le> cleanup_rank (ss_phase s)) \<and>
     (ss_stats_closed s \<longleftrightarrow> 4 \<le> cleanup_rank (ss_phase s)) \<and> (ss_errors_closed s \<longleftrightarrow> 5 \<le> cleanup_rank (ss_phase s)) \<and>
     (ss_timed_out s \<longrightarrow> 3 \<le> cleanup_rank (ss_phase s)) \<and>
     (3 \<le> cleanup_rank (ss_phase s) \<longrightarrow> ss_timed_out s \<or> ss_recv s = Gone) \<and> (ss_panic s = None \<or> ss_timed_out s)"

lemma channels_start: "channels_ok (session_start F)"
  by (simp add: channels_ok_def session_start_def)

lemma finish_simps [simp]:
  "ss_phase (finish r s) = Closing" "ss_recv (finish r s) = ss_recv s" "ss_conn (finish r s) = ss_conn s"
  "ss_stop (finish r s) = ss_stop s" "ss_stats_closed (finish r s) = ss_stats_closed s"
  "ss_errors_closed (finish r s) = ss_errors_closed s" "ss_timed_out (finish r s) = ss_timed_out s"
  "ss_outcome (finish r s) = r" "ss_panic (finish r s) = ss_panic s" "ss_result (finish r s) = ss_result s"
  by (simp_all add: finish_def)

lemma channels_receiver: "receiver_step s ev s' \<Longrightarrow> channels_ok s \<Longrightarrow> channels_ok s'"
  by (erule receiver_step.cases) (auto simp: channels_ok_def)

lemma channels_test: "test_step F root2 took cnt s ev s' \<Longrightarrow> channels_ok s \<Longrightarrow> channels_ok s'"
  by (erule test_step.cases) (auto simp: channels_ok_def next_attempt_def)

lemma channels_cleanup: "cleanup_step s ev s' \<Longrightarrow> channels_ok s \<Longrightarrow> channels_ok s'"
  by (erule cleanup_step.cases) (auto simp: channels_ok_def)

lemma session_channels:
  assumes "session_runs F root2 took cnt (session_start F) s"
  shows "channels_ok s"
  using assms
proof (induction rule: rtranclp_induct)
  case base
  show ?case by (rule channels_start)
next
  case (step u v)
  then show ?case using channels_receiver channels_test channels_cleanup unfolding session_step_def session_does_def by blast
qed

text \<open>The steps the receiver still takes once \<open>stopCh\<close> is closed.\<close>

fun drain_left :: "receiver \<Rightarrow> nat" where
  "drain_left Gone = 0"
| "drain_left (GivingError e) = 1"
| "drain_left Polling = 1"
| "drain_left _ = 2"

lemma joining_step:
  assumes "channels_ok s" "ss_phase s = Joining" "session_step F root2 took cnt s s'" "ss_phase s' = Joining"
  shows "drain_left (ss_recv s') < drain_left (ss_recv s)"
proof -
  have s: "\<not> ss_conn s" "ss_stop s" "\<not> ss_stats_closed s" "\<not> ss_errors_closed s" using assms(1,2) by (simp_all add: channels_ok_def)
  from assms(3) obtain ev where "receiver_step s ev s' \<or> test_step F root2 took cnt s ev s' \<or> cleanup_step s ev s'"
    unfolding session_step_def session_does_def by blast
  then consider "receiver_step s ev s'" | "test_step F root2 took cnt s ev s'" | "cleanup_step s ev s'" by blast
  then show ?thesis
  proof cases
    case 1
    then show ?thesis by cases (use s in auto)
  next
    case 2
    then show ?thesis by cases (use assms(2) in auto)
  next
    case 3
    then show ?thesis by cases (use assms(2,4) in auto)
  qed
qed

lemma joining_goes_on:
  assumes "channels_ok s" "ss_phase s = Joining"
  shows "\<exists>s'. session_step F root2 took cnt s s' \<and> \<not> ss_timed_out s'"
proof -
  have s: "\<not> ss_conn s" "ss_stop s" "\<not> ss_timed_out s" "ss_panic s = None" using assms by (auto simp: channels_ok_def)
  have go: ?thesis if "receiver_step s ev s' \<or> cleanup_step s ev s'" "ss_timed_out s' = ss_timed_out s" for ev s'
    using that s unfolding session_step_def session_does_def by auto
  show ?thesis
  proof (cases "ss_recv s")
    case Polling
    from go [OF disjI1 [OF receiver_step.stopped [OF this s(2)]]] show ?thesis by simp
  next
    case Arming
    from go [OF disjI1 [OF receiver_step.arm_fails [OF this refl]]] show ?thesis by simp
  next
    case Reading
    from go [OF disjI1 [OF receiver_step.read_fails [OF this refl]]] show ?thesis by simp
  next
    case (GivingStats m)
    from go [OF disjI2 [OF cleanup_step.takes_stats [OF assms(2) this]]] show ?thesis by simp
  next
    case (GivingError e)
    from go [OF disjI2 [OF cleanup_step.takes_error [OF assms(2) this]]] show ?thesis by simp
  next
    case Gone
    from go [OF disjI2 [OF cleanup_step.joined [OF assms(2) this]]] show ?thesis by simp
  qed
qed

text \<open>
  C30. The two goroutines of a bandwidth test, in any order of their steps: no channel is closed twice, and nothing is sent on a
  closed channel unless the timer of the cleanup has fired. If it has not, the receiver has returned when the cleanup is over.
  The cleanup does not get stuck: while it drains the channels there is always a step other than the timer, and each of them
  brings the receiver nearer to its end, which is at most two steps away.
\<close>

theorem client_session_safe:
  assumes "session_runs F root2 took cnt (session_start F) s"
  shows "(ss_panic s = None \<or> ss_timed_out s) \<and> (ss_phase s = Over \<longrightarrow> ss_timed_out s \<or> ss_recv s = Gone) \<and>
    (ss_phase s = Joining \<longrightarrow> drain_left (ss_recv s) \<le> 2 \<and> (\<exists>s'. session_step F root2 took cnt s s' \<and> \<not> ss_timed_out s') \<and>
      (\<forall>s'. session_step F root2 took cnt s s' \<longrightarrow> ss_phase s' = Joining \<longrightarrow> drain_left (ss_recv s') < drain_left (ss_recv s)))"
proof -
  note ok = session_channels [OF assms]
  have "drain_left r \<le> 2" for r by (cases r) simp_all
  with ok joining_step [OF ok] joining_goes_on [OF ok] show ?thesis by (auto simp: channels_ok_def)
qed


section \<open>What the events say\<close>

text \<open>
  The answers that \<^verbatim>\<open>MeasureUDP\<close> of Bandwidth asks its environment for, from the events of a run. Kept on the way are the
  packet and the attempt that are next and what the receiver is about to send: the result of what it has heard. A packet takes
  an error that is waiting there, and the \<open>select\<close> of an attempt whatever is.
\<close>

record observation =
  ob_env :: bw_env
  ob_packet :: nat
  ob_attempt :: nat
  ob_pending :: "bw_reply option"

definition ob_start :: "(float64 \<Rightarrow> float64) \<Rightarrow> float64 \<Rightarrow> observation" where
  "ob_start root2 took =
     \<lparr>ob_env = \<lparr>be_now = \<lambda>_. 0, be_error = \<lambda>_. None, be_write_end = \<lambda>_. None, be_reply = \<lambda>_. NoReply, be_took = took, be_sqrt = root2\<rparr>,
      ob_packet = 1, ob_attempt = 0, ob_pending = None\<rparr>"

definition see_packet :: "int \<Rightarrow> go_error option \<Rightarrow> observation \<Rightarrow> observation" where
  "see_packet t err ob =
     ob\<lparr>ob_env := (ob_env ob)\<lparr>be_now := (be_now (ob_env ob))(ob_packet ob := t), be_error := (be_error (ob_env ob))(ob_packet ob := err)\<rparr>,
        ob_packet := Suc (ob_packet ob)\<rparr>"

definition see_reply :: "bw_reply \<Rightarrow> observation \<Rightarrow> observation" where
  "see_reply reply ob =
     ob\<lparr>ob_env := (ob_env ob)\<lparr>be_reply := (be_reply (ob_env ob))(ob_attempt ob := reply)\<rparr>, ob_attempt := Suc (ob_attempt ob)\<rparr>"

fun observe :: "session_event \<Rightarrow> observation \<Rightarrow> observation" where
  "observe (Heard msg) ob = ob\<lparr>ob_pending := receive_message msg\<rparr>"
| "observe (ReadFailed e) ob = ob\<lparr>ob_pending := Some (ReceiveError e)\<rparr>"
| "observe (PacketAt t) ob =
     (case ob_pending ob of
        Some (ReceiveError e) \<Rightarrow> (see_packet t (Some e) ob)\<lparr>ob_pending := None\<rparr>
      | _ \<Rightarrow> see_packet t None ob)"
| "observe (EndWritten err) ob =
     ob\<lparr>ob_env := (ob_env ob)\<lparr>be_write_end := (be_write_end (ob_env ob))(ob_attempt ob := err)\<rparr>\<rparr>"
| "observe Received ob = (see_reply (case ob_pending ob of None \<Rightarrow> NoReply | Some reply \<Rightarrow> reply) ob)\<lparr>ob_pending := None\<rparr>"
| "observe DelayOver ob = see_reply NoReply ob"
| "observe Drained ob = ob\<lparr>ob_pending := None\<rparr>"

definition observed :: "(float64 \<Rightarrow> float64) \<Rightarrow> float64 \<Rightarrow> session_event list \<Rightarrow> bw_env" where
  "observed root2 took tr = ob_env (fold observe tr (ob_start root2 took))"

fun giving :: "receiver \<Rightarrow> bw_reply option" where
  "giving (GivingStats m) = Some (FinalStats m)"
| "giving (GivingError e) = Some (ReceiveError e)"
| "giving _ = None"

lemma giving_received [simp]: "giving (received msg) = receive_message msg"
  by (simp add: received_def receive_message_def)

section \<open>The test as one function\<close>

text \<open>
  \<open>agrees n k E E'\<close>: both environments give the same answers until the packet \<open>n\<close> and the attempt \<open>k\<close>. An invariant says
  of each phase what \<^verbatim>\<open>runTest\<close> of Bandwidth has computed by then in every environment with the answers observed so far.
\<close>

definition agrees :: "nat \<Rightarrow> nat \<Rightarrow> bw_env \<Rightarrow> bw_env \<Rightarrow> bool" where
  "agrees n k E E' \<longleftrightarrow> be_sqrt E' = be_sqrt E \<and> be_took E' = be_took E \<and>
     (\<forall>i<n. be_now E' i = be_now E i \<and> be_error E' i = be_error E i) \<and>
     (\<forall>i<k. be_write_end E' i = be_write_end E i \<and> be_reply E' i = be_reply E i)"

definition send_one :: "bw_flags \<Rightarrow> bw_env \<Rightarrow> nat \<Rightarrow> 8 word list list \<Rightarrow> 8 word list list go" where
  "send_one F E n sent =
     go_bind (data_packet F n (be_now E n))
       (\<lambda>bytes. case be_error E n of Some e \<Rightarrow> Inl (Err (Errorf ''error during test'')) | None \<Rightarrow> Inr (sent @ [bytes]))"

lemma send_data_one: "send_data F E cnt = go_fold (send_one F E) [1..<unat cnt] []"
  by (simp add: send_data_def send_one_def [abs_def] data_packet_def)

text \<open>What is left of \<open>runTest\<close> before the attempt \<open>k\<close>.\<close>

definition attempts_left :: "bw_flags \<Rightarrow> bw_env \<Rightarrow> 32 word \<Rightarrow> nat \<Rightarrow> bw_result \<Rightarrow> (bw_result \<times> go_error option) go" where
  "attempts_left F E cnt k r =
     (case encode_packet (bf_PacketSize F) end_packet 0 of
        Inl x \<Rightarrow> Inl x
      | Inr bytes \<Rightarrow> Inr (retry_loop F E cnt (nat (bf_MaxRetries F) - k) k r))"

lemma runTest_sent:
  assumes "cnt \<noteq> 0" "send_data F E cnt = Inr sent" "0 < bf_MaxRetries F"
  shows "runTest F E cnt r = attempts_left F E cnt 0 (r\<lparr>br_Duration := be_took E\<rparr>)"
  using assms by (simp add: runTest_def attempts_left_def split: sum.split)

definition all_sent :: "bw_flags \<Rightarrow> nat \<Rightarrow> bw_env \<Rightarrow> bool" where
  "all_sent F n E \<longleftrightarrow> (\<exists>sent. go_fold (send_one F E) [1..<n] [] = Inr sent)"

definition at_attempt :: "bw_flags \<Rightarrow> 32 word \<Rightarrow> observation \<Rightarrow> nat \<Rightarrow> client_session \<Rightarrow> bool" where
  "at_attempt F cnt ob k s \<longleftrightarrow> ob_pending ob = giving (ss_recv s) \<and> ob_attempt ob = k \<and> int k < bf_MaxRetries F \<and>
     (\<forall>E. agrees (unat cnt) k (ob_env ob) E \<longrightarrow> runTest F E cnt (new_bw_result F) = attempts_left F E cnt k (ss_result s))"

fun follows :: "bw_flags \<Rightarrow> 32 word \<Rightarrow> observation \<Rightarrow> client_phase \<Rightarrow> client_session \<Rightarrow> bool" where
  "follows F cnt ob Starting s \<longleftrightarrow> ob_pending ob = giving (ss_recv s) \<and> ob_packet ob = 1 \<and> ob_attempt ob = 0 \<and> ss_result s = new_bw_result F"
| "follows F cnt ob (Sending n) s \<longleftrightarrow> ob_pending ob = giving (ss_recv s) \<and> ob_packet ob = n \<and> ob_attempt ob = 0 \<and>
     cnt \<noteq> 0 \<and> 1 \<le> n \<and> n \<le> unat cnt \<and> ss_result s = new_bw_result F \<and> (\<forall>E. agrees n 0 (ob_env ob) E \<longrightarrow> all_sent F n E)"
| "follows F cnt ob (Ending k) s \<longleftrightarrow> at_attempt F cnt ob k s"
| "follows F cnt ob (Waiting k) s \<longleftrightarrow> at_attempt F cnt ob k s \<and> be_write_end (ob_env ob) k = None \<and>
     (\<exists>bytes. encode_packet (bf_PacketSize F) end_packet 0 = Inr bytes)"
| "follows F cnt ob _ s \<longleftrightarrow> runTest F (ob_env ob) cnt (new_bw_result F) = ss_outcome s"

text \<open>The environment keeps its two constants.\<close>

definition constants :: "(float64 \<Rightarrow> float64) \<Rightarrow> float64 \<Rightarrow> observation \<Rightarrow> bool" where
  "constants root2 took ob \<longleftrightarrow> be_sqrt (ob_env ob) = root2 \<and> be_took (ob_env ob) = took"

lemma constants_observe: "constants root2 took (observe ev ob) = constants root2 took ob"
  by (cases ev) (auto simp: constants_def see_packet_def see_reply_def split: option.split bw_reply.split)

text \<open>One more packet, sent, refused or reported as lost.\<close>

lemma agrees_packet: "agrees n 0 (ob_env ob) E \<longleftrightarrow> agrees n 0 (ob_env (see_packet t err ob)) E" if "ob_packet ob = n"
  using that by (auto simp: agrees_def see_packet_def)

lemma packet_sent:
  assumes "follows F cnt ob (Sending n) s" "data_packet F n t = Inr bytes" "agrees (Suc n) 0 (ob_env (see_packet t None ob)) E"
  shows "all_sent F (Suc n) E"
proof -
  have "agrees n 0 (ob_env ob) E" using assms(1,3) by (auto simp: agrees_def see_packet_def)
  then obtain sent where sent: "go_fold (send_one F E) [1..<n] [] = Inr sent" and n: "1 \<le> n"
    using assms(1) by (auto simp: all_sent_def)
  have "be_now E n = t" "be_error E n = None" using assms(1,3) by (auto simp: agrees_def see_packet_def)
  then have "send_one F E n sent = Inr (sent @ [bytes])" using assms(2) by (simp add: send_one_def)
  with sent n show ?thesis by (simp add: go_fold_append all_sent_def)
qed

lemma packet_ends:
  assumes f: "follows F cnt ob (Sending n) s" and n: "n < unat cnt"
    and x: "send_one F (ob_env (see_packet t err ob)) n = (\<lambda>sent. Inl x)"
  shows "runTest F (ob_env (see_packet t err ob)) cnt (new_bw_result F) =
    (case x of Panic p \<Rightarrow> Inl (Panic p) | Err e \<Rightarrow> Inr (ss_result s, Some e))"
proof -
  let ?E = "ob_env (see_packet t err ob)"
  have "agrees n 0 (ob_env ob) ?E" using f by (simp add: agrees_def see_packet_def)
  then obtain sent where "go_fold (send_one F ?E) [1..<n] [] = Inr sent" and c: "cnt \<noteq> 0" "1 \<le> n" "ss_result s = new_bw_result F"
    using f by (auto simp: all_sent_def)
  moreover have "[1..<unat cnt] = [1..<n] @ n # [Suc n..<unat cnt]"
    using c(2) n upt_add_eq_append [of 1 n "unat cnt - n"] by (simp add: upt_conv_Cons)
  ultimately have "send_data F ?E cnt = Inl x" using x by (simp add: send_data_one go_fold_append)
  then show ?thesis using c by (simp add: runTest_def split: go_fault.splits)
qed

text \<open>The end of the packets.\<close>

lemma packets_over:
  assumes "follows F cnt ob (Sending n) s" "\<not> n < unat cnt" "agrees (unat cnt) 0 (ob_env ob) E"
  shows "\<exists>sent. send_data F E cnt = Inr sent"
proof -
  have "n = unat cnt" using assms(1,2) by simp
  with assms(1,3) show ?thesis by (auto simp: send_data_one all_sent_def)
qed

lemma sent_attempts:
  assumes "follows F cnt ob (Sending n) s" "\<not> n < unat cnt" "0 < bf_MaxRetries F" "be_took (ob_env ob) = took"
  shows "at_attempt F cnt ob 0 (s\<lparr>ss_phase := p, ss_result := (ss_result s)\<lparr>br_Duration := took\<rparr>\<rparr>)"
proof -
  have "runTest F E cnt (new_bw_result F) = attempts_left F E cnt 0 ((new_bw_result F)\<lparr>br_Duration := took\<rparr>)"
    if a: "agrees (unat cnt) 0 (ob_env ob) E" for E
    using packets_over [OF assms(1,2) a] runTest_sent [of cnt F E] assms a by (auto simp: agrees_def)
  with assms(1,3) show ?thesis by (auto simp: at_attempt_def)
qed

text \<open>An attempt that ends the test, or leaves the next one.\<close>

lemma attempt_ends:
  assumes "at_attempt F cnt ob k s" "encode_packet (bf_PacketSize F) end_packet 0 = Inr bytes" "agrees (unat cnt) k (ob_env ob) E"
  shows "runTest F E cnt (new_bw_result F) = Inr (retry_loop F E cnt (Suc (nat (bf_MaxRetries F) - Suc k)) k (ss_result s))"
proof -
  have "int k < bf_MaxRetries F" using assms(1) by (simp add: at_attempt_def)
  then have "nat (bf_MaxRetries F) - k = Suc (nat (bf_MaxRetries F) - Suc k)" by simp
  then show ?thesis using assms by (simp add: at_attempt_def attempts_left_def)
qed

lemma see_reply_env: "ob_attempt ob = k \<Longrightarrow> be_reply (ob_env (see_reply reply ob)) k = reply \<and>
    be_write_end (ob_env (see_reply reply ob)) = be_write_end (ob_env ob) \<and> be_sqrt (ob_env (see_reply reply ob)) = be_sqrt (ob_env ob) \<and>
    agrees n k (ob_env ob) (ob_env (see_reply reply ob))"
  by (simp add: see_reply_def agrees_def)

lemma attempt_fails:
  assumes f: "follows F cnt ob (Waiting k) s" and reply: "reply = NoReply \<or> (\<exists>e. reply = ReceiveError e)"
    and s': "ss_result s' = ss_result s" and ob': "ob_env ob' = ob_env (see_reply reply ob)" "ob_attempt ob' = Suc k"
      "ob_pending ob' = giving (ss_recv s')"
  shows "follows F cnt ob' (ss_phase (next_attempt F k s')) (next_attempt F k s')"
proof (cases "int k = bf_MaxRetries F - 1")
  obtain bytes where bytes: "encode_packet (bf_PacketSize F) end_packet 0 = Inr bytes" and at: "at_attempt F cnt ob k s"
    and w: "be_write_end (ob_env ob) k = None" using f by auto
  note env = see_reply_env [of ob k reply]
  {
    case True
    have "runTest F (ob_env ob') cnt (new_bw_result F) = Inr (ss_result s, Some (Errorf ''failed to complete test''))"
      using attempt_ends [OF at bytes, of "ob_env ob'"] env ob'(1) w reply True at by (auto simp: at_attempt_def)
    with True s' show ?thesis by (simp add: next_attempt_def)
  next
    case False
    have k: "int (Suc k) < bf_MaxRetries F" using False at by (simp add: at_attempt_def)
    have "runTest F E cnt (new_bw_result F) = attempts_left F E cnt (Suc k) (ss_result s)"
      if a: "agrees (unat cnt) (Suc k) (ob_env ob') E" for E
    proof -
      have "agrees (unat cnt) k (ob_env ob) E" "be_write_end E k = None" "be_reply E k = reply"
        using a env ob'(1) w at by (auto simp: agrees_def at_attempt_def)
      moreover have "nat (bf_MaxRetries F) - Suc k = Suc (nat (bf_MaxRetries F) - Suc (Suc k))" using k by simp
      ultimately show ?thesis using attempt_ends [OF at bytes] reply by (auto simp: attempts_left_def bytes)
    qed
    with False k s' ob' show ?thesis by (auto simp: next_attempt_def at_attempt_def)
  }
qed

lemma encode_panics: "encode_packet n p b = Inl x \<Longrightarrow> \<exists>y. x = Panic y"
  by (auto simp: encode_packet_def split: if_splits)

lemma follows_finish:
  "runTest F (ob_env ob) cnt (new_bw_result F) = r \<Longrightarrow> follows F cnt ob (ss_phase (finish r s)) (finish r s)"
  by simp

lemma follows_test:
  assumes "test_step F root2 took cnt s ev s'" "follows F cnt ob (ss_phase s) s" "constants root2 took ob"
  shows "follows F cnt (fold observe ev ob) (ss_phase s') s'"
  using assms(1)
proof cases
  case no_packets
  then show ?thesis unfolding no_packets by (intro follows_finish) (simp add: runTest_def)
next
  case starts
  moreover have "1 \<le> unat cnt" using starts(4) by (simp add: Suc_le_eq unat_gt_0)
  ultimately show ?thesis using assms(2) by (auto simp: all_sent_def)
next
  case (packet_panics n t x)
  obtain y where y: "x = Panic y" using encode_panics packet_panics(5) unfolding data_packet_def by blast
  have f: "follows F cnt ob (Sending n) s" using assms(2) by (simp only: packet_panics(3))
  have "send_one F (ob_env (see_packet t err ob)) n = (\<lambda>sent. Inl x)" for err
    using packet_panics(5) f by (simp add: send_one_def see_packet_def fun_eq_iff)
  from packet_ends [OF f packet_panics(4) this] show ?thesis unfolding packet_panics(1,2) y
    by (intro follows_finish) (simp split: option.split bw_reply.split)
next
  case (packet n t bytes)
  have f: "follows F cnt ob (Sending n) s" using assms(2) by (simp only: packet(3))
  have "observe (PacketAt t) ob = see_packet t None ob"
    using f packet(6) by (cases "ss_recv s") auto
  with packet_sent [OF f packet(5)] f packet show ?thesis by (auto simp: see_packet_def)
next
  case (packet_error n t bytes e)
  have f: "follows F cnt ob (Sending n) s" using assms(2) by (simp only: packet_error(3))
  have "send_one F (ob_env (see_packet t (Some e) ob)) n = (\<lambda>sent. Inl (Err (Errorf ''error during test'')))"
    using packet_error(5) f by (simp add: send_one_def see_packet_def fun_eq_iff)
  from packet_ends [OF f packet_error(4) this] f packet_error(6) show ?thesis unfolding packet_error(1,2)
    by (intro follows_finish) simp
next
  case (no_attempts n r)
  have f: "follows F cnt ob (Sending n) s" using assms(2) by (simp only: no_attempts(3))
  obtain sent where "send_data F (ob_env ob) cnt = Inr sent" using packets_over [OF f no_attempts(4), of "ob_env ob"] by (auto simp: agrees_def)
  then show ?thesis unfolding no_attempts(1,2) using f no_attempts(5,6) assms(3)
    by (intro follows_finish) (simp add: runTest_def constants_def)
next
  case (sent n)
  have "follows F cnt ob (Sending n) s" using assms(2) by (simp only: sent(3))
  from sent_attempts [OF this sent(4,5)] assms(3) show ?thesis unfolding sent(1,2) by (simp add: constants_def)
next
  case (end_panics k x)
  have "runTest F (ob_env ob) cnt (new_bw_result F) = attempts_left F (ob_env ob) cnt k (ss_result s)"
    using assms(2) end_panics(3) by (simp add: at_attempt_def agrees_def)
  then show ?thesis unfolding end_panics(1,2) using end_panics(4) by (intro follows_finish) (simp add: attempts_left_def)
next
  case (end_fails k bytes e)
  have at: "at_attempt F cnt ob k s" using assms(2) by (simp add: end_fails(3))
  let ?E = "ob_env (observe (EndWritten (Some e)) ob)"
  have "agrees (unat cnt) k (ob_env ob) ?E" "be_write_end ?E k = Some e" using at by (simp_all add: agrees_def at_attempt_def)
  with attempt_ends [OF at end_fails(4)] show ?thesis unfolding end_fails(1,2) by (intro follows_finish) simp
next
  case (end_sent k bytes)
  have at: "at_attempt F cnt ob k s" using assms(2) by (simp add: end_sent(3))
  have "at_attempt F cnt (observe (EndWritten None) ob) k s"
    using at by (auto simp: at_attempt_def agrees_def)
  then show ?thesis using at end_sent by (simp add: at_attempt_def)
next
  case (final k m r err)
  have f: "follows F cnt ob (Waiting k) s" using assms(2) by (simp only: final(3))
  then obtain bytes where bytes: "encode_packet (bf_PacketSize F) end_packet 0 = Inr bytes" and at: "at_attempt F cnt ob k s" by auto
  then have pending: "ob_pending ob = Some (FinalStats m)" "ob_attempt ob = k" using final(4) by (simp_all add: at_attempt_def)
  have "runTest F (ob_env (see_reply (FinalStats m) ob)) cnt (new_bw_result F) = Inr (r, map_option (\<lambda>e. Errorf ''error parsing final stats'') err)"
    using attempt_ends [OF at bytes, of "ob_env (see_reply (FinalStats m) ob)"] see_reply_env [OF pending(2), of "FinalStats m"] f final(5) assms(3)
    by (auto simp: constants_def split: option.split)
  then show ?thesis unfolding final(1,2) by (intro follows_finish) (simp add: pending)
next
  case (gave_error k e)
  have f: "follows F cnt ob (Waiting k) s" using assms(2) by (simp only: gave_error(3))
  then have "ob_pending ob = Some (ReceiveError e)" "ob_attempt ob = k" using gave_error(4) by (simp_all add: at_attempt_def)
  then show ?thesis unfolding gave_error(1,2)
    by (intro attempt_fails [OF f, of "ReceiveError e"]) (simp_all add: see_reply_def)
next
  case (delay k)
  have f: "follows F cnt ob (Waiting k) s" using assms(2) by (simp only: delay(3))
  then have "ob_pending ob = giving (ss_recv s)" "ob_attempt ob = k" by (simp_all add: at_attempt_def)
  then show ?thesis unfolding delay(1,2)
    by (intro attempt_fails [OF f, of NoReply]) (simp_all add: see_reply_def)
qed

text \<open>The receiver changes only what is pending, and the cleanup neither that nor the result.\<close>

lemma follows_same:
  assumes "ss_result s' = ss_result s" "ss_outcome s' = ss_outcome s" "ob_env ob' = ob_env ob" "ob_packet ob' = ob_packet ob"
    "ob_attempt ob' = ob_attempt ob" "ob_pending ob = giving (ss_recv s) \<longrightarrow> ob_pending ob' = giving (ss_recv s')" "follows F cnt ob p s"
  shows "follows F cnt ob' p s'"
  using assms by (cases p) (auto simp: at_attempt_def)

lemma follows_receiver:
  assumes "receiver_step s ev s'" "follows F cnt ob (ss_phase s) s"
  shows "follows F cnt (fold observe ev ob) (ss_phase s') s'"
proof -
  have p: "ss_phase s' = ss_phase s" using assms(1) by (auto elim!: receiver_step.cases)
  have "ss_result s' = ss_result s" "ss_outcome s' = ss_outcome s" "ob_env (fold observe ev ob) = ob_env ob"
    "ob_packet (fold observe ev ob) = ob_packet ob" "ob_attempt (fold observe ev ob) = ob_attempt ob"
    "ob_pending ob = giving (ss_recv s) \<longrightarrow> ob_pending (fold observe ev ob) = giving (ss_recv s')"
    using assms(1) by (auto elim!: receiver_step.cases)
  from follows_same [OF this assms(2)] show ?thesis by (simp only: p)
qed

lemma follows_cleanup: "cleanup_step s ev s' \<Longrightarrow> follows F cnt ob (ss_phase s) s \<Longrightarrow> follows F cnt (fold observe ev ob) (ss_phase s') s'"
  by (erule cleanup_step.cases) auto

lemma session_follows:
  assumes "session_trace F root2 took cnt (session_start F) tr s"
  shows "follows F cnt (fold observe tr (ob_start root2 took)) (ss_phase s) s"
  using assms
proof (induction "session_start F" tr s rule: labelled_runs.induct)
  case runs_start
  show ?case by (simp add: session_start_def ob_start_def)
next
  case (runs_step tr u ev v)
  let ?ob = "fold observe tr (ob_start root2 took)"
  have "constants root2 took (fold observe tr ob) = constants root2 took ob" for ob
    by (induction tr arbitrary: ob) (simp_all add: constants_observe)
  then have "constants root2 took ?ob" by (simp add: constants_def ob_start_def)
  note test = follows_test [OF _ runs_step.hyps(2) this] and others = follows_receiver [OF _ runs_step.hyps(2)] follows_cleanup [OF _ runs_step.hyps(2)]
  have "receiver_step u ev v \<or> test_step F root2 took cnt u ev v \<or> cleanup_step u ev v"
    using runs_step.hyps(3) by (simp add: session_does_def)
  then have "follows F cnt (fold observe ev ?ob) (ss_phase v) v" using test others by blast
  then show ?case by simp
qed

text \<open>
  C29. Whatever the order of the steps of the two goroutines: what a bandwidth test returns is what \<open>MeasureUDP\<close> computes as one
  function, for the answers that the events of the run determine. The replies among them are made of nothing but what the
  receiver has heard from the connection, handed over at most once and in its order; the test returns an error of the receiver
  at the first packet after it, takes what the receiver is sending after a notification unless the delay is over before, and gives
  up after the last attempt.
\<close>

theorem client_session_refines:
  assumes "packetsCount F = Inr cnt" "session_trace F root2 took cnt (session_start F) tr s" "ss_phase s = Over"
  shows "MeasureUDP F (observed root2 took tr) None = ss_outcome s"
  using session_follows [OF assms(2)] assms(1,3) by (simp add: MeasureUDP_def observed_def)

section \<open>Runs\<close>

text \<open>
  A test of one packet, which is the limit of the loop and never sent, so that the notification comes first and fails. The
  cleanup waits for the receiver, which is in \<open>Read\<close>.
\<close>

definition one_packet :: bw_flags where
  "one_packet = default_flags\<lparr>bf_Bandwidth := 4\<rparr>"

lemma one_packet_count: "packetsCount one_packet = Inr 1"
  by (simp add: packetsCount_def one_packet_def default_flags_def sample_seconds bandwidthExponent_def f_uint32_def)

lemma one_packet_end: "\<exists>bytes. encode_packet (bf_PacketSize one_packet) end_packet 0 = Inr bytes"
  by (simp add: encode_packet_def one_packet_def default_flags_def)

lemma one_packet_retries: "0 < bf_MaxRetries one_packet"
  by (simp add: one_packet_def default_flags_def)

definition joining :: "float64 \<Rightarrow> client_session" where
  "joining took = \<lparr>ss_phase = Joining, ss_recv = Reading, ss_conn = False, ss_stop = True, ss_stats_closed = False,
     ss_errors_closed = False, ss_timed_out = False, ss_result = (new_bw_result one_packet)\<lparr>br_Duration := took\<rparr>,
     ss_outcome = Inr ((new_bw_result one_packet)\<lparr>br_Duration := took\<rparr>, Some (Errorf ''error sending end of test'')), ss_panic = None\<rparr>"

lemma runs_receiver:
  "session_trace F root2 took cnt u tr s \<Longrightarrow> receiver_step s ev s' \<Longrightarrow> ss_panic s = None \<Longrightarrow> session_trace F root2 took cnt u (tr @ ev) s'"
  by (erule runs_step) (simp add: session_does_def)

lemma runs_test:
  "session_trace F root2 took cnt u tr s \<Longrightarrow> test_step F root2 took cnt s ev s' \<Longrightarrow> ss_panic s = None \<Longrightarrow>
    session_trace F root2 took cnt u (tr @ ev) s'"
  by (erule runs_step) (simp add: session_does_def)

lemma runs_cleanup:
  "session_trace F root2 took cnt u tr s \<Longrightarrow> cleanup_step s ev s' \<Longrightarrow> ss_panic s = None \<Longrightarrow> session_trace F root2 took cnt u (tr @ ev) s'"
  by (erule runs_step) (simp add: session_does_def)

lemma run_joining: "session_trace one_packet root2 took 1 (session_start one_packet) [EndWritten (Some e)] (joining took)"
proof -
  obtain bytes where bytes: "encode_packet (bf_PacketSize one_packet) end_packet 0 = Inr bytes" using one_packet_end by blast
  let ?runs = "session_trace one_packet root2 took 1 (session_start one_packet)"
  let ?a = "(session_start one_packet)\<lparr>ss_recv := Arming\<rparr>" and ?b = "(session_start one_packet)\<lparr>ss_recv := Reading\<rparr>"
  let ?c = "?b\<lparr>ss_phase := Ending 0, ss_result := (new_bw_result one_packet)\<lparr>br_Duration := took\<rparr>\<rparr>"
  let ?d = "finish (Inr (ss_result ?c, Some (Errorf ''error sending end of test''))) ?c"
  from runs_receiver [OF runs_start receiver_step.polls, of "session_start one_packet"] have "?runs [] ?a"
    by (simp add: session_start_def)
  from runs_receiver [OF this receiver_step.arms] have "?runs [] ?b" by (simp add: session_start_def)
  from runs_test [OF this test_step.starts] have "?runs [] (?b\<lparr>ss_phase := Sending 1\<rparr>)" by (simp add: session_start_def)
  from runs_test [OF this test_step.sent] one_packet_retries
  have "?runs [] ?c" by (simp add: session_start_def)
  from runs_test [OF this test_step.end_fails [OF _ bytes, where e = e]] have "?runs [EndWritten (Some e)] ?d"
    by (simp add: session_start_def)
  from runs_cleanup [OF this cleanup_step.closes_conn] have "?runs [EndWritten (Some e)] (?d\<lparr>ss_phase := Stopping, ss_conn := False\<rparr>)"
    by (simp add: session_start_def)
  from runs_cleanup [OF this cleanup_step.closes_stop] show ?thesis by (simp add: session_start_def joining_def finish_def)
qed

text \<open>The connection is closed, so \<open>Read\<close> fails; the cleanup takes the error and the receiver returns.\<close>

definition joined_over :: "float64 \<Rightarrow> client_session" where
  "joined_over took = (joining took)\<lparr>ss_phase := Over, ss_recv := Gone, ss_stats_closed := True, ss_errors_closed := True\<rparr>"

abbreviation read_error :: go_error where
  "read_error \<equiv> Errorf ''error receiving message''"

lemma run_over: "session_trace one_packet root2 took 1 (session_start one_packet)
    [EndWritten (Some e), ReadFailed read_error, Drained] (joined_over took)"
proof -
  let ?runs = "session_trace one_packet root2 took 1 (session_start one_packet)"
  from runs_receiver [OF run_joining [of root2 took e] receiver_step.read_fails [OF _ refl]]
  have "?runs [EndWritten (Some e), ReadFailed read_error] ((joining took)\<lparr>ss_recv := GivingError read_error\<rparr>)" by (simp add: joining_def)
  from runs_cleanup [OF this cleanup_step.takes_error]
  have "?runs [EndWritten (Some e), ReadFailed read_error, Drained] ((joining took)\<lparr>ss_recv := Gone\<rparr>)" by (simp add: joining_def)
  from runs_cleanup [OF this cleanup_step.joined]
  have "?runs [EndWritten (Some e), ReadFailed read_error, Drained] ((joining took)\<lparr>ss_recv := Gone, ss_phase := ClosingStats\<rparr>)" by (simp add: joining_def)
  from runs_cleanup [OF this cleanup_step.closes_stats]
  have "?runs [EndWritten (Some e), ReadFailed read_error, Drained]
      ((joining took)\<lparr>ss_recv := Gone, ss_phase := ClosingErrors, ss_stats_closed := True\<rparr>)" by (simp add: joining_def)
  from runs_cleanup [OF this cleanup_step.closes_errors] show ?thesis by (simp add: joining_def joined_over_def)
qed

text \<open>When the timer fires first, the receiver sends its error on a closed channel, and the daemon dies.\<close>

lemma timeout_panics:
  "\<exists>s. session_runs one_packet root2 took 1 (session_start one_packet) s \<and> ss_panic s = Some ChannelClosed"
proof -
  let ?runs = "\<lambda>s. \<exists>tr. session_trace one_packet root2 took 1 (session_start one_packet) tr s"
  have cleanup: "?runs s'" if "?runs s" "cleanup_step s ev s'" "ss_panic s = None" for s ev s' using that runs_cleanup by blast
  have receiver: "?runs s'" if "?runs s" "receiver_step s ev s'" "ss_panic s = None" for s ev s' using that runs_receiver by blast
  have "?runs (joining took)" using run_joining by blast
  from cleanup [OF this cleanup_step.times_out] have "?runs ((joining took)\<lparr>ss_phase := ClosingStats, ss_timed_out := True\<rparr>)" by (simp add: joining_def)
  from cleanup [OF this cleanup_step.closes_stats]
  have "?runs ((joining took)\<lparr>ss_phase := ClosingErrors, ss_timed_out := True, ss_stats_closed := True\<rparr>)" by (simp add: joining_def)
  from cleanup [OF this cleanup_step.closes_errors]
  have "?runs ((joining took)\<lparr>ss_phase := Over, ss_timed_out := True, ss_stats_closed := True, ss_errors_closed := True\<rparr>)"
    by (simp add: joining_def)
  from receiver [OF this receiver_step.read_fails [OF _ refl]]
  have "?runs ((joining took)\<lparr>ss_phase := Over, ss_timed_out := True, ss_stats_closed := True, ss_errors_closed := True,
      ss_recv := GivingError read_error\<rparr>)" by (simp add: joining_def)
  from receiver [OF this receiver_step.errors_closed]
  have "?runs ((joining took)\<lparr>ss_phase := Over, ss_timed_out := True, ss_stats_closed := True, ss_errors_closed := True,
      ss_recv := GivingError read_error, ss_panic := Some ChannelClosed\<rparr>)" by (simp add: joining_def)
  then show ?thesis by (elim exE) (intro exI conjI, erule trace_runs, simp add: joining_def)
qed

text \<open>A test that succeeds: the final statistics are heard after the notification.\<close>

definition final_text :: string where
  "final_text = ''FINAL|100|0|0|1|5|100''"

definition done_result :: "bw_result" where
  "done_result = fst (parseStats one_packet id 1 final_text ((new_bw_result one_packet)\<lparr>br_Duration := Fin 2\<rparr>))"

lemma done_parsed: "parseStats one_packet id 1 final_text ((new_bw_result one_packet)\<lparr>br_Duration := Fin 2\<rparr>) = (done_result, None)"
proof -
  have "snd (parseStats one_packet id 1 final_text ((new_bw_result one_packet)\<lparr>br_Duration := Fin 2\<rparr>)) = None" by code_simp
  then show ?thesis by (simp add: done_result_def prod_eq_iff)
qed

definition done_over :: client_session where
  "done_over = \<lparr>ss_phase = Over, ss_recv = Gone, ss_conn = False, ss_stop = True, ss_stats_closed = True,
     ss_errors_closed = True, ss_timed_out = False, ss_result = done_result, ss_outcome = Inr (done_result, None), ss_panic = None\<rparr>"

lemma run_done: "session_trace one_packet id (Fin 2) 1 (session_start one_packet) [EndWritten None, Heard final_text, Received] done_over"
proof -
  obtain bytes where bytes: "encode_packet (bf_PacketSize one_packet) end_packet 0 = Inr bytes" using one_packet_end by blast
  let ?runs = "session_trace one_packet id (Fin 2) 1 (session_start one_packet)"
  let ?s = "\<lambda>p r. (session_start one_packet)\<lparr>ss_phase := p, ss_recv := r, ss_result := (new_bw_result one_packet)\<lparr>br_Duration := Fin 2\<rparr>\<rparr>"
  let ?e = "\<lambda>p r. done_over\<lparr>ss_phase := p, ss_recv := r, ss_stats_closed := False, ss_errors_closed := False\<rparr>"
  let ?tr = "[EndWritten None, Heard final_text, Received]"
  from runs_test [OF runs_start test_step.starts, of "session_start one_packet"]
  have "?runs [] ((session_start one_packet)\<lparr>ss_phase := Sending 1\<rparr>)" by (simp add: session_start_def)
  from runs_test [OF this test_step.sent] one_packet_retries have "?runs [] (?s (Ending 0) Polling)" by (simp add: session_start_def)
  from runs_test [OF this test_step.end_sent [OF _ bytes]] have "?runs [EndWritten None] (?s (Waiting 0) Polling)" by (simp add: session_start_def)
  from runs_receiver [OF this receiver_step.polls] have "?runs [EndWritten None] (?s (Waiting 0) Arming)" by (simp add: session_start_def)
  from runs_receiver [OF this receiver_step.arms] have "?runs [EndWritten None] (?s (Waiting 0) Reading)" by (simp add: session_start_def)
  moreover have "received final_text = GivingStats final_text"
    by (simp add: received_def receive_message_def final_text_def has_prefix_def)
  ultimately have "?runs [EndWritten None, Heard final_text] (?s (Waiting 0) (GivingStats final_text))"
    using runs_receiver [OF _ receiver_step.reads [where msg = final_text]] by (fastforce simp: session_start_def)
  from runs_test [OF this test_step.final [OF _ _ _]] done_parsed
  have "?runs ?tr ((?e Closing Polling)\<lparr>ss_conn := True, ss_stop := False\<rparr>)" by (fastforce simp: session_start_def done_over_def finish_def)
  from runs_cleanup [OF this cleanup_step.closes_conn] have "?runs ?tr ((?e Stopping Polling)\<lparr>ss_stop := False\<rparr>)" by (simp add: done_over_def)
  from runs_cleanup [OF this cleanup_step.closes_stop] have "?runs ?tr (?e Joining Polling)" by (simp add: done_over_def)
  from runs_receiver [OF this receiver_step.stopped] have "?runs ?tr (?e Joining Gone)" by (simp add: done_over_def)
  from runs_cleanup [OF this cleanup_step.joined] have "?runs ?tr (?e ClosingStats Gone)" by (simp add: done_over_def)
  from runs_cleanup [OF this cleanup_step.closes_stats] have "?runs ?tr ((?e ClosingErrors Gone)\<lparr>ss_stats_closed := True\<rparr>)" by (simp add: done_over_def)
  from runs_cleanup [OF this cleanup_step.closes_errors] show ?thesis by (simp add: done_over_def)
qed

theorem client_session_safe_witness:
  "\<exists>s. session_runs one_packet id (Fin 2) 1 (session_start one_packet) s \<and> ss_phase s = Over \<and> ss_panic s = None \<and> ss_recv s = Gone"
proof -
  have "\<not> ss_timed_out (joined_over (Fin 2))" "ss_phase (joined_over (Fin 2)) = Over" by (simp_all add: joined_over_def joining_def)
  moreover have "session_runs one_packet id (Fin 2) 1 (session_start one_packet) (joined_over (Fin 2))"
    by (rule trace_runs [OF run_over])
  ultimately show ?thesis using client_session_safe by blast
qed

theorem client_session_refines_witness:
  "session_trace one_packet id (Fin 2) 1 (session_start one_packet) [EndWritten None, Heard final_text, Received] done_over \<and>
    MeasureUDP one_packet (observed id (Fin 2) [EndWritten None, Heard final_text, Received]) None = Inr (done_result, None)"
  using client_session_refines [OF one_packet_count run_done] run_done by (simp add: done_over_def)

end
