(* ===== verification/Consensus.thy ===== *)
theory Consensus
  imports Strings
begin

text \<open>
  \<^verbatim>\<open>internal/server/consensus\<close> and \<^verbatim>\<open>internal/server/consensus.go\<close>: the server around \<open>hashicorp/raft\<close>, its leadership monitor, the
  extension of the cluster by the peers, and the health check. The library is a parameter: a record of its answers in an
  abstract state. The state machine of \<open>fsm.go\<close> keeps nothing.
\<close>

section \<open>raft\<close>

datatype suffrage = Voter | Nonvoter | Staging

record raft_server =
  rs_ID :: string
  rs_Address :: string
  rs_Suffrage :: suffrage

datatype raft_state = Follower | Candidate | Leader | Shutdown

text \<open>\<open>rf_add_voter\<close> is \<open>AddVoter\<close> with the wait for its future, \<open>rf_bootstrap\<close> likewise.\<close>

record 'r raft =
  rf_state :: "'r \<Rightarrow> raft_state"
  rf_leader :: "'r \<Rightarrow> string \<times> string"
  rf_config :: "'r \<Rightarrow> go_error + raft_server list"
  rf_stats :: "'r \<Rightarrow> string \<rightharpoonup> string"
  rf_bootstrap :: "raft_server list \<Rightarrow> 'r \<Rightarrow> go_error option \<times> 'r"
  rf_add_voter :: "string \<Rightarrow> string \<Rightarrow> 'r \<Rightarrow> go_error option \<times> 'r"
  rf_shutdown :: "'r \<Rightarrow> go_error option \<times> 'r"

section \<open>fsm.go\<close>

text \<open>The replicated state machine keeps nothing: raft is used for its elections only. \<open>close\<close> is the result of closing the sink.\<close>

datatype fsm = FSM
datatype fsm_snapshot = FSMSnapshot

definition fsm_Apply :: "fsm \<Rightarrow> 'log \<Rightarrow> unit option \<times> fsm" where
  "fsm_Apply f log = (None, f)"

definition fsm_Snapshot :: "fsm \<Rightarrow> fsm_snapshot go" where
  "fsm_Snapshot f = Inr FSMSnapshot"

definition fsm_Restore :: "fsm \<Rightarrow> string \<Rightarrow> unit go \<times> fsm" where
  "fsm_Restore f snapshot = (Inr (), f)"

definition fsm_Persist :: "go_error option \<Rightarrow> fsm_snapshot \<Rightarrow> unit go" where
  "fsm_Persist close s = (case close of None \<Rightarrow> Inr () | Some e \<Rightarrow> Inl (Err e))"

section \<open>consensus.go\<close>

record 'r consensus_server =
  cn_local :: int
  cn_peers :: "int list"
  cn_listenAddr :: string
  cn_port :: int
  cn_needBootstrap :: bool
  cn_raft :: "'r option"
  cn_isCurrentlyLeader :: bool

definition consensus_NewServer :: "int \<Rightarrow> int list \<Rightarrow> string \<Rightarrow> 'r consensus_server" where
  "consensus_NewServer siteID peers listenAddr =
     \<lparr>cn_local = siteID, cn_peers = peers, cn_listenAddr = listenAddr,
      cn_port = (case atoi (last (split listenAddr CHR '':'')) of None \<Rightarrow> 0 | Some p \<Rightarrow> p),
      cn_needBootstrap = False, cn_raft = None, cn_isCurrentlyLeader = False\<rparr>"

definition site_addr :: "int \<Rightarrow> int \<Rightarrow> string" where
  "site_addr site port = ''10.201.'' @ itoa site @ ''.1:'' @ itoa port"

definition NewConcensusServer :: "int \<Rightarrow> int \<Rightarrow> int list \<Rightarrow> 'r consensus_server" where
  "NewConcensusServer consensusPort siteID peers = consensus_NewServer siteID peers (site_addr siteID consensusPort)"

text \<open>
  What creating the instance meets: the address and the transport, whether the directory is missing and the error of making
  it, the stores, and the instance itself.
\<close>

record 'r raft_setup =
  su_resolve :: "string \<Rightarrow> go_error option"
  su_transport :: "go_error option"
  su_missing :: bool
  su_mkdir :: "go_error option"
  su_log_store :: "go_error option"
  su_stable_store :: "go_error option"
  su_snapshots :: "go_error option"
  su_raft :: "string \<Rightarrow> go_error + 'r"

definition check :: "string \<Rightarrow> go_error option \<Rightarrow> 'a go \<Rightarrow> 'a go" where
  "check msg e k = (case e of Some e \<Rightarrow> Inl (Err (Wrapf msg e)) | None \<Rightarrow> k)"

text \<open>The second component is the server with the flag \<open>needBootstrap\<close>, which stays set when a later step fails.\<close>

definition NewRaft :: "'r raft_setup \<Rightarrow> 'r consensus_server \<Rightarrow> 'r go \<times> 'r consensus_server" where
  "NewRaft S srv =
     (let made = (su_resolve S (cn_listenAddr srv) = None \<and> su_transport S = None \<and> su_missing S \<and> su_mkdir S = None)
      in (check ''error resolving TCP address'' (su_resolve S (cn_listenAddr srv))
           (check ''error creating TCP transport'' (su_transport S)
             (check ''error creating data directory'' (if su_missing S then su_mkdir S else None)
               (check ''error creating log store'' (su_log_store S)
                 (check ''error creating stable store'' (su_stable_store S)
                   (check ''error creating snapshot store'' (su_snapshots S)
                     (case su_raft S (itoa (cn_local srv)) of
                        Inl e \<Rightarrow> Inl (Err (Wrapf ''error creating raft instance'' e))
                      | Inr r \<Rightarrow> Inr r)))))),
          srv\<lparr>cn_needBootstrap := cn_needBootstrap srv \<or> made\<rparr>))"

definition bootstrap_config :: "'r consensus_server \<Rightarrow> raft_server list" where
  "bootstrap_config srv = [\<lparr>rs_ID = itoa (cn_local srv), rs_Address = cn_listenAddr srv, rs_Suffrage = Voter\<rparr>]"

definition consensus_Start :: "'r raft \<Rightarrow> 'r raft_setup \<Rightarrow> 'r consensus_server \<Rightarrow> unit go \<times> 'r consensus_server" where
  "consensus_Start R S srv =
     (case NewRaft S srv of
        (Inl (Err e), srv1) \<Rightarrow> (Inl (Err (Wrapf ''failed to initialize raft'' e)), srv1)
      | (Inl (Panic x), srv1) \<Rightarrow> (Inl (Panic x), srv1)
      | (Inr r, srv1) \<Rightarrow>
          (if cn_needBootstrap srv1 \<and> cn_local srv1 = 0
           then (case rf_bootstrap R (bootstrap_config srv1) r of
                   (Some e, r') \<Rightarrow> (Inl (Err (Wrapf ''failed to bootstrap raft cluster'' e)), srv1\<lparr>cn_raft := Some r'\<rparr>)
                 | (None, r') \<Rightarrow> (Inr (), srv1\<lparr>cn_raft := Some r'\<rparr>))
           else (Inr (), srv1\<lparr>cn_raft := Some r\<rparr>)))"

definition consensus_Stop :: "'r raft \<Rightarrow> 'r consensus_server \<Rightarrow> go_error option \<times> 'r consensus_server" where
  "consensus_Stop R srv =
     (case cn_raft srv of
        None \<Rightarrow> (None, srv)
      | Some r \<Rightarrow> (case rf_shutdown R r of (e, r') \<Rightarrow> (e, srv\<lparr>cn_raft := Some r'\<rparr>)))"

section \<open>The leadership monitor\<close>

text \<open>What the monitor starts: the extension of the cluster, and the callbacks.\<close>

datatype leader_action = EnsurePeers | LeaderCallback | FollowerCallback

definition monitor_init :: "'r raft \<Rightarrow> 'r \<Rightarrow> 'r consensus_server \<Rightarrow> leader_action list \<times> 'r consensus_server" where
  "monitor_init R r srv =
     (let leader = (rf_state R r = Leader)
      in ((if leader then [EnsurePeers] else []), srv\<lparr>cn_isCurrentlyLeader := leader\<rparr>))"

definition monitor_step :: "bool \<Rightarrow> 'r consensus_server \<Rightarrow> leader_action list \<times> 'r consensus_server" where
  "monitor_step isLeader srv =
     (if isLeader
      then (if cn_isCurrentlyLeader srv then ([], srv)
            else ([EnsurePeers, LeaderCallback], srv\<lparr>cn_isCurrentlyLeader := True\<rparr>))
      else (if cn_isCurrentlyLeader srv then ([FollowerCallback], srv\<lparr>cn_isCurrentlyLeader := False\<rparr>) else ([], srv)))"

text \<open>The notifications of the library up to the stop signal.\<close>

fun monitor :: "bool list \<Rightarrow> 'r consensus_server \<Rightarrow> leader_action list \<times> 'r consensus_server" where
  "monitor [] srv = ([], srv)"
| "monitor (b # bs) srv =
     (case monitor_step b srv of (acts, srv1) \<Rightarrow> (case monitor bs srv1 of (acts', srv2) \<Rightarrow> (acts @ acts', srv2)))"

section \<open>Extending the cluster\<close>

text \<open>The result is what is logged for each peer that is added: the peer and the error, if any.\<close>

fun add_peers :: "'r raft \<Rightarrow> 'r consensus_server \<Rightarrow> string set \<Rightarrow> int list \<Rightarrow> 'r \<Rightarrow> (int \<times> go_error option) list \<times> 'r" where
  "add_peers R srv existing [] r = ([], r)"
| "add_peers R srv existing (p # ps) r =
     (if p = cn_local srv \<or> itoa p \<in> existing then add_peers R srv existing ps r
      else (case rf_add_voter R (itoa p) (site_addr p (cn_port srv)) r of
              (e, r1) \<Rightarrow> (case add_peers R srv existing ps r1 of (l, r2) \<Rightarrow> ((p, e) # l, r2))))"

definition ensureAllPeersInCluster :: "'r raft \<Rightarrow> 'r consensus_server \<Rightarrow> 'r \<Rightarrow> (int \<times> go_error option) list \<times> 'r" where
  "ensureAllPeersInCluster R srv r =
     (case rf_config R r of
        Inl e \<Rightarrow> ([], r)
      | Inr servers \<Rightarrow> add_peers R srv (rs_ID ` set servers) (cn_peers srv) r)"

section \<open>Queries\<close>

text \<open>Without an instance every query dereferences nil.\<close>

definition with_raft :: "'r consensus_server \<Rightarrow> ('r \<Rightarrow> 'a) \<Rightarrow> 'a go" where
  "with_raft srv f = (case cn_raft srv of None \<Rightarrow> Inl (Panic NilDereference) | Some r \<Rightarrow> Inr (f r))"

definition IsLeader :: "'r raft \<Rightarrow> 'r consensus_server \<Rightarrow> bool go" where
  "IsLeader R srv = with_raft srv (\<lambda>r. rf_state R r = Leader)"

definition GetLeader :: "'r raft \<Rightarrow> 'r consensus_server \<Rightarrow> (string \<times> string) go" where
  "GetLeader R srv = with_raft srv (rf_leader R)"

fun raft_state_string :: "raft_state \<Rightarrow> string" where
  "raft_state_string Follower = ''Follower''"
| "raft_state_string Candidate = ''Candidate''"
| "raft_state_string Leader = ''Leader''"
| "raft_state_string Shutdown = ''Shutdown''"

definition raft_GetState :: "'r raft \<Rightarrow> 'r consensus_server \<Rightarrow> string go" where
  "raft_GetState R srv = with_raft srv (\<lambda>r. raft_state_string (rf_state R r))"

text \<open>A missing entry of the statistics reads as the empty string.\<close>

definition stat :: "(string \<rightharpoonup> string) \<Rightarrow> string \<Rightarrow> string" where
  "stat stats k = (case stats k of None \<Rightarrow> [] | Some v \<Rightarrow> v)"

definition leader_behind :: "(string \<rightharpoonup> string) \<Rightarrow> bool" where
  "leader_behind stats =
     (case (atoi (stat stats ''commit_index''), atoi (stat stats ''applied_index'')) of
        (Some uncommitted, Some applied) \<Rightarrow> uncommitted - applied > 1000
      | _ \<Rightarrow> False)"

definition follower_stale :: "(string \<rightharpoonup> string) \<Rightarrow> bool" where
  "follower_stale stats = (case atoi (stat stats ''last_contact'') of Some ms \<Rightarrow> ms > 10000 | None \<Rightarrow> False)"

definition voterCount :: "raft_server list \<Rightarrow> nat" where
  "voterCount servers = length (filter (\<lambda>s. rs_Suffrage s = Voter) servers)"

definition cluster_health :: "'r raft \<Rightarrow> 'r \<Rightarrow> bool \<times> string" where
  "cluster_health R r =
     (if fst (rf_leader R r) = [] then (False, ''no leader elected'')
      else
        case rf_config R r of
          Inl e \<Rightarrow> (False, ''error getting configuration'')
        | Inr servers \<Rightarrow>
            (let minimumQuorum = voterCount servers div 2 + 1
             in if voterCount servers < minimumQuorum then (False, ''insufficient voters'')
                else if rf_state R r = Leader
                then (if leader_behind (rf_stats R r) then (False, ''too many uncommitted entries'') else (True, ''cluster is healthy''))
                else (if follower_stale (rf_stats R r) then (False, ''no recent contact with leader'')
                      else (True, ''cluster is healthy''))))"

definition IsClusterHealthy :: "'r raft \<Rightarrow> 'r consensus_server \<Rightarrow> (bool \<times> string) go" where
  "IsClusterHealthy R srv = with_raft srv (cluster_health R)"

record health_status =
  he_healthy :: bool
  he_reason :: string
  he_state :: string
  he_leader :: string
  he_servers :: "raft_server list"
  he_node_id :: int
  he_node_addr :: string
  he_is_leader :: bool
  he_stats :: "string \<rightharpoonup> string"
  he_timestamp :: int

definition GetClusterHealth :: "'r raft \<Rightarrow> int \<Rightarrow> 'r consensus_server \<Rightarrow> health_status go" where
  "GetClusterHealth R now srv =
     with_raft srv (\<lambda>r.
       \<lparr>he_healthy = fst (cluster_health R r), he_reason = snd (cluster_health R r),
        he_state = raft_state_string (rf_state R r), he_leader = fst (rf_leader R r),
        he_servers = (case rf_config R r of Inl e \<Rightarrow> [] | Inr servers \<Rightarrow> servers),
        he_node_id = cn_local srv, he_node_addr = cn_listenAddr srv, he_is_leader = (rf_state R r = Leader),
        he_stats = rf_stats R r, he_timestamp = now\<rparr>)"

definition consensus_Healty :: "'r raft \<Rightarrow> 'r consensus_server \<Rightarrow> bool go" where
  "consensus_Healty R srv = go_bind (IsClusterHealthy R srv) (\<lambda>(healthy, reason). Inr healthy)"

definition consensus_Leader :: "'r raft \<Rightarrow> 'r consensus_server \<Rightarrow> bool go" where
  "consensus_Leader R srv = IsLeader R srv"

section \<open>Leadership\<close>

text \<open>
  The monitor follows the notifications: after any sequence its flag is the last one, the callbacks are exactly the
  changes of leadership in order, however often a notification is repeated, and each time the node becomes leader the
  cluster is extended once.
\<close>

lemma monitor_follows:
  "cn_isCurrentlyLeader (snd (monitor bs srv)) = last (cn_isCurrentlyLeader srv # bs) \<and>
   filter (\<lambda>a. a \<noteq> EnsurePeers) (fst (monitor bs srv)) =
     map (\<lambda>b. if b then LeaderCallback else FollowerCallback) (tl (remdups_adj (cn_isCurrentlyLeader srv # bs))) \<and>
   count_list (fst (monitor bs srv)) EnsurePeers = count_list (fst (monitor bs srv)) LeaderCallback"
proof (induction bs arbitrary: srv)
  case (Cons b bs)
  obtain acts srv1 where s: "monitor_step b srv = (acts, srv1)" by fastforce
  have l: "cn_isCurrentlyLeader srv1 = b"
    using s by (cases b; cases "cn_isCurrentlyLeader srv") (auto simp: monitor_step_def)
  have a: "filter (\<lambda>a. a \<noteq> EnsurePeers) acts =
      (if cn_isCurrentlyLeader srv = b then [] else [if b then LeaderCallback else FollowerCallback])"
    "count_list acts EnsurePeers = count_list acts LeaderCallback"
    using s by (cases b; cases "cn_isCurrentlyLeader srv"; auto simp: monitor_step_def)+
  have t: "tl (remdups_adj (x # b # bs)) = (if x = b then [] else [b]) @ tl (remdups_adj (b # bs))" for x
    by (cases "remdups_adj (b # bs)") (auto dest: arg_cong [where f = hd] simp: hd_remdups_adj)
  have m: "fst (monitor (b # bs) srv) = acts @ fst (monitor bs srv1)" "snd (monitor (b # bs) srv) = snd (monitor bs srv1)"
    by (simp_all add: s split: prod.split)
  show ?case using Cons [of srv1] a t [of "cn_isCurrentlyLeader srv"]
    by (simp add: m l del: monitor.simps remdups_adj.simps split: if_splits)
qed simp

section \<open>Extending the cluster, with what raft documents\<close>

text \<open>
  Adding a voter keeps the other servers; when it succeeds the server is in the configuration. Nothing else gets in.
\<close>

definition raft_laws :: "'r raft \<Rightarrow> bool" where
  "raft_laws R \<longleftrightarrow> (\<forall>r l i a. rf_config R r = Inr l \<longrightarrow>
     (\<exists>l'. rf_config R (snd (rf_add_voter R i a r)) = Inr l' \<and>
        (\<forall>s\<in>set l. rs_ID s \<noteq> i \<longrightarrow> s \<in> set l') \<and>
        (\<forall>s\<in>set l'. s \<in> set l \<or> s = \<lparr>rs_ID = i, rs_Address = a, rs_Suffrage = Voter\<rparr>) \<and>
        (fst (rf_add_voter R i a r) = None \<longrightarrow> \<lparr>rs_ID = i, rs_Address = a, rs_Suffrage = Voter\<rparr> \<in> set l')))"

definition peer_server :: "'r consensus_server \<Rightarrow> int \<Rightarrow> raft_server" where
  "peer_server srv p = \<lparr>rs_ID = itoa p, rs_Address = site_addr p (cn_port srv), rs_Suffrage = Voter\<rparr>"

lemma raft_add:
  assumes "raft_laws R" "rf_config R r = Inr l" "rf_add_voter R (itoa p) (site_addr p (cn_port srv)) r = (e, r1)"
  shows "\<exists>l1. rf_config R r1 = Inr l1 \<and> (\<forall>s\<in>set l. rs_ID s \<noteq> itoa p \<longrightarrow> s \<in> set l1) \<and>
    (\<forall>s\<in>set l1. s \<in> set l \<or> s = peer_server srv p) \<and> (e = None \<longrightarrow> peer_server srv p \<in> set l1)"
  using assms(1) [unfolded raft_laws_def, rule_format, OF assms(2), of "itoa p" "site_addr p (cn_port srv)"]
  unfolding assms(3) fst_conv snd_conv peer_server_def .

lemma add_peers_spec:
  assumes "raft_laws R" "rf_config R r = Inr l" "add_peers R srv existing ps r = (lg, r')"
  shows "map fst lg = filter (\<lambda>p. p \<noteq> cn_local srv \<and> itoa p \<notin> existing) ps \<and>
    (\<exists>l'. rf_config R r' = Inr l' \<and>
      (\<forall>s\<in>set l. rs_ID s \<notin> itoa ` fst ` set lg \<longrightarrow> s \<in> set l') \<and>
      (\<forall>s\<in>set l'. s \<in> set l \<or> s \<in> peer_server srv ` fst ` set lg) \<and>
      (\<forall>p\<in>fst ` set lg. (\<exists>e. (p, Some e) \<in> set lg) \<or> peer_server srv p \<in> set l'))"
  using assms(2,3)
proof (induction ps arbitrary: r l lg)
  case Nil
  then show ?case by auto
next
  case (Cons p ps)
  show ?case
  proof (cases "p = cn_local srv \<or> itoa p \<in> existing")
    case True
    then show ?thesis using Cons by auto
  next
    case False
    obtain e r1 where a: "rf_add_voter R (itoa p) (site_addr p (cn_port srv)) r = (e, r1)" by fastforce
    obtain lg2 where b: "add_peers R srv existing ps r1 = (lg2, r')" "lg = (p, e) # lg2"
      using Cons.prems(2) False a by (auto split: prod.splits)
    obtain l1 where l1: "rf_config R r1 = Inr l1" "\<forall>s\<in>set l. rs_ID s \<noteq> itoa p \<longrightarrow> s \<in> set l1"
      "\<forall>s\<in>set l1. s \<in> set l \<or> s = peer_server srv p" "e = None \<longrightarrow> peer_server srv p \<in> set l1"
      using raft_add [OF assms(1) Cons.prems(1) a] by (elim exE conjE) (rule that)
    from Cons.IH [OF l1(1) b(1)] obtain l' where IH: "map fst lg2 = filter (\<lambda>p. p \<noteq> cn_local srv \<and> itoa p \<notin> existing) ps"
      "rf_config R r' = Inr l'" "\<forall>s\<in>set l1. rs_ID s \<notin> itoa ` fst ` set lg2 \<longrightarrow> s \<in> set l'"
      "\<forall>s\<in>set l'. s \<in> set l1 \<or> s \<in> peer_server srv ` fst ` set lg2"
      "\<forall>p\<in>fst ` set lg2. (\<exists>e. (p, Some e) \<in> set lg2) \<or> peer_server srv p \<in> set l'"
      by (elim exE conjE) (rule that)
    have keep: "s \<in> set l'" if "s \<in> set l" "rs_ID s \<notin> itoa ` fst ` set lg" for s
      using l1(2) IH(3) that by (simp add: b(2))
    have origin: "s \<in> set l \<or> s \<in> peer_server srv ` fst ` set lg" if "s \<in> set l'" for s
      using IH(4) l1(3) that by (auto simp: b(2))
    have added: "(\<exists>e. (q, Some e) \<in> set lg) \<or> peer_server srv q \<in> set l'" if "q \<in> fst ` set lg" for q
    proof (cases "q \<in> fst ` set lg2")
      case True
      then show ?thesis using IH(5) by (auto simp: b(2))
    next
      case other: False
      then have q: "q = p" using that by (auto simp: b(2))
      have "itoa p \<notin> itoa ` fst ` set lg2" using other unfolding q by (metis imageE itoa_inj)
      then show ?thesis using l1(4) IH(3) by (cases e) (auto simp: b(2) q peer_server_def)
    qed
    have "map fst lg = filter (\<lambda>p. p \<noteq> cn_local srv \<and> itoa p \<notin> existing) (p # ps)" using IH(1) False by (simp add: b(2))
    then show ?thesis using IH(2) keep origin added by (intro conjI exI [of _ l'] ballI impI) assumption+
  qed
qed

text \<open>
  C33. When a node becomes leader and the configuration can be read, every other peer ends up in the configuration, unless
  adding it failed, which is logged; servers that were there keep their entries, and nobody else gets in. The peers added
  are voters at their own address of the mesh, at the port of the cluster.
\<close>

theorem ensure_adds_peers:
  assumes "raft_laws R" "rf_config R r = Inr l" "ensureAllPeersInCluster R srv r = (lg, r')"
  shows "\<exists>l'. rf_config R r' = Inr l' \<and> set l \<subseteq> set l' \<and>
    (\<forall>p\<in>set (cn_peers srv). p \<noteq> cn_local srv \<longrightarrow> itoa p \<in> rs_ID ` set l' \<or> (\<exists>e. (p, Some e) \<in> set lg)) \<and>
    (\<forall>s\<in>set l' - set l. \<exists>p\<in>set (cn_peers srv). p \<noteq> cn_local srv \<and>
       s = \<lparr>rs_ID = itoa p, rs_Address = site_addr p (cn_port srv), rs_Suffrage = Voter\<rparr>)"
proof -
  let ?old = "rs_ID ` set l"
  from assms have "add_peers R srv ?old (cn_peers srv) r = (lg, r')" by (simp add: ensureAllPeersInCluster_def)
  from add_peers_spec [OF assms(1,2) this] obtain l' where
    lg: "map fst lg = filter (\<lambda>p. p \<noteq> cn_local srv \<and> itoa p \<notin> ?old) (cn_peers srv)" and
    l': "rf_config R r' = Inr l'" "\<forall>s\<in>set l. rs_ID s \<notin> itoa ` fst ` set lg \<longrightarrow> s \<in> set l'"
      "\<forall>s\<in>set l'. s \<in> set l \<or> s \<in> peer_server srv ` fst ` set lg"
      "\<forall>p\<in>fst ` set lg. (\<exists>e. (p, Some e) \<in> set lg) \<or> peer_server srv p \<in> set l'"
    by (elim exE conjE) (rule that)
  have ps: "fst ` set lg = {p \<in> set (cn_peers srv). p \<noteq> cn_local srv \<and> itoa p \<notin> ?old}"
    using arg_cong [OF lg, of set] by auto
  have "rs_ID s \<notin> itoa ` fst ` set lg" if "s \<in> set l" for s
  proof
    assume "rs_ID s \<in> itoa ` fst ` set lg"
    then obtain p where "rs_ID s = itoa p" "itoa p \<notin> ?old" unfolding ps by blast
    moreover have "rs_ID s \<in> ?old" using that by (rule imageI)
    ultimately show False by simp
  qed
  then have sub: "set l \<subseteq> set l'" using l'(2) by blast
  moreover have "itoa p \<in> rs_ID ` set l' \<or> (\<exists>e. (p, Some e) \<in> set lg)" if p: "p \<in> set (cn_peers srv)" "p \<noteq> cn_local srv" for p
  proof (cases "itoa p \<in> ?old")
    case True
    then show ?thesis using sub by auto
  next
    case False
    then have "p \<in> fst ` set lg" using p by (simp add: ps)
    with l'(4) have "(\<exists>e. (p, Some e) \<in> set lg) \<or> peer_server srv p \<in> set l'" by blast
    then show ?thesis by (metis imageI peer_server_def raft_server.select_convs(1))
  qed
  moreover have "\<exists>p\<in>set (cn_peers srv). p \<noteq> cn_local srv \<and> s = peer_server srv p" if "s \<in> set l' - set l" for s
    using l'(3) that ps by auto
  ultimately show ?thesis using l'(1) by (auto simp: peer_server_def)
qed

text \<open>A cluster held as the list of its servers, where every addition succeeds.\<close>

definition list_raft :: "raft_server list raft" where
  "list_raft = \<lparr>rf_state = (\<lambda>r. Leader), rf_leader = (\<lambda>r. (''10.201.0.1:5123'', ''0'')), rf_config = Inr, rf_stats = (\<lambda>r. Map.empty),
     rf_bootstrap = (\<lambda>l r. (None, l)),
     rf_add_voter = (\<lambda>i a r. (None, filter (\<lambda>s. rs_ID s \<noteq> i) r @ [\<lparr>rs_ID = i, rs_Address = a, rs_Suffrage = Voter\<rparr>])),
     rf_shutdown = (\<lambda>r. (None, r))\<rparr>"

lemma list_raft_laws: "raft_laws list_raft"
  by (auto simp: raft_laws_def list_raft_def)

lemma list_raft_run:
  "ensureAllPeersInCluster list_raft (NewConcensusServer 5123 0 [0, 1, 2, 1]) (bootstrap_config (NewConcensusServer 5123 0 [0 :: int, 1, 2, 1] :: raft_server list consensus_server)) =
    ([(1, None), (2, None), (1, None)],
     [\<lparr>rs_ID = ''0'', rs_Address = ''10.201.0.1:5123'', rs_Suffrage = Voter\<rparr>,
      \<lparr>rs_ID = ''2'', rs_Address = ''10.201.2.1:5123'', rs_Suffrage = Voter\<rparr>,
      \<lparr>rs_ID = ''1'', rs_Address = ''10.201.1.1:5123'', rs_Suffrage = Voter\<rparr>])"
  by code_simp

theorem ensure_adds_peers_witness:
  "\<exists>l'. rf_config list_raft (snd (ensureAllPeersInCluster list_raft (NewConcensusServer 5123 0 [0, 1, 2, 1])
      (bootstrap_config (NewConcensusServer 5123 0 [0, 1, 2, 1] :: raft_server list consensus_server)))) = Inr l' \<and>
    ''1'' \<in> rs_ID ` set l' \<and> ''2'' \<in> rs_ID ` set l'"
proof -
  let ?srv = "NewConcensusServer 5123 0 [0, 1, 2, 1] :: raft_server list consensus_server"
  have l: "rf_config list_raft (bootstrap_config ?srv) = Inr (bootstrap_config ?srv)" by (simp add: list_raft_def)
  have p: "cn_peers ?srv = [0, 1, 2, 1]" "cn_local ?srv = 0" by (simp_all add: NewConcensusServer_def consensus_NewServer_def)
  have i: "itoa 1 = ''1''" "itoa 2 = ''2''" by code_simp+
  from ensure_adds_peers [OF list_raft_laws l list_raft_run] show ?thesis
    unfolding list_raft_run by (auto simp: p i)
qed

section \<open>Health\<close>

lemma unit_not_number: "atoi (t @ ''s'') = None"
proof -
  have n: "\<not> all_digits (u @ ''s'')" for u by (simp add: all_digits_def is_digit_def)
  show ?thesis
  proof (cases t)
    case (Cons c u)
    then show ?thesis using n [of u] n [of t] by (cases "c = CHR ''-''"; cases "c = CHR ''+''") auto
  qed (use n [of "[]"] in auto)
qed

text \<open>
  C34. What the health of a cluster amounts to: a leader is known, the configuration can be read and has a voter at all, and
  a leader is not more than 1000 entries behind. The test for a quorum demands nothing else; and with the contact times raft
  reports, durations that end in the unit s, or never, the test of the last contact never fails.
\<close>

theorem cluster_health_exact:
  "(fst (cluster_health R r) \<longleftrightarrow> fst (rf_leader R r) \<noteq> [] \<and> (\<exists>servers. rf_config R r = Inr servers \<and> (\<exists>s\<in>set servers. rs_Suffrage s = Voter)) \<and>
      (if rf_state R r = Leader then \<not> leader_behind (rf_stats R r) else \<not> follower_stale (rf_stats R r))) \<and>
   (\<forall>t. rf_stats R r ''last_contact'' = Some (t @ ''s'') \<or> rf_stats R r ''last_contact'' = Some ''never'' \<longrightarrow> \<not> follower_stale (rf_stats R r))"
proof (intro conjI allI impI)
  have q: "voterCount l < voterCount l div 2 + 1 \<longleftrightarrow> \<not> (\<exists>s\<in>set l. rs_Suffrage s = Voter)" for l
  proof -
    have "voterCount l < voterCount l div 2 + 1 \<longleftrightarrow> voterCount l = 0" by linarith
    then show ?thesis by (auto simp: voterCount_def filter_empty_conv)
  qed
  show "fst (cluster_health R r) \<longleftrightarrow> fst (rf_leader R r) \<noteq> [] \<and> (\<exists>servers. rf_config R r = Inr servers \<and> (\<exists>s\<in>set servers. rs_Suffrage s = Voter)) \<and>
      (if rf_state R r = Leader then \<not> leader_behind (rf_stats R r) else \<not> follower_stale (rf_stats R r))"
    unfolding cluster_health_def Let_def q by (auto split: sum.splits)
next
  fix t
  have "atoi ''never'' = None" by code_simp
  moreover assume "rf_stats R r ''last_contact'' = Some (t @ ''s'') \<or> rf_stats R r ''last_contact'' = Some ''never''"
  ultimately show "\<not> follower_stale (rf_stats R r)" using unit_not_number [of t] by (auto simp: follower_stale_def stat_def)
qed

theorem cluster_health_exact_witness:
  "\<not> follower_stale (rf_stats (list_raft\<lparr>rf_stats := \<lambda>r. [''last_contact'' \<mapsto> ''90000.5ms'']\<rparr>) []) \<and>
   fst (cluster_health (list_raft\<lparr>rf_state := \<lambda>r. Follower, rf_stats := \<lambda>r. [''last_contact'' \<mapsto> ''90000.5ms'']\<rparr>)
     [\<lparr>rs_ID = ''0'', rs_Address = ''10.201.0.1:5123'', rs_Suffrage = Voter\<rparr>])"
proof -
  let ?R = "\<lambda>st. list_raft\<lparr>rf_state := \<lambda>r. st, rf_stats := \<lambda>r. [''last_contact'' \<mapsto> ''90000.5ms'']\<rparr>"
  have "rf_stats (?R st) r ''last_contact'' = Some (''90000.5m'' @ ''s'')" for st r by simp
  then have fresh: "\<not> follower_stale (rf_stats (?R st) r)" for st r using cluster_health_exact [of "?R st" r] by blast
  from fresh [of Follower] cluster_health_exact [of "?R Follower"] show ?thesis by (simp add: list_raft_def)
qed

end
