(* ===== verification/Management.thy ===== *)
theory Management
  imports Sync PathPing Consensus
begin

text \<open>
  The remote procedures of a node: \<^verbatim>\<open>internal/server/management\<close>, \<^verbatim>\<open>internal/server/distributed\<close> and
  \<^verbatim>\<open>internal/server/measure\<close>. gRPC carries the messages; their fields of type \<open>int32\<close> are integers in that range. A map in
  a message loses nothing but the order.
\<close>

section \<open>management.go\<close>

record pb_route =
  pr_Address :: string
  pr_Next :: string
  pr_Interface :: string
  pr_Metric :: int
  pr_Protocol :: int

text \<open>The text of a nil address.\<close>

definition next_string :: "ip option \<Rightarrow> string" where
  "next_string g = (case g of None \<Rightarrow> ''<nil>'' | Some a \<Rightarrow> ip_string a)"

definition pb_route_of :: "nl_route \<Rightarrow> string \<Rightarrow> pb_route" where
  "pb_route_of r iface =
     \<lparr>pr_Address = dst_string (nr_dst r), pr_Next = next_string (nr_gw r), pr_Interface = iface,
      pr_Metric = to_int32 (nr_prio r), pr_Protocol = to_int32 (nr_proto r)\<rparr>"

text \<open>The name of the link is left empty when it has no index or cannot be found.\<close>

definition list_route :: "'k netlink \<Rightarrow> nl_route \<Rightarrow> pb_route list \<Rightarrow> ('k, pb_route list) proc" where
  "list_route nl r acc =
     (if nr_link r > 0
      then attempt (nl_link_name nl (nr_link r))
             (\<lambda>res. ret (acc @ [pb_route_of r (case res of Inl e \<Rightarrow> [] | Inr name \<Rightarrow> name)]))
      else ret (acc @ [pb_route_of r []]))"

definition GetRouteTable :: "'k netlink \<Rightarrow> ('k, pb_route list) proc" where
  "GetRouteTable nl = bind (ListManagedRoutes nl CustomRouteProtocol) (\<lambda>routes. for_each (list_route nl) routes [])"

text \<open>The tables of next hops over the peers, in their order; a hop of -1 ends the procedure with an error.\<close>

fun peer_table :: "(int \<Rightarrow> ('s, int) proc) \<Rightarrow> int list \<Rightarrow> hop_table \<Rightarrow> ('s, hop_table) proc" where
  "peer_table get [] m = ret m"
| "peer_table get (p # ps) m =
     bind (get p) (\<lambda>v. if v = - 1 then throw (Err (Errorf ''no route to peer'')) else peer_table get ps (m(p \<mapsto> v)))"

definition GetCentralisedRouteTable :: "int list \<Rightarrow> int list \<Rightarrow> (('k, 'z) rm_world_scheme, hop_table) proc" where
  "GetCentralisedRouteTable order peers =
     bind (peer_table GetCentralisedRoute peers Map.empty) (\<lambda>m. ret (convertToInt32Map order m))"

definition GetGraphRouteTable ::
    "('k, 'e) rm_env_scheme \<Rightarrow> int list \<Rightarrow> int list \<Rightarrow> (('k, 'z) rm_world_scheme, hop_table) proc" where
  "GetGraphRouteTable E order peers =
     bind (relabel ''error updating graph'' (UpdateGraph E))
       (\<lambda>u. bind (peer_table GetGraphRoute peers Map.empty) (\<lambda>m. ret (convertToInt32Map order m)))"

text \<open>The time stamps are nanoseconds; the reply has microseconds.\<close>

definition management_GetState :: "string \<Rightarrow> string \<Rightarrow> state_table \<Rightarrow> (string \<times> int) go" where
  "management_GetState key namespace kv =
     go_bind (GetFromNamespace key namespace kv) (\<lambda>(v, ts). Inr (v, ts div 1000))"

text \<open>\<open>consensus\<close> is the service of the node, \<open>None\<close> for nil.\<close>

definition GetConsensusState :: "'r raft \<Rightarrow> 'r consensus_server option \<Rightarrow> string go" where
  "GetConsensusState R consensus =
     (case consensus of
        None \<Rightarrow> Inl (Panic NilDereference)
      | Some srv \<Rightarrow> go_bind (consensus_Leader R srv) (\<lambda>leader. Inr (if leader then ''leader'' else ''follower'')))"

section \<open>distributed.go\<close>

text \<open>\<open>GetRoute\<close> asks for the same destination for every peer.\<close>

definition distributed_GetRoute :: "int list \<Rightarrow> int list \<Rightarrow> int \<Rightarrow> (('k, 'z) rm_world_scheme, hop_table) proc" where
  "distributed_GetRoute order peers ident =
     bind (for_each (\<lambda>p m. bind (GetCentralisedRoute ident) (\<lambda>v. ret (m(p \<mapsto> v)))) peers Map.empty)
       (\<lambda>m. ret (convertToInt32Map order m))"

text \<open>A value of \<open>int32\<close> as an \<open>int\<close> is the same number.\<close>

definition convertToIntMap :: "hop_table \<Rightarrow> hop_table" where
  "convertToIntMap m = m"

definition UpdateRoute ::
    "('k, 'e) rm_env_scheme \<Rightarrow> int list \<Rightarrow> int list \<Rightarrow> hop_table \<Rightarrow> (('k, 'z) rm_world_scheme, unit) proc" where
  "UpdateRoute E new_keys old_keys route = UpdateLocalRoutes E new_keys old_keys (convertToIntMap route)"

section \<open>measure.go\<close>

text \<open>The reply of \<open>PathLatency\<close>: status and microseconds, with the error of the measurement.\<close>

definition latency_reply :: "measured \<times> go_error option \<Rightarrow> (int \<times> int) \<times> go_error option" where
  "latency_reply res =
     (case res of (r, e) \<Rightarrow> ((to_int32 (ms_Status r), to_int32 (go_quot (ms_Duration r) 1000)), e))"

definition PathLatency ::
    "ping_env \<Rightarrow> server option \<Rightarrow> (nat \<Rightarrow> server) \<Rightarrow> int \<Rightarrow> (nat \<Rightarrow> int) \<Rightarrow> int list \<Rightarrow> int \<Rightarrow> int
       \<Rightarrow> (bool \<times> int \<times> server) list \<Rightarrow> ((int \<times> int) \<times> go_error option) go option" where
  "PathLatency E singleton states startTime now path cnt interval obs =
     map_option (\<lambda>r. go_bind r (\<lambda>m. Inr (latency_reply m)))
       (client_Measure E singleton states startTime now (NewClient cnt (interval * 1000000)) path obs)"

section \<open>A table on its way to a site\<close>

text \<open>
  C35. A table of next hops reaches the site it is for. What the router sends is the table itself when its numbers fit into
  32 bits; once the site has handled the call, it answers with exactly these next hops, whatever it had before, except that
  a new destination via site 0 may be missing. It asks for a synchronisation exactly when a reading of its table changed or
  a destination disappeared. This is so once the site has its centralised router; a call that comes before that panics.
\<close>

theorem table_arrives:
  fixes w :: "('k, 'z) rm_world_scheme" and c :: "'y central_world_scheme"
  assumes sent: "distribute_step C m site () c = (Inr (), c')" "m site = Some r" "set (ce_target_order C site) = dom r"
    and fits: "\<forall>k v. r k = Some v \<longrightarrow> fits_int32 k \<and> fits_int32 v"
    and keys: "enumerates new_keys r" "enumerates old_keys (cr_siteRoutes w)"
  shows "\<exists>T. cr_sent c' = cr_sent c @ [(site, T)] \<and>
    (if rm_hasCentral w
     then \<exists>w'. UpdateRoute E new_keys old_keys T w = (Inr (), w') \<and>
      (\<forall>t. \<exists>v. GetCentralisedRoute t w' = (Inr v, w') \<and> (r t = None \<longrightarrow> v = - 1) \<and>
        (r t \<noteq> None \<and> (cr_siteRoutes w t \<noteq> None \<or> r t \<noteq> Some 0) \<longrightarrow> r t = Some v)) \<and>
      rm_updates w' = rm_updates w +
        (if \<not> re_disableCentralised E \<and> ((\<exists>t. map_read (cr_siteRoutes w) t \<noteq> map_read r t) \<or> \<not> dom (cr_siteRoutes w) \<subseteq> dom r) then 1 else 0)
     else UpdateRoute E new_keys old_keys T w = (Inl (Panic NilDereference), w) \<and>
       (\<forall>t. GetCentralisedRoute t w = (Inl (Panic NilDereference), w)))"
proof -
  have T: "convertToInt32Map (ce_target_order C site) r = r" by (rule convertToInt32Map_id [OF sent(3) fits])
  have cs: "cr_sent c' = cr_sent c @ [(site, r)]"
    using sent(1) by (auto simp: distribute_step_def sent(2) T Let_def next_tick_def bind_def split: sum.splits option.splits)
  show ?thesis
  proof (cases "rm_hasCentral w")
    case False
    then have "UpdateRoute E new_keys old_keys r w = (Inl (Panic NilDereference), w)"
      "GetCentralisedRoute t w = (Inl (Panic NilDereference), w)" for t
      by (simp_all add: UpdateRoute_def UpdateLocalRoutes_def GetCentralisedRoute_def with_central_def bind_def read_def)
    with False cs show ?thesis by auto
  next
    case True
    obtain changed w1 where u: "UpdateSiteRoutes (re_net E) new_keys old_keys r w = (Inr changed, w1)"
      by (simp add: UpdateSiteRoutes_def Let_def)
    note U = UpdateSiteRoutes_correct [OF keys u]
    have same: "rm_updates w1 = rm_updates w" "rm_hasCentral w1" using u True by (auto simp: UpdateSiteRoutes_def Let_def)
    define w' where "w' = (if \<not> re_disableCentralised E \<and> changed then w1\<lparr>rm_updates := Suc (rm_updates w1)\<rparr> else w1)"
    have run: "UpdateRoute E new_keys old_keys r w = (Inr (), w')"
      by (simp add: UpdateRoute_def UpdateLocalRoutes_def with_central_def read_def convertToIntMap_def bind_def u w'_def update_def True)
    have routes: "cr_siteRoutes w' = (if changed then r else cr_siteRoutes w)" "rm_hasCentral w'" using U same by (simp_all add: w'_def)
    have "\<exists>v. GetCentralisedRoute t w' = (Inr v, w') \<and> (r t = None \<longrightarrow> v = - 1) \<and>
        (r t \<noteq> None \<and> (cr_siteRoutes w t \<noteq> None \<or> r t \<noteq> Some 0) \<longrightarrow> r t = Some v)" for t
    proof -
      define v where "v = (case cr_siteRoutes w' t of None \<Rightarrow> - 1 | Some via \<Rightarrow> via)"
      have "GetCentralisedRoute t w' = (Inr v, w')"
        by (simp add: GetCentralisedRoute_def with_central_def bind_def read_def routes(2) GetSiteRouteMap_def v_def)
      moreover have "changed \<or> map_read (cr_siteRoutes w) t = map_read r t \<and> dom (cr_siteRoutes w) \<subseteq> dom r" using U by blast
      ultimately show ?thesis
        by (cases "cr_siteRoutes w t"; cases "r t") (auto simp: v_def routes map_read_def)
    qed
    moreover have "rm_updates w' = rm_updates w +
        (if \<not> re_disableCentralised E \<and> ((\<exists>t. map_read (cr_siteRoutes w) t \<noteq> map_read r t) \<or> \<not> dom (cr_siteRoutes w) \<subseteq> dom r) then 1 else 0)"
      using U same by (auto simp: w'_def)
    ultimately show ?thesis using cs run True by simp
  qed
qed

theorem table_arrives_witness:
  "\<exists>w'. UpdateRoute toy_env [0, 1] [] [0 \<mapsto> 0, 1 \<mapsto> 1] (toy_world\<lparr>rm_hasCentral := True\<rparr>) = (Inr (), w') \<and>
     GetCentralisedRoute 1 w' = (Inr 1, w') \<and> GetCentralisedRoute 2 w' = (Inr (- 1), w')"
proof -
  let ?r = "[0 \<mapsto> 0, 1 \<mapsto> 1] :: hop_table" and ?w = "toy_world\<lparr>rm_hasCentral := True\<rparr>"
  have fits: "\<forall>k v. ?r k = Some v \<longrightarrow> fits_int32 k \<and> fits_int32 v" by (auto simp: fits_int32_def split: if_splits)
  have dom: "set (ce_target_order ring_central 1) = dom ?r" by (auto simp: ring_central_def dom_def split: if_splits)
  have T: "convertToInt32Map [0, 1] ?r = ?r" by (rule convertToInt32Map_id [OF _ fits]) (auto split: if_splits)
  have s: "distribute_step ring_central [1 \<mapsto> ?r] 1 () ring_world = (Inr (), ring_world\<lparr>ticks := 1, cr_sent := [(1, ?r)]\<rparr>)"
    using T by (simp add: distribute_step_def getSiteRPCConn_def ring_central_def next_tick_def bind_def ring_world_def Let_def)
  have k: "enumerates [0, 1] ?r" "enumerates [] (cr_siteRoutes ?w)" by (auto simp: enumerates_def toy_world_def)
  have m: "[1 \<mapsto> ?r] 1 = Some ?r" by simp
  from table_arrives [OF s m dom fits k, of toy_env] obtain w' where
    "UpdateRoute toy_env [0, 1] [] ?r ?w = (Inr (), w')"
    "\<forall>t. \<exists>v. GetCentralisedRoute t w' = (Inr v, w') \<and> (?r t = None \<longrightarrow> v = - 1) \<and>
        (?r t \<noteq> None \<and> (cr_siteRoutes ?w t \<noteq> None \<or> ?r t \<noteq> Some 0) \<longrightarrow> ?r t = Some v)"
    by (auto simp: ring_world_def)
  then show ?thesis by (intro exI [of _ w']) (auto dest: spec [of _ 1] spec [of _ 2])
qed

end
