(* ===== verification/Trace.thy ===== *)
theory Trace
  imports Management Bandwidth
begin

text \<open>
  The two tools that follow the routes of the nodes: \<^verbatim>\<open>cmd/exporter/main.go\<close>, which records how the paths change, and
  \<^verbatim>\<open>cmd/client/main.go\<close>, which prints them. Elasticsearch and the calls of the nodes are parameters: what they return is an
  argument. The sites are those of the source, 0 to 3.
\<close>

section \<open>The routes of the nodes\<close>

definition known_sites :: "int list" where
  "known_sites = [0, 1, 2, 3]"

text \<open>The address \<open>net.ParseCIDR\<close> returns beside the network; \<open>To4\<close> of it, and of nil, may be nil.\<close>

definition cidr_address :: "string \<Rightarrow> ip option" where
  "cidr_address s =
     (case split_at ''/'' [] s of None \<Rightarrow> None | Some (a, m) \<Rightarrow> if ParseCIDR s = None then None else ParseIP a)"

definition second_octet :: "string \<Rightarrow> int option" where
  "second_octet s = (case cidr_address s of Some (V4 a b c d) \<Rightarrow> Some (uint b) | _ \<Rightarrow> None)"

text \<open>Writing to the map of a site nobody answered for panics.\<close>

definition collect_route :: "pb_route \<Rightarrow> site_tables \<Rightarrow> site_tables go" where
  "collect_route r m =
     (if pr_Protocol r \<noteq> 201 then Inr m
      else case second_octet (pr_Address r) of
             None \<Rightarrow> Inr m
           | Some dst \<Rightarrow>
               (if dst \<notin> set known_sites then Inr m
                else case ParseWGInterface (pr_Interface r) of
                       Inl (Panic x) \<Rightarrow> Inl (Panic x)
                     | Inl (Err e) \<Rightarrow> Inr m
                     | Inr wg \<Rightarrow>
                         (case atoi (wg_LocalID wg) of
                            None \<Rightarrow> Inr m
                          | Some localID \<Rightarrow>
                              (case atoi (wg_RemoteID wg) of
                                 None \<Rightarrow> Inr m
                               | Some remoteID \<Rightarrow> site_write localID dst remoteID m))))"

text \<open>The nodes in the order of the range with their answers.\<close>

definition collect_site :: "int \<times> (go_error + pb_route list) \<Rightarrow> site_tables \<Rightarrow> site_tables go" where
  "collect_site reply m =
     (case reply of
        (site, Inl e) \<Rightarrow> Inr m
      | (site, Inr routes) \<Rightarrow> go_fold collect_route routes (m(site \<mapsto> Map.empty)))"

definition collect_routes :: "(int \<times> (go_error + pb_route list)) list \<Rightarrow> site_tables go" where
  "collect_routes replies = go_fold collect_site replies Map.empty"

section \<open>Following the hops\<close>

text \<open>
  The loop, with the number of turns it has left before \<open>count > 10\<close> ends it; it is entered with 11. A missing entry reads as
  site 0.
\<close>

fun trace_hops :: "site_tables \<Rightarrow> int \<Rightarrow> int \<Rightarrow> nat \<Rightarrow> int list" where
  "trace_hops m dst via 0 = []"
| "trace_hops m dst via (Suc left) =
     (let next_site = site_read m via dst in next_site # (if next_site = dst then [] else trace_hops m dst next_site left))"

definition trace_route :: "site_tables \<Rightarrow> int \<Rightarrow> int \<Rightarrow> int list" where
  "trace_route m dst via = via # (if dst \<noteq> via then trace_hops m dst via 11 else [])"

record traced =
  tr_Dest :: int
  tr_Via :: "int list"

text \<open>The routes of a source in the order of the range, then sorted by destination; the sources that have one, sorted.\<close>

definition routing_table :: "(hop_table \<Rightarrow> int list) \<Rightarrow> site_tables \<Rightarrow> int \<Rightarrow> traced list" where
  "routing_table order m source =
     (case m source of
        None \<Rightarrow> []
      | Some paths \<Rightarrow>
          List.map_filter (\<lambda>dst. map_option (\<lambda>via. \<lparr>tr_Dest = dst, tr_Via = trace_route m dst via\<rparr>) (paths dst)) (order paths))"

definition sorted_routes :: "(hop_table \<Rightarrow> int list) \<Rightarrow> site_tables \<Rightarrow> int \<Rightarrow> traced list" where
  "sorted_routes order m source = sort_key tr_Dest (routing_table order m source)"

definition sorted_sources :: "(hop_table \<Rightarrow> int list) \<Rightarrow> int list \<Rightarrow> site_tables \<Rightarrow> int list" where
  "sorted_sources order sources m = sort (filter (\<lambda>s. routing_table order m s \<noteq> []) sources)"

section \<open>The exporter\<close>

record route_record =
  rc_Timestamp :: int
  rc_Source :: int
  rc_Destination :: int
  rc_BGPPath :: "int list"
  rc_DijkstraPath :: "int list"
  rc_HopCount :: int
  rc_IsOptimal :: bool
  rc_RouteChanged :: bool
  rc_LastBGPPath :: "int list"
  rc_BGPPathStr :: string
  rc_DijkstraPathStr :: string
  rc_LastBGPPathStr :: string

definition pathToString :: "int list \<Rightarrow> string" where
  "pathToString path = join_with '' -> '' (map itoa path)"

definition history_key :: "int \<Rightarrow> int \<Rightarrow> string" where
  "history_key source dest = itoa source @ ''-'' @ itoa dest"

text \<open>JSON as \<open>encoding/json\<close> decodes it into \<open>interface{}\<close>.\<close>

datatype json = JNull | JBool bool | JNum float64 | JStr string | JArr "json list" | JObj "(string \<times> json) list"

text \<open>Reading a key of an object, \<open>nil\<close> when it is missing; an assertion of the wrong type panics unless its result is tested.\<close>

definition json_get :: "json \<Rightarrow> string \<Rightarrow> json go" where
  "json_get j k =
     (case j of JObj kvs \<Rightarrow> Inr (case map_of (rev kvs) k of None \<Rightarrow> JNull | Some v \<Rightarrow> v) | _ \<Rightarrow> Inl (Panic TypeAssertion))"

definition json_int :: "json \<Rightarrow> int go" where
  "json_int j = (case j of JNum f \<Rightarrow> Inr (f_trunc f) | _ \<Rightarrow> Inl (Panic TypeAssertion))"

definition json_list :: "json \<Rightarrow> json list" where
  "json_list j = (case j of JArr l \<Rightarrow> l | _ \<Rightarrow> [])"

type_synonym route_cache = "string \<rightharpoonup> int list"

definition cache_hit :: "json \<Rightarrow> route_cache \<Rightarrow> route_cache go" where
  "cache_hit hit prev =
     go_bind (json_get hit ''_source'') (\<lambda>src.
     go_bind (json_get src ''source'') (\<lambda>s. go_bind (json_int s) (\<lambda>source.
     go_bind (json_get src ''destination'') (\<lambda>d. go_bind (json_int d) (\<lambda>destination.
     go_bind (json_get src ''bgp_path'') (\<lambda>p.
     go_bind (go_fold (\<lambda>v acc. go_bind (json_int v) (\<lambda>i. Inr (acc @ [i]))) (json_list p) [])
       (\<lambda>path. Inr (prev(history_key source destination \<mapsto> path)))))))))"

text \<open>\<open>search\<close> is the answer to the query, newest record first, or why there is none.\<close>

definition initializeCacheFromES :: "go_error + go_error + json \<Rightarrow> route_cache go" where
  "initializeCacheFromES search =
     (case search of
        Inl e \<Rightarrow> Inl (Err (Errorf ''failed to query Elasticsearch''))
      | Inr (Inl e) \<Rightarrow> Inl (Err (Errorf ''failed to parse Elasticsearch response''))
      | Inr (Inr result) \<Rightarrow>
          go_bind (json_get result ''hits'') (\<lambda>h. go_bind (json_get h ''hits'') (\<lambda>hits.
            go_fold cache_hit (json_list hits) Map.empty)))"

record export_world = graph_world +
  ex_prevRoutes :: route_cache
  ex_history :: "route_record list"

definition export_route :: "env \<Rightarrow> int \<Rightarrow> traced \<Rightarrow> unit \<Rightarrow> ('z export_world_scheme, unit) proc" where
  "export_route E source r u =
     attempt (shortest_path source (tr_Dest r)) (\<lambda>res.
       case res of
         Inl e \<Rightarrow> ret ()
       | Inr (path, c) \<Rightarrow>
           bind (time_now E) (\<lambda>now.
           bind (lift_go (if path = [] then Inl (Panic IndexOutOfRange) else Inr (tl path))) (\<lambda>dijkstraPath w.
             let key = history_key source (tr_Dest r);
                 lastPath = (case ex_prevRoutes w key of None \<Rightarrow> [] | Some p \<Rightarrow> p);
                 record =
                   \<lparr>rc_Timestamp = now, rc_Source = source, rc_Destination = tr_Dest r, rc_BGPPath = tr_Via r,
                    rc_DijkstraPath = dijkstraPath, rc_HopCount = int (length (tr_Via r)), rc_IsOptimal = (tr_Via r = dijkstraPath),
                    rc_RouteChanged = (ex_prevRoutes w key \<noteq> None \<and> lastPath \<noteq> tr_Via r), rc_LastBGPPath = lastPath,
                    rc_BGPPathStr = pathToString (tr_Via r), rc_DijkstraPathStr = pathToString dijkstraPath,
                    rc_LastBGPPathStr = pathToString lastPath\<rparr>
             in (Inr (), w\<lparr>ex_history := ex_history w @ [record], ex_prevRoutes := (ex_prevRoutes w)(key \<mapsto> tr_Via r)\<rparr>))))"

text \<open>\<open>bulk\<close> is the error of the bulk indexer, of its creation or its end; records that cannot be added are only logged.\<close>

definition exporter_tracePath ::
    "env \<Rightarrow> (hop_table \<Rightarrow> int list) \<Rightarrow> int list \<Rightarrow> go_error option \<Rightarrow> site_tables \<Rightarrow> ('z export_world_scheme, unit) proc" where
  "exporter_tracePath E order sources bulk m =
     bind (wrap ''failed to create graph'' (NewGraph E)) (\<lambda>g.
     bind (update (\<lambda>w. w\<lparr>the_graph := Some g, ex_history := []\<rparr>)) (\<lambda>u.
     bind (for_each (\<lambda>s. for_each (export_route E s) (sorted_routes order m s)) (sorted_sources order sources m) ()) (\<lambda>u.
       case bulk of Some e \<Rightarrow> throw (Err (Errorf ''bulk indexer'')) | None \<Rightarrow> ret ())))"

definition runRouteCheck ::
    "env \<Rightarrow> (hop_table \<Rightarrow> int list) \<Rightarrow> (int \<times> (go_error + pb_route list)) list \<Rightarrow> go_error option \<Rightarrow> ('z export_world_scheme, unit) proc" where
  "runRouteCheck E order replies bulk =
     bind (lift_go (collect_routes replies))
       (\<lambda>m. relabel ''failed to trace path'' (exporter_tracePath E order (map fst replies) bulk m))"

text \<open>The loop of \<open>main\<close>: an error is logged, a panic ends it.\<close>

definition exporter_tick ::
    "env \<Rightarrow> (hop_table \<Rightarrow> int list) \<Rightarrow> (int \<times> (go_error + pb_route list)) list \<Rightarrow> go_error option \<Rightarrow> ('z export_world_scheme, unit) proc" where
  "exporter_tick E order replies bulk = attempt (runRouteCheck E order replies bulk) (\<lambda>r. ret ())"

section \<open>The client\<close>

text \<open>What is printed for a source: the state and the consensus of its node as far as the calls succeed, and then the routes.\<close>

record client_section =
  cl_Source :: int
  cl_UpdateMethod :: "(string \<times> int) option"
  cl_ConsensusState :: "string option"
  cl_Routes :: "traced list option"

definition client_section_of ::
    "(int \<Rightarrow> go_error + string \<times> int) \<Rightarrow> (int \<Rightarrow> go_error + string) \<Rightarrow> (hop_table \<Rightarrow> int list) \<Rightarrow> site_tables \<Rightarrow> int \<Rightarrow> client_section" where
  "client_section_of get_state get_consensus order m source =
     (let empty = \<lparr>cl_Source = source, cl_UpdateMethod = None, cl_ConsensusState = None, cl_Routes = None\<rparr>
      in case get_state source of
           Inl e \<Rightarrow> empty
         | Inr (method, ts) \<Rightarrow>
             (let with_state = empty\<lparr>cl_UpdateMethod := Some (method, ts * 1000)\<rparr>
              in case get_consensus source of
                   Inl e \<Rightarrow> with_state
                 | Inr c \<Rightarrow> with_state\<lparr>cl_ConsensusState := Some c, cl_Routes := Some (sorted_routes order m source)\<rparr>))"

definition client_tracePath ::
    "(int \<Rightarrow> go_error + string \<times> int) \<Rightarrow> (int \<Rightarrow> go_error + string) \<Rightarrow> (hop_table \<Rightarrow> int list) \<Rightarrow> int list \<Rightarrow> site_tables
       \<Rightarrow> client_section list" where
  "client_tracePath get_state get_consensus order sources m =
     map (client_section_of get_state get_consensus order m) (sorted_sources order sources m)"

definition client_main ::
    "(int \<Rightarrow> go_error + string \<times> int) \<Rightarrow> (int \<Rightarrow> go_error + string) \<Rightarrow> (hop_table \<Rightarrow> int list)
       \<Rightarrow> (int \<times> (go_error + pb_route list)) list \<Rightarrow> client_section list go" where
  "client_main get_state get_consensus order replies =
     go_bind (collect_routes replies) (\<lambda>m. Inr (client_tracePath get_state get_consensus order (map fst replies) m))"

section \<open>Traced paths\<close>

text \<open>The hops from a site up to the destination.\<close>

fun chain :: "site_tables \<Rightarrow> int \<Rightarrow> int \<Rightarrow> int list \<Rightarrow> bool" where
  "chain m t x [] = False"
| "chain m t x (y # ys) = (hop m t x = Some y \<and> (if ys = [] then y = t else y \<noteq> t \<and> chain m t y ys))"

lemma delivers_chain: "delivers m t x \<Longrightarrow> x = t \<or> (\<exists>ys. chain m t x ys)"
proof (induction rule: delivers.induct)
  case (forward m t x y)
  show ?case
  proof (cases "y = t")
    case True
    then have "chain m t x [y]" using forward by simp
    then show ?thesis by blast
  next
    case False
    with forward obtain ys where "chain m t y ys" by blast
    then have "chain m t x (y # ys)" using False forward by (cases ys) auto
    then show ?thesis by blast
  qed
qed simp

lemma trace_hops_chain: "chain m t x ys \<Longrightarrow> length ys \<le> n \<Longrightarrow> trace_hops m t x n = ys"
proof (induction ys arbitrary: x n)
  case (Cons y ys)
  then obtain k where n: "n = Suc k" by (cases n) auto
  have "site_read m x t = y" using Cons.prems(1) by (auto simp: hop_def site_read_def map_read_def split: option.splits)
  then show ?case using Cons by (cases ys) (auto simp: n Let_def)
qed simp

lemma chain_unique: "chain m t x ys \<Longrightarrow> chain m t x zs \<Longrightarrow> ys = zs"
proof (induction ys arbitrary: x zs)
  case (Cons y ys)
  then show ?case by (cases zs) (auto split: if_splits)
qed simp

lemma chain_suffix: "chain m t x ys \<Longrightarrow> y \<in> set ys \<Longrightarrow> y \<noteq> t \<Longrightarrow> \<exists>zs. chain m t y zs \<and> length zs < length ys"
proof (induction ys arbitrary: x)
  case (Cons z ys)
  show ?case
  proof (cases "y = z")
    case True
    then have "chain m t y ys" using Cons.prems by (auto split: if_splits)
    then show ?thesis by (intro exI [of _ ys]) simp
  next
    case False
    then have "chain m t z ys" "y \<in> set ys" using Cons.prems by (auto split: if_splits)
    from Cons.IH [OF this Cons.prems(3)] show ?thesis by (auto intro: less_SucI)
  qed
qed simp

lemma chain_distinct: "chain m t x ys \<Longrightarrow> distinct ys"
proof (induction ys arbitrary: x)
  case (Cons y ys)
  show ?case
  proof (cases "ys = []")
    case False
    then have c: "chain m t y ys" "y \<noteq> t" using Cons.prems by (auto split: if_splits)
    have "y \<notin> set ys"
    proof
      assume "y \<in> set ys"
      from chain_suffix [OF c(1) this c(2)] obtain zs where "chain m t y zs" "length zs < length ys" by blast
      then show False using chain_unique [OF c(1), of zs] by simp
    qed
    then show ?thesis using Cons.IH [OF c(1)] by simp
  qed simp
qed simp

lemma chain_in: "chain m t x ys \<Longrightarrow> x \<in> S \<Longrightarrow> \<forall>v\<in>S. \<forall>y. hop m t v = Some y \<longrightarrow> y \<in> S \<Longrightarrow> set ys \<subseteq> S"
proof (induction ys arbitrary: x)
  case (Cons y ys)
  then have y: "y \<in> S" by (metis chain.simps(2))
  show ?case
  proof (cases "ys = []")
    case False
    then have "chain m t y ys" using Cons.prems(1) by simp
    from Cons.IH [OF this y Cons.prems(3)] y show ?thesis by simp
  qed (use y in simp)
qed simp

lemma chain_last: "chain m t x ys \<Longrightarrow> ys \<noteq> [] \<and> last ys = t \<and> t \<notin> set (butlast ys)"
  by (induction ys arbitrary: x) (auto split: if_splits)

lemma chain_hops: "chain m t x ys \<Longrightarrow> i < length ys \<Longrightarrow> hop m t ((x # ys) ! i) = Some (ys ! i)"
proof (induction ys arbitrary: x i)
  case (Cons y ys)
  show ?case
  proof (cases i)
    case (Suc j)
    then have "chain m t y ys" "j < length ys" using Cons.prems by (auto split: if_splits)
    from Cons.IH [OF this] show ?thesis by (simp add: Suc)
  qed (use Cons.prems in simp)
qed simp

text \<open>
  C36. What the tools show for a route is what packets do. When the tables of up to twelve sites lead from the next hop of a
  source to the destination, the traced path starts with that hop, follows the tables hop by hop, visits no site twice, and
  ends at the destination, which it meets only there: the recorded number of hops is the number a packet takes.
\<close>

theorem trace_delivers:
  assumes "hop m t s = Some via" "delivers m t via" "s \<in> S"
    and "finite S" "card S \<le> 12" "\<forall>v\<in>S. \<forall>y. hop m t v = Some y \<longrightarrow> y \<in> S"
  shows "let v = trace_route m t via in
    hd v = via \<and> distinct v \<and> last v = t \<and> t \<notin> set (butlast v) \<and> (\<forall>i<length v. hop m t ((s # v) ! i) = Some (v ! i))"
proof -
  obtain ys where ys: "chain m t s ys"
  proof (cases "via = t")
    case True
    show ?thesis by (rule that [of "[t]"]) (use assms(1) True in simp)
  next
    case False
    with delivers_chain [OF assms(2)] obtain zs where "chain m t via zs" by blast
    then have "chain m t s (via # zs)" using False assms(1) by (cases zs) auto
    then show ?thesis by (rule that)
  qed
  have d: "distinct ys" by (rule chain_distinct [OF ys])
  have "card (set ys) \<le> card S" by (rule card_mono [OF assms(4) chain_in [OF ys assms(3,6)]])
  then have len: "length ys \<le> 12" using distinct_card [OF d] assms(5) by simp
  obtain zs where zs: "ys = via # zs" using ys assms(1) by (cases ys) auto
  have "trace_route m t via = ys"
  proof (cases "zs = []")
    case True
    then show ?thesis using ys by (simp add: trace_route_def zs)
  next
    case False
    then have "chain m t via zs" "via \<noteq> t" using ys by (auto simp: zs)
    then show ?thesis using trace_hops_chain [of m t via zs 11] len by (simp add: trace_route_def zs)
  qed
  then show ?thesis using d chain_last [OF ys] chain_hops [OF ys] by (simp add: Let_def zs)
qed

theorem trace_delivers_witness:
  "let m = [1 \<mapsto> [3 \<mapsto> 2], 2 \<mapsto> [3 \<mapsto> 3], 3 \<mapsto> [3 \<mapsto> 3]] in
   trace_route m 3 2 = [2, 3] \<and> distinct (trace_route m 3 2) \<and> last (trace_route m 3 2) = 3"
proof -
  let ?m = "[1 \<mapsto> [3 \<mapsto> 2], 2 \<mapsto> [3 \<mapsto> 3], 3 \<mapsto> [3 \<mapsto> 3]] :: site_tables"
  have h: "hop ?m 3 1 = Some 2" "hop ?m 3 2 = Some 3" "hop ?m 3 3 = Some 3" by (simp_all add: hop_def)
  have "delivers ?m 3 2" by (rule delivers.forward [OF h(2) delivers.here])
  from trace_delivers [OF h(1) this, of "{1, 2, 3}"] h show ?thesis
    by (simp add: Let_def trace_route_def eval_nat_numeral site_read_def map_read_def)
qed

text \<open>A missing entry is taken for a hop to site 0: on the way to site 0 the tools show a path that does not exist.\<close>

lemma trace_invents_hop: "hop m 0 via = None \<Longrightarrow> via \<noteq> 0 \<Longrightarrow> trace_route m 0 via = [via, 0]"
  by (cases "m via") (simp_all add: trace_route_def eval_nat_numeral site_read_def map_read_def hop_def)

section \<open>The cache of the exporter\<close>

text \<open>A record as Elasticsearch returns it.\<close>

definition json_of_record :: "int \<Rightarrow> int \<Rightarrow> int list \<Rightarrow> json" where
  "json_of_record source dest path =
     JObj [(''_source'', JObj [(''source'', JNum (Fin (of_int source))), (''destination'', JNum (Fin (of_int dest))),
       (''bgp_path'', JArr (map (\<lambda>i. JNum (Fin (of_int i))) path))])]"

definition json_response :: "(int \<times> int \<times> int list) list \<Rightarrow> json" where
  "json_response hits = JObj [(''hits'', JObj [(''hits'', JArr (map (\<lambda>(s, d, p). json_of_record s d p) hits))])]"

lemma f_trunc_int [simp]: "f_trunc (Fin (of_int i)) = i"
  by simp

lemma json_path: "go_fold (\<lambda>v acc. go_bind (json_int v) (\<lambda>i. Inr (acc @ [i]))) (map (\<lambda>i. JNum (Fin (of_int i))) path) acc = Inr (acc @ path)"
  by (induction path arbitrary: acc) (simp_all add: json_int_def)

lemma cache_hit_record: "cache_hit (json_of_record s d p) prev = Inr (prev(history_key s d \<mapsto> p))"
  by (simp add: cache_hit_def json_of_record_def json_get_def json_list_def json_path) (simp add: json_int_def)

lemma history_key_inj:
  assumes "0 \<le> s" "0 \<le> d" "0 \<le> s'" "0 \<le> d'"
  shows "history_key s d = history_key s' d' \<longleftrightarrow> s = s' \<and> d = d'"
proof -
  have sep: "CHR ''-'' \<notin> set (itoa i)" if "0 \<le> i" for i
    using nat_digits_digit digit_not_sign that by (auto simp: itoa_nonneg)
  have "split (history_key a b) CHR ''-'' = [itoa a, itoa b]" if "0 \<le> a" "0 \<le> b" for a b
    using sep [OF that(1)] split_no_sep [OF sep [OF that(2)]] by (simp add: history_key_def split_append)
  then show ?thesis using assms by (metis itoa_inj list.inject)
qed

text \<open>
  After a restart the exporter compares with the wrong records. From an answer with the newest record first, the cache
  keeps for each route the oldest one of the answer: the last in its order.
\<close>

lemma cache_keeps_oldest:
  assumes "\<forall>(s, d, p)\<in>set hits. 0 \<le> s \<and> 0 \<le> d" "0 \<le> s" "0 \<le> d"
  shows "\<exists>prev. initializeCacheFromES (Inr (Inr (json_response hits))) = Inr prev \<and>
    prev (history_key s d) = map_of (rev (map (\<lambda>(s, d, p). ((s, d), p)) hits)) (s, d)"
proof -
  have f: "\<exists>prev'. go_fold cache_hit (map (\<lambda>(s, d, p). json_of_record s d p) hits) prev = Inr prev' \<and>
      prev' (history_key s d) = (case map_of (rev (map (\<lambda>(s, d, p). ((s, d), p)) hits)) (s, d) of None \<Rightarrow> prev (history_key s d) | Some p \<Rightarrow> Some p)" for prev
    using assms(1)
  proof (induction hits arbitrary: prev)
    case (Cons h hits)
    obtain s1 d1 p1 where h: "h = (s1, d1, p1)" by (cases h) auto
    have "\<forall>(s, d, p)\<in>set hits. 0 \<le> s \<and> 0 \<le> d" using Cons.prems by simp
    from Cons.IH [OF this, of "prev(history_key s1 d1 \<mapsto> p1)"] obtain prev' where
      run: "go_fold cache_hit (map (\<lambda>(s, d, p). json_of_record s d p) hits) (prev(history_key s1 d1 \<mapsto> p1)) = Inr prev'" and
      val: "prev' (history_key s d) = (case map_of (rev (map (\<lambda>(s, d, p). ((s, d), p)) hits)) (s, d) of
          None \<Rightarrow> (prev(history_key s1 d1 \<mapsto> p1)) (history_key s d) | Some p \<Rightarrow> Some p)" by blast
    have key: "history_key s d = history_key s1 d1 \<longleftrightarrow> s = s1 \<and> d = d1"
      by (rule history_key_inj) (use Cons.prems assms(2,3) in \<open>auto simp: h\<close>)
    have "go_fold cache_hit (map (\<lambda>(s, d, p). json_of_record s d p) (h # hits)) prev = Inr prev'"
      using run by (simp add: h cache_hit_record)
    moreover have "prev' (history_key s d) = (case map_of (rev (map (\<lambda>(s, d, p). ((s, d), p)) (h # hits))) (s, d) of
        None \<Rightarrow> prev (history_key s d) | Some p \<Rightarrow> Some p)"
      using val key by (simp add: h map_add_def split: option.splits)
    ultimately show ?case by blast
  qed simp
  from f [of Map.empty] show ?thesis
    by (auto simp: initializeCacheFromES_def json_response_def json_get_def json_list_def split: option.splits)
qed

lemma cache_keeps_oldest_witness:
  "\<exists>prev. initializeCacheFromES (Inr (Inr (json_response [(1, 2, [2]), (1, 2, [3, 2])]))) = Inr prev \<and>
    prev (history_key 1 2) = Some [3, 2]"
  using cache_keeps_oldest [of "[(1, 2, [2]), (1, 2, [3, 2])]" 1 2] by simp

end
