(* ===== verification/Services.thy ===== *)
theory Services
  imports Watchdog Management
begin

text \<open>
  The node as a whole: \<^verbatim>\<open>cmd/daemon/main.go\<close>, \<^verbatim>\<open>internal/system/system.go\<close>, the servers of \<^verbatim>\<open>internal/server\<close> (gRPC, HTTP, the socket
  of the mesh, and their manager) and \<^verbatim>\<open>pkg/logging\<close>. Listening, the network and \<open>slog\<close> are parameters. A send on a channel
  with a time-out has a parameter that says whether it was accepted in time.
\<close>

section \<open>socket.go\<close>

text \<open>What goes to the channels of the node.\<close>

datatype channel_msg = WGUpdate wg_interface | RTUpdate | MeasureUpdate

datatype socket_reply = SocketOK | SocketError go_error | SocketTimeout | SocketInvalid

text \<open>\<open>ReadString\<close> on what is buffered: the first line without its end, and the rest.\<close>

definition line_end :: char where "line_end = CHR 0x0A"

definition next_line :: "string \<Rightarrow> (string \<times> string) option" where
  "next_line buffered =
     (if line_end \<in> set buffered
      then Some (takeWhile (\<lambda>c. c \<noteq> line_end) buffered, tl (dropWhile (\<lambda>c. c \<noteq> line_end) buffered)) else None)"

definition send_or_timeout :: "bool \<Rightarrow> channel_msg \<Rightarrow> channel_msg list \<times> socket_reply" where
  "send_or_timeout accepted m = (if accepted then ([m], SocketOK) else ([], SocketTimeout))"

definition socket_message :: "bool \<Rightarrow> string \<Rightarrow> channel_msg list \<times> socket_reply" where
  "socket_message accepted line =
     (let message = trim_space line in
      if has_prefix message ''WGADD''
      then (case ParseWGInterface (trim_space (trim_prefix message ''WGADD'')) of
              Inl (Err e) \<Rightarrow> ([], SocketError e)
            | Inl (Panic x) \<Rightarrow> ([], SocketInvalid)
            | Inr iface \<Rightarrow> send_or_timeout accepted (WGUpdate iface))
      else if has_prefix message ''WGRESTART'' then send_or_timeout accepted MeasureUpdate
      else ([], SocketInvalid))"

text \<open>
  A connection. Times count from the accept; the deadline for reading, \<open>limit\<close>, is set once and also is the time-out of each
  send. \<open>ReadString\<close> takes a line that is buffered whatever the time is; otherwise it reads the next piece of the input, a time of
  arrival with a text, which fails when that would be at or after the deadline. Handling line \<open>n\<close> takes the time \<open>spent n\<close>,
  and the whole time-out in addition when its send is not accepted. A last line without its end is dropped;
  whether the read after the last piece ends with the end of the input or with the deadline only decides what is logged, so
  \<open>EndOfInput\<close> stands for both.
\<close>

datatype connection_end = EndOfInput | DeadlineOver

definition handling :: "int \<Rightarrow> (nat \<Rightarrow> int) \<Rightarrow> nat \<Rightarrow> socket_reply \<Rightarrow> int" where
  "handling limit spent n reply = spent n + (if reply = SocketTimeout then limit else 0)"

lemma next_line_shorter: "next_line buffered = Some (line, rest) \<Longrightarrow> length rest < length buffered"
proof -
  assume "next_line buffered = Some (line, rest)"
  then have c: "line_end \<in> set buffered" and r: "rest = tl (dropWhile (\<lambda>c. c \<noteq> line_end) buffered)"
    by (simp_all add: next_line_def split: if_splits)
  have "dropWhile (\<lambda>c. c \<noteq> line_end) buffered \<noteq> []" using c by (simp add: dropWhile_eq_Nil_conv)
  with length_dropWhile_le [of "\<lambda>c. c \<noteq> line_end" buffered] r show ?thesis
    by (cases "dropWhile (\<lambda>c. c \<noteq> line_end) buffered") auto
qed

function serve_lines ::
    "int \<Rightarrow> (nat \<Rightarrow> bool) \<Rightarrow> (nat \<Rightarrow> int) \<Rightarrow> nat \<Rightarrow> int \<Rightarrow> string \<Rightarrow> (int \<times> string) list
       \<Rightarrow> (channel_msg list \<times> socket_reply) list \<times> connection_end" where
  "serve_lines limit accepted spent n now buffered pieces =
     (case next_line buffered of
        Some (line, rest) \<Rightarrow>
          (let result = socket_message (accepted n) line;
               (results, ended) = serve_lines limit accepted spent (Suc n) (now + handling limit spent n (snd result)) rest pieces
           in (result # results, ended))
      | None \<Rightarrow>
          (case pieces of
             [] \<Rightarrow> ([], EndOfInput)
           | (arrival, piece) # later \<Rightarrow>
               (if limit \<le> max now arrival then ([], DeadlineOver)
                else serve_lines limit accepted spent n (max now arrival) (buffered @ piece) later)))"
  by pat_completeness auto

termination
  by (relation "measure (\<lambda>(limit, accepted, spent, n, now, buffered, pieces).
      length buffered + sum_list (map (\<lambda>(t, p). Suc (length p)) pieces))")
    (auto dest: next_line_shorter)

declare serve_lines.simps [simp del]

definition handleConnection ::
    "int \<Rightarrow> (nat \<Rightarrow> bool) \<Rightarrow> (nat \<Rightarrow> int) \<Rightarrow> (int \<times> string) list \<Rightarrow> channel_msg list \<times> socket_reply list \<times> connection_end" where
  "handleConnection limit accepted spent pieces =
     (let (results, ended) = serve_lines limit accepted spent 0 0 [] pieces
      in (concat (map fst results), map snd results, ended))"

text \<open>A server knows its listener once it has been started.\<close>

record listening =
  ls_addr :: string
  ls_listening :: bool

definition NewSocketServer :: "string \<Rightarrow> listening" where
  "NewSocketServer path = \<lparr>ls_addr = path, ls_listening = False\<rparr>"

definition socket_Start :: "go_error option \<Rightarrow> go_error option \<Rightarrow> listening \<Rightarrow> unit go \<times> listening" where
  "socket_Start remove listen s =
     (case remove of
        Some e \<Rightarrow> (Inl (Err (Wrapf ''error removing existing socket'' e)), s)
      | None \<Rightarrow>
          (case listen of
             Some e \<Rightarrow> (Inl (Err (Wrapf ''failed to listen'' e)), s)
           | None \<Rightarrow> (Inr (), s\<lparr>ls_listening := True\<rparr>)))"

text \<open>\<open>Stop\<close> of a server that does not listen dereferences nil; the result of closing is a parameter.\<close>

definition server_Stop :: "go_error option \<Rightarrow> listening \<Rightarrow> unit go" where
  "server_Stop close_error s =
     (if ls_listening s then (case close_error of None \<Rightarrow> Inr () | Some e \<Rightarrow> Inl (Err e)) else Inl (Panic NilDereference))"

section \<open>grpc.go\<close>

definition NewGRPCServer :: "int \<Rightarrow> listening" where
  "NewGRPCServer port = \<lparr>ls_addr = '':'' @ itoa port, ls_listening = False\<rparr>"

text \<open>\<open>serve\<close> is what \<open>Serve\<close> returns when it ends.\<close>

definition grpc_Start :: "go_error option \<Rightarrow> go_error option \<Rightarrow> listening \<Rightarrow> unit go \<times> listening" where
  "grpc_Start listen serve s =
     (case listen of
        Some e \<Rightarrow> (Inl (Err (Wrapf ''failed to listen'' e)), s)
      | None \<Rightarrow>
          ((case serve of None \<Rightarrow> Inr () | Some e \<Rightarrow> Inl (Err (Wrapf ''failed to serve gRPC server'' e))), s\<lparr>ls_listening := True\<rparr>))"

section \<open>http.go\<close>

datatype http_reply = BadRequest go_error | Body string

definition NewHTTPServer :: "int \<Rightarrow> listening" where
  "NewHTTPServer port = \<lparr>ls_addr = '':'' @ itoa port, ls_listening = False\<rparr>"

definition http_Start :: "go_error \<Rightarrow> listening \<Rightarrow> unit go \<times> listening" where
  "http_Start ended s = (Inl (Err ended), s\<lparr>ls_listening := True\<rparr>)"

definition channel_body :: "bool \<Rightarrow> http_reply" where
  "channel_body accepted = Body ((if accepted then ''OK'' else ''timeout'') @ [line_end])"

definition handleWGUpdate :: "bool \<Rightarrow> string \<Rightarrow> channel_msg list \<times> http_reply" where
  "handleWGUpdate accepted ifaceQuery =
     (case ParseWGInterface ifaceQuery of
        Inl (Err e) \<Rightarrow> ([], BadRequest e)
      | Inl (Panic x) \<Rightarrow> ([], BadRequest (Errorf ''panic''))
      | Inr iface \<Rightarrow> ((if accepted then [WGUpdate iface] else []), channel_body accepted))"

definition handleRTUpdate :: "bool \<Rightarrow> channel_msg list \<times> http_reply" where
  "handleRTUpdate accepted = ((if accepted then [RTUpdate] else []), channel_body accepted)"

section \<open>server.go\<close>

text \<open>
  The manager logs the errors of starting and goes on. On stop it stops all servers; a panic of one ends the process, otherwise
  it waits for all and reports whether one failed.
\<close>

datatype manager_signal = StartError go_error | StopSignal

fun stop_results :: "unit go list \<Rightarrow> unit go" where
  "stop_results [] = Inr ()"
| "stop_results (r # rs) =
     (case r of
        Inl (Panic x) \<Rightarrow> Inl (Panic x)
      | Inl (Err e) \<Rightarrow> (case stop_results rs of Inl (Panic x) \<Rightarrow> Inl (Panic x) | _ \<Rightarrow> Inl (Err (Errorf ''errors occurred while stopping servers'')))
      | Inr u \<Rightarrow> stop_results rs)"

definition server_manager_step :: "unit go list \<Rightarrow> manager_signal \<Rightarrow> go_error list \<Rightarrow> go_error list \<times> unit go option" where
  "server_manager_step stops signal lg =
     (case signal of StartError e \<Rightarrow> (lg @ [e], None) | StopSignal \<Rightarrow> (lg, Some (stop_results stops)))"

text \<open>
  The loop: errors of starting are logged, and all servers go on, until the stop. \<open>stops\<close> are the results of stopping the
  servers then; \<open>None\<close> means that no stop has come.
\<close>

fun server_manager_Start :: "unit go list \<Rightarrow> manager_signal list \<Rightarrow> go_error list \<Rightarrow> go_error list \<times> unit go option" where
  "server_manager_Start stops [] lg = (lg, None)"
| "server_manager_Start stops (signal # signals) lg =
     (case server_manager_step stops signal lg of
        (lg', Some r) \<Rightarrow> (lg', Some r)
      | (lg', None) \<Rightarrow> server_manager_Start stops signals lg')"

lemma server_manager_Start_errors:
  "server_manager_Start stops (map StartError es @ StopSignal # rest) lg = (lg @ es, Some (stop_results stops))"
  by (induction es arbitrary: lg) (simp_all add: server_manager_step_def)

section \<open>The daemon\<close>

record node =
  nd_SiteID :: int
  nd_Peers :: "int list"
  nd_RouteTable :: route_table
  nd_StateTable :: state_table

text \<open>The start up to the creation of the services; an error is fatal. The interfaces are listed once for the site and once for the peers.\<close>

definition daemon_node :: "unit go \<Rightarrow> interfaces \<Rightarrow> interfaces \<Rightarrow> node go" where
  "daemon_node tunables ifs1 ifs2 =
     go_bind tunables (\<lambda>u. go_bind (GetLocalID ifs1) (\<lambda>siteID. go_bind (GetAllPeerIDs ifs2) (\<lambda>peers.
       case atoi siteID of
         None \<Rightarrow> Inl (Err (Errorf ''failed to convert local id to int''))
       | Some site \<Rightarrow> Inr \<lparr>nd_SiteID = site, nd_Peers = peers, nd_RouteTable = NewRouteTable, nd_StateTable = Map.empty\<rparr>)))"

text \<open>The consensus server and the measurement services of a node.\<close>

definition node_consensus :: "int \<Rightarrow> node \<Rightarrow> 'r consensus_server" where
  "node_consensus consensusPort n = NewConcensusServer consensusPort (nd_SiteID n) (nd_Peers n)"

text \<open>The servers of a node, in the order of the list, the last being that of the consensus.\<close>

definition NewServerManager :: "int \<Rightarrow> int \<Rightarrow> string \<Rightarrow> int \<Rightarrow> node \<Rightarrow> listening list \<times> 'r consensus_server" where
  "NewServerManager grpcPort metricsPort socketPath consensusPort n =
     ([NewGRPCServer grpcPort, NewHTTPServer metricsPort, NewSocketServer socketPath], node_consensus consensusPort n)"

text \<open>
  The services run side by side; \<open>returned\<close> are those whose \<open>Start\<close> has returned, in that order. Errors are logged and the others
  go on, until a signal ends the process.
\<close>

definition daemon_services :: "string list" where
  "daemon_services = [''server'', ''measure'', ''route'']"

definition daemon_main ::
    "unit go \<Rightarrow> interfaces \<Rightarrow> interfaces \<Rightarrow> (string \<Rightarrow> go_error option) \<Rightarrow> string list \<Rightarrow> (node \<times> go_error list) go" where
  "daemon_main tunables ifs1 ifs2 start returned =
     go_bind (daemon_node tunables ifs1 ifs2)
       (\<lambda>n. Inr (n, List.map_filter start (filter (\<lambda>s. s \<in> set daemon_services) returned)))"

section \<open>logging.go\<close>

datatype log_level = LevelDebug | LevelInfo | LevelWarn | LevelError

fun level_rank :: "log_level \<Rightarrow> nat" where
  "level_rank LevelDebug = 0"
| "level_rank LevelInfo = 1"
| "level_rank LevelWarn = 2"
| "level_rank LevelError = 3"

text \<open>\<open>strings.ToLower\<close> on ASCII.\<close>

definition to_lower :: "string \<Rightarrow> string" where
  "to_lower s = map (\<lambda>c. if 65 \<le> (of_char c :: nat) \<and> (of_char c :: nat) \<le> 90 then char_of ((of_char c :: nat) + 32) else c) s"

text \<open>The level of the flag, and whether it was invalid.\<close>

definition program_level :: "string \<Rightarrow> log_level \<times> bool" where
  "program_level flag =
     (let level = to_lower flag in
      if level = ''debug'' then (LevelDebug, False)
      else if level = ''info'' then (LevelInfo, False)
      else if level = ''warn'' then (LevelWarn, False)
      else if level = ''error'' then (LevelError, False)
      else (LevelInfo, True))"

record logger =
  lg_level :: log_level
  lg_attributes :: "string list"
  lg_offset :: nat

definition NewDefaultLogger :: "string \<Rightarrow> logger" where
  "NewDefaultLogger flag = \<lparr>lg_level = fst (program_level flag), lg_attributes = [], lg_offset = 0\<rparr>"

definition logger_With :: "string list \<Rightarrow> logger \<Rightarrow> logger" where
  "logger_With args l = l\<lparr>lg_attributes := lg_attributes l @ args\<rparr>"

text \<open>The frame of the caller: its function, or \<open>None\<close> for an unknown one, its file and its line.\<close>

definition logging_package :: "string \<Rightarrow> string" where
  "logging_package fullName =
     (case split_last CHR ''.'' fullName of
        Some (before, after) \<Rightarrow> (case split_last CHR ''/'' before of Some (dir, base) \<Rightarrow> base | None \<Rightarrow> before)
      | None \<Rightarrow> fullName)"

definition logging_getCaller :: "(nat \<Rightarrow> (string option \<times> string \<times> int) option) \<Rightarrow> nat \<Rightarrow> string \<times> string \<times> int" where
  "logging_getCaller stack offset =
     (case stack (3 + offset) of
        None \<Rightarrow> (''unknown'', ''unknown'', 0)
      | Some (fn, source_file, line) \<Rightarrow>
          ((case fn of None \<Rightarrow> ''unknown'' | Some fullName \<Rightarrow> logging_package fullName), source_file, line))"

definition additionalArgs :: "string \<Rightarrow> (nat \<Rightarrow> (string option \<times> string \<times> int) option) \<Rightarrow> logger \<Rightarrow> string list" where
  "additionalArgs flag stack l =
     (case logging_getCaller stack (lg_offset l) of
        (pkg, source_file, line) \<Rightarrow>
          (if to_lower flag = ''debug'' then [''package'', pkg, ''file'', source_file, ''line'', itoa line] else [''package'', pkg]))"

text \<open>A call of a method of a level: the record \<open>slog\<close> writes, if its level is not below that of the program.\<close>

definition logger_log ::
    "string \<Rightarrow> (nat \<Rightarrow> (string option \<times> string \<times> int) option) \<Rightarrow> log_level \<Rightarrow> string \<Rightarrow> logger \<Rightarrow> (log_level \<times> string \<times> string list) option" where
  "logger_log flag stack level message l =
     (if level_rank (lg_level l) \<le> level_rank level
      then Some (level, message, lg_attributes l @ additionalArgs flag stack l) else None)"

text \<open>\<open>Fatal\<close> writes an error and ends the process.\<close>

definition logger_Fatal ::
    "string \<Rightarrow> (nat \<Rightarrow> (string option \<times> string \<times> int) option) \<Rightarrow> string \<Rightarrow> logger \<Rightarrow> (log_level \<times> string \<times> string list) option \<times> int" where
  "logger_Fatal flag stack message l = (logger_log flag stack LevelError message l, 1)"

section \<open>The protocol of the socket\<close>

text \<open>The commands a script sends: add the interface between two sites for a version, or restart the measurements.\<close>

datatype socket_command = AddInterface nat nat nat | RestartMeasurement

fun interface_name :: "nat \<Rightarrow> nat \<Rightarrow> nat \<Rightarrow> string" where
  "interface_name l r v = ''wg'' @ itoa (int l) @ ''.'' @ itoa (int r) @ ''_v'' @ itoa (int v)"

fun command_line :: "socket_command \<Rightarrow> string" where
  "command_line (AddInterface l r v) = ''WGADD '' @ interface_name l r v @ [line_end]"
| "command_line RestartMeasurement = ''WGRESTART'' @ [line_end]"

fun command_ok :: "socket_command \<Rightarrow> bool" where
  "command_ok (AddInterface l r v) \<longleftrightarrow> int l < 2 ^ 63 \<and> int r < 2 ^ 63 \<and> int v < 2 ^ 63"
| "command_ok RestartMeasurement \<longleftrightarrow> True"

fun command_msg :: "socket_command \<Rightarrow> channel_msg" where
  "command_msg (AddInterface l r v) =
     WGUpdate \<lparr>wg_Name = interface_name l r v, wg_LocalID = itoa (int l), wg_LocalIDInt = int l,
       wg_RemoteID = itoa (int r), wg_RemoteIDInt = int r, wg_IPVersion = itoa (int v), wg_IPVersionInt = int v\<rparr>"
| "command_msg RestartMeasurement = MeasureUpdate"

lemma trim_space_id: "s \<noteq> [] \<Longrightarrow> \<not> is_space (hd s) \<Longrightarrow> \<not> is_space (last s) \<Longrightarrow> trim_space s = s"
proof -
  assume a: "s \<noteq> []" "\<not> is_space (hd s)" "\<not> is_space (last s)"
  have d: "dropWhile is_space t = t" if "t \<noteq> []" "\<not> is_space (hd t)" for t using that by (cases t) auto
  from d [OF a(1,2)] d [of "rev s"] a show ?thesis by (simp add: trim_space_def hd_rev)
qed

lemma next_line_append: "line_end \<notin> set l \<Longrightarrow> next_line (l @ line_end # rest) = Some (l, rest)"
proof -
  assume "line_end \<notin> set l"
  then have "takeWhile (\<lambda>c. c \<noteq> line_end) (l @ line_end # rest) = l" "dropWhile (\<lambda>c. c \<noteq> line_end) (l @ line_end # rest) = line_end # rest"
    by (subst takeWhile_append2 dropWhile_append2; auto)+
  then show ?thesis by (simp add: next_line_def)
qed

text \<open>The line of a command without its end.\<close>

fun command_body :: "socket_command \<Rightarrow> string" where
  "command_body (AddInterface l r v) = ''WGADD '' @ interface_name l r v"
| "command_body RestartMeasurement = ''WGRESTART''"

lemma command_line_body: "command_line c = command_body c @ [line_end]"
  by (cases c) simp_all

lemma itoa_ends: "itoa (int n) \<noteq> []" "is_digit (last (itoa (int n)))" "c \<in> set (itoa (int n)) \<Longrightarrow> is_digit c"
  using nat_digits_digit [of _ n] last_in_set [of "nat_digits n"] by (auto simp: itoa_nonneg)

lemma interface_name_trim: "trim_space (CHR '' '' # interface_name l r v) = interface_name l r v" (is "trim_space (_ # ?n) = _")
proof -
  have "\<not> is_space (last ?n)" using itoa_ends(1,2) [of v] digit_not_space by simp
  then have "trim_space ?n = ?n" by (intro trim_space_id) (simp_all add: is_space_def)
  then show ?thesis by (simp add: trim_space_def is_space_def)
qed

lemma command_no_line_end: "line_end \<notin> set (command_body c)"
  by (cases c) (auto simp: line_end_def is_digit_def dest: itoa_ends(3))

lemma socket_command:
  assumes "command_ok c"
  shows "socket_message accepted (command_body c) = send_or_timeout accepted (command_msg c)"
proof (cases c)
  case (AddInterface l r v)
  let ?n = "interface_name l r v"
  have "\<not> is_space (last ?n)" using itoa_ends(1,2) [of v] digit_not_space by simp
  then have t: "trim_space (''WGADD '' @ ?n) = ''WGADD'' @ CHR '' '' # ?n"
    by (subst trim_space_id) (simp_all add: is_space_def)
  have p: "ParseWGInterface ?n = Inr \<lparr>wg_Name = ?n, wg_LocalID = itoa (int l), wg_LocalIDInt = int l,
       wg_RemoteID = itoa (int r), wg_RemoteIDInt = int r, wg_IPVersion = itoa (int v), wg_IPVersionInt = int v\<rparr>"
    using ParseWGInterface_built [of l r v] assms by (simp add: AddInterface)
  show ?thesis
    by (simp only: AddInterface command_body.simps command_msg.simps socket_message_def t Let_def has_prefix_append if_True
        trim_prefix_append interface_name_trim p sum.case)
next
  case RestartMeasurement
  have "trim_space ''WGRESTART'' = ''WGRESTART''" "\<not> has_prefix ''WGRESTART'' ''WGADD''" "has_prefix ''WGRESTART'' ''WGRESTART''"
    by code_simp+
  then show ?thesis by (simp add: RestartMeasurement socket_message_def Let_def)
qed

text \<open>What becomes of commands, the first of them being line \<open>n\<close>, and the time it takes.\<close>

definition answers :: "(nat \<Rightarrow> bool) \<Rightarrow> nat \<Rightarrow> socket_command list \<Rightarrow> (channel_msg list \<times> socket_reply) list" where
  "answers accepted n cmds = map (\<lambda>(i, c). send_or_timeout (accepted i) (command_msg c)) (List.enumerate n cmds)"

definition time_for :: "int \<Rightarrow> (nat \<Rightarrow> bool) \<Rightarrow> (nat \<Rightarrow> int) \<Rightarrow> nat \<Rightarrow> nat \<Rightarrow> int" where
  "time_for limit accepted spent n m = (\<Sum>i = n..<n + m. spent i + (if accepted i then 0 else limit))"

lemma answers_simps [simp]:
  "answers accepted n [] = []"
  "answers accepted n (c # cs) = send_or_timeout (accepted n) (command_msg c) # answers accepted (Suc n) cs"
  by (simp_all add: answers_def)

lemma time_for_Suc:
  "time_for limit accepted spent n (Suc m) = spent n + (if accepted n then 0 else limit) + time_for limit accepted spent (Suc n) m"
  by (simp add: time_for_def sum.atLeast_Suc_lessThan del: sum.op_ivl_Suc)

lemma handling_command:
  "handling limit spent n (snd (send_or_timeout (accepted n) m)) = spent n + (if accepted n then 0 else limit)"
  by (simp add: handling_def send_or_timeout_def)

text \<open>Commands that are buffered are all answered, whatever the time.\<close>

lemma serve_buffered:
  "\<forall>c\<in>set cs. command_ok c \<Longrightarrow>
    serve_lines limit accepted spent n now (concat (map command_line cs) @ rest) pieces =
      apfst (\<lambda>results. answers accepted n cs @ results)
        (serve_lines limit accepted spent (n + length cs) (now + time_for limit accepted spent n (length cs)) rest pieces)"
proof (induction cs arbitrary: n now)
  case Nil
  show ?case by (cases "serve_lines limit accepted spent n now rest pieces") (simp add: time_for_def)
next
  case (Cons c cs)
  have line: "next_line (command_line c @ concat (map command_line cs) @ rest) = Some (command_body c, concat (map command_line cs) @ rest)"
    using next_line_append [OF command_no_line_end] by (simp add: command_line_body)
  show ?case using Cons
    by (subst serve_lines.simps) (simp add: line socket_command handling_command time_for_Suc add.assoc case_prod_unfold prod_eq_iff)
qed

lemma command_lines_start:
  assumes "buffered @ later = concat (map command_line cmds)" "next_line buffered = Some (line, rest)"
  obtains c cs where "cmds = c # cs" "line = command_body c" "rest @ later = concat (map command_line cs)"
proof -
  have b: "buffered = line @ line_end # rest" "line_end \<notin> set line"
  proof -
    have c: "line_end \<in> set buffered" and r: "line = takeWhile (\<lambda>c. c \<noteq> line_end) buffered" "rest = tl (dropWhile (\<lambda>c. c \<noteq> line_end) buffered)"
      using assms(2) by (simp_all add: next_line_def split: if_splits)
    from split_list_first [OF c] obtain u v where u: "buffered = u @ line_end # v" "line_end \<notin> set u" by blast
    with next_line_append [OF u(2), of v] assms(2) show "buffered = line @ line_end # rest" "line_end \<notin> set line" by auto
  qed
  then obtain c cs where cmds: "cmds = c # cs" using assms(1) by (cases cmds) auto
  have "next_line (line @ line_end # rest @ later) = Some (line, rest @ later)" by (rule next_line_append [OF b(2)])
  moreover have "line @ line_end # rest @ later = command_body c @ line_end # concat (map command_line cs)"
    using assms(1) b(1) cmds by (simp add: command_line_body)
  ultimately have "Some (line, rest @ later) = Some (command_body c, concat (map command_line cs))"
    using next_line_append [OF command_no_line_end, of c "concat (map command_line cs)"] by simp
  with cmds that show ?thesis by simp
qed

lemma serve_commands:
  "\<forall>i. 0 \<le> spent i \<Longrightarrow> 0 \<le> limit \<Longrightarrow> \<forall>c\<in>set cmds. command_ok c \<Longrightarrow>
    buffered @ concat (map snd pieces) = concat (map command_line cmds) \<Longrightarrow>
    \<exists>m\<le>length cmds. \<exists>ended. serve_lines limit accepted spent n now buffered pieces = (answers accepted n (take m cmds), ended) \<and>
      (ended = EndOfInput \<longrightarrow> m = length cmds) \<and>
      (ended = DeadlineOver \<longrightarrow> (\<exists>a\<in>insert now (fst ` set pieces). limit \<le> a + time_for limit accepted spent n m))"
proof (induction limit accepted spent n now buffered pieces arbitrary: cmds rule: serve_lines.induct)
  case (1 limit accepted spent n now buffered pieces)
  show ?case
  proof (cases "next_line buffered")
    case (Some lr)
    obtain line rest where lr: "lr = (line, rest)" by (cases lr)
    obtain c cs where cmds: "cmds = c # cs" "line = command_body c" "rest @ concat (map snd pieces) = concat (map command_line cs)"
      using command_lines_start [OF "1.prems"(4)] Some lr by metis
    have message: "socket_message (accepted n) line = send_or_timeout (accepted n) (command_msg c)"
      using "1.prems"(3) by (simp add: cmds socket_command)
    let ?time = "spent n + (if accepted n then 0 else limit)"
    have time: "handling limit spent n (snd (socket_message (accepted n) line)) = ?time" by (simp add: message handling_command)
    have pos: "0 \<le> ?time" using "1.prems"(1,2) by simp
    from "1.IH"(2) [OF Some lr [symmetric] refl _ _ _ cmds(3)] "1.prems" cmds(1) obtain m ended where
      m: "m \<le> length cs" "serve_lines limit accepted spent (Suc n) (now + ?time) rest pieces = (answers accepted (Suc n) (take m cs), ended)"
      "ended = EndOfInput \<longrightarrow> m = length cs"
      "ended = DeadlineOver \<longrightarrow> (\<exists>a\<in>insert (now + ?time) (fst ` set pieces). limit \<le> a + time_for limit accepted spent (Suc n) m)"
      unfolding time by auto
    have "serve_lines limit accepted spent n now buffered pieces = (answers accepted n (take (Suc m) cmds), ended)"
      by (subst serve_lines.simps) (simp add: Some lr time m(2), simp add: message cmds(1))
    moreover have "ended = DeadlineOver \<longrightarrow> (\<exists>a\<in>insert now (fst ` set pieces). limit \<le> a + time_for limit accepted spent n (Suc m))"
      using m(4) pos unfolding time_for_Suc by fastforce
    ultimately show ?thesis using m(1,3) cmds(1) by (intro exI [of _ "Suc m"]) auto
  next
    case None
    show ?thesis
    proof (cases pieces)
      case Nil
      then have "buffered = concat (map command_line cmds)" using "1.prems"(4) by simp
      moreover have "line_end \<notin> set buffered" using None by (simp add: next_line_def split: if_splits)
      ultimately have "cmds = []" by (cases cmds) (auto simp: command_line_body)
      then show ?thesis by (subst serve_lines.simps) (simp add: None Nil)
    next
      case (Cons p later)
      obtain arrival piece where p: "p = (arrival, piece)" by (cases p)
      show ?thesis
      proof (cases "limit \<le> max now arrival")
        case True
        have "serve_lines limit accepted spent n now buffered pieces = ([], DeadlineOver)"
          by (subst serve_lines.simps) (simp add: None Cons p True)
        moreover have "\<exists>a\<in>insert now (fst ` set pieces). limit \<le> a + time_for limit accepted spent n 0"
          using True by (auto simp: Cons p time_for_def max_def split: if_splits)
        ultimately show ?thesis by (intro exI [of _ 0]) auto
      next
        case False
        have whole: "(buffered @ piece) @ concat (map snd later) = concat (map command_line cmds)" using "1.prems"(4) by (simp add: Cons p)
        from "1.IH"(1) [OF None Cons p [symmetric] False "1.prems"(1,2,3) whole] obtain m ended where
          m: "m \<le> length cmds" "serve_lines limit accepted spent n (max now arrival) (buffered @ piece) later = (answers accepted n (take m cmds), ended)"
          "ended = EndOfInput \<longrightarrow> m = length cmds"
          "ended = DeadlineOver \<longrightarrow> (\<exists>a\<in>insert (max now arrival) (fst ` set later). limit \<le> a + time_for limit accepted spent n m)"
          by blast
        have "serve_lines limit accepted spent n now buffered pieces = (answers accepted n (take m cmds), ended)"
          by (subst serve_lines.simps) (simp add: None Cons p False m(2))
        moreover have "ended = DeadlineOver \<longrightarrow> (\<exists>a\<in>insert now (fst ` set pieces). limit \<le> a + time_for limit accepted spent n m)"
          using m(4) by (auto simp: Cons p max_def split: if_splits)
        ultimately show ?thesis using m(1,3) by blast
      qed
    qed
  qed
qed

lemma answers_from_start:
  assumes "m \<le> length cmds"
  shows "map snd (answers accepted 0 (take m cmds)) = map (\<lambda>n. if accepted n then SocketOK else SocketTimeout) [0..<m]"
    and "concat (map fst (answers accepted 0 (take m cmds))) = map (\<lambda>n. command_msg (cmds ! n)) (filter accepted [0..<m])"
proof -
  have "List.enumerate 0 (take m cmds) = map (\<lambda>n. (n, cmds ! n)) [0..<m]"
    using assms by (intro nth_equalityI) (simp_all add: nth_enumerate_eq)
  then have a: "answers accepted 0 (take m cmds) = map (\<lambda>n. send_or_timeout (accepted n) (command_msg (cmds ! n))) [0..<m]"
    by (simp add: answers_def comp_def)
  then show "map snd (answers accepted 0 (take m cmds)) = map (\<lambda>n. if accepted n then SocketOK else SocketTimeout) [0..<m]"
    by (simp add: send_or_timeout_def)
  have "concat (map (\<lambda>n. fst (send_or_timeout (accepted n) (command_msg (cmds ! n)))) ns) = map (\<lambda>n. command_msg (cmds ! n)) (filter accepted ns)" for ns
    by (induction ns) (simp_all add: send_or_timeout_def)
  with a show "concat (map fst (answers accepted 0 (take m cmds))) = map (\<lambda>n. command_msg (cmds ! n)) (filter accepted [0..<m])"
    by (simp add: comp_def)
qed

text \<open>
  C37. A script that writes its commands to the socket, one a line, has the first \<open>m\<close> of them carried out in order: each interface
  name is parsed back to the sites and the version it was built from, each command puts its message on the channel exactly if
  the channel takes it in time, and each is answered accordingly. These are all commands unless the deadline of the connection
  has passed before some piece of the input is read: a piece that arrives so late that its time and that for handling
  the commands before, five seconds for each that the channel did not take, reach the deadline. The commands whose lines are
  complete in the first piece are answered in any case, if that arrives in time.
\<close>

theorem socket_commands:
  assumes "\<forall>c\<in>set cmds. command_ok c" "concat (map snd pieces) = concat (map command_line cmds)" "\<forall>n. 0 \<le> spent n" "0 < limit"
  shows "\<exists>m\<le>length cmds. \<exists>ended. handleConnection limit accepted spent pieces =
      (map (\<lambda>n. command_msg (cmds ! n)) (filter accepted [0..<m]),
       map (\<lambda>n. if accepted n then SocketOK else SocketTimeout) [0..<m], ended) \<and>
    (m = length cmds \<or> (\<exists>a\<in>insert 0 (fst ` set pieces). limit \<le> a + (\<Sum>n<m. spent n + (if accepted n then 0 else limit)))) \<and>
    (\<forall>k\<le>length cmds. \<forall>a rest later. pieces = (a, concat (map command_line (take k cmds)) @ rest) # later \<longrightarrow> a < limit \<longrightarrow> k \<le> m)"
proof -
  obtain m ended where m: "m \<le> length cmds" "serve_lines limit accepted spent 0 0 [] pieces = (answers accepted 0 (take m cmds), ended)"
    "ended = EndOfInput \<longrightarrow> m = length cmds"
    "ended = DeadlineOver \<longrightarrow> (\<exists>a\<in>insert 0 (fst ` set pieces). limit \<le> a + time_for limit accepted spent 0 m)"
    using serve_commands [of spent limit cmds "[]" pieces accepted 0 0] assms by auto
  have run: "handleConnection limit accepted spent pieces =
      (map (\<lambda>n. command_msg (cmds ! n)) (filter accepted [0..<m]), map (\<lambda>n. if accepted n then SocketOK else SocketTimeout) [0..<m], ended)"
    by (simp add: handleConnection_def m(2) answers_from_start [OF m(1)])
  have "m = length cmds \<or> (\<exists>a\<in>insert 0 (fst ` set pieces). limit \<le> a + (\<Sum>n<m. spent n + (if accepted n then 0 else limit)))"
    using m(3,4) by (cases ended) (auto simp: time_for_def lessThan_atLeast0)
  moreover have "k \<le> m" if k: "k \<le> length cmds" and first: "pieces = (a, concat (map command_line (take k cmds)) @ rest) # later" "a < limit"
    for k a rest later
  proof -
    have "serve_lines limit accepted spent 0 0 [] pieces =
        serve_lines limit accepted spent 0 (max 0 a) (concat (map command_line (take k cmds)) @ rest) later"
    proof -
      have "\<not> limit \<le> max 0 a" using first(2) assms(4) by simp
      then show ?thesis by (subst serve_lines.simps) (simp add: first(1) next_line_def)
    qed
    moreover have "\<forall>c\<in>set (take k cmds). command_ok c" using assms(1) by (auto dest: in_set_takeD)
    ultimately have "\<exists>results ended'. serve_lines limit accepted spent 0 0 [] pieces = (answers accepted 0 (take k cmds) @ results, ended')"
      using serve_buffered [of "take k cmds"] by (simp add: apfst_def map_prod_def split_beta)
    then have "\<exists>results. answers accepted 0 (take m cmds) = answers accepted 0 (take k cmds) @ results" using m(2) by auto
    then have "length (answers accepted 0 (take k cmds)) \<le> length (answers accepted 0 (take m cmds))" by auto
    then show ?thesis using k m(1) by (simp add: answers_def)
  qed
  ultimately show ?thesis using m(1) run by blast
qed

text \<open>
  Three commands at once. The channel does not take the first, which uses up the five seconds; the other two are answered all
  the same, being buffered.
\<close>

theorem socket_commands_witness:
  "\<exists>ended. handleConnection 5 (\<lambda>n. n \<noteq> 0) (\<lambda>n. 0)
      [(0, command_line RestartMeasurement @ command_line (AddInterface 3 12 6) @ command_line RestartMeasurement)] =
    ([command_msg (AddInterface 3 12 6), MeasureUpdate], [SocketTimeout, SocketOK, SocketOK], ended)"
proof -
  let ?cmds = "[RestartMeasurement, AddInterface 3 12 6, RestartMeasurement]"
  let ?pieces = "[(0, concat (map command_line ?cmds))] :: (int \<times> string) list"
  have "concat (map snd ?pieces) = concat (map command_line ?cmds)" "\<forall>c\<in>set ?cmds. command_ok c"
    "\<forall>n :: nat. (0 :: int) \<le> (\<lambda>n. 0) n" "(0 :: int) < 5" by simp_all
  from socket_commands [OF this(2,1,3,4), of "\<lambda>n. n \<noteq> 0"] obtain m ended where
    m: "m \<le> length ?cmds" "handleConnection 5 (\<lambda>n. n \<noteq> 0) (\<lambda>n. 0) ?pieces =
      (map (\<lambda>n. command_msg (?cmds ! n)) (filter (\<lambda>n. n \<noteq> 0) [0..<m]), map (\<lambda>n. if n \<noteq> 0 then SocketOK else SocketTimeout) [0..<m], ended)"
    and first: "\<forall>k\<le>length ?cmds. \<forall>a rest later. ?pieces = (a, concat (map command_line (take k ?cmds)) @ rest) # later \<longrightarrow> a < 5 \<longrightarrow> k \<le> m"
    by (elim exE conjE) (rule that)
  have "3 \<le> m" using first [rule_format, of 3 0 "[]" "[]"] by simp
  with m(1) have "m = 3" by simp
  with m(2) show ?thesis by (simp add: upt_rec)
qed

end
