(* ===== verification/Analyser.thy ===== *)
theory Analyser
  imports TopN Management
begin

text \<open>
  \<^verbatim>\<open>internal/analyser\<close>: the cycles through a target edge, their measurement, and the system of equations a solver outside the
  repository solves; with \<open>ProjectPathLatency\<close> of \<^verbatim>\<open>internal/server/measure\<close>. Paths are slices: an append to a slice with room
  writes into the array it shares with others, so the arrays are an explicit store.
\<close>

section \<open>Slices\<close>

text \<open>
  The store has the arrays by address, each as long as its capacity. A slice is an address and a length; \<open>grow l\<close> is the
  capacity \<open>append\<close> gives to a slice of length \<open>l\<close> that is full.
\<close>

type_synonym store = "int list list"
type_synonym slice = "nat \<times> nat"

definition contents :: "store \<Rightarrow> slice \<Rightarrow> int list" where
  "contents st s = take (snd s) (st ! fst s)"

definition append_slice :: "(nat \<Rightarrow> nat) \<Rightarrow> slice \<Rightarrow> int \<Rightarrow> store \<Rightarrow> slice \<times> store" where
  "append_slice grow s x st =
     (case s of (a, l) \<Rightarrow>
        if l < length (st ! a) then ((a, Suc l), st[a := (st ! a)[l := x]])
        else ((length st, Suc l), st @ [take l (st ! a) @ x # replicate (grow l - Suc l) 0]))"

text \<open>\<open>[]int{node}\<close>\<close>

definition new_slice :: "int \<Rightarrow> store \<Rightarrow> slice \<times> store" where
  "new_slice x st = ((length st, 1), st @ [[x]])"

section \<open>priorityqueue.go\<close>

record queue_item =
  qi_cost :: float64
  qi_path :: slice
  qi_usedTarget :: bool

definition analyser_queue_ops :: "queue_item heap_ops" where
  "analyser_queue_ops =
     \<lparr>less_op = (\<lambda>a b. flt (qi_cost a) (qi_cost b)), swap_op = swap_at,
      push_op = (\<lambda>x h. h @ [x]), pop_op = (\<lambda>h. (last h, butlast h))\<rparr>"

section \<open>The search for cycles\<close>

record analyser =
  an_numNodes :: nat
  an_targetStart :: int
  an_targetEnd :: int
  an_graph :: "float64 list list"

definition NewNetworkAnalyzer :: analyser where
  "NewNetworkAnalyzer = \<lparr>an_numNodes = 0, an_targetStart = 0, an_targetEnd = 0, an_graph = []\<rparr>"

definition CreateGraph :: "env \<Rightarrow> analyser \<Rightarrow> ('z cost_world_scheme, analyser) proc" where
  "CreateGraph E na =
     bind (wrap ''failed to create graph'' (NewGraph E))
       (\<lambda>g. ret (na\<lparr>an_graph := g_matrix g, an_numNodes := length (g_matrix g)\<rparr>))"

definition isTargetEdge :: "analyser \<Rightarrow> int \<Rightarrow> int \<Rightarrow> bool" where
  "isTargetEdge na cur nxt \<longleftrightarrow>
     cur = an_targetStart na \<and> nxt = an_targetEnd na \<or> cur = an_targetEnd na \<and> nxt = an_targetStart na"

text \<open>The edges out of the current node: what is pushed on the queue, and the store.\<close>

definition cycle_extend ::
    "(nat \<Rightarrow> nat) \<Rightarrow> analyser \<Rightarrow> queue_item \<Rightarrow> nat \<Rightarrow> queue_item list \<times> store \<Rightarrow> (queue_item list \<times> store) go" where
  "cycle_extend grow na current nextNode s =
     (case s of (pq, st) \<Rightarrow>
        let path = contents st (qi_path current); currentNode = last path
        in go_bind (mat_get (an_graph na) currentNode (int nextNode)) (\<lambda>w.
             if fle w (Fin 0) then Inr s
             else if containsNode path (int nextNode) then Inr s
             else case append_slice grow (qi_path current) (int nextNode) st of
                    (p, st') \<Rightarrow>
                      Inr (heap_push analyser_queue_ops
                             \<lparr>qi_cost = fadd (qi_cost current) w, qi_path = p,
                              qi_usedTarget = (qi_usedTarget current \<or> isTargetEdge na currentNode (int nextNode))\<rparr> pq, st')))"

text \<open>Whether the path of an item closes a cycle, which ends it; only looked at with more than two nodes.\<close>

definition closes :: "analyser \<Rightarrow> int \<Rightarrow> int list \<Rightarrow> bool go" where
  "closes na startNode path =
     (if 2 < length path then go_bind (mat_get (an_graph na) (last path) startNode) (\<lambda>w. Inr (flt (Fin 0) w)) else Inr False)"

partial_function (option) cycle_loop ::
    "(nat \<Rightarrow> nat) \<Rightarrow> analyser \<Rightarrow> nat \<Rightarrow> int \<Rightarrow> queue_item list \<Rightarrow> store \<Rightarrow> slice list \<Rightarrow> (slice list \<times> store) go option" where
  "cycle_loop grow na maxLength startNode pq st paths =
     (if pq = [] then Some (Inr (paths, st))
      else let (current, pq') = heap_pop analyser_queue_ops pq
           in (case closes na startNode (contents st (qi_path current)) of
                 Inl e \<Rightarrow> Some (Inl e)
               | Inr cycle \<Rightarrow>
                   (if cycle
                    then (if qi_usedTarget current
                          then (case append_slice grow (qi_path current) startNode st of
                                  (p, st') \<Rightarrow> cycle_loop grow na maxLength startNode pq' st' (paths @ [p]))
                          else cycle_loop grow na maxLength startNode pq' st paths)
                    else if snd (qi_path current) < maxLength
                    then (case go_fold (cycle_extend grow na current) [0..<an_numNodes na] (pq', st) of
                            Inl e \<Rightarrow> Some (Inl e)
                          | Inr (pq'', st') \<Rightarrow> cycle_loop grow na maxLength startNode pq'' st' paths)
                    else cycle_loop grow na maxLength startNode pq' st paths)))"

fun cycles_from ::
    "(nat \<Rightarrow> nat) \<Rightarrow> analyser \<Rightarrow> nat \<Rightarrow> int list \<Rightarrow> store \<Rightarrow> slice list \<Rightarrow> (slice list \<times> store) go option" where
  "cycles_from grow na maxLength [] st paths = Some (Inr (paths, st))"
| "cycles_from grow na maxLength (startNode # rest) st paths =
     (case new_slice startNode st of
        (p, st1) \<Rightarrow>
          (case cycle_loop grow na maxLength startNode (heap_push analyser_queue_ops \<lparr>qi_cost = Fin 0, qi_path = p, qi_usedTarget = False\<rparr> []) st1 paths of
             None \<Rightarrow> None
           | Some (Inl e) \<Rightarrow> Some (Inl e)
           | Some (Inr (paths', st')) \<Rightarrow> cycles_from grow na maxLength rest st' paths'))"

text \<open>The paths found, as they read when the search is over.\<close>

definition findTargetContainingPaths :: "(nat \<Rightarrow> nat) \<Rightarrow> analyser \<Rightarrow> nat \<Rightarrow> int list list go option" where
  "findTargetContainingPaths grow na maxLength =
     map_option (\<lambda>r. go_bind r (\<lambda>(paths, st). Inr (map (contents st) paths)))
       (cycles_from grow na (if maxLength = 0 then an_numNodes na * 2 else maxLength) [an_targetStart na, an_targetEnd na] [] [])"

definition calculateMaxLength :: "nat \<Rightarrow> nat" where
  "calculateMaxLength numNodes =
     (if numNodes < 10 then numNodes + 3 else if numNodes < 24 then numNodes div 2 + 1 else 3)"

definition generateStateKey :: "int list \<Rightarrow> 64 word" where
  "generateStateKey path = fold (\<lambda>n hash. xor (push_bit 5 hash) (word_of_int n)) path 0"

definition short_extend ::
    "(nat \<Rightarrow> nat) \<Rightarrow> analyser \<Rightarrow> queue_item \<Rightarrow> nat \<Rightarrow> queue_item list \<times> store \<Rightarrow> (queue_item list \<times> store) go" where
  "short_extend grow na current nextNode s =
     (case s of (queue, st) \<Rightarrow>
        let path = contents st (qi_path current)
        in go_bind (mat_get (an_graph na) (last path) (int nextNode)) (\<lambda>w.
             if fle w (Fin 0) \<or> containsNode path (int nextNode) then Inr s
             else case append_slice grow (qi_path current) (int nextNode) st of
                    (p, st') \<Rightarrow> Inr (queue @ [\<lparr>qi_cost = fadd (qi_cost current) w, qi_path = p, qi_usedTarget = False\<rparr>], st')))"

text \<open>\<open>visitedStates\<close> has the cost a state was last reached with.\<close>

partial_function (option) short_loop ::
    "(nat \<Rightarrow> nat) \<Rightarrow> analyser \<Rightarrow> nat \<Rightarrow> int \<Rightarrow> queue_item list \<Rightarrow> store \<Rightarrow> (64 word \<rightharpoonup> float64) \<Rightarrow> slice list \<Rightarrow> (slice list \<times> store) go option" where
  "short_loop grow na maxLength node queue st visited paths =
     (case queue of
        [] \<Rightarrow> Some (Inr (paths, st))
      | current # rest \<Rightarrow>
          (if 2 < snd (qi_path current) \<and> last (contents st (qi_path current)) = node
           then short_loop grow na maxLength node rest st visited (paths @ [qi_path current])
           else if snd (qi_path current) < maxLength
           then (if (case visited (generateStateKey (contents st (qi_path current))) of None \<Rightarrow> False | Some c \<Rightarrow> fle c (qi_cost current))
                 then short_loop grow na maxLength node rest st visited paths
                 else (case go_fold (short_extend grow na current) [0..<an_numNodes na] (rest, st) of
                         Inl e \<Rightarrow> Some (Inl e)
                       | Inr (queue', st') \<Rightarrow>
                           short_loop grow na maxLength node queue' st'
                             (visited(generateStateKey (contents st (qi_path current)) \<mapsto> qi_cost current)) paths))
           else short_loop grow na maxLength node rest st visited paths))"

definition findShortCycles :: "(nat \<Rightarrow> nat) \<Rightarrow> analyser \<Rightarrow> int \<Rightarrow> nat \<Rightarrow> int list list go option" where
  "findShortCycles grow na node maxLength =
     (case new_slice node [] of
        (p, st) \<Rightarrow>
          map_option (\<lambda>r. go_bind r (\<lambda>(paths, st). Inr (map (contents st) paths)))
            (short_loop grow na (if maxLength = 0 then calculateMaxLength (an_numNodes na) else maxLength) node
               [\<lparr>qi_cost = Fin 0, qi_path = p, qi_usedTarget = False\<rparr>] st Map.empty []))"

section \<open>The equations\<close>

type_synonym edge = "int \<times> int"

record cycle_path =
  cp_Nodes :: "int list"
  cp_Segments :: "edge list"
  cp_Cost :: float64

definition generateSegments :: "int list \<Rightarrow> edge list go" where
  "generateSegments nodes =
     (if nodes = [] then Inl (Panic CapOutOfRange) else Inr (zip nodes (tl nodes)))"

definition canonicalEdge :: "edge \<Rightarrow> edge" where
  "canonicalEdge e = (if fst e > snd e then (snd e, fst e) else e)"

text \<open>The first of the paths with the same text; \<open>by_length\<close> is \<open>sort.Slice\<close>, free to order paths of the same length.\<close>

fun unique_paths :: "string set \<Rightarrow> int list list \<Rightarrow> int list list" where
  "unique_paths seen [] = []"
| "unique_paths seen (p # ps) =
     (if path_key p \<in> seen then unique_paths seen ps else p # unique_paths (insert (path_key p) seen) ps)"

definition deduplicatePaths :: "(int list list \<Rightarrow> int list list) \<Rightarrow> int list list \<Rightarrow> int list list" where
  "deduplicatePaths by_length paths = by_length (unique_paths {} paths)"

text \<open>
  The measurements run side by side: \<open>arrival\<close> puts the paths in the order in which their measurements end; \<open>dial\<close> and
  \<open>rpc\<close> are the connection to a site and what it answers. Paths that cannot be measured are skipped. \<open>edges\<close> is the order of
  a range over a set of edges, \<open>solve\<close> the solver.
\<close>

record analyser_env =
  ae_grow :: "nat \<Rightarrow> nat"
  ae_by_length :: "int list list \<Rightarrow> int list list"
  ae_arrival :: "int list list \<Rightarrow> int list list"
  ae_dial :: "string \<Rightarrow> go_error option"
  ae_rpc :: "int \<Rightarrow> int list \<Rightarrow> int \<Rightarrow> int \<Rightarrow> go_error + int"
  ae_edges :: "edge set \<Rightarrow> edge list"
  ae_solve :: "float64 list \<Rightarrow> float64 list \<Rightarrow> int \<Rightarrow> int \<Rightarrow> int \<Rightarrow> go_error + float64 list"

definition analyser_measurePathLatency :: "analyser_env \<Rightarrow> int list \<Rightarrow> float64 go" where
  "analyser_measurePathLatency A path =
     (case path of
        [] \<Rightarrow> Inl (Panic IndexOutOfRange)
      | site # rest \<Rightarrow>
          (case ae_dial A (''10.201.'' @ itoa site @ ''.1:5122'') of
             Some e \<Rightarrow> Inl (Err (Wrapf ''error connecting to site daemon'' e))
           | None \<Rightarrow>
               (case ae_rpc A site (map to_int32 path) 30 150 of
                  Inl e \<Rightarrow> Inl (Err e)
                | Inr latency \<Rightarrow> Inr (f_of_int latency))))"

definition measure_cycle :: "analyser_env \<Rightarrow> int list \<Rightarrow> cycle_path list \<Rightarrow> cycle_path list go" where
  "measure_cycle A path acc =
     (case analyser_measurePathLatency A path of
        Inl (Panic x) \<Rightarrow> Inl (Panic x)
      | Inl (Err e) \<Rightarrow> Inr acc
      | Inr result \<Rightarrow>
          go_bind (generateSegments path)
            (\<lambda>segs. Inr (acc @ [\<lparr>cp_Nodes = path, cp_Segments = segs, cp_Cost = fdiv result (Fin 1000)\<rparr>])))"

definition findRelevantCycles :: "analyser_env \<Rightarrow> analyser \<Rightarrow> cycle_path list go option" where
  "findRelevantCycles A na =
     (case findTargetContainingPaths (ae_grow A) na 0 of
        None \<Rightarrow> None
      | Some (Inl e) \<Rightarrow> Some (Inl e)
      | Some (Inr targetPaths) \<Rightarrow>
          (case findShortCycles (ae_grow A) na (an_targetStart na) 0 of
             None \<Rightarrow> None
           | Some (Inl e) \<Rightarrow> Some (Inl e)
           | Some (Inr startCycles) \<Rightarrow>
               Some (go_bind (go_fold (measure_cycle A) (ae_arrival A (deduplicatePaths (ae_by_length A) (targetPaths @ startCycles))) [])
                 (\<lambda>measuredPaths.
                    if measuredPaths = [] then Inl (Err (Errorf ''no measurable cycles found''))
                    else Inr (take 100 measuredPaths)))))"

definition path_edges :: "analyser \<Rightarrow> cycle_path list \<Rightarrow> edge set" where
  "path_edges na paths =
     insert (canonicalEdge (an_targetStart na, an_targetEnd na)) (\<Union>p\<in>set paths. canonicalEdge ` set (cp_Segments p))"

text \<open>The edges are numbered in the order of a range over them.\<close>

definition buildEdgeMap :: "analyser_env \<Rightarrow> analyser \<Rightarrow> cycle_path list \<Rightarrow> (edge \<rightharpoonup> nat) \<times> edge" where
  "buildEdgeMap A na paths =
     (let es = ae_edges A (path_edges na paths)
      in (map_of (zip es [0..<length es]), canonicalEdge (an_targetStart na, an_targetEnd na)))"

definition edge_index :: "(edge \<rightharpoonup> nat) \<Rightarrow> edge \<Rightarrow> nat" where
  "edge_index edgeMap e = (case edgeMap e of None \<Rightarrow> 0 | Some i \<Rightarrow> i)"

text \<open>\<open>matrix[k] += 1\<close> and \<open>matrix[k] = 1\<close>\<close>

definition bump :: "nat \<Rightarrow> float64 list \<Rightarrow> float64 list go" where
  "bump k m = (if k < length m then Inr (m[k := fadd (m ! k) (Fin 1)]) else Inl (Panic IndexOutOfRange))"

definition set_one :: "nat \<Rightarrow> float64 list \<Rightarrow> float64 list go" where
  "set_one k m = (if k < length m then Inr (m[k := Fin 1]) else Inl (Panic IndexOutOfRange))"

definition path_row :: "(edge \<rightharpoonup> nat) \<Rightarrow> nat \<Rightarrow> nat \<times> cycle_path \<Rightarrow> float64 list \<Rightarrow> float64 list go" where
  "path_row edgeMap numEdges ip m =
     go_fold (\<lambda>seg. bump (fst ip * numEdges + edge_index edgeMap (canonicalEdge seg))) (cp_Segments (snd ip)) m"

definition buildMatrix :: "cycle_path list \<Rightarrow> (edge \<rightharpoonup> nat) \<Rightarrow> nat \<Rightarrow> (float64 list \<times> float64 list) go" where
  "buildMatrix paths edgeMap numEdges =
     (let numPaths = length paths
      in go_bind (go_fold (path_row edgeMap numEdges) (List.enumerate 0 paths) (replicate ((numPaths + numEdges) * numEdges) (Fin 0)))
           (\<lambda>m. go_bind (go_fold (\<lambda>i. set_one ((numPaths + i) * numEdges + i)) [0..<numEdges] m)
             (\<lambda>m'. Inr (m', map cp_Cost paths @ replicate numEdges (Fin 0)))))"

definition solve_paths :: "analyser_env \<Rightarrow> analyser \<Rightarrow> cycle_path list \<Rightarrow> float64 go" where
  "solve_paths A na paths =
     (case buildEdgeMap A na paths of
        (edgeMap, targetEdge) \<Rightarrow>
          let numEdges = card (dom edgeMap); target = edge_index edgeMap targetEdge
          in go_bind (buildMatrix paths edgeMap numEdges) (\<lambda>(matrix, vector).
               case ae_solve A matrix vector (to_int32 (int (length paths + numEdges))) (to_int32 (int numEdges)) (to_int32 (int target)) of
                 Inl e \<Rightarrow> Inl (Err (Wrapf ''solver error'' e))
               | Inr solution \<Rightarrow> go_index solution (int target)))"

definition AnalyzeTargetPath :: "analyser_env \<Rightarrow> int \<Rightarrow> int \<Rightarrow> analyser \<Rightarrow> float64 go option" where
  "AnalyzeTargetPath A start end na =
     (let na' = na\<lparr>an_targetStart := start, an_targetEnd := end\<rparr>
      in case findRelevantCycles A na' of
           None \<Rightarrow> None
         | Some (Inl e) \<Rightarrow> Some (Inl e)
         | Some (Inr paths) \<Rightarrow> Some (solve_paths A na' paths))"

text \<open>\<open>ProjectPathLatency\<close>: the reply has status 1 whether there is an error or not.\<close>

definition ProjectPathLatency ::
    "env \<Rightarrow> analyser_env \<Rightarrow> int \<Rightarrow> int \<Rightarrow> ('z cost_world_scheme, (int \<times> float64) \<times> go_error option) proc" where
  "ProjectPathLatency E A start end =
     bind (CreateGraph E NewNetworkAnalyzer) (\<lambda>na.
       case AnalyzeTargetPath A start end na of
         None \<Rightarrow> throw (Panic NoReturn)
       | Some (Inl (Panic x)) \<Rightarrow> throw (Panic x)
       | Some (Inl (Err e)) \<Rightarrow> ret ((1, Fin 0), Some e)
       | Some (Inr cost) \<Rightarrow> ret ((1, cost), None))"

section \<open>The matrix\<close>

lemma go_fold_bumps:
  assumes "\<forall>k\<in>set ks. k < length m"
  shows "\<exists>m'. go_fold bump ks m = Inr m' \<and> length m' = length m \<and>
    (\<forall>k<length m. m' ! k = ((\<lambda>x. fadd x (Fin 1)) ^^ count_list ks k) (m ! k))"
  using assms
proof (induction ks arbitrary: m)
  case (Cons k ks)
  let ?m = "m[k := fadd (m ! k) (Fin 1)]"
  have k: "k < length m" using Cons.prems by simp
  have "\<forall>j\<in>set ks. j < length ?m" using Cons.prems by simp
  from Cons.IH [OF this] obtain m' where m': "go_fold bump ks ?m = Inr m'" "length m' = length m"
    "\<And>j. j < length m \<Longrightarrow> m' ! j = ((\<lambda>x. fadd x (Fin 1)) ^^ count_list ks j) (?m ! j)" by auto
  have "m' ! j = ((\<lambda>x. fadd x (Fin 1)) ^^ count_list (k # ks) j) (m ! j)" if "j < length m" for j
    using m'(3) [OF that] k by (cases "j = k") (simp_all add: funpow_Suc_right del: funpow.simps(2))
  moreover have "go_fold bump (k # ks) m = Inr m'" using m'(1) k by (simp add: bump_def)
  ultimately show ?case using m'(2) by auto
qed simp

text \<open>The keys the rows of the paths bump, one list for each path.\<close>

definition row_keys :: "(edge \<rightharpoonup> nat) \<Rightarrow> nat \<Rightarrow> nat \<times> cycle_path \<Rightarrow> nat list" where
  "row_keys edgeMap numEdges ip = map (\<lambda>seg. fst ip * numEdges + edge_index edgeMap (canonicalEdge seg)) (cp_Segments (snd ip))"

lemma go_fold_map: "go_fold f (map g xs) s = go_fold (\<lambda>x. f (g x)) xs s"
  by (induction xs arbitrary: s) (simp_all add: go_bind_def split: sum.splits)

lemma go_fold_concat: "go_fold (\<lambda>x. go_fold f (g x)) xs s = go_fold f (concat (map g xs)) s"
  by (induction xs arbitrary: s) (simp_all add: go_fold_append go_bind_def split: sum.splits)

lemma path_rows: "go_fold (path_row M n) ips m = go_fold bump (concat (map (row_keys M n) ips)) m"
proof -
  have "path_row M n ip = go_fold bump (row_keys M n ip)" for ip
    by (rule ext) (simp add: path_row_def row_keys_def go_fold_map)
  then have "path_row M n = (\<lambda>ip. go_fold bump (row_keys M n ip))" by (rule ext)
  then show ?thesis using go_fold_concat [of bump "row_keys M n" ips m] by simp
qed

lemma count_list_concat: "count_list (concat xss) x = sum_list (map (\<lambda>xs. count_list xs x) xss)"
  by (induction xss) simp_all

lemma cell_eq: "j < (n :: nat) \<Longrightarrow> j' < n \<Longrightarrow> i * n + j = i' * n + j' \<longleftrightarrow> i = i' \<and> j = j'"
  by (metis add.commute div_mult_self1_is_m div_mult_self3 less_nat_zero_code mod_less mod_mult_self3 mult.commute
      add_cancel_right_left div_less neq0_conv)

text \<open>How often a path crosses an edge, in either direction.\<close>

definition crossings :: "cycle_path \<Rightarrow> edge \<Rightarrow> nat" where
  "crossings p e = length (filter (\<lambda>seg. canonicalEdge seg = e) (cp_Segments p))"

definition float_count :: "nat \<Rightarrow> float64" where
  "float_count n = ((\<lambda>x. fadd x (Fin 1)) ^^ n) (Fin 0)"

lemma float_count_small: "float_count 0 = Fin 0" "float_count 1 = Fin 1" "float_count 2 = Fin 2"
  by code_simp+

lemma go_fold_ones:
  assumes "\<forall>k\<in>set ks. k < length m"
  shows "\<exists>m'. go_fold set_one ks m = Inr m' \<and> length m' = length m \<and> (\<forall>k<length m. m' ! k = (if k \<in> set ks then Fin 1 else m ! k))"
  using assms
proof (induction ks arbitrary: m)
  case (Cons k ks)
  have "\<forall>j\<in>set ks. j < length (m[k := Fin 1])" using Cons.prems by simp
  from Cons.IH [OF this] obtain m' where m': "go_fold set_one ks (m[k := Fin 1]) = Inr m'" "length m' = length m"
    "\<forall>j<length m. m' ! j = (if j \<in> set ks then Fin 1 else m[k := Fin 1] ! j)" by auto
  have "go_fold set_one (k # ks) m = Inr m'" using m'(1) Cons.prems by (simp add: set_one_def)
  then show ?case using m'(2,3) by (auto simp: nth_list_update)
qed simp

lemma sum_enumerate:
  assumes "i < length xs"
  shows "sum_list (map (\<lambda>(k, x). if k = i then f x else (0 :: nat)) (List.enumerate 0 xs)) = f (xs ! i)"
proof -
  have "List.enumerate 0 xs = map (\<lambda>k. (k, xs ! k)) [0..<length xs]"
    by (rule nth_equalityI) (simp_all add: nth_enumerate_eq)
  then have "sum_list (map (\<lambda>(k, x). if k = i then f x else 0) (List.enumerate 0 xs)) =
      (\<Sum>k\<in>{0..<length xs}. if k = i then f (xs ! k) else 0)"
    by (simp add: comp_def interv_sum_list_conv_sum_set_nat)
  then show ?thesis using assms by (simp add: sum.delta)
qed

lemma count_row:
  assumes "j < n" "\<And>seg. seg \<in> set (cp_Segments p) \<Longrightarrow> edge_index M (canonicalEdge seg) < n"
    and "\<And>seg. seg \<in> set (cp_Segments p) \<Longrightarrow> edge_index M (canonicalEdge seg) = j \<longleftrightarrow> canonicalEdge seg = e"
  shows "count_list (row_keys M n (k, p)) (i * n + j) = (if k = i then crossings p e else 0)"
proof -
  have "count_list (map (\<lambda>seg. k * n + edge_index M (canonicalEdge seg)) segs) (i * n + j) =
      (if k = i then length (filter (\<lambda>seg. canonicalEdge seg = e) segs) else 0)" if "set segs \<subseteq> set (cp_Segments p)" for segs
    using that
  proof (induction segs)
    case (Cons seg segs)
    then show ?case using cell_eq [OF assms(2) [of seg] assms(1), of k i] assms(3) [of seg] by auto
  qed simp
  then show ?thesis by (simp add: row_keys_def crossings_def)
qed

text \<open>The edges numbered in the order of a list.\<close>

definition numbered :: "edge list \<Rightarrow> (edge \<rightharpoonup> nat) \<Rightarrow> bool" where
  "numbered L M \<longleftrightarrow> distinct L \<and> (\<forall>j<length L. M (L ! j) = Some j)"

lemma numbered_zip: "distinct L \<Longrightarrow> numbered L (map_of (zip L [0..<length L]))"
  using map_of_zip_nth [of L "[0..<length L]"] by (simp add: numbered_def)

lemma numbered_index:
  assumes "numbered L M" "e \<in> set L"
  shows "edge_index M e < length L" "L ! edge_index M e = e" "j < length L \<Longrightarrow> edge_index M e = j \<longleftrightarrow> e = L ! j"
  using assms by (auto simp: numbered_def in_set_conv_nth edge_index_def)

definition matrix_keys :: "(edge \<rightharpoonup> nat) \<Rightarrow> nat \<Rightarrow> cycle_path list \<Rightarrow> nat list" where
  "matrix_keys M n paths = concat (map (row_keys M n) (List.enumerate 0 paths))"

definition edges_listed :: "edge list \<Rightarrow> cycle_path list \<Rightarrow> bool" where
  "edges_listed L paths \<longleftrightarrow> (\<forall>p\<in>set paths. \<forall>s\<in>set (cp_Segments p). canonicalEdge s \<in> set L)"

lemma cell_less: "i < r \<Longrightarrow> j < n \<Longrightarrow> i * n + j < r * (n :: nat)"
proof -
  assume "i < r" "j < n"
  then have "i * n + j < Suc i * n" "Suc i * n \<le> r * n" by (simp, intro mult_right_mono) simp_all
  then show ?thesis by linarith
qed

lemma matrix_keys_cells:
  assumes "numbered L M" "edges_listed L paths" "x \<in> set (matrix_keys M (length L) paths)"
  shows "\<exists>i<length paths. \<exists>j<length L. x = i * length L + j"
proof -
  from assms(3) obtain i p s where ip: "(i, p) \<in> set (List.enumerate 0 paths)" and s: "s \<in> set (cp_Segments p)"
    and x: "x = i * length L + edge_index M (canonicalEdge s)" by (auto simp: matrix_keys_def row_keys_def)
  have "i < length paths" "p \<in> set paths" using ip by (auto simp: in_set_enumerate_eq)
  with numbered_index(1) [OF assms(1), of "canonicalEdge s"] assms(2) s x show ?thesis by (auto simp: edges_listed_def)
qed

lemma matrix_keys_count:
  assumes num: "numbered L M" and segs: "edges_listed L paths" and i: "i < length paths" and j: "j < length L"
  shows "count_list (matrix_keys M (length L) paths) (i * length L + j) = crossings (paths ! i) (L ! j)"
proof -
  have "count_list (row_keys M (length L) (a, p)) (i * length L + j) = (if a = i then crossings p (L ! j) else 0)"
    if "p \<in> set paths" for a p
    by (rule count_row [OF j]) (use that segs numbered_index [OF num] j in \<open>auto simp: edges_listed_def\<close>)
  then have eq: "map (\<lambda>ap. count_list (row_keys M (length L) ap) (i * length L + j)) (List.enumerate 0 paths) =
      map (\<lambda>(a, p). if a = i then crossings p (L ! j) else 0) (List.enumerate 0 paths)"
    by (intro map_cong) (auto simp: in_set_enumerate_eq)
  show ?thesis unfolding matrix_keys_def count_list_concat map_map comp_def eq by (rule sum_enumerate [OF i])
qed

lemma buildMatrix_cells:
  assumes num: "numbered L M" and segs: "edges_listed L paths"
  defines "n \<equiv> length L" and "k \<equiv> length paths"
  shows "\<exists>m. buildMatrix paths M n = Inr (m, map cp_Cost paths @ replicate n (Fin 0)) \<and> length m = (k + n) * n \<and>
    (\<forall>i<k. \<forall>j<n. m ! (i * n + j) = float_count (crossings (paths ! i) (L ! j))) \<and>
    (\<forall>i<n. \<forall>j<n. m ! ((k + i) * n + j) = (if i = j then Fin 1 else Fin 0))"
proof -
  let ?z = "replicate ((k + n) * n) (Fin 0)" and ?keys = "matrix_keys M n paths" and ?ones = "map (\<lambda>i. (k + i) * n + i) [0..<n]"
  have cells: "x \<in> set ?keys \<Longrightarrow> \<exists>i<k. \<exists>j<n. x = i * n + j" for x
    using matrix_keys_cells [OF num segs] by (simp add: n_def k_def)
  have less: "i < k + n \<Longrightarrow> j < n \<Longrightarrow> i * n + j < (k + n) * n" for i j by (rule cell_less)
  have "\<forall>x\<in>set ?keys. x < length ?z" using cells less by fastforce
  from go_fold_bumps [OF this] obtain m1 where m1: "go_fold (path_row M n) (List.enumerate 0 paths) ?z = Inr m1" "length m1 = (k + n) * n"
    "\<And>x. x < (k + n) * n \<Longrightarrow> m1 ! x = float_count (count_list ?keys x)"
    unfolding path_rows float_count_def matrix_keys_def by auto
  have "\<forall>x\<in>set ?ones. x < length m1" using less by (auto simp: m1(2))
  from go_fold_ones [OF this] obtain m where m: "go_fold (\<lambda>i. set_one ((k + i) * n + i)) [0..<n] m1 = Inr m" "length m = (k + n) * n"
    "\<And>x. x < (k + n) * n \<Longrightarrow> m ! x = (if x \<in> set ?ones then Fin 1 else m1 ! x)"
    unfolding go_fold_map m1(2) by auto
  have "m ! (i * n + j) = float_count (crossings (paths ! i) (L ! j))" if i: "i < k" and j: "j < n" for i j
  proof -
    have "i * n + j \<notin> set ?ones" using cell_eq [OF j] i by auto
    then show ?thesis using m(3) m1(3) less [of i j] i j matrix_keys_count [OF num segs] by (simp add: n_def k_def)
  qed
  moreover have "m ! ((k + i) * n + j) = (if i = j then Fin 1 else Fin 0)" if i: "i < n" and j: "j < n" for i j
  proof -
    have "(k + i) * n + j \<in> set ?ones \<longleftrightarrow> i = j" using cell_eq [OF j] i j by auto
    moreover have "(k + i) * n + j \<notin> set ?keys" using cells [of "(k + i) * n + j"] cell_eq [OF j] by auto
    ultimately show ?thesis using m(3) m1(3) less [of "k + i" j] i j float_count_small(1) by (simp add: count_list_0_iff)
  qed
  moreover have "buildMatrix paths M n = Inr (m, map cp_Cost paths @ replicate n (Fin 0))"
    using m1(1) m(1) by (simp add: buildMatrix_def k_def Let_def)
  ultimately show ?thesis using m(2) by blast
qed

text \<open>
  C38. The system the solver gets is the one the measurements stand for. Its columns are the edges of the measured cycles and
  the target edge, each once; the row of a cycle counts how often the cycle crosses each edge and has its latency on the
  right-hand side; below stands the identity with zeros; the target's index is that of its column. Nothing panics.
\<close>

theorem matrix_entries:
  assumes es: "distinct (ae_edges A (path_edges na paths))" "set (ae_edges A (path_edges na paths)) = path_edges na paths"
  shows "case buildEdgeMap A na paths of (M, target) \<Rightarrow>
    let edge_list = ae_edges A (path_edges na paths); n = length edge_list; k = length paths
    in card (dom M) = n \<and> edge_index M target < n \<and> edge_list ! edge_index M target = target \<and>
      (\<exists>m. buildMatrix paths M n = Inr (m, map cp_Cost paths @ replicate n (Fin 0)) \<and> length m = (k + n) * n \<and>
        (\<forall>i<k. \<forall>j<n. m ! (i * n + j) = float_count (crossings (paths ! i) (edge_list ! j))) \<and>
        (\<forall>i<n. \<forall>j<n. m ! ((k + i) * n + j) = (if i = j then Fin 1 else Fin 0)))"
proof -
  define L where "L = ae_edges A (path_edges na paths)"
  define M where "M = map_of (zip L [0..<length L])"
  define t where "t = canonicalEdge (an_targetStart na, an_targetEnd na)"
  have L: "distinct L" "set L = path_edges na paths" using es by (simp_all add: L_def)
  have num: "numbered L M" unfolding M_def by (rule numbered_zip [OF L(1)])
  have "edges_listed L paths" by (auto simp: edges_listed_def L(2) path_edges_def)
  note cells = buildMatrix_cells [OF num this]
  have "edge_index M t < length L \<and> L ! edge_index M t = t"
    using numbered_index(1,2) [OF num, of t] by (simp add: L(2) path_edges_def t_def)
  moreover have "card (dom M) = length L" by (simp add: M_def distinct_card [OF L(1)])
  moreover have "buildEdgeMap A na paths = (M, t)" by (simp add: buildEdgeMap_def M_def L_def t_def Let_def)
  ultimately show ?thesis using cells unfolding L_def [symmetric] by (simp only: prod.case Let_def simp_thms)
qed

text \<open>A measured triangle through the edge from 0 to 1.\<close>

definition triangle :: cycle_path where
  "triangle = \<lparr>cp_Nodes = [0, 1, 2, 0], cp_Segments = [(0, 1), (1, 2), (2, 0)], cp_Cost = Fin 7\<rparr>"

definition triangle_env :: analyser_env where
  "triangle_env =
     \<lparr>ae_grow = (\<lambda>l. 2 * l), ae_by_length = sort_key length, ae_arrival = id, ae_dial = (\<lambda>s. None), ae_rpc = (\<lambda>s p c i. Inr 7000),
      ae_edges = (\<lambda>S. filter (\<lambda>e. e \<in> S) [(0, 1), (0, 2), (1, 2)]), ae_solve = (\<lambda>m v r c t. Inr [Fin 1, Fin 2, Fin 3])\<rparr>"

definition triangle_net :: analyser where
  "triangle_net = \<lparr>an_numNodes = 3, an_targetStart = 0, an_targetEnd = 1, an_graph = replicate 3 (replicate 3 (Fin 1))\<rparr>"

theorem matrix_entries_witness:
  "\<exists>M m v. fst (buildEdgeMap triangle_env triangle_net [triangle]) = M \<and> buildMatrix [triangle] M 3 = Inr (m, v) \<and>
     m ! 0 = Fin 1 \<and> m ! 1 = Fin 1 \<and> m ! 2 = Fin 1 \<and> m ! 3 = Fin 1 \<and> m ! 4 = Fin 0"
proof -
  have S: "path_edges triangle_net [triangle] = {(0, 1), (1, 2), (0, 2)}"
    by (auto simp: path_edges_def triangle_net_def triangle_def canonicalEdge_def)
  have L: "ae_edges triangle_env (path_edges triangle_net [triangle]) = [(0, 1), (0, 2), (1, 2)]"
    by (simp add: triangle_env_def S)
  obtain M t where b: "buildEdgeMap triangle_env triangle_net [triangle] = (M, t)" by (metis surj_pair)
  have d: "distinct (ae_edges triangle_env (path_edges triangle_net [triangle]))"
    "set (ae_edges triangle_env (path_edges triangle_net [triangle])) = path_edges triangle_net [triangle]"
    unfolding L by (auto simp: S)
  have l: "length [(0, 1), (0, 2), (1, 2) :: edge] = 3" "length [triangle] = 1" by simp_all
  have "\<exists>m. buildMatrix [triangle] M 3 = Inr (m, map cp_Cost [triangle] @ replicate 3 (Fin 0)) \<and> length m = (1 + 3) * 3 \<and>
      (\<forall>i<1. \<forall>j<3. m ! (i * 3 + j) = float_count (crossings ([triangle] ! i) ([(0, 1), (0, 2), (1, 2)] ! j))) \<and>
      (\<forall>i<3. \<forall>j<3. m ! ((1 + i) * 3 + j) = (if i = j then Fin 1 else Fin 0))"
    using matrix_entries [OF d] unfolding b L prod.case Let_def l by (elim conjE)
  then obtain m where m: "buildMatrix [triangle] M 3 = Inr (m, map cp_Cost [triangle] @ replicate 3 (Fin 0))"
    "\<forall>i<1. \<forall>j<3. m ! (i * 3 + j) = float_count (crossings ([triangle] ! i) ([(0, 1), (0, 2), (1, 2)] ! j))"
    "\<forall>i<3. \<forall>j<3. m ! ((1 + i) * 3 + j) = (if i = j then Fin 1 else Fin 0)" by (elim exE conjE) (rule that)
  have c: "crossings triangle (0, 1) = 1" "crossings triangle (0, 2) = 1" "crossings triangle (1, 2) = 1"
    by (simp_all add: crossings_def triangle_def canonicalEdge_def)
  have "m ! 0 = Fin 1" "m ! 1 = Fin 1" "m ! 2 = Fin 1"
    using m(2) [rule_format, of 0 0] m(2) [rule_format, of 0 1] m(2) [rule_format, of 0 2] c float_count_small(2) by (simp_all add: eval_nat_numeral)
  moreover have "m ! 3 = Fin 1" "m ! 4 = Fin 0" using m(3) [rule_format, of 0 0] m(3) [rule_format, of 0 1] by simp_all
  ultimately show ?thesis using m(1) b by (rule_tac x = M in exI, rule_tac x = m in exI) auto
qed

end
