(* ===== verification/Cycles.thy ===== *)
theory Cycles
  imports Analyser
begin

text \<open>
  What the search for cycles of \<^verbatim>\<open>internal/analyser\<close> finds: on the matrices of \<open>NewGraph\<close>, whose missing edges are \<open>+Inf\<close> and
  count as edges, the triangles through the target edge; and no short cycles at all. Both searches return.
\<close>

interpretation analyser_queue: heap_methods analyser_queue_ops id "\<lambda>a b. flt (qi_cost a) (qi_cost b)"
  by unfold_locales (auto simp: analyser_queue_ops_def)

section \<open>Slices and the store\<close>

text \<open>A square graph all of whose entries count as edges.\<close>

definition dense :: "analyser \<Rightarrow> bool" where
  "dense na \<longleftrightarrow>
     length (an_graph na) = an_numNodes na \<and>
     (\<forall>row\<in>set (an_graph na). length row = an_numNodes na \<and> (\<forall>w\<in>set row. flt (Fin 0) w))"

lemma dense_get:
  assumes "dense na" "x \<in> {0..<int (an_numNodes na)}" "y \<in> {0..<int (an_numNodes na)}"
  shows "\<exists>w. mat_get (an_graph na) x y = Inr w \<and> flt (Fin 0) w \<and> \<not> fle w (Fin 0)"
proof -
  let ?w = "an_graph na ! nat x ! nat y"
  have get: "mat_get (an_graph na) x y = Inr ?w"
    using mat_get_in [of "an_graph na" "an_numNodes na" "nat x" "nat y"] assms by (auto simp: dense_def)
  have "an_graph na ! nat x \<in> set (an_graph na)" using assms(1,2) by (auto simp: dense_def nat_less_iff)
  moreover from this have "?w \<in> set (an_graph na ! nat x)" using assms(1,3) by (auto simp: dense_def nat_less_iff)
  ultimately have "flt (Fin 0) ?w" using assms(1) by (auto simp: dense_def)
  moreover from this have "\<not> fle ?w (Fin 0)" by (auto simp: fle_def feq_def flt_def)
  ultimately show ?thesis using get by blast
qed

text \<open>What a search does to the store: new arrays, and its start node as the last entry of arrays of its own.\<close>

definition grown :: "nat \<Rightarrow> int \<Rightarrow> store \<Rightarrow> store \<Rightarrow> bool" where
  "grown base s st st' \<longleftrightarrow>
     length st \<le> length st' \<and>
     (\<forall>a<length st. st' ! a = st ! a \<or> base \<le> a \<and> length (st ! a) = 4 \<and> st' ! a = (st ! a)[3 := s])"

lemma grown_refl: "grown base s st st"
  by (simp add: grown_def)

lemma grown_trans:
  assumes "grown base s st st1" "grown base s st1 st2"
  shows "grown base s st st2"
  unfolding grown_def
proof (intro conjI allI impI)
  show "length st \<le> length st2" using assms unfolding grown_def by linarith
  fix a assume a: "a < length st"
  then have "st1 ! a = st ! a \<or> base \<le> a \<and> length (st ! a) = 4 \<and> st1 ! a = (st ! a)[3 := s]"
    using assms(1) unfolding grown_def by blast
  moreover have "st2 ! a = st1 ! a \<or> base \<le> a \<and> length (st1 ! a) = 4 \<and> st2 ! a = (st1 ! a)[3 := s]"
    using assms a unfolding grown_def by (meson less_le_trans)
  ultimately show "st2 ! a = st ! a \<or> base \<le> a \<and> length (st ! a) = 4 \<and> st2 ! a = (st ! a)[3 := s]"
    by auto
qed

lemma grown_append: "grown base s st (st @ ext)"
  by (simp add: grown_def nth_append)

lemma grown_close: "base \<le> a \<Longrightarrow> length (st ! a) = 4 \<Longrightarrow> grown base s st (st[a := (st ! a)[3 := s]])"
  unfolding grown_def by (metis le_refl length_list_update nth_list_update_eq nth_list_update_neq)

lemma grown_short:
  assumes "grown base s st st'" "a < length st" "l \<le> 3"
  shows "contents st' (a, l) = contents st (a, l)"
proof -
  have "st' ! a = st ! a \<or> st' ! a = (st ! a)[3 := s]" using assms unfolding grown_def by blast
  then show ?thesis using assms(3) by (auto simp: contents_def)
qed

lemma grown_closed:
  assumes "grown base s st st'" "a < length st" "st ! a ! 3 = s"
  shows "contents st' (a, l) = contents st (a, l)"
proof -
  have "st' ! a = st ! a \<or> st' ! a = (st ! a)[3 := s]" using assms unfolding grown_def by blast
  moreover have "(st ! a)[3 := s] = st ! a" using assms(3) list_update_id by metis
  ultimately show ?thesis by (simp add: contents_def)
qed

lemma grown_below: "grown base s st st' \<Longrightarrow> a < length st \<Longrightarrow> a < base \<Longrightarrow> contents st' (a, l) = contents st (a, l)"
  unfolding grown_def contents_def by auto

section \<open>The cycles through the target edge\<close>

text \<open>An item of the search from \<open>s\<close>, the other end of the target edge being \<open>o\<close>.\<close>

definition item_path_ok :: "nat \<Rightarrow> int \<Rightarrow> int list \<Rightarrow> bool" where
  "item_path_ok n s c \<longleftrightarrow> c \<noteq> [] \<and> length c \<le> 3 \<and> distinct c \<and> hd c = s \<and> set c \<subseteq> {0..<int n}"

definition item_ok :: "nat \<Rightarrow> int \<Rightarrow> int \<Rightarrow> nat \<Rightarrow> store \<Rightarrow> queue_item \<Rightarrow> bool" where
  "item_ok n s o' base st it \<longleftrightarrow>
     base \<le> fst (qi_path it) \<and> fst (qi_path it) < length st \<and>
     length (st ! fst (qi_path it)) = (if snd (qi_path it) = 3 then 4 else snd (qi_path it)) \<and>
     item_path_ok n s (contents st (qi_path it)) \<and>
     (qi_usedTarget it \<longleftrightarrow> 2 \<le> snd (qi_path it) \<and> contents st (qi_path it) ! 1 = o')"

lemma item_len: "item_ok n s o' base st it \<Longrightarrow> length (contents st (qi_path it)) = snd (qi_path it) \<and> snd (qi_path it) \<le> 3"
  by (cases "qi_path it") (auto simp: item_ok_def item_path_ok_def contents_def split: if_splits)

lemma item_grown:
  assumes "item_ok n s o' base st it" "grown base s st st'"
  shows "item_ok n s o' base st' it" "contents st' (qi_path it) = contents st (qi_path it)"
proof -
  obtain a l where p: "qi_path it = (a, l)" by (cases "qi_path it")
  have a: "a < length st" and l: "l \<le> 3" using assms(1) item_len [OF assms(1)] by (auto simp: item_ok_def p)
  show c: "contents st' (qi_path it) = contents st (qi_path it)" using grown_short [OF assms(2) a l] by (simp add: p)
  have "length (st' ! a) = length (st ! a)" "a < length st'" using assms(2) a unfolding grown_def by (metis length_list_update, linarith)
  with assms(1) c show "item_ok n s o' base st' it" by (simp add: item_ok_def p)
qed

definition view :: "store \<Rightarrow> queue_item list \<Rightarrow> int list multiset" where
  "view st pq = mset (map (\<lambda>it. contents st (qi_path it)) pq)"

lemma view_grown:
  assumes "\<forall>it\<in>set pq. item_ok n s o' base st it" "grown base s st st'"
  shows "view st' pq = view st pq" "\<forall>it\<in>set pq. item_ok n s o' base st' it"
proof -
  have "map (\<lambda>it. contents st' (qi_path it)) pq = map (\<lambda>it. contents st (qi_path it)) pq"
    using assms item_grown(2) by (intro map_cong) blast+
  then show "view st' pq = view st pq" by (simp only: view_def)
  show "\<forall>it\<in>set pq. item_ok n s o' base st' it" using assms item_grown(1) by blast
qed

lemma push_view: "view st (heap_push analyser_queue_ops it pq) = add_mset (contents st (qi_path it)) (view st pq)"
  "set (heap_push analyser_queue_ops it pq) = insert it (set pq)"
  using arg_cong [OF analyser_queue.push_mset [of it pq], of "image_mset (\<lambda>it. contents st (qi_path it))"]
    analyser_queue.push_set [of it pq] by (simp_all add: view_def)

lemma pop_view:
  assumes "pq \<noteq> []" "heap_pop analyser_queue_ops pq = (it, pq')"
  shows "view st pq = add_mset (contents st (qi_path it)) (view st pq')" "set pq = insert it (set pq')"
  using arg_cong [OF analyser_queue.pop_mset [OF assms], of "image_mset (\<lambda>it. contents st (qi_path it))"]
    analyser_queue.pop_set [OF assms] by (simp_all add: view_def)

section \<open>An item is extended\<close>

text \<open>How \<open>append\<close> grows the slices of at most three nodes.\<close>

definition doubles :: "(nat \<Rightarrow> nat) \<Rightarrow> bool" where
  "doubles grow \<longleftrightarrow> grow 1 = 2 \<and> grow 2 = 4"

definition target_ends :: "analyser \<Rightarrow> int \<Rightarrow> int \<Rightarrow> bool" where
  "target_ends na s o' \<longleftrightarrow>
     s \<noteq> o' \<and> {s, o'} \<subseteq> {0..<int (an_numNodes na)} \<and>
     (an_targetStart na = s \<and> an_targetEnd na = o' \<or> an_targetStart na = o' \<and> an_targetEnd na = s)"

lemma append_full:
  assumes "length (st ! a) = l"
  shows "append_slice grow (a, l) x st = ((length st, Suc l), st @ [(st ! a) @ x # replicate (grow l - Suc l) 0])"
  using assms by (simp add: append_slice_def)

lemma extend_item:
  assumes d: "dense na" and n: "n = an_numNodes na" and t: "target_ends na s o'" and g: "doubles grow"
    and it: "item_ok n s o' base st current" "snd (qi_path current) < 3" and v: "v < n"
    and fresh: "int v \<notin> set (contents st (qi_path current))"
  shows "\<exists>it ext. cycle_extend grow na current v (pq, st) = Inr (heap_push analyser_queue_ops it pq, st @ ext) \<and>
    item_ok n s o' base (st @ ext) it \<and> contents (st @ ext) (qi_path it) = contents st (qi_path current) @ [int v]"
proof -
  obtain a l where p: "qi_path current = (a, l)" by (cases "qi_path current")
  let ?c = "contents st (a, l)"
  have l: "l < 3" "length (st ! a) = l" "a < length st" "base \<le> a" and c: "item_path_ok n s ?c"
    and u: "qi_usedTarget current \<longleftrightarrow> 2 \<le> l \<and> ?c ! 1 = o'"
    using it by (auto simp: item_ok_def p)
  have ca: "?c = st ! a" using l(2) by (simp add: contents_def)
  have cne: "?c \<noteq> []" "set ?c \<subseteq> {0..<int n}" "hd ?c = s" "distinct ?c" using c by (auto simp: item_path_ok_def)
  have "last ?c \<in> {0..<int n}" using cne(1,2) last_in_set by blast
  then obtain w where w: "mat_get (an_graph na) (last ?c) (int v) = Inr w" "\<not> fle w (Fin 0)"
    using dense_get [OF d, of "last ?c" "int v"] v n by auto
  let ?ext = "[?c @ int v # replicate (grow l - Suc l) 0]"
  define it where "it = \<lparr>qi_cost = fadd (qi_cost current) w, qi_path = (length st, Suc l),
    qi_usedTarget = (qi_usedTarget current \<or> isTargetEdge na (last ?c) (int v))\<rparr>"
  have "cycle_extend grow na current v (pq, st) = Inr (heap_push analyser_queue_ops it pq, st @ ?ext)"
    using fresh w by (simp add: cycle_extend_def p append_full [OF l(2)] it_def ca Let_def)
  moreover have cv: "contents (st @ ?ext) (qi_path it) = ?c @ [int v]"
    using l(2) by (simp add: contents_def it_def)
  moreover have "item_ok n s o' base (st @ ?ext) it"
  proof -
    have "0 < l" using cne(1) l(2) ca by auto
    then have "l = 1 \<or> l = 2" using l(1) by linarith
    then have cap: "length (?c @ int v # replicate (grow l - Suc l) 0) = (if Suc l = 3 then 4 else Suc l)"
      using g l(2) by (auto simp: doubles_def ca)
    have "qi_usedTarget it \<longleftrightarrow> (?c @ [int v]) ! 1 = o'"
      using \<open>l = 1 \<or> l = 2\<close>
    proof
      assume "l = 1"
      then obtain x where "?c = [x]" using l(2) ca by (cases "st ! a") auto
      then show ?thesis using t u cne(3) \<open>l = 1\<close> by (auto simp: it_def isTargetEdge_def target_ends_def)
    next
      assume "l = 2"
      then obtain x y where xy: "?c = [x, y]" using l(2) ca by (cases "st ! a"; cases "tl (st ! a)") auto
      then have "\<not> isTargetEdge na y (int v)" using t fresh cne(3,4) by (auto simp: p isTargetEdge_def target_ends_def)
      then show ?thesis using u xy \<open>l = 2\<close> by (simp add: it_def)
    qed
    moreover have "item_path_ok n s (?c @ [int v])"
      using cne fresh v l(1,2) by (auto simp: item_path_ok_def p ca hd_append)
    ultimately show ?thesis
      unfolding item_ok_def cv using cap l \<open>l = 1 \<or> l = 2\<close> by (auto simp: it_def)
  qed
  ultimately show ?thesis unfolding p by blast
qed

lemma extend_all:
  assumes d: "dense na" and n: "n = an_numNodes na" and t: "target_ends na s o'" and g: "doubles grow"
    and "item_ok n s o' base st current" "snd (qi_path current) < 3" "\<forall>it\<in>set pq. item_ok n s o' base st it" "\<forall>v\<in>set vs. v < n"
  shows "\<exists>pq' ext. go_fold (cycle_extend grow na current) vs (pq, st) = Inr (pq', st @ ext) \<and>
    (\<forall>it\<in>set pq'. item_ok n s o' base (st @ ext) it) \<and>
    view (st @ ext) pq' = view st pq +
      mset (map (\<lambda>v. contents st (qi_path current) @ [int v]) (filter (\<lambda>v. int v \<notin> set (contents st (qi_path current))) vs))"
  using assms(5-8)
proof (induction vs arbitrary: pq st)
  case Nil
  then show ?case by (intro exI [of _ pq] exI [of _ "[]"]) simp
next
  case (Cons v vs)
  let ?c = "contents st (qi_path current)"
  show ?case
  proof (cases "int v \<in> set ?c")
    case True
    obtain w where "mat_get (an_graph na) (last ?c) (int v) = Inr w" "\<not> fle w (Fin 0)"
    proof -
      have "last ?c \<in> {0..<int n}" using Cons.prems(1) last_in_set unfolding item_ok_def item_path_ok_def by blast
      then show thesis using that dense_get [OF d, of "last ?c" "int v"] Cons.prems(4) n by auto
    qed
    with True have "cycle_extend grow na current v (pq, st) = Inr (pq, st)" by (simp add: cycle_extend_def Let_def)
    with Cons.IH [OF Cons.prems(1-3)] Cons.prems(4) True show ?thesis by simp
  next
    case False
    obtain it ext where e: "cycle_extend grow na current v (pq, st) = Inr (heap_push analyser_queue_ops it pq, st @ ext)"
      "item_ok n s o' base (st @ ext) it" "contents (st @ ext) (qi_path it) = ?c @ [int v]"
      using extend_item [OF d n t g Cons.prems(1,2) _ False, of pq] Cons.prems(4) by auto
    have gr: "grown base s st (st @ ext)" by (rule grown_append)
    note cur = item_grown [OF Cons.prems(1) gr]
    note old = view_grown [OF Cons.prems(3) gr]
    have "\<forall>i\<in>set (heap_push analyser_queue_ops it pq). item_ok n s o' base (st @ ext) i"
      using e(2) old(2) by (simp add: push_view)
    from Cons.IH [OF cur(1) Cons.prems(2) this] Cons.prems(4) obtain pq' ext' where
      i: "go_fold (cycle_extend grow na current) vs (heap_push analyser_queue_ops it pq, st @ ext) = Inr (pq', (st @ ext) @ ext')"
      "\<forall>it\<in>set pq'. item_ok n s o' base ((st @ ext) @ ext') it"
      "view ((st @ ext) @ ext') pq' = view (st @ ext) (heap_push analyser_queue_ops it pq) +
        mset (map (\<lambda>v. ?c @ [int v]) (filter (\<lambda>v. int v \<notin> set ?c) vs))"
      unfolding cur(2) by auto
    then show ?thesis using False e old(1) by (intro exI [of _ pq'] exI [of _ "ext @ ext'"]) (simp add: push_view)
  qed
qed

section \<open>The loop\<close>

definition kids :: "nat \<Rightarrow> int list \<Rightarrow> int list list" where
  "kids n c = map (\<lambda>v. c @ [int v]) (filter (\<lambda>v. int v \<notin> set c) [0..<n])"

text \<open>The cycles the search from \<open>s\<close> still makes from a path that lacks \<open>k\<close> nodes, and how many items it takes at most.\<close>

fun found_from :: "nat \<Rightarrow> int \<Rightarrow> int \<Rightarrow> nat \<Rightarrow> int list \<Rightarrow> int list list" where
  "found_from n s o' 0 c = (if c ! 1 = o' then [c @ [s]] else [])"
| "found_from n s o' (Suc k) c = concat (map (found_from n s o' k) (kids n c))"

fun item_weight :: "nat \<Rightarrow> nat \<Rightarrow> nat" where
  "item_weight n 0 = 1"
| "item_weight n (Suc k) = 1 + n * item_weight n k"

definition todo :: "nat \<Rightarrow> int \<Rightarrow> int \<Rightarrow> int list multiset \<Rightarrow> int list multiset" where
  "todo n s o' V = (\<Sum>c\<in>#V. mset (found_from n s o' (3 - length c) c))"

definition view_weight :: "nat \<Rightarrow> int list multiset \<Rightarrow> nat" where
  "view_weight n V = (\<Sum>c\<in>#V. item_weight n (3 - length c))"

lemma item_weight_pos: "0 < item_weight n k"
  by (cases k) simp_all

lemma todo_simps [simp]:
  "todo n s o' {#} = {#}" "todo n s o' (add_mset c V) = mset (found_from n s o' (3 - length c) c) + todo n s o' V"
  "todo n s o' (V + U) = todo n s o' V + todo n s o' U"
  "view_weight n {#} = 0" "view_weight n (add_mset c V) = item_weight n (3 - length c) + view_weight n V"
  "view_weight n (V + U) = view_weight n V + view_weight n U"
  by (simp_all add: todo_def view_weight_def)

lemma kids_todo:
  assumes "length c < 3"
  shows "todo n s o' (mset (kids n c)) = mset (found_from n s o' (3 - length c) c)"
    and "view_weight n (mset (kids n c)) < item_weight n (3 - length c)"
proof -
  obtain k where k: "3 - length c = Suc k" "3 - Suc (length c) = k" using assms by (metis Suc_diff_Suc)
  have len: "length d = Suc (length c)" if "d \<in> set (kids n c)" for d using that by (auto simp: kids_def)
  have t: "todo n s o' (mset ds) = mset (concat (map (found_from n s o' k) ds))" if "set ds \<subseteq> set (kids n c)" for ds
    using that len k(2) by (induction ds) auto
  show "todo n s o' (mset (kids n c)) = mset (found_from n s o' (3 - length c) c)" using t [of "kids n c"] k(1) by simp
  have w: "view_weight n (mset ds) = length ds * item_weight n k" if "set ds \<subseteq> set (kids n c)" for ds
    using that len k(2) by (induction ds) auto
  have "length (kids n c) \<le> n" using length_filter_le [of _ "[0..<n]"] by (simp add: kids_def)
  then have "length (kids n c) * item_weight n k \<le> n * item_weight n k" by (rule mult_right_mono) simp
  then show "view_weight n (mset (kids n c)) < item_weight n (3 - length c)"
    unfolding w [OF order_refl] k(1) item_weight.simps by linarith
qed

text \<open>One pass of the loop with a path of three nodes: it closes, and is kept when it uses the target edge.\<close>

lemma pass_closes:
  assumes d: "dense na" and n: "n = an_numNodes na" and ne: "pq \<noteq> []" and pop: "heap_pop analyser_queue_ops pq = (it, pq1)"
    and it: "item_ok n s o' base st it" and p: "qi_path it = (a, 3)"
  shows "cycle_loop grow na maxLength s pq st paths =
    (if contents st (a, 3) ! 1 = o' then cycle_loop grow na maxLength s pq1 (st[a := (st ! a)[3 := s]]) (paths @ [(a, 4)])
     else cycle_loop grow na maxLength s pq1 st paths)"
proof -
  let ?c = "contents st (a, 3)"
  have cs: "?c \<noteq> []" "set ?c \<subseteq> {0..<int n}" "hd ?c = s" "length ?c = 3"
    using it item_len [OF it] by (auto simp: item_ok_def item_path_ok_def p)
  have "last ?c \<in> {0..<int n}" "s \<in> {0..<int n}" using cs last_in_set hd_in_set by blast+
  then have closed: "closes na s ?c = Inr True"
    using dense_get [OF d, of "last ?c" s] n cs(4) by (auto simp: closes_def)
  have "append_slice grow (a, 3) s st = ((a, 4), st[a := (st ! a)[3 := s]])" and u: "qi_usedTarget it \<longleftrightarrow> ?c ! 1 = o'"
    using it by (simp_all add: item_ok_def append_slice_def p)
  then show ?thesis using closed ne pop by (subst cycle_loop.simps) (simp add: p)
qed

text \<open>With a shorter path: its extensions are queued.\<close>

lemma pass_extends:
  assumes "dense na" and n: "n = an_numNodes na" and "target_ends na s o'" "doubles grow" and m: "3 \<le> maxLength"
    and ne: "pq \<noteq> []" and pop: "heap_pop analyser_queue_ops pq = (it, pq1)" and it: "item_ok n s o' base st it" "snd (qi_path it) < 3"
    and rest: "\<forall>i\<in>set pq1. item_ok n s o' base st i"
  shows "\<exists>pq2 ext. cycle_loop grow na maxLength s pq st paths = cycle_loop grow na maxLength s pq2 (st @ ext) paths \<and>
    (\<forall>i\<in>set pq2. item_ok n s o' base (st @ ext) i) \<and> view (st @ ext) pq2 = view st pq1 + mset (kids n (contents st (qi_path it)))"
proof -
  obtain pq2 ext where e: "go_fold (cycle_extend grow na it) [0..<n] (pq1, st) = Inr (pq2, st @ ext)"
    "\<forall>it\<in>set pq2. item_ok n s o' base (st @ ext) it" "view (st @ ext) pq2 = view st pq1 + mset (kids n (contents st (qi_path it)))"
    using extend_all [OF assms(1-4) it rest, of "[0..<n]"] by (auto simp: kids_def)
  have "closes na s (contents st (qi_path it)) = Inr False" using item_len [OF it(1)] it(2) by (simp add: closes_def)
  then have "cycle_loop grow na maxLength s pq st paths = cycle_loop grow na maxLength s pq2 (st @ ext) paths"
    using e(1) ne pop it(2) m n by (subst cycle_loop.simps) simp
  with e(2,3) show ?thesis by blast
qed

text \<open>What the loop does from a queue of good items: it returns, and finds what they have to do.\<close>

definition loop_finds ::
    "(nat \<Rightarrow> nat) \<Rightarrow> analyser \<Rightarrow> nat \<Rightarrow> int \<Rightarrow> nat \<Rightarrow> queue_item list \<Rightarrow> store \<Rightarrow> slice list \<Rightarrow> int list multiset \<Rightarrow> bool" where
  "loop_finds grow na maxLength s base pq st paths found \<longleftrightarrow>
     (\<exists>new st'. cycle_loop grow na maxLength s pq st paths = Some (Inr (paths @ new, st')) \<and> grown base s st st' \<and>
        (\<forall>sl\<in>set new. fst sl < length st') \<and> mset (map (contents st') new) = found)"

lemma finds_closed:
  assumes it: "item_ok n s o' base st it" and p: "qi_path it = (a, 3)"
    and next_pass: "loop_finds grow na maxLength s base pq1 (st[a := (st ! a)[3 := s]]) (paths @ [(a, 4)]) found"
    and eq: "cycle_loop grow na maxLength s pq st paths =
      cycle_loop grow na maxLength s pq1 (st[a := (st ! a)[3 := s]]) (paths @ [(a, 4)])"
  shows "loop_finds grow na maxLength s base pq st paths (add_mset (contents st (a, 3) @ [s]) found)"
proof -
  let ?st = "st[a := (st ! a)[3 := s]]"
  have arr: "length (st ! a) = 4" "a < length st" "base \<le> a" using it by (auto simp: item_ok_def p)
  obtain new st' where r: "cycle_loop grow na maxLength s pq1 ?st (paths @ [(a, 4)]) = Some (Inr ((paths @ [(a, 4)]) @ new, st'))"
    "grown base s ?st st'" "\<forall>sl\<in>set new. fst sl < length st'" "mset (map (contents st') new) = found"
    using next_pass unfolding loop_finds_def by blast
  have "contents st' (a, 4) = contents ?st (a, 4)" using grown_closed [OF r(2), of a] arr by simp
  also have "\<dots> = contents st (a, 3) @ [s]"
  proof -
    obtain w x y z where "st ! a = [w, x, y, z]" using arr(1) by (auto simp: length_Suc_conv eval_nat_numeral)
    then show ?thesis using arr(2) by (simp add: contents_def eval_nat_numeral)
  qed
  finally have "mset (map (contents st') ((a, 4) # new)) = add_mset (contents st (a, 3) @ [s]) found" using r(4) by simp
  moreover have "a < length st'" using r(2) arr(2) unfolding grown_def by simp
  ultimately show ?thesis
    unfolding loop_finds_def eq using r(1,3) grown_trans [OF grown_close [OF arr(3,1)] r(2)]
    by (intro exI [of _ "(a, 4) # new"] exI [of _ st']) simp
qed

lemma finds_grown:
  "loop_finds grow na maxLength s base pq2 (st @ ext) paths found \<Longrightarrow>
    cycle_loop grow na maxLength s pq st paths = cycle_loop grow na maxLength s pq2 (st @ ext) paths \<Longrightarrow>
    loop_finds grow na maxLength s base pq st paths found"
  unfolding loop_finds_def using grown_trans [OF grown_append] by metis

lemma cycle_loop_ok:
  assumes d: "dense na" and n: "n = an_numNodes na" and t: "target_ends na s o'" and g: "doubles grow" and m: "3 \<le> maxLength"
    and "\<forall>it\<in>set pq. item_ok n s o' base st it"
  shows "loop_finds grow na maxLength s base pq st paths (todo n s o' (view st pq))"
  using assms(6)
proof (induction "view_weight n (view st pq)" arbitrary: pq st paths rule: less_induct)
  case less
  show ?case
  proof (cases "pq = []")
    case True
    then show ?thesis unfolding loop_finds_def
      by (intro exI [of _ "[]"] exI [of _ st]) (simp add: cycle_loop.simps grown_refl view_def)
  next
    case False
    obtain it pq1 where pop: "heap_pop analyser_queue_ops pq = (it, pq1)" by (cases "heap_pop analyser_queue_ops pq")
    obtain a l where p: "qi_path it = (a, l)" by (cases "qi_path it")
    let ?c = "contents st (a, l)"
    note pv = pop_view [OF False pop]
    have it: "item_ok n s o' base st it" and rest: "\<forall>it\<in>set pq1. item_ok n s o' base st it" using less.prems pv(2) by auto
    have len: "length ?c = l" "l \<le> 3" using item_len [OF it] by (auto simp: p)
    have v: "view st pq = add_mset ?c (view st pq1)" by (simp add: pv(1) p)
    have IH: "loop_finds grow na maxLength s base pq2 st2 paths2 (todo n s o' (view st2 pq2))"
      if "\<forall>it\<in>set pq2. item_ok n s o' base st2 it" "view_weight n (view st2 pq2) < view_weight n (view st pq)" for pq2 st2 paths2
      by (rule less.hyps [OF that(2,1)])
    show ?thesis
    proof (cases "l = 3")
      case True
      note pass = pass_closes [OF d n False pop it p [unfolded True]]
      show ?thesis
      proof (cases "?c ! 1 = o'")
        case used: True
        have "grown base s st (st[a := (st ! a)[3 := s]])" using it by (intro grown_close) (auto simp: item_ok_def p True)
        note vg = view_grown [OF rest this]
        have "loop_finds grow na maxLength s base pq1 (st[a := (st ! a)[3 := s]]) (paths @ [(a, 4)]) (todo n s o' (view st pq1))"
          using IH [OF vg(2), of "paths @ [(a, 4)]"] vg(1) item_weight_pos by (simp add: v)
        from finds_closed [OF it p [unfolded True] this] pass used len True show ?thesis by (simp add: v)
      next
        case False
        with IH [OF rest] pass len True item_weight_pos show ?thesis by (simp add: v loop_finds_def)
      qed
    next
      case short: False
      then have l3: "snd (qi_path it) < 3" using len(2) by (simp add: p)
      from pass_extends [OF d n t g m False pop it l3 rest, of paths] obtain pq2 ext where
        e: "cycle_loop grow na maxLength s pq st paths = cycle_loop grow na maxLength s pq2 (st @ ext) paths"
        "\<forall>i\<in>set pq2. item_ok n s o' base (st @ ext) i" "view (st @ ext) pq2 = view st pq1 + mset (kids n ?c)" unfolding p by blast
      note kt = kids_todo [of ?c n]
      have "view_weight n (view (st @ ext) pq2) < view_weight n (view st pq)" using kt(2) l3 len by (simp add: e(3) v p)
      from finds_grown [OF IH [OF e(2) this] e(1)] kt(1) l3 len show ?thesis by (simp add: e(3) v p add.commute)
    qed
  qed
qed

section \<open>The search\<close>

definition others :: "analyser \<Rightarrow> int list" where
  "others na = filter (\<lambda>y. y \<noteq> an_targetStart na \<and> y \<noteq> an_targetEnd na) (map int [0..<an_numNodes na])"

lemma found_from_two:
  "length c = 2 \<Longrightarrow> found_from n s o' 1 c =
    (if c ! 1 = o' then map (\<lambda>y. c @ [y, s]) (filter (\<lambda>y. y \<notin> set c) (map int [0..<n])) else [])"
proof -
  assume len: "length c = 2"
  have "concat (map (found_from n s o' 0) (map (\<lambda>v. c @ [int v]) vs)) = (if c ! 1 = o' then map (\<lambda>v. c @ [int v, s]) vs else [])" for vs
    by (induction vs) (simp_all add: nth_append len)
  then show ?thesis by (simp add: kids_def filter_map comp_def)
qed

lemma concat_one:
  assumes "distinct xs" "o' \<in> set xs" "\<And>x. x \<noteq> o' \<Longrightarrow> f x = []"
  shows "concat (map f xs) = f o'"
proof -
  obtain as bs where xs: "xs = as @ o' # bs" using split_list [OF assms(2)] by blast
  have "f x = []" if "x \<in> set as \<union> set bs" for x using assms(1) assms(3) [of x] that xs by auto
  then have nil: "concat (map f as) = []" "concat (map f bs) = []" by simp_all
  show ?thesis unfolding xs map_append list.map concat_append concat.simps nil by simp
qed

lemma found_from_start:
  assumes "s \<noteq> o'" "o' \<in> {0..<int n}"
  shows "found_from n s o' 2 [s] = map (\<lambda>y. [s, o', y, s]) (filter (\<lambda>y. y \<noteq> s \<and> y \<noteq> o') (map int [0..<n]))"
proof -
  let ?xs = "filter (\<lambda>x. x \<noteq> s) (map int [0..<n])"
  have "kids n [s] = map (\<lambda>x. [s, x]) ?xs" by (simp add: kids_def filter_map comp_def)
  then have "found_from n s o' 2 [s] = concat (map (\<lambda>x. found_from n s o' 1 [s, x]) ?xs)"
    by (simp add: numeral_2_eq_2 comp_def)
  also have "\<dots> = found_from n s o' 1 [s, o']"
  proof (rule concat_one)
    show "distinct ?xs" by (simp add: distinct_map)
    show "o' \<in> set ?xs" using assms by (auto intro!: image_eqI [of _ _ "nat o'"])
  qed (use found_from_two [of "[s, x]" for x] in simp)
  finally show ?thesis using found_from_two [of "[s, o']" n s o'] by simp
qed

lemma cycles_from_ok:
  assumes d: "dense na" and n: "n = an_numNodes na" and t: "target_ends na s o'" and g: "doubles grow" and m: "3 \<le> maxLength"
  shows "\<exists>new st'. cycles_from grow na maxLength (s # rest) st paths = cycles_from grow na maxLength rest st' (paths @ new) \<and>
    grown (length st) s st st' \<and> (\<forall>sl\<in>set new. fst sl < length st') \<and>
    mset (map (contents st') new) = mset (map (\<lambda>y. [s, o', y, s]) (others na))"
proof -
  let ?st = "st @ [[s]]"
  let ?it = "\<lparr>qi_cost = Fin 0, qi_path = (length st, 1), qi_usedTarget = False\<rparr>"
  let ?pq = "heap_push analyser_queue_ops ?it []"
  have e: "s \<noteq> o'" "s \<in> {0..<int n}" "o' \<in> {0..<int n}" using t n by (auto simp: target_ends_def)
  have "item_ok n s o' (length st) ?st ?it" using e(2) by (simp add: item_ok_def item_path_ok_def contents_def)
  then have ok: "\<forall>it\<in>set ?pq. item_ok n s o' (length st) ?st it" by (simp add: push_view(2))
  have "view ?st ?pq = {#[s]#}" by (simp add: push_view(1)) (simp add: view_def contents_def)
  then have todo: "todo n s o' (view ?st ?pq) = mset (map (\<lambda>y. [s, o', y, s]) (others na))"
    using found_from_start [OF e(1,3)] t n by (auto simp: others_def target_ends_def conj_commute)
  from cycle_loop_ok [OF d n t g m ok, of paths] obtain new st' where
    r: "cycle_loop grow na maxLength s ?pq ?st paths = Some (Inr (paths @ new, st'))" "grown (length st) s ?st st'"
      "\<forall>sl\<in>set new. fst sl < length st'" "mset (map (contents st') new) = todo n s o' (view ?st ?pq)"
    unfolding loop_finds_def by blast
  have "cycles_from grow na maxLength (s # rest) st paths = cycles_from grow na maxLength rest st' (paths @ new)"
    using r(1) by (simp add: new_slice_def)
  then show ?thesis using r(3,4) grown_trans [OF grown_append r(2)] unfolding todo by blast
qed

text \<open>
  C39. The search for cycles through the target edge returns, although its paths share arrays, and what it finds on the matrix
  of \<open>NewGraph\<close> (a missing edge is \<open>+Inf\<close> and counts as an edge) is exactly the triangles: for every other node the two that
  start with the target edge, from either end, whether their edges exist or not. No longer cycle is found.
\<close>

theorem target_cycles:
  assumes d: "dense na" and ends: "an_targetStart na \<noteq> an_targetEnd na"
    "{an_targetStart na, an_targetEnd na} \<subseteq> {0..<int (an_numNodes na)}" and g: "doubles grow"
  shows "\<exists>ps. findTargetContainingPaths grow na 0 = Some (Inr ps) \<and>
    mset ps = mset (map (\<lambda>y. [an_targetStart na, an_targetEnd na, y, an_targetStart na]) (others na)) +
      mset (map (\<lambda>y. [an_targetEnd na, an_targetStart na, y, an_targetEnd na]) (others na))"
proof -
  let ?s = "an_targetStart na" and ?t = "an_targetEnd na" and ?m = "an_numNodes na * 2"
  have t: "target_ends na ?s ?t" "target_ends na ?t ?s" using ends by (auto simp: target_ends_def)
  have m: "3 \<le> ?m" using ends by auto
  obtain p1 st1 where 1: "cycles_from grow na ?m [?s, ?t] [] [] = cycles_from grow na ?m [?t] st1 p1"
    "\<forall>sl\<in>set p1. fst sl < length st1" "mset (map (contents st1) p1) = mset (map (\<lambda>y. [?s, ?t, y, ?s]) (others na))"
    using cycles_from_ok [OF d refl t(1) g m, of "[?t]" "[]" "[]"] by auto
  obtain p2 st2 where 2: "cycles_from grow na ?m [?t] st1 p1 = Some (Inr (p1 @ p2, st2))" "grown (length st1) ?t st1 st2"
    "mset (map (contents st2) p2) = mset (map (\<lambda>y. [?t, ?s, y, ?t]) (others na))"
    using cycles_from_ok [OF d refl t(2) g m, of "[]" st1 p1] by auto
  have "contents st2 sl = contents st1 sl" if "sl \<in> set p1" for sl
    using grown_below [OF 2(2), of "fst sl" "snd sl"] 1(2) that by simp
  then have "map (contents st2) p1 = map (contents st1) p1" by simp
  then have "mset (map (contents st2) (p1 @ p2)) = mset (map (\<lambda>y. [?s, ?t, y, ?s]) (others na)) + mset (map (\<lambda>y. [?t, ?s, y, ?t]) (others na))"
    using 1(3) 2(3) by (simp only: map_append mset_append)
  moreover have "findTargetContainingPaths grow na 0 = Some (Inr (map (contents st2) (p1 @ p2)))"
    using m trans [OF 1(1) 2(1)] by (simp add: findTargetContainingPaths_def del: cycles_from.simps)
  ultimately show ?thesis by blast
qed

theorem target_cycles_witness:
  "\<exists>ps. findTargetContainingPaths (\<lambda>l. 2 * l) triangle_net 0 = Some (Inr ps) \<and> mset ps = {#[0, 1, 2, 0], [1, 0, 2, 1]#}"
proof -
  have "dense triangle_net" by (simp add: dense_def triangle_net_def)
  from target_cycles [OF this, of "\<lambda>l. 2 * l"] obtain ps where
    ps: "findTargetContainingPaths (\<lambda>l. 2 * l) triangle_net 0 = Some (Inr ps)"
    "mset ps = mset (map (\<lambda>y. [0, 1, y, 0]) (others triangle_net)) + mset (map (\<lambda>y. [1, 0, y, 1]) (others triangle_net))"
    by (auto simp: triangle_net_def doubles_def)
  have "others triangle_net = [2]" by (simp add: others_def triangle_net_def upt_rec)
  then show ?thesis using ps by simp
qed

section \<open>The search for short cycles\<close>

text \<open>
  \<open>ok\<close> paths start at \<open>s\<close> and do not come back to it: the search never extends a path by a node it has. Here arrays of longer
  paths are shared and their last nodes overwritten, but never the first.
\<close>

definition short_ok :: "nat \<Rightarrow> int \<Rightarrow> store \<Rightarrow> queue_item \<Rightarrow> bool" where
  "short_ok n s st it \<longleftrightarrow>
     (case qi_path it of (a, l) \<Rightarrow>
        a < length st \<and> 0 < l \<and> l \<le> length (st ! a) \<and> st ! a ! 0 = s \<and> s \<in> {0..<int n} \<and>
        (\<forall>i<l. 0 < i \<longrightarrow> st ! a ! i \<in> {0..<int n} - {s}))"

lemma short_last:
  assumes "short_ok n s st it"
  shows "last (contents st (qi_path it)) \<in> {0..<int n}" "s \<in> set (contents st (qi_path it))"
    "2 < snd (qi_path it) \<Longrightarrow> last (contents st (qi_path it)) \<noteq> s"
proof -
  obtain a l where p: "qi_path it = (a, l)" by (cases "qi_path it")
  have f: "0 < l" "l \<le> length (st ! a)" "st ! a ! 0 = s" "s \<in> {0..<int n}" "\<forall>i<l. 0 < i \<longrightarrow> st ! a ! i \<in> {0..<int n} - {s}"
    using assms by (auto simp: short_ok_def p)
  have ne: "contents st (a, l) \<noteq> []" using f(1,2) by (auto simp: contents_def)
  have la: "last (contents st (a, l)) = st ! a ! (l - 1)" using f(1,2) ne by (simp add: last_conv_nth contents_def min_absorb2)
  show "last (contents st (qi_path it)) \<in> {0..<int n}"
    unfolding p la using f(1,3,4) f(5) [rule_format, of "l - 1"] by (cases "l = 1") auto
  show "last (contents st (qi_path it)) \<noteq> s" if "2 < snd (qi_path it)"
    using f(5) [rule_format, of "l - 1"] that by (simp add: p la)
  have "contents st (a, l) ! 0 = s" "0 < length (contents st (a, l))" using f(1-3) by (auto simp: contents_def)
  then show "s \<in> set (contents st (qi_path it))" unfolding p by (metis nth_mem)
qed

lemma append_slice_short:
  assumes it: "short_ok n s st it" and x: "x \<in> {0..<int n} - {s}" and q: "\<forall>i\<in>set q. short_ok n s st i"
    and app: "append_slice grow (qi_path it) x st = (p, st')"
  shows "short_ok n s st' \<lparr>qi_cost = c, qi_path = p, qi_usedTarget = False\<rparr>" "snd p = Suc (snd (qi_path it))"
    "\<forall>i\<in>set q. short_ok n s st' i"
proof -
  obtain a l where pl: "qi_path it = (a, l)" by (cases "qi_path it")
  have f: "a < length st" "0 < l" "l \<le> length (st ! a)" "st ! a ! 0 = s" "s \<in> {0..<int n}"
    "\<forall>i<l. 0 < i \<longrightarrow> st ! a ! i \<in> {0..<int n} - {s}" using it by (auto simp: short_ok_def pl)
  have "short_ok n s st' \<lparr>qi_cost = c, qi_path = p, qi_usedTarget = False\<rparr> \<and> snd p = Suc (snd (qi_path it)) \<and> (\<forall>i\<in>set q. short_ok n s st' i)"
  proof (cases "l < length (st ! a)")
    case True
    then have r: "p = (a, Suc l)" "st' = st[a := (st ! a)[l := x]]" using app by (simp_all add: append_slice_def pl)
    have new: "st' ! a ! i = (if i = l then x else st ! a ! i)" for i using f(1) True by (simp add: r(2) nth_list_update)
    have "short_ok n s st' i" if "i \<in> set q" for i
    proof -
      obtain b k where bk: "qi_path i = (b, k)" by (cases "qi_path i")
      have "short_ok n s st i" using q that by blast
      then show ?thesis using x f(2) new by (cases "b = a") (auto simp: short_ok_def bk r(2))
    qed
    then show ?thesis using f x new True by (auto simp: short_ok_def r pl less_Suc_eq)
  next
    case False
    let ?arr = "take l (st ! a) @ x # replicate (grow l - Suc l) 0"
    have r: "p = (length st, Suc l)" "st' = st @ [?arr]" using False app by (simp_all add: append_slice_def pl)
    have new: "?arr ! i = (if i = l then x else st ! a ! i)" if "i \<le> l" for i using that f(3) by (auto simp: nth_append)
    have "short_ok n s st' i" if "i \<in> set q" for i
      using q that by (auto simp: short_ok_def r(2) nth_append split: prod.splits)
    moreover have "short_ok n s st' \<lparr>qi_cost = c, qi_path = p, qi_usedTarget = False\<rparr>"
      using f x new [of 0] new by (auto simp: short_ok_def r less_Suc_eq)
    ultimately show ?thesis by (simp add: r pl)
  qed
  then show "short_ok n s st' \<lparr>qi_cost = c, qi_path = p, qi_usedTarget = False\<rparr>" "snd p = Suc (snd (qi_path it))"
    "\<forall>i\<in>set q. short_ok n s st' i" by blast+
qed

text \<open>A square graph: what \<open>CreateGraph\<close> gives.\<close>

definition square_net :: "analyser \<Rightarrow> bool" where
  "square_net na \<longleftrightarrow> length (an_graph na) = an_numNodes na \<and> (\<forall>row\<in>set (an_graph na). length row = an_numNodes na)"

lemma square_get:
  "square_net na \<Longrightarrow> x \<in> {0..<int (an_numNodes na)} \<Longrightarrow> y < an_numNodes na \<Longrightarrow> \<exists>w. mat_get (an_graph na) x (int y) = Inr w"
  using mat_get_in [of "an_graph na" "an_numNodes na" "nat x" y] by (auto simp: square_net_def)

lemma short_extend_ok:
  assumes sq: "square_net na" and n: "n = an_numNodes na" and it: "short_ok n s st current"
    and q: "\<forall>i\<in>set q. short_ok n s st i" and v: "v < n"
  shows "\<exists>new st'. short_extend grow na current v (q, st) = Inr (q @ new, st') \<and> short_ok n s st' current \<and>
    (\<forall>i\<in>set (q @ new). short_ok n s st' i) \<and> (\<forall>i\<in>set new. snd (qi_path i) = Suc (snd (qi_path current))) \<and> length new \<le> 1"
proof -
  let ?c = "contents st (qi_path current)"
  obtain w where w: "mat_get (an_graph na) (last ?c) (int v) = Inr w" using square_get [OF sq] short_last(1) [OF it] v n by blast
  show ?thesis
  proof (cases "fle w (Fin 0) \<or> int v \<in> set ?c")
    case True
    then have "short_extend grow na current v (q, st) = Inr (q @ [], st)" using w by (simp add: short_extend_def Let_def)
    with it q show ?thesis by (intro exI [of _ "[]"] exI [of _ st]) simp
  next
    case False
    obtain p st' where app: "append_slice grow (qi_path current) (int v) st = (p, st')" by (metis surj_pair)
    have x: "int v \<in> {0..<int n} - {s}" using False short_last(2) [OF it] v by auto
    have cq: "\<forall>i\<in>set (current # q). short_ok n s st i" using it q by simp
    let ?new = "\<lparr>qi_cost = fadd (qi_cost current) w, qi_path = p, qi_usedTarget = False\<rparr>"
    note a = append_slice_short(1) [OF it x cq app, of "qi_cost ?new"] append_slice_short(2,3) [OF it x cq app]
    have "short_extend grow na current v (q, st) = Inr (q @ [?new], st')" using w False app by (simp add: short_extend_def Let_def)
    with a show ?thesis by (intro exI [of _ "[?new]"] exI [of _ st']) simp
  qed
qed

lemma short_extend_all:
  assumes sq: "square_net na" and n: "n = an_numNodes na"
    and "short_ok n s st current" "\<forall>i\<in>set q. short_ok n s st i" "\<forall>v\<in>set vs. v < n"
  shows "\<exists>new st'. go_fold (short_extend grow na current) vs (q, st) = Inr (q @ new, st') \<and>
    (\<forall>i\<in>set (q @ new). short_ok n s st' i) \<and> (\<forall>i\<in>set new. snd (qi_path i) = Suc (snd (qi_path current))) \<and> length new \<le> length vs"
  using assms(3-5)
proof (induction vs arbitrary: q st)
  case (Cons v vs)
  obtain new st1 where e: "short_extend grow na current v (q, st) = Inr (q @ new, st1)" "short_ok n s st1 current"
    "\<forall>i\<in>set (q @ new). short_ok n s st1 i" "\<forall>i\<in>set new. snd (qi_path i) = Suc (snd (qi_path current))" "length new \<le> 1"
    using short_extend_ok [OF sq n Cons.prems(1,2), of v grow] Cons.prems(3) by auto
  from Cons.IH [OF e(2,3)] Cons.prems(3) obtain new2 st2 where
    i: "go_fold (short_extend grow na current) vs (q @ new, st1) = Inr ((q @ new) @ new2, st2)"
    "\<forall>i\<in>set ((q @ new) @ new2). short_ok n s st2 i" "\<forall>i\<in>set new2. snd (qi_path i) = Suc (snd (qi_path current))" "length new2 \<le> length vs"
    by auto
  show ?case using e(1,4,5) i by (intro exI [of _ "new @ new2"] exI [of _ st2]) auto
qed (auto intro: exI [of _ "[]"])

lemma short_loop_ok:
  assumes sq: "square_net na" and n: "n = an_numNodes na" and "\<forall>i\<in>set q. short_ok n s st i"
  shows "\<exists>st'. short_loop grow na m s q st visited paths = Some (Inr (paths, st'))"
  using assms(3)
proof (induction "sum_list (map (\<lambda>i. item_weight n (m - snd (qi_path i))) q)" arbitrary: q st visited rule: less_induct)
  case less
  let ?w = "\<lambda>i. item_weight n (m - snd (qi_path i))"
  show ?case
  proof (cases q)
    case Nil
    then show ?thesis by (simp add: short_loop.simps)
  next
    case (Cons it rest)
    let ?l = "snd (qi_path it)" and ?key = "generateStateKey (contents st (qi_path it))"
    have it: "short_ok n s st it" and r: "\<forall>i\<in>set rest. short_ok n s st i" using less.prems Cons by auto
    have no: "\<not> (2 < ?l \<and> last (contents st (qi_path it)) = s)" using short_last(3) [OF it] by blast
    have skip: "\<exists>st'. short_loop grow na m s rest st visited paths = Some (Inr (paths, st'))" for visited
      by (rule less.hyps [OF _ r]) (simp add: Cons item_weight_pos)
    show ?thesis
    proof (cases "?l < m \<and> \<not> (case visited ?key of None \<Rightarrow> False | Some c \<Rightarrow> fle c (qi_cost it))")
      case False
      then have "short_loop grow na m s q st visited paths = short_loop grow na m s rest st visited paths"
        using no by (subst short_loop.simps) (auto simp: Cons)
      then show ?thesis using skip by simp
    next
      case True
      obtain new st1 where e: "go_fold (short_extend grow na it) [0..<n] (rest, st) = Inr (rest @ new, st1)"
        "\<forall>i\<in>set (rest @ new). short_ok n s st1 i" "\<forall>i\<in>set new. snd (qi_path i) = Suc ?l" "length new \<le> n"
        using short_extend_all [OF sq n it r, of "[0..<n]" grow] by auto
      have "sum_list (map ?w new) = length new * item_weight n (m - Suc ?l)" using e(3) by (induction new) auto
      also have "\<dots> \<le> n * item_weight n (m - Suc ?l)" using e(4) by (rule mult_right_mono) simp
      also have "\<dots> < item_weight n (m - ?l)" using True Suc_diff_Suc [of ?l m] by (metis item_weight.simps(2) less_add_one add.commute)
      finally have "sum_list (map ?w (rest @ new)) < sum_list (map ?w q)" by (simp add: Cons)
      from less.hyps [OF this e(2)] obtain st' where
        "short_loop grow na m s (rest @ new) st1 (visited(?key \<mapsto> qi_cost it)) paths = Some (Inr (paths, st'))" by blast
      then have "short_loop grow na m s q st visited paths = Some (Inr (paths, st'))"
        using True no e(1) n by (subst short_loop.simps) (auto simp: Cons)
      then show ?thesis by blast
    qed
  qed
qed

text \<open>The search for short cycles returns and never finds one, however slices grow.\<close>

lemma findShortCycles_none:
  assumes "square_net na" "node \<in> {0..<int (an_numNodes na)}"
  shows "findShortCycles grow na node m = Some (Inr [])"
proof -
  let ?it = "\<lparr>qi_cost = Fin 0, qi_path = (0, 1), qi_usedTarget = False\<rparr>"
  have "\<forall>i\<in>set [?it]. short_ok (an_numNodes na) node [[node]] i" using assms(2) by (simp add: short_ok_def)
  from short_loop_ok [OF assms(1) refl this] obtain st where
    "short_loop grow na (if m = 0 then calculateMaxLength (an_numNodes na) else m) node [?it] [[node]] Map.empty [] = Some (Inr ([], st))"
    by blast
  then show ?thesis by (simp add: findShortCycles_def new_slice_def)
qed

end
