(* ===== verification/Spec2Isabelle.thy ===== *)
theory Spec2Isabelle
  imports Cost Refresh TopN Circular Kernel RouteLoop PathPing Watchdog Lifecycle Session Trace Services Cycles
begin

text \<open>
  \<^bold>\<open>net-perf: a model of the daemon of a WireGuard mesh and of its tools.\<close>

  Each site of the mesh runs the daemon of \<^verbatim>\<open>cmd/daemon\<close>. It measures latency and loss to its peers, reads the paths and
  measurements of all sites back from Prometheus, computes routes from them, writes the routes to the kernel, and watches that
  the kernel keeps them. One site is elected (\<^verbatim>\<open>internal/server/consensus\<close>) to compute tables of next hops for all sites and to
  send them over gRPC. \<^verbatim>\<open>cmd/client\<close> and \<^verbatim>\<open>cmd/exporter\<close> ask the sites for their next hops and show the paths that result.

  \<^bold>\<open>How the code is modelled.\<close> A Go function that may fail returns \<open>fault + 'a\<close>: \<open>Inl (Err e)\<close> a returned error, \<open>Inl (Panic x)\<close> a
  panic, which nothing but \<open>recover\<close> would stop and which the program never recovers from (Prelude). A function that also reads or
  changes state is a \<open>proc\<close>: from the state to a result and the state it leaves, panics and errors included. A procedure knows the
  state as a record with more fields, so that each layer adds its own: caches and graph (Cost), the router (Centralised), the
  manager (RouteManager), the watchdogs (Watchdog). \<open>float64\<close> is IEEE binary64 with rounding (Float64), words have their width
  where the code depends on it (packets, counters, hashes), and \<open>int\<close> stands for Go's 64-bit \<open>int\<close> where it stays small: there
  conversions such as \<open>to_int32\<close> are written out. Ranges over maps, answers of the operating system, of Prometheus, of remote
  calls, the clock and the order in which concurrent work ends are parameters of the definitions, gathered in records such as
  \<open>env\<close>, \<open>route_env\<close>, \<open>analyser_env\<close>; theorems hold for all of them, or name the documented law they need. What the code does
  without releasing a mutex is one step. Where an operation releases it in between (\<open>GetPathCost\<close>, \<open>GetPathLatency\<close>,
  \<open>RefreshPathLatency\<close>), each critical section is a definition of its own, the operation is their composition, and Cost
  interleaves the sections of any number of calls; the composition itself is a call that nothing interrupts, which is how the
  procedures that call it use it. Channels and goroutines are explicit sequences of steps; where a theorem speaks of what
  happened on the way, the steps are labelled (\<open>labelled_runs\<close> in Prelude).

  \<^bold>\<open>The theories and the code.\<close>
  Prelude, Float64, Strings, NetIP and IPText hold Go itself: results, procedures, floats, the functions of \<^verbatim>\<open>strings\<close>,
  \<^verbatim>\<open>strconv\<close> and \<^verbatim>\<open>net\<close> the program uses. GoHeap is \<^verbatim>\<open>container/heap\<close>; the locale \<open>heap_methods\<close> is its interface, interpreted on
  each of the four queues (Shortest, TopN, Circular, Cycles), \<open>priority_heap\<close> extends it for queues whose \<open>Less\<close> is an order.
  Metrics is \<^verbatim>\<open>internal/metrics\<close>, Cost \<^verbatim>\<open>internal/route/cost\<close>, where the locale \<open>timed_cache\<close> holds what is
  proved of both of its caches. Graph, TopN and Circular are \<^verbatim>\<open>internal/route/finder\<close>, with Paths
  (the specification), Shortest (Dijkstra refines it) and Refresh (the matrix). Netctl and Kernel are \<^verbatim>\<open>internal/system/netctl\<close>,
  System the route and state tables of \<^verbatim>\<open>internal/system\<close> with the locale \<open>keyed_store\<close> for both, Tunables its settings. Bird is
  \<^verbatim>\<open>internal/route/routers\<close>. Centralised and RouteManager are \<^verbatim>\<open>internal/route\<close>, with Forwarding and Sync for what they achieve,
  and RouteLoop for the manager as a state machine. PathPing, Bandwidth and Measure are \<^verbatim>\<open>internal/measure\<close>, with Lifecycle for
  the states the manager of the measurements reaches and Session for the goroutines and channels of a bandwidth test; Watchdog
  is \<^verbatim>\<open>internal/watchdog\<close>, Consensus and Management the servers of \<^verbatim>\<open>internal/server\<close>, Services its sockets, the start of the daemon and
  \<^verbatim>\<open>pkg/logging\<close>. Analyser and Cycles are \<^verbatim>\<open>internal/analyser\<close>, Trace the tools \<^verbatim>\<open>cmd/exporter\<close> and \<^verbatim>\<open>cmd/client\<close>. Definitions have the names of the code, with a prefix where
  two packages share a name.

  \<^bold>\<open>What the theorems show.\<close>
  Graph search: Dijkstra returns with the least cost of every node although its queue is a max-heap; the searches for the \<open>n\<close>
  cheapest paths and for the cycles through an edge return exactly the cheapest ones. Costs: whatever calls run side by side, the
  caches serve the latest value stored for 15 and 60 seconds and never an unusable cost; an overwritten latency is lost only to a
  later write of its entry, which can be that of a call that had missed (\<open>overwrite_lost\<close>); the cheapest IP version is chosen
  unless a cost is NaN. Centralised routing: a refresh that
  succeeds sends tables that lead every packet to its destination, since \<open>checkForLoops\<close> accepts exactly the tables without a
  loop; a table sent arrives (Management), and the path the tools show is the one the tables lead along (Trace). Route manager: after a
  synchronisation the managed routes of the kernel are exactly the route table, and the watchdog finds nothing to do (Watchdog).
  Path measurement: a packet that is not lost comes back along its path and is recorded under the key that is polled; the
  packet format round-trips; which datagrams panic is exact. The manager of the measurements ends each cycle with a worker for
  every listed interface. A bandwidth test returns, whatever the order in which its goroutines run, the value of one function at the
  packets and answers that the events of the run say it saw (Session). Consensus: a new leader adds every missing peer. Analyser: the system of equations is the one the
  measurements stand for. Error theorems say exactly when parts of the program crash or lose information.

  \<^bold>\<open>Loops and bounds.\<close> No loop has fuel. A loop that could run for ever is a \<open>partial_function (option)\<close>, \<open>None\<close> being no return
  (\<open>dijkstra_loop\<close>, \<open>build_path\<close>, \<open>top_n_loop\<close>, \<open>circular_loop\<close>, \<open>loop_from\<close>, \<open>cycle_loop\<close>, \<open>short_loop\<close>), and a theorem shows that it
  returns; inside procedures no return is the fault \<open>NoReturn\<close>. All other loops are structural or have a termination proof.
  Endless service loops are modelled by their step, folded over a list of events.

  \<^bold>\<open>Not modelled.\<close> What is logged, unless it is all a branch does; the text of most errors; contexts and their deadlines, except
  where a timeout is a branch of the code, which is then a parameter; closing of connections, but in Session; the declarations of flags and
  Prometheus gauges (their values are parameters, what is set is modelled); gRPC, protobuf (\<^verbatim>\<open>pkg/pb\<close>), hashicorp/raft, netlink,
  slog and Elasticsearch themselves; data races the code has outside its mutexes. The solver (\<^verbatim>\<open>analyser/\<close>, in
  Python) is a parameter of AnalyzeTargetPath.
\<close>

end
